(* ===== verification/Stplr_Prelude.thy ===== *)
theory Stplr_Prelude
  imports Main "HOL-Library.Word" "HOL-Library.List_Lexorder" "HOL-Library.Char_ord"
    "HOL-Library.AList" "HOL-Library.Multiset"
begin

text \<open>
  What every component of the development shares.

  \<^item> Strings. A Rust \<^verbatim>\<open>String\<close> is its UTF-8 bytes, a list of \<^typ>\<open>char\<close>; the order of
    \<^verbatim>\<open>HOL-Library.List_Lexorder\<close> on it is the bytewise order of Rust's \<^verbatim>\<open>Ord for str\<close>.
    The functions of the standard library that the sources call on strings (\<^verbatim>\<open>encode_utf16\<close>,
    \<^verbatim>\<open>trim\<close>, \<^verbatim>\<open>parse\<close>, \<^verbatim>\<open>split\<close>, \<^verbatim>\<open>starts_with\<close>) are defined here.
  \<^item> Hash maps. A \<^verbatim>\<open>HashMap\<close> is an association list with distinct keys. Its list order stands
    for the iteration order, which Rust leaves open: no property below depends on it unless it
    says so.
  \<^item> Generic lemmas on association lists, sorting and folding, in the collections
    \<open>hm_simps\<close> and \<open>list_facts\<close>.
\<close>

unbundle bit_operations_syntax

named_theorems hm_simps \<open>hash maps as association lists\<close>
named_theorems list_facts \<open>generic facts on lists\<close>

type_synonym u16 = "16 word"
type_synonym u32 = "32 word"
type_synonym u64 = "64 word"
type_synonym i64 = "64 word"
type_synonym node_id = string
type_synonym ('k, 'v) hashmap = "('k \<times> 'v) list"

subsection \<open>Hash maps\<close>

abbreviation hm_get :: "('k, 'v) hashmap \<Rightarrow> 'k \<Rightarrow> 'v option" where
  "hm_get \<equiv> map_of"

abbreviation hm_insert :: "'k \<Rightarrow> 'v \<Rightarrow> ('k, 'v) hashmap \<Rightarrow> ('k, 'v) hashmap" where
  "hm_insert \<equiv> AList.update"

abbreviation hm_remove :: "'k \<Rightarrow> ('k, 'v) hashmap \<Rightarrow> ('k, 'v) hashmap" where
  "hm_remove \<equiv> AList.delete"

abbreviation hm_keys :: "('k, 'v) hashmap \<Rightarrow> 'k list" where
  "hm_keys m \<equiv> map fst m"

abbreviation hm_ok :: "('k, 'v) hashmap \<Rightarrow> bool" where
  "hm_ok m \<equiv> distinct (hm_keys m)"

text \<open>\<^verbatim>\<open>entry(k).or_default()\<close>: the value stored at \<open>k\<close>, or the default.\<close>

definition hm_or_default :: "'v \<Rightarrow> ('k, 'v) hashmap \<Rightarrow> 'k \<Rightarrow> 'v" where
  "hm_or_default d m k = (case hm_get m k of None \<Rightarrow> d | Some v \<Rightarrow> v)"

text \<open>\<^verbatim>\<open>entry(k).or_default().push(v)\<close>.\<close>

definition hm_push :: "'k \<times> 'v \<Rightarrow> ('k, 'v list) hashmap \<Rightarrow> ('k, 'v list) hashmap" where
  "hm_push = (\<lambda>(k, v) m. hm_insert k (hm_or_default [] m k @ [v]) m)"

lemma hm_get_insert [hm_simps]:
  "hm_get (hm_insert k v m) k' = (if k' = k then Some v else hm_get m k')"
  by (simp add: update_conv')

lemma hm_get_remove [hm_simps]:
  "hm_get (hm_remove k m) k' = (if k' = k then None else hm_get m k')"
  by (simp add: delete_conv')

lemma hm_ok_insert [hm_simps]: "hm_ok m \<Longrightarrow> hm_ok (hm_insert k v m)"
  by (simp add: distinct_update)

lemma hm_ok_remove [hm_simps]: "hm_ok m \<Longrightarrow> hm_ok (hm_remove k m)"
  by (simp add: distinct_delete)

lemma hm_or_default_insert [hm_simps]:
  "hm_or_default d (hm_insert k v m) k' = (if k' = k then v else hm_or_default d m k')"
  by (simp add: hm_or_default_def hm_get_insert)

lemma hm_get_filter_fst [hm_simps]:
  "hm_get (filter (\<lambda>(k, v). P k) m) k = (if P k then hm_get m k else None)"
  by (induction m) auto

lemma hm_get_filter:
  "hm_ok m \<Longrightarrow> hm_get (filter (\<lambda>(k, v). P k v) m) k =
     (case hm_get m k of None \<Rightarrow> None | Some v \<Rightarrow> if P k v then Some v else None)"
  by (induction m) (auto simp: map_of_eq_None_iff split: option.splits)

lemma hm_ok_filter [hm_simps]: "hm_ok m \<Longrightarrow> hm_ok (filter P m)"
  by (simp add: distinct_map_filter)

lemma hm_keys_insert: "fst ` set (hm_insert k v m) = insert k (fst ` set m)"
  by (induction m) auto

lemma hm_in_set: "hm_ok m \<Longrightarrow> (k, v) \<in> set m \<longleftrightarrow> hm_get m k = Some v"
  by simp

lemma hm_keys_iff: "k \<in> set (hm_keys m) \<longleftrightarrow> hm_get m k \<noteq> None"
  by (simp add: map_of_eq_None_iff)

lemma hm_push_fold:
  "hm_or_default [] (fold hm_push kvs m) k =
     hm_or_default [] m k @ map snd (filter (\<lambda>(k', v). k' = k) kvs)"
  by (induction kvs arbitrary: m) (auto simp: hm_push_def hm_or_default_insert)

lemma hm_keys_push: "fst ` set (hm_push kv m) = insert (fst kv) (fst ` set m)"
  by (cases kv) (auto simp: hm_push_def update_conv' simp flip: dom_map_of_conv_image_fst)

lemma hm_keys_push_fold: "fst ` set (fold hm_push kvs m) = fst ` set m \<union> fst ` set kvs"
  by (induction kvs arbitrary: m) (simp_all add: hm_keys_push)

lemma hm_ok_push_fold [hm_simps]: "hm_ok m \<Longrightarrow> hm_ok (fold hm_push kvs m)"
  by (induction kvs arbitrary: m) (auto simp: hm_push_def hm_ok_insert split: prod.splits)

lemma hm_get_push_fold:
  assumes "hm_get (fold hm_push kvs []) k = Some vs"
  shows "vs = map snd (filter (\<lambda>(k', v). k' = k) kvs)"
  using hm_push_fold [of kvs "[]" k] assms by (simp add: hm_or_default_def)

subsection \<open>Lists\<close>

lemma foldl_invariant [list_facts]:
  "P s \<Longrightarrow> (\<And>s x. x \<in> set xs \<Longrightarrow> P s \<Longrightarrow> P (f s x)) \<Longrightarrow> P (foldl f s xs)"
  by (induction xs arbitrary: s) auto

lemma distinct_sorted_set_eq [list_facts]:
  "sorted xs \<Longrightarrow> sorted ys \<Longrightarrow> distinct xs \<Longrightarrow> distinct ys \<Longrightarrow> set xs = set ys \<Longrightarrow> xs = ys"
  by (rule sorted_distinct_set_unique)

lemma take_filter_subset [list_facts]: "set (take n (filter P xs)) \<subseteq> {x \<in> set xs. P x}"
  by (auto dest: in_set_takeD)

lemma filter_eq_replicate [list_facts]: "filter (\<lambda>x. x = k) xs = replicate (count (mset xs) k) k"
  by (induction xs) auto

text \<open>Dropping one element from a list disturbs a prefix of it only where the element was in it.\<close>

lemma take_remove_prefix:
  "take r (filter (\<lambda>n. n \<noteq> x) L) = filter (\<lambda>n. n \<noteq> x) (take r L) @
     take (r - length (filter (\<lambda>n. n \<noteq> x) (take r L))) (filter (\<lambda>n. n \<noteq> x) (drop r L))"
proof -
  let ?A = "filter (\<lambda>n. n \<noteq> x) (take r L)"
  have split: "filter (\<lambda>n. n \<noteq> x) L = ?A @ filter (\<lambda>n. n \<noteq> x) (drop r L)"
    by (metis append_take_drop_id filter_append)
  have "length ?A \<le> r" using length_filter_le [of "\<lambda>n. n \<noteq> x" "take r L"] by simp
  then show ?thesis by (simp add: split)
qed

lemma take_remove_same:
  assumes "x \<notin> set (take r L)"
  shows "take r (filter (\<lambda>n. n \<noteq> x) L) = take r L"
proof -
  have A: "filter (\<lambda>n. n \<noteq> x) (take r L) = take r L" using assms by (auto intro: filter_True)
  show ?thesis
  proof (cases "r \<le> length L")
    case True
    then show ?thesis by (subst take_remove_prefix) (simp add: A)
  next
    case False
    with A show ?thesis by simp
  qed
qed

lemma take_remove_subset: "set (take r L) - {x} \<subseteq> set (take r (filter (\<lambda>n. n \<noteq> x) L))"
  by (subst take_remove_prefix) auto

lemma take_remove_one:
  assumes "distinct L"
  shows "\<exists>ys. length ys \<le> 1 \<and>
    take r (filter (\<lambda>n. n \<noteq> x) L) = filter (\<lambda>n. n \<noteq> x) (take r L) @ ys"
proof (cases "r \<le> length L")
  case True
  have "filter (\<lambda>n. n \<noteq> x) (take r L) = remove1 x (take r L)"
    using assms by (simp add: distinct_remove1_removeAll removeAll_filter_not_eq eq_commute [of _ x])
  then have "r - length (filter (\<lambda>n. n \<noteq> x) (take r L)) \<le> 1"
    using True by (simp add: length_remove1) arith
  then have "length (take (r - length (filter (\<lambda>n. n \<noteq> x) (take r L)))
      (filter (\<lambda>n. n \<noteq> x) (drop r L))) \<le> 1"
    by simp
  then show ?thesis
    by (intro exI conjI) (assumption, rule take_remove_prefix)
next
  case False
  then have "length (filter (\<lambda>n. n \<noteq> x) L) \<le> r"
    using length_filter_le [of "\<lambda>n. n \<noteq> x" L] by linarith
  with False show ?thesis by (intro exI [of _ "[]"]) simp
qed

lemma distinct_concat_upt [list_facts]:
  assumes "\<And>b. b < n \<Longrightarrow> distinct (f b)" and "\<And>b x. b < n \<Longrightarrow> x \<in> set (f b) \<Longrightarrow> g x = b"
  shows "distinct (concat (map f [0..<n]))"
  using assms
proof (induction n)
  case (Suc n)
  then have "distinct (concat (map f [0..<n]))" by simp
  moreover have "set (concat (map f [0..<n])) \<inter> set (f n) = {}"
  proof (rule equals0I)
    fix x assume x: "x \<in> set (concat (map f [0..<n])) \<inter> set (f n)"
    then obtain b where "b < n" "x \<in> set (f b)" by auto
    with Suc.prems(2) [of b x] Suc.prems(2) [of n x] x show False by simp
  qed
  ultimately show ?case using Suc.prems(1) by simp
qed simp

text \<open>The first elements of a union are found among the first elements of its parts.\<close>

lemma take_sorted_iff:
  fixes A :: "'a::linorder set"
  assumes "finite A"
  shows "x \<in> set (take l (sorted_list_of_set A)) \<longleftrightarrow> x \<in> A \<and> card {y \<in> A. y < x} < l"
proof -
  let ?L = "sorted_list_of_set A"
  have L: "set ?L = A" "sorted_wrt (<) ?L" using assms by simp_all
  have below: "card {y \<in> A. y < ?L ! i} = i" if "i < length ?L" for i
  proof -
    have "{y \<in> A. y < ?L ! i} = set (take i ?L)"
    proof (intro equalityI subsetI)
      fix y assume "y \<in> {y \<in> A. y < ?L ! i}"
      then obtain j where j: "j < length ?L" "y = ?L ! j" "?L ! j < ?L ! i"
        using L(1) by (metis (mono_tags, lifting) in_set_conv_nth mem_Collect_eq)
      then have "j < i"
        using sorted_wrt_nth_less [OF L(2), of i j] that by (metis linorder_neqE_nat order_less_asym)
      with j show "y \<in> set (take i ?L)" by (auto simp: in_set_conv_nth)
    next
      fix y assume "y \<in> set (take i ?L)"
      then obtain j where "j < i" "y = ?L ! j" using that by (auto simp: in_set_conv_nth)
      moreover have "?L ! j \<in> A" using \<open>j < i\<close> that L(1) by (metis nth_mem order_less_trans)
      ultimately show "y \<in> {y \<in> A. y < ?L ! i}"
        using sorted_wrt_nth_less [OF L(2), of j i] that by simp
    qed
    moreover have "card (set (take i ?L)) = i" using that by (simp add: distinct_card)
    ultimately show ?thesis by simp
  qed
  show ?thesis
  proof
    assume "x \<in> set (take l ?L)"
    then obtain i where "i < l" "i < length ?L" "x = ?L ! i" by (auto simp: in_set_conv_nth)
    moreover from this have "x \<in> A" using L(1) by (metis nth_mem)
    ultimately show "x \<in> A \<and> card {y \<in> A. y < x} < l" using below by simp
  next
    assume x: "x \<in> A \<and> card {y \<in> A. y < x} < l"
    then obtain i where "i < length ?L" "x = ?L ! i" using L(1) by (metis in_set_conv_nth)
    with below x show "x \<in> set (take l ?L)" by (auto simp: in_set_conv_nth)
  qed
qed

lemma take_sorted_subset:
  fixes A :: "'a::linorder set"
  assumes A: "finite A" and "T \<subseteq> A" and first: "set (take l (sorted_list_of_set A)) \<subseteq> T"
  shows "take l (sorted_list_of_set T) = take l (sorted_list_of_set A)"
proof (rule sorted_distinct_set_unique)
  have T: "finite T" using A assms(2) by (rule rev_finite_subset)
  show "set (take l (sorted_list_of_set T)) = set (take l (sorted_list_of_set A))"
  proof (intro equalityI subsetI)
    fix x assume "x \<in> set (take l (sorted_list_of_set A))"
    moreover from this have "x \<in> T" using first by blast
    moreover have "card {y \<in> T. y < x} \<le> card {y \<in> A. y < x}"
      using A assms(2) by (intro card_mono) auto
    ultimately show "x \<in> set (take l (sorted_list_of_set T))"
      by (simp add: take_sorted_iff [OF A] take_sorted_iff [OF T])
  next
    fix x assume x: "x \<in> set (take l (sorted_list_of_set T))"
    then have xT: "x \<in> T" "card {y \<in> T. y < x} < l" by (simp_all add: take_sorted_iff [OF T])
    show "x \<in> set (take l (sorted_list_of_set A))"
    proof (rule ccontr)
      assume "x \<notin> set (take l (sorted_list_of_set A))"
      then have big: "l \<le> card {y \<in> A. y < x}" using xT(1) assms(2) by (auto simp: take_sorted_iff [OF A])
      have "set (take l (sorted_list_of_set A)) \<subseteq> {y \<in> T. y < x}"
      proof
        fix y assume y: "y \<in> set (take l (sorted_list_of_set A))"
        then have "card {z \<in> A. z < y} < l" by (simp add: take_sorted_iff [OF A])
        moreover have "card {z \<in> A. z < x} \<le> card {z \<in> A. z < y}" if "x \<le> y"
          using A that by (intro card_mono) auto
        ultimately have "\<not> x \<le> y" using big by linarith
        with y first show "y \<in> {y \<in> T. y < x}" by auto
      qed
      then have "card (set (take l (sorted_list_of_set A))) \<le> card {y \<in> T. y < x}"
        using T by (intro card_mono) auto
      moreover have "card {y \<in> A. y < x} \<le> card A" by (rule card_mono [OF A]) blast
      with big have "l \<le> card A" by linarith
      then have "card (set (take l (sorted_list_of_set A))) = l"
        using A by (simp add: distinct_card)
      ultimately show False using xT(2) by simp
    qed
  qed
qed (simp_all add: sorted_wrt_take)

lemma take_sorted_Union:
  fixes F :: "'i \<Rightarrow> 'a::linorder set"
  assumes "finite I" and "\<And>i. i \<in> I \<Longrightarrow> finite (F i)"
  shows "take l (sorted_list_of_set (\<Union>i \<in> I. set (take l (sorted_list_of_set (F i))))) =
    take l (sorted_list_of_set (\<Union>i \<in> I. F i))"
proof (rule take_sorted_subset)
  show fin: "finite (\<Union>i \<in> I. F i)" using assms by simp
  show "(\<Union>i \<in> I. set (take l (sorted_list_of_set (F i)))) \<subseteq> (\<Union>i \<in> I. F i)"
  proof
    fix x assume "x \<in> (\<Union>i \<in> I. set (take l (sorted_list_of_set (F i))))"
    then obtain i where i: "i \<in> I" "x \<in> set (take l (sorted_list_of_set (F i)))" by blast
    with take_sorted_iff [OF assms(2) [OF i(1)]] show "x \<in> (\<Union>i \<in> I. F i)" by blast
  qed
  show "set (take l (sorted_list_of_set (\<Union>i \<in> I. F i))) \<subseteq>
      (\<Union>i \<in> I. set (take l (sorted_list_of_set (F i))))"
  proof
    fix x assume "x \<in> set (take l (sorted_list_of_set (\<Union>i \<in> I. F i)))"
    then have x: "x \<in> (\<Union>i \<in> I. F i)" "card {y \<in> (\<Union>i \<in> I. F i). y < x} < l"
      by (simp_all add: take_sorted_iff [OF fin])
    then obtain i where i: "i \<in> I" "x \<in> F i" by blast
    have "finite {y \<in> (\<Union>i \<in> I. F i). y < x}" by (rule finite_subset [OF _ fin]) blast
    then have "card {y \<in> F i. y < x} \<le> card {y \<in> (\<Union>i \<in> I. F i). y < x}"
      by (rule card_mono) (use i(1) in blast)
    with i x(2) have "x \<in> set (take l (sorted_list_of_set (F i)))"
      by (simp add: take_sorted_iff [OF assms(2) [OF i(1)]])
    with i(1) show "x \<in> (\<Union>i \<in> I. set (take l (sorted_list_of_set (F i))))" by blast
  qed
qed

lemma filter_sorted_list_of_set:
  "finite A \<Longrightarrow> filter P (sorted_list_of_set A) = sorted_list_of_set {x \<in> (A :: 'a::linorder set). P x}"
  by (rule sorted_distinct_set_unique) (auto simp: sorted_wrt_filter)

lemma sort_key_inj_mset_eq [list_facts]:
  assumes "mset xs = mset ys" and "inj_on f (set xs)"
  shows "sort_key f xs = sort_key f ys"
proof (rule properties_for_sort_key)
  have sets: "set ys = set xs"
    using assms(1) by (metis set_mset_mset)
  show "mset (sort_key f ys) = mset xs"
    using assms(1) by simp
  show "sorted (map f (sort_key f ys))"
    by simp
  fix k assume "k \<in> set (sort_key f ys)"
  then have k: "k \<in> set xs" by (simp add: sets)
  have eq: "filter (\<lambda>x. f k = f x) zs = filter (\<lambda>x. x = k) zs" if "set zs \<subseteq> set xs" for zs
    using that k assms(2) by (intro filter_cong) (auto dest: inj_onD)
  have "filter (\<lambda>x. x = k) (sort_key f ys) = filter (\<lambda>x. x = k) xs"
    using assms(1) by (simp add: filter_eq_replicate)
  then show "filter (\<lambda>x. f k = f x) (sort_key f ys) = filter (\<lambda>x. f k = f x) xs"
    using eq [of "sort_key f ys"] eq [of xs] sets by simp
qed

subsection \<open>Strings\<close>

text \<open>
  The UTF-8 sequences of a string, one per \<^verbatim>\<open>char\<close>: the leading byte gives the length of the
  sequence. A Rust string is always valid UTF-8, so a leading byte is never a continuation byte
  and a sequence is never cut short.
\<close>

definition seq_len :: "char \<Rightarrow> nat" where
  "seq_len c = (let b = (of_char c :: nat) in
     if b < 0x80 then 1 else if b < 0xE0 then 2 else if b < 0xF0 then 3 else 4)"

fun utf8_chunks :: "string \<Rightarrow> string list" where
  "utf8_chunks [] = []"
| "utf8_chunks (c # cs) =
     (c # take (seq_len c - 1) cs) # utf8_chunks (drop (seq_len c - 1) cs)"

fun code_point :: "string \<Rightarrow> nat" where
  "code_point [a] = of_char a"
| "code_point [a, b] = (of_char a mod 32) * 64 + of_char b mod 64"
| "code_point [a, b, c] =
     (of_char a mod 16) * 4096 + (of_char b mod 64) * 64 + of_char c mod 64"
| "code_point [a, b, c, d] =
     (of_char a mod 8) * 262144 + (of_char b mod 64) * 4096 + (of_char c mod 64) * 64
       + of_char d mod 64"
| "code_point _ = 0"

text \<open>\<^verbatim>\<open>str::encode_utf16\<close>: one unit, or a surrogate pair above the basic plane.\<close>

definition utf16_units :: "nat \<Rightarrow> u16 list" where
  "utf16_units p =
     (if p < 0x10000 then [of_nat p]
      else [of_nat (0xD800 + (p - 0x10000) div 0x400), of_nat (0xDC00 + (p - 0x10000) mod 0x400)])"

definition encode_utf16 :: "string \<Rightarrow> u16 list" where
  "encode_utf16 s = concat (map (\<lambda>ch. utf16_units (code_point ch)) (utf8_chunks s))"

text \<open>\<^verbatim>\<open>str::trim\<close>: drop the characters with the \<^verbatim>\<open>White_Space\<close> property at both ends.\<close>

definition is_whitespace :: "nat \<Rightarrow> bool" where
  "is_whitespace p \<longleftrightarrow> 9 \<le> p \<and> p \<le> 13 \<or>
     p \<in> {0x20, 0x85, 0xA0, 0x1680, 0x2028, 0x2029, 0x202F, 0x205F, 0x3000} \<or>
     0x2000 \<le> p \<and> p \<le> 0x200A"

definition trim_str :: "string \<Rightarrow> string" where
  "trim_str s = (let ws = (\<lambda>ch. is_whitespace (code_point ch)) in
     concat (rev (dropWhile ws (rev (dropWhile ws (utf8_chunks s))))))"

text \<open>\<^verbatim>\<open>str::split(c)\<close> for an ASCII character: the pieces between the separators.\<close>

fun split_on :: "char \<Rightarrow> string \<Rightarrow> string list" where
  "split_on d [] = [[]]"
| "split_on d (c # cs) =
     (if c = d then [] # split_on d cs
      else case split_on d cs of [] \<Rightarrow> [[c]] | p # ps \<Rightarrow> (c # p) # ps)"

text \<open>\<^verbatim>\<open>str::starts_with\<close> and \<^verbatim>\<open>str::strip_prefix\<close>.\<close>

fun strip_prefix :: "string \<Rightarrow> string \<Rightarrow> string option" where
  "strip_prefix [] s = Some s"
| "strip_prefix (p # ps) [] = None"
| "strip_prefix (p # ps) (c # cs) = (if p = c then strip_prefix ps cs else None)"

definition starts_with :: "string \<Rightarrow> string \<Rightarrow> bool" where
  "starts_with s p \<longleftrightarrow> strip_prefix p s \<noteq> None"

text \<open>\<^verbatim>\<open>str::parse\<close> for integers: an optional sign, at least one decimal digit, in range.\<close>

definition is_digit :: "char \<Rightarrow> bool" where
  "is_digit c \<longleftrightarrow> (48::nat) \<le> of_char c \<and> of_char c \<le> (57::nat)"

fun parse_digits :: "nat \<Rightarrow> string \<Rightarrow> nat option" where
  "parse_digits a [] = Some a"
| "parse_digits a (c # cs) =
     (if is_digit c then parse_digits (10 * a + (of_char c - 48)) cs else None)"

definition parse_nat :: "string \<Rightarrow> nat option" where
  "parse_nat s = (if s = [] then None else parse_digits 0 s)"

definition parse_u64 :: "string \<Rightarrow> u64 option" where
  "parse_u64 s = (case parse_nat (case s of c # cs \<Rightarrow> if c = CHR ''+'' then cs else s | [] \<Rightarrow> []) of
     None \<Rightarrow> None | Some n \<Rightarrow> if n < 2 ^ 64 then Some (of_nat n) else None)"

definition parse_i64 :: "string \<Rightarrow> i64 option" where
  "parse_i64 s = (case s of
       c # cs \<Rightarrow>
         if c = CHR ''-'' then
           (case parse_nat cs of None \<Rightarrow> None
            | Some n \<Rightarrow> if n \<le> 2 ^ 63 then Some (- of_nat n) else None)
         else
           (case parse_nat (if c = CHR ''+'' then cs else s) of None \<Rightarrow> None
            | Some n \<Rightarrow> if n < 2 ^ 63 then Some (of_nat n) else None)
     | [] \<Rightarrow> None)"

lemma concat_utf8_chunks [simp]: "concat (utf8_chunks s) = s"
  by (induction s rule: utf8_chunks.induct) auto

lemma strip_prefix_iff [list_facts]: "strip_prefix p s = Some r \<longleftrightarrow> s = p @ r"
  by (induction p s rule: strip_prefix.induct) auto

lemma starts_with_iff [list_facts]: "starts_with s p \<longleftrightarrow> (\<exists>r. s = p @ r)"
  by (auto simp: starts_with_def strip_prefix_iff)

lemma split_on_not_Nil [simp]: "split_on d s \<noteq> []"
  by (cases s) (auto split: list.splits)

end
