(* ===== verification/Partitioner.thy ===== *)
theory Partitioner
  imports Stplr_Prelude
begin

text \<open>
  Rendezvous (HRW) placement, \<^verbatim>\<open>src/partitioner.rs\<close>: FNV-1a over the UTF-16 units of a key
  picks one of 4096 buckets, every bucket ranks the nodes by a mixed score, and a key lives on
  the first R nodes of its bucket's ranking, spread over distinct racks where a topology is set.

  The lemmas show that the ranking is the stable descending sort of the node list by score, that
  the score is injective in the node's hash (so the ranking depends on the node \<^emph>\<open>set\<close> alone
  unless two node ids collide under FNV-1a), that a choice of owners has the right length, no
  duplicate and the widest possible rack spread, and that dropping a node moves no bucket that
  the node does not own.
\<close>

subsection \<open>Hashing\<close>

definition NUM_BUCKETS :: nat where
  "NUM_BUCKETS = 4096"

definition fnv1a :: "string \<Rightarrow> u32" where
  "fnv1a s = foldl (\<lambda>h u. (h XOR ucast u) * 0x01000193) 0x811c9dc5 (encode_utf16 s)"

definition bucket_of :: "string \<Rightarrow> nat" where
  "bucket_of key = unat (fnv1a key mod of_nat NUM_BUCKETS)"

definition bucket_score :: "u32 \<Rightarrow> nat \<Rightarrow> u32" where
  "bucket_score node_hash bucket =
     (let h = node_hash XOR ((of_nat bucket + 1) * 0x9e3779b1);
          h = (h XOR drop_bit 15 h) * 0x85ebca6b
      in h XOR drop_bit 13 h)"

subsection \<open>The partitioner\<close>

record partitioner =
  pt_nodes :: "node_id list"
  pt_buckets :: "node_id list list"
  pt_num_buckets :: nat
  pt_topology :: "(node_id, string) hashmap"

text \<open>
  One bucket's ranking: \<^verbatim>\<open>sort_by(|a, c| c.1.cmp(&a.1))\<close> is a stable sort by descending score.
\<close>

definition rank_bucket :: "node_id list \<Rightarrow> u32 list \<Rightarrow> nat \<Rightarrow> node_id list" where
  "rank_bucket ns hashes b =
     (let ranked = map (\<lambda>i. (i, bucket_score (hashes ! i) b)) [0..<length ns];
          ranked = sort_key (\<lambda>p. - uint (snd p)) ranked
      in map (\<lambda>p. ns ! fst p) ranked)"

definition set_nodes :: "partitioner \<Rightarrow> node_id list \<Rightarrow> partitioner" where
  "set_nodes p ns =
     (let hashes = map fnv1a ns in
      p\<lparr>pt_nodes := ns, pt_buckets := map (rank_bucket ns hashes) [0..<pt_num_buckets p]\<rparr>)"

definition partitioner_new :: "node_id list \<Rightarrow> partitioner" where
  "partitioner_new ns =
     set_nodes \<lparr>pt_nodes = [], pt_buckets = [], pt_num_buckets = NUM_BUCKETS, pt_topology = []\<rparr> ns"

definition set_topology :: "partitioner \<Rightarrow> (node_id, string) hashmap \<Rightarrow> partitioner" where
  "set_topology p topology = p\<lparr>pt_topology := topology\<rparr>"

text \<open>A node without a rack is its own failure domain, named by its id.\<close>

definition rack_of :: "(node_id, string) hashmap \<Rightarrow> node_id \<Rightarrow> string" where
  "rack_of topology n = (case hm_get topology n of Some r \<Rightarrow> r | None \<Rightarrow> n)"

text \<open>The two passes of \<^verbatim>\<open>pick\<close>: first node per rack, then the rest in HRW order.\<close>

fun pick_racks :: "(node_id, string) hashmap \<Rightarrow> nat \<Rightarrow> node_id list \<Rightarrow> node_id list \<Rightarrow> string set
    \<Rightarrow> node_id list" where
  "pick_racks topology r [] chosen used = chosen"
| "pick_racks topology r (n # pl) chosen used =
     (if r \<le> length chosen then chosen
      else if rack_of topology n \<in> used then pick_racks topology r pl chosen used
      else pick_racks topology r pl (chosen @ [n]) (insert (rack_of topology n) used))"

fun pick_fill :: "nat \<Rightarrow> node_id list \<Rightarrow> node_id list \<Rightarrow> node_id list" where
  "pick_fill r [] chosen = chosen"
| "pick_fill r (n # pl) chosen =
     (if r \<le> length chosen then chosen
      else if n \<in> set chosen then pick_fill r pl chosen
      else pick_fill r pl (chosen @ [n]))"

definition pick :: "partitioner \<Rightarrow> node_id list \<Rightarrow> nat \<Rightarrow> node_id list" where
  "pick p pl r =
     (let r = min r (length (pt_nodes p)) in
      if pt_topology p = [] then take r pl
      else let chosen = pick_racks (pt_topology p) r pl [] {} in
        if length chosen < r then pick_fill r pl chosen else chosen)"

definition list_nodes :: "partitioner \<Rightarrow> node_id list" where
  "list_nodes p = pt_nodes p"

definition bucket_count :: "partitioner \<Rightarrow> nat" where
  "bucket_count p = pt_num_buckets p"

definition preference_list :: "partitioner \<Rightarrow> string \<Rightarrow> node_id list" where
  "preference_list p key = pt_buckets p ! bucket_of key"

definition replica_set :: "partitioner \<Rightarrow> string \<Rightarrow> nat \<Rightarrow> node_id list" where
  "replica_set p key r = pick p (preference_list p key) r"

definition owners_of_bucket :: "partitioner \<Rightarrow> nat \<Rightarrow> nat \<Rightarrow> node_id list" where
  "owners_of_bucket p bucket r = pick p (pt_buckets p ! bucket) r"

text \<open>
  The invariant of a partitioner over distinct node ids: a full table, each row the ranking of
  the current nodes. \<open>hrw_key\<close> is the sort key of a node in a bucket.
\<close>

definition hrw_key :: "nat \<Rightarrow> node_id \<Rightarrow> int" where
  "hrw_key b n = - uint (bucket_score (fnv1a n) b)"

definition partitioner_ok :: "partitioner \<Rightarrow> bool" where
  "partitioner_ok p \<longleftrightarrow>
     pt_num_buckets p = NUM_BUCKETS \<and> distinct (pt_nodes p) \<and>
     pt_buckets p = map (\<lambda>b. sort_key (hrw_key b) (pt_nodes p)) [0..<NUM_BUCKETS]"

subsection \<open>The ranking\<close>

lemma map_insort_key: "map g (insort_key (\<lambda>x. f (g x)) x xs) = insort_key f (g x) (map g xs)"
  by (induction xs) auto

lemma map_sort_key: "map g (sort_key (\<lambda>x. f (g x)) xs) = sort_key f (map g xs)"
  by (induction xs) (auto simp: map_insort_key)

lemma sort_key_cong_on:
  assumes "\<And>x. x \<in> set xs \<Longrightarrow> f x = g x"
  shows "sort_key f xs = sort_key g xs"
proof -
  have ins: "insort_key f x ys = insort_key g x ys"
    if "f x = g x" "\<forall>y \<in> set ys. f y = g y" for x ys
    using that by (induction ys) auto
  from assms have "\<forall>x \<in> set xs. f x = g x" by blast
  then show ?thesis
    by (induction xs) (auto simp: ins)
qed

lemma rank_bucket_sort: "rank_bucket ns (map fnv1a ns) b = sort_key (hrw_key b) ns"
proof -
  have "rank_bucket ns (map fnv1a ns) b =
      map ((!) ns) (map fst (sort_key (\<lambda>p. - uint (snd p))
        (map (\<lambda>i. (i, bucket_score (map fnv1a ns ! i) b)) [0..<length ns])))"
    by (simp add: rank_bucket_def Let_def comp_def)
  also have "sort_key (\<lambda>p. - uint (snd p))
        (map (\<lambda>i. (i, bucket_score (map fnv1a ns ! i) b)) [0..<length ns]) =
      map (\<lambda>i. (i, bucket_score (map fnv1a ns ! i) b))
        (sort_key (\<lambda>i. - uint (bucket_score (map fnv1a ns ! i) b)) [0..<length ns])"
    by (simp flip: map_sort_key)
  also have "sort_key (\<lambda>i. - uint (bucket_score (map fnv1a ns ! i) b)) [0..<length ns] =
      sort_key (\<lambda>i. hrw_key b (ns ! i)) [0..<length ns]"
    by (rule sort_key_cong_on) (simp add: hrw_key_def)
  finally have "rank_bucket ns (map fnv1a ns) b =
      map ((!) ns) (sort_key (\<lambda>i. hrw_key b (ns ! i)) [0..<length ns])"
    by (simp add: comp_def)
  then show ?thesis
    by (simp add: map_sort_key map_nth)
qed

lemma set_nodes_simps [simp]:
  "pt_nodes (set_nodes p ns) = ns"
  "pt_num_buckets (set_nodes p ns) = pt_num_buckets p"
  "pt_topology (set_nodes p ns) = pt_topology p"
  "pt_buckets (set_nodes p ns) = map (\<lambda>b. sort_key (hrw_key b) ns) [0..<pt_num_buckets p]"
  by (simp_all add: set_nodes_def Let_def rank_bucket_sort)

lemma partitioner_new_simps [simp]:
  "pt_nodes (partitioner_new ns) = ns"
  "pt_num_buckets (partitioner_new ns) = NUM_BUCKETS"
  "pt_topology (partitioner_new ns) = []"
  "pt_buckets (partitioner_new ns) = map (\<lambda>b. sort_key (hrw_key b) ns) [0..<NUM_BUCKETS]"
  by (simp_all add: partitioner_new_def)

lemma set_topology_simps [simp]:
  "pt_nodes (set_topology p t) = pt_nodes p"
  "pt_num_buckets (set_topology p t) = pt_num_buckets p"
  "pt_topology (set_topology p t) = t"
  "pt_buckets (set_topology p t) = pt_buckets p"
  by (simp_all add: set_topology_def)

text \<open>The equations that evaluate a hash at a closed string.\<close>

lemmas fnv_eval = fnv1a_def encode_utf16_def utf16_units_def seq_len_def

lemma bucket_of_less [simp]: "bucket_of key < NUM_BUCKETS"
proof -
  have "fnv1a key mod 4096 < 4096"
    by (rule word_mod_less_divisor) simp
  then show ?thesis
    by (simp add: bucket_of_def NUM_BUCKETS_def word_less_nat_alt)
qed

lemmas place_eval = hrw_key_def bucket_score_def bucket_of_def NUM_BUCKETS_def fnv_eval Let_def

subsection \<open>The score is injective in the node hash\<close>

lemma xorshift_inj:
  fixes x y :: "'a::len word"
  assumes eq: "x XOR drop_bit k x = y XOR drop_bit k y" and "0 < k"
  shows "x = y"
proof (rule bit_word_eqI)
  fix n
  show "bit x n = bit y n"
  proof (induction "LENGTH('a) - n" arbitrary: n rule: less_induct)
    case less
    show ?case
    proof (cases "n < LENGTH('a)")
      case True
      then have "bit x (k + n) = bit y (k + n)"
        using less \<open>0 < k\<close> by simp
      moreover have "bit (x XOR drop_bit k x) n = bit (y XOR drop_bit k y) n"
        using eq by simp
      ultimately show ?thesis
        by (auto simp: bit_xor_iff bit_drop_bit_eq)
    next
      case False
      then show ?thesis by (auto dest: bit_imp_le_length)
    qed
  qed
qed

lemma mix_mult_inj:
  fixes x y :: u32
  assumes "x * 0x85ebca6b = y * 0x85ebca6b"
  shows "x = y"
proof -
  have inv: "(0x85ebca6b :: u32) * 0xa5cb9243 = 1" by simp
  have "x * 0x85ebca6b * 0xa5cb9243 = y * 0x85ebca6b * 0xa5cb9243"
    by (simp only: assms)
  then show ?thesis
    by (simp only: mult.assoc inv mult_1_right)
qed

lemma xor_right_inj: "x XOR z = y XOR z \<Longrightarrow> x = (y :: 'a::len word)"
  by (metis bit.xor_self xor.assoc xor.right_neutral)

lemma bucket_score_eq_iff: "bucket_score h b = bucket_score h' b \<longleftrightarrow> h = h'"
proof
  let ?s = "\<lambda>h :: u32. h XOR ((of_nat b + 1) * 0x9e3779b1)"
  let ?m = "\<lambda>h :: u32. (h XOR drop_bit 15 h) * 0x85ebca6b"
  assume "bucket_score h b = bucket_score h' b"
  then have "?m (?s h) = ?m (?s h')"
    unfolding bucket_score_def Let_def by (rule xorshift_inj) simp
  then have "?s h XOR drop_bit 15 (?s h) = ?s h' XOR drop_bit 15 (?s h')"
    by (rule mix_mult_inj)
  then have "?s h = ?s h'"
    by (rule xorshift_inj) simp
  then show "h = h'"
    by (rule xor_right_inj)
qed simp

subsection \<open>Choosing the owners\<close>

text \<open>
  The nodes of a preference list that open a new rack; pass 1 of \<open>pick\<close> takes a prefix of them.
\<close>

fun rack_firsts :: "(node_id, string) hashmap \<Rightarrow> string set \<Rightarrow> node_id list \<Rightarrow> node_id list" where
  "rack_firsts topology used [] = []"
| "rack_firsts topology used (n # pl) =
     (if rack_of topology n \<in> used then rack_firsts topology used pl
      else n # rack_firsts topology (insert (rack_of topology n) used) pl)"

lemma pick_racks_eq:
  "length chosen \<le> r \<Longrightarrow>
   pick_racks t r pl chosen used = chosen @ take (r - length chosen) (rack_firsts t used pl)"
proof (induction pl arbitrary: chosen used)
  case (Cons n pl)
  show ?case
  proof (cases "r \<le> length chosen")
    case False
    then obtain m where "r - length chosen = Suc m" and "r - Suc (length chosen) = m"
      by (metis Suc_diff_Suc linorder_not_le)
    with False Cons show ?thesis by simp
  qed (use Cons in simp)
qed simp

lemma rack_firsts_racks: "rack_of t ` set (rack_firsts t used pl) = rack_of t ` set pl - used"
  by (induction pl arbitrary: used) auto

lemma rack_firsts_distinct: "distinct (map (rack_of t) (rack_firsts t used pl))"
proof (induction pl arbitrary: used)
  case (Cons n pl)
  have "rack_of t n \<notin> rack_of t ` set (rack_firsts t (insert (rack_of t n) used) pl)"
    by (simp add: rack_firsts_racks)
  with Cons show ?case by simp
qed simp

lemma rack_firsts_subset: "set (rack_firsts t used pl) \<subseteq> set pl"
  by (induction pl arbitrary: used) (auto split: if_splits)

lemma length_rack_firsts: "length (rack_firsts t used pl) = card (rack_of t ` set pl - used)"
proof -
  have "card (rack_of t ` set (rack_firsts t used pl)) = length (rack_firsts t used pl)"
    using rack_firsts_distinct [of t used pl] by (metis distinct_card length_map list.set_map)
  then show ?thesis by (simp add: rack_firsts_racks)
qed

lemma pick_fill_eq:
  "distinct pl \<Longrightarrow> length chosen \<le> r \<Longrightarrow>
   pick_fill r pl chosen = chosen @ take (r - length chosen) (filter (\<lambda>n. n \<notin> set chosen) pl)"
proof (induction pl arbitrary: chosen)
  case (Cons n pl)
  show ?case
  proof (cases "r \<le> length chosen")
    case False
    then obtain m where m: "r - length chosen = Suc m" "r - Suc (length chosen) = m"
      by (metis Suc_diff_Suc linorder_not_le)
    have "filter (\<lambda>x. x \<noteq> n \<and> x \<notin> set chosen) pl = filter (\<lambda>x. x \<notin> set chosen) pl"
      using Cons.prems by (auto intro: filter_cong)
    with False Cons m show ?thesis by simp
  qed (use Cons in simp)
qed simp

lemma length_filter_notin:
  assumes "distinct xs" and "set cs \<subseteq> set xs" and "distinct cs"
  shows "length (filter (\<lambda>x. x \<notin> set cs) xs) = length xs - length cs"
proof -
  have "set (filter (\<lambda>x. x \<notin> set cs) xs) = set xs - set cs" by auto
  then have "length (filter (\<lambda>x. x \<notin> set cs) xs) = card (set xs - set cs)"
    using assms(1) by (metis distinct_card distinct_filter)
  also have "\<dots> = length xs - length cs"
    using assms by (simp add: card_Diff_subset distinct_card)
  finally show ?thesis .
qed

text \<open>Both branches of \<open>pick\<close> as one expression over the preference list.\<close>

lemma pick_topology_eq:
  assumes "pt_topology p \<noteq> []" and "distinct pl" and "r' = min r (length (pt_nodes p))"
    and "c = take r' (rack_firsts (pt_topology p) {} pl)"
  shows "pick p pl r = c @ take (r' - length c) (filter (\<lambda>n. n \<notin> set c) pl)"
proof -
  have "pick_racks (pt_topology p) r' pl [] {} = c"
    using pick_racks_eq [of "[]"] assms(4) by simp
  moreover have "length c \<le> r'" using assms(4) by simp
  ultimately show ?thesis
    using assms(1) pick_fill_eq [OF assms(2), of c r']
    by (simp add: pick_def Let_def flip: assms(3))
qed

lemma row_facts:
  assumes "partitioner_ok p" and "pl = pt_buckets p ! b" and "b < NUM_BUCKETS"
  shows "distinct pl" and "set pl = set (pt_nodes p)" and "length pl = length (pt_nodes p)"
    and "sorted (map (hrw_key b) pl)"
  using assms by (auto simp: partitioner_ok_def)

lemma pick_facts:
  assumes ok: "partitioner_ok p" and pl: "pl = pt_buckets p ! b" and b: "b < NUM_BUCKETS"
  shows "length (pick p pl r) = min r (length (pt_nodes p))"
    and "distinct (pick p pl r)"
    and "set (pick p pl r) \<subseteq> set (pt_nodes p)"
proof -
  note plf = row_facts [OF ok pl b]
  define r' where r': "r' = min r (length (pt_nodes p))"
  define c where c: "c = take r' (rack_firsts (pt_topology p) {} pl)"
  have "length (pick p pl r) = r' \<and> distinct (pick p pl r) \<and> set (pick p pl r) \<subseteq> set (pt_nodes p)"
  proof (cases "pt_topology p = []")
    case True
    then have "pick p pl r = take r' pl" by (simp add: pick_def r')
    with plf show ?thesis by (auto simp: r' dest: in_set_takeD)
  next
    case False
    have eq: "pick p pl r = c @ take (r' - length c) (filter (\<lambda>n. n \<notin> set c) pl)"
      by (rule pick_topology_eq [OF False plf(1) r' c])
    have cs: "set c \<subseteq> set pl"
      using rack_firsts_subset [of "pt_topology p" "{}" pl] by (auto simp: c dest: in_set_takeD)
    have cd: "distinct c"
      using rack_firsts_distinct [of "pt_topology p" "{}" pl] by (simp add: c distinct_map)
    have "length (filter (\<lambda>n. n \<notin> set c) pl) = length pl - length c"
      by (rule length_filter_notin [OF plf(1) cs cd])
    moreover have "length c \<le> r'" by (simp add: c)
    ultimately have "length (pick p pl r) = r'"
      using plf(3) r' by (simp add: eq)
    moreover have "distinct (pick p pl r)"
      using cd plf(1) by (auto simp: eq dest: in_set_takeD)
    moreover have "set (pick p pl r) \<subseteq> set pl"
      using cs by (auto simp: eq dest: in_set_takeD)
    ultimately show ?thesis using plf(2) by simp
  qed
  then show "length (pick p pl r) = min r (length (pt_nodes p))"
    "distinct (pick p pl r)" "set (pick p pl r) \<subseteq> set (pt_nodes p)"
    by (simp_all add: r')
qed

subsection \<open>The placement interface\<close>

text \<open>
  What the rest of the system relies on: an assignment of a node list, a bucket and a replication
  factor to owners that are distinct nodes of the list, as many as asked for where there are that
  many. The reshard planner and the cluster's routing are clients of this interface.
\<close>

locale placement =
  fixes place :: "node_id list \<Rightarrow> nat \<Rightarrow> nat \<Rightarrow> node_id list"
  assumes place_distinct: "distinct ns \<Longrightarrow> b < NUM_BUCKETS \<Longrightarrow> distinct (place ns b r)"
    and place_subset: "distinct ns \<Longrightarrow> b < NUM_BUCKETS \<Longrightarrow> set (place ns b r) \<subseteq> set ns"
    and place_length: "distinct ns \<Longrightarrow> b < NUM_BUCKETS \<Longrightarrow>
      length (place ns b r) = min r (length ns)"
begin

lemma place_card: "distinct ns \<Longrightarrow> b < NUM_BUCKETS \<Longrightarrow> card (set (place ns b r)) = min r (length ns)"
  by (metis distinct_card place_distinct place_length)

lemma place_nonempty: "distinct ns \<Longrightarrow> b < NUM_BUCKETS \<Longrightarrow> ns \<noteq> [] \<Longrightarrow> 0 < r \<Longrightarrow> place ns b r \<noteq> []"
  by (metis length_0_conv min_def not_less_zero place_length)

text \<open>With at least as many replicas as nodes, every node owns every bucket.\<close>

lemma place_all:
  "distinct ns \<Longrightarrow> b < NUM_BUCKETS \<Longrightarrow> length ns \<le> r \<Longrightarrow> set (place ns b r) = set ns"
  by (metis List.finite_set card_subset_eq distinct_card min.absorb2 place_card place_subset)

text \<open>Two placements lose at most the replicas of the nodes that left.\<close>

lemma place_survivors:
  assumes "distinct ns" "b < NUM_BUCKETS" "card (set ns - set ms) < min r (length ns)"
  shows "\<exists>n \<in> set (place ns b r). n \<in> set ms"
proof (rule ccontr)
  assume "\<not> ?thesis"
  then have "set (place ns b r) \<subseteq> set ns - set ms"
    using place_subset [OF assms(1,2)] by blast
  then have "card (set (place ns b r)) \<le> card (set ns - set ms)"
    by (intro card_mono) simp_all
  with assms(3) place_card [OF assms(1,2), of r] show False by linarith
qed

end

lemma partitioner_ok_new: "distinct ns \<Longrightarrow> partitioner_ok (partitioner_new ns)"
  by (simp add: partitioner_ok_def)

lemma partitioner_ok_set_nodes: "partitioner_ok p \<Longrightarrow> distinct ns \<Longrightarrow> partitioner_ok (set_nodes p ns)"
  by (simp add: partitioner_ok_def)

lemma partitioner_ok_set_topology: "partitioner_ok p \<Longrightarrow> partitioner_ok (set_topology p t)"
  by (simp add: partitioner_ok_def)

lemmas partitioner_oks = partitioner_ok_new partitioner_ok_set_nodes partitioner_ok_set_topology

interpretation hrw: placement "\<lambda>ns b r. owners_of_bucket (set_topology (partitioner_new ns) t) b r" for t
proof
  fix ns :: "node_id list" and b r
  assume "distinct ns" and b: "b < NUM_BUCKETS"
  then have ok: "partitioner_ok (set_topology (partitioner_new ns) t)"
    by (intro partitioner_oks)
  note facts = pick_facts [OF ok refl b]
  show "distinct (owners_of_bucket (set_topology (partitioner_new ns) t) b r)"
    unfolding owners_of_bucket_def by (rule facts(2))
  show "set (owners_of_bucket (set_topology (partitioner_new ns) t) b r) \<subseteq> set ns"
    using facts(3) [of r] by (simp add: owners_of_bucket_def)
  show "length (owners_of_bucket (set_topology (partitioner_new ns) t) b r) = min r (length ns)"
    using facts(1) [of r] by (simp add: owners_of_bucket_def)
qed

lemma preference_list_eq:
  "partitioner_ok p \<Longrightarrow> preference_list p key = sort_key (hrw_key (bucket_of key)) (pt_nodes p)"
  by (simp add: preference_list_def partitioner_ok_def)

lemma replica_set_plain:
  "partitioner_ok p \<Longrightarrow> pt_topology p = [] \<Longrightarrow> replica_set p key r = take r (preference_list p key)"
  by (cases "r \<le> length (pt_nodes p)") (simp_all add: replica_set_def pick_def preference_list_eq)

lemma replica_set_owners: "replica_set p key r = owners_of_bucket p (bucket_of key) r"
  by (simp add: replica_set_def preference_list_def owners_of_bucket_def)

lemma owners_order_independent:
  assumes "partitioner_ok p" and "partitioner_ok q" and "set (pt_nodes p) = set (pt_nodes q)"
    and "pt_topology p = pt_topology q" and "inj_on fnv1a (set (pt_nodes p))" and "b < NUM_BUCKETS"
  shows "owners_of_bucket p b r = owners_of_bucket q b r"
proof -
  have "inj_on (hrw_key b) (set (pt_nodes p))"
    using assms(5) by (simp add: inj_on_def hrw_key_def bucket_score_eq_iff flip: word_uint_eq_iff)
  moreover have same: "mset (pt_nodes p) = mset (pt_nodes q)"
    using assms(1-3) by (simp add: set_eq_iff_mset_eq_distinct partitioner_ok_def)
  ultimately have "sort_key (hrw_key b) (pt_nodes p) = sort_key (hrw_key b) (pt_nodes q)"
    by (intro sort_key_inj_mset_eq)
  moreover have "length (pt_nodes p) = length (pt_nodes q)"
    using same by (metis size_mset)
  ultimately show ?thesis
    using assms(1,2,4,6) by (simp add: owners_of_bucket_def pick_def Let_def partitioner_ok_def)
qed

subsection \<open>The life of a partitioner\<close>

text \<open>The calls that change a partitioner, and what the last of them set.\<close>

datatype pt_op = SetNodes "node_id list" | SetTopology "(node_id, string) hashmap"

fun pt_apply :: "pt_op \<Rightarrow> partitioner \<Rightarrow> partitioner" where
  "pt_apply (SetNodes ns) p = set_nodes p ns"
| "pt_apply (SetTopology t) p = set_topology p t"

fun pt_op_ok :: "pt_op \<Rightarrow> bool" where
  "pt_op_ok (SetNodes ns) \<longleftrightarrow> distinct ns"
| "pt_op_ok (SetTopology t) \<longleftrightarrow> True"

fun last_nodes :: "node_id list \<Rightarrow> pt_op list \<Rightarrow> node_id list" where
  "last_nodes ns [] = ns"
| "last_nodes ns (SetNodes ms # ops) = last_nodes ms ops"
| "last_nodes ns (SetTopology t # ops) = last_nodes ns ops"

fun last_topology_from :: "(node_id, string) hashmap \<Rightarrow> pt_op list \<Rightarrow> (node_id, string) hashmap" where
  "last_topology_from t [] = t"
| "last_topology_from t (SetNodes ms # ops) = last_topology_from t ops"
| "last_topology_from t (SetTopology t' # ops) = last_topology_from t' ops"

definition last_topology :: "pt_op list \<Rightarrow> (node_id, string) hashmap" where
  "last_topology = last_topology_from []"

lemma pt_fold:
  assumes "partitioner_ok p" and "list_all pt_op_ok ops"
  shows "partitioner_ok (fold pt_apply ops p)" and "pt_nodes (fold pt_apply ops p) = last_nodes (pt_nodes p) ops"
    and "pt_topology (fold pt_apply ops p) = last_topology_from (pt_topology p) ops"
proof -
  have "partitioner_ok (fold pt_apply ops p) \<and> pt_nodes (fold pt_apply ops p) = last_nodes (pt_nodes p) ops \<and>
    pt_topology (fold pt_apply ops p) = last_topology_from (pt_topology p) ops"
    using assms
  proof (induction ops arbitrary: p)
    case (Cons oper ops)
    then show ?case by (cases oper) (simp_all add: partitioner_oks)
  qed simp
  then show "partitioner_ok (fold pt_apply ops p)" "pt_nodes (fold pt_apply ops p) = last_nodes (pt_nodes p) ops"
    "pt_topology (fold pt_apply ops p) = last_topology_from (pt_topology p) ops" by blast+
qed

subsection \<open>Removing a node\<close>

text \<open>
  The order in which \<open>pick\<close> takes nodes: the first node of every rack, then the others. Without a node
  each of the other nodes comes at most as late in it: the node is dropped, and when it was the first of its rack the
  next node of that rack, if there is one, moves forward.
\<close>

definition rack_order :: "(node_id, string) hashmap \<Rightarrow> node_id list \<Rightarrow> node_id list" where
  "rack_order t pl = (let f = rack_firsts t {} pl in f @ filter (\<lambda>n. n \<notin> set f) pl)"

lemma pick_rack_order:
  assumes "pt_topology p \<noteq> []" and "distinct pl" and "length pl = length (pt_nodes p)"
  shows "pick p pl r = take r (rack_order (pt_topology p) pl)"
proof -
  let ?f = "rack_firsts (pt_topology p) {} pl" and ?r = "min r (length (pt_nodes p))"
  have "distinct ?f" using rack_firsts_distinct [of "pt_topology p" "{}" pl] by (simp add: distinct_map)
  then have "length (rack_order (pt_topology p) pl) = length pl"
    using length_filter_notin [OF assms(2) rack_firsts_subset, of "pt_topology p" "{}"]
      card_mono [OF finite_set rack_firsts_subset [of "pt_topology p" "{}" pl]]
    by (simp add: rack_order_def Let_def distinct_card assms(2))
  then have "take r (rack_order (pt_topology p) pl) = take ?r (rack_order (pt_topology p) pl)"
    using assms(3) by (cases "r \<le> length pl") simp_all
  also have "\<dots> = take ?r ?f @ take (?r - length (take ?r ?f)) (filter (\<lambda>n. n \<notin> set (take ?r ?f)) pl)"
  proof (cases "?r \<le> length ?f")
    case False
    then have "take ?r ?f = ?f" by (intro take_all) linarith
    then show ?thesis by (simp only: rack_order_def Let_def take_append)
  qed (simp add: rack_order_def Let_def)
  also have "\<dots> = pick p pl r" by (rule pick_topology_eq [OF assms(1,2) refl refl, symmetric])
  finally show ?thesis by (rule sym)
qed

lemma rack_firsts_unused:
  assumes "distinct pl"
  shows "rack_firsts t used pl = rack_firsts t (insert d used) pl \<or>
    (\<exists>b1 y b2. rack_firsts t (insert d used) pl = b1 @ b2 \<and> rack_firsts t used pl = b1 @ y # b2 \<and>
       y \<in> set pl \<and> y \<notin> set (b1 @ b2))"
  using assms
proof (induction pl arbitrary: used)
  case (Cons n pl)
  show ?case
  proof (cases "rack_of t n \<in> insert d used")
    case True
    show ?thesis
    proof (cases "rack_of t n \<in> used")
      case False
      with True have n: "rack_of t n = d" by simp
      have "n \<notin> set (rack_firsts t (insert d used) pl)"
        using Cons.prems rack_firsts_subset by fastforce
      with False n show ?thesis
        by (intro disjI2 exI [of _ "[]"] exI [of _ n] exI [of _ "rack_firsts t (insert d used) pl"]) simp
    qed (use Cons in auto)
  next
    case False
    then have ins: "insert (rack_of t n) (insert d used) = insert d (insert (rack_of t n) used)" by blast
    consider "rack_firsts t (insert (rack_of t n) used) pl = rack_firsts t (insert d (insert (rack_of t n) used)) pl"
      | b1 y b2 where "rack_firsts t (insert d (insert (rack_of t n) used)) pl = b1 @ b2"
          "rack_firsts t (insert (rack_of t n) used) pl = b1 @ y # b2" "y \<in> set pl" "y \<notin> set (b1 @ b2)"
      using Cons.IH [of "insert (rack_of t n) used"] Cons.prems by auto
    then show ?thesis
    proof cases
      case 1
      with False show ?thesis by (simp add: ins)
    next
      case (2 b1 y b2)
      with False Cons.prems show ?thesis
        by (intro disjI2 exI [of _ "n # b1"] exI [of _ y] exI [of _ b2]) (auto simp: ins)
    qed
  qed
qed simp

lemma rack_firsts_remove:
  assumes "distinct pl"
  obtains (other) "x \<notin> set (rack_firsts t used pl)" "rack_firsts t used (filter (\<lambda>n. n \<noteq> x) pl) = rack_firsts t used pl"
    | (last) a b where "rack_firsts t used pl = a @ x # b" "rack_firsts t used (filter (\<lambda>n. n \<noteq> x) pl) = a @ b"
    | (moved) a b1 y b2 where "rack_firsts t used pl = a @ x # b1 @ b2"
        "rack_firsts t used (filter (\<lambda>n. n \<noteq> x) pl) = a @ b1 @ y # b2" "y \<in> set pl" "y \<notin> set (a @ x # b1 @ b2)"
proof -
  have "x \<notin> set (rack_firsts t used pl) \<and> rack_firsts t used (filter (\<lambda>n. n \<noteq> x) pl) = rack_firsts t used pl
    \<or> (\<exists>a b. rack_firsts t used pl = a @ x # b \<and> rack_firsts t used (filter (\<lambda>n. n \<noteq> x) pl) = a @ b)
    \<or> (\<exists>a b1 y b2. rack_firsts t used pl = a @ x # b1 @ b2 \<and>
        rack_firsts t used (filter (\<lambda>n. n \<noteq> x) pl) = a @ b1 @ y # b2 \<and> y \<in> set pl \<and> y \<notin> set (a @ x # b1 @ b2))"
    (is "?other used pl \<or> ?last used pl \<or> ?moved used pl")
    using assms
  proof (induction pl arbitrary: used)
    case (Cons n pl)
    show ?case
    proof (cases "n = x")
      case True
      with Cons.prems have x: "x \<notin> set pl" "filter (\<lambda>n. n \<noteq> x) pl = pl" by (auto simp: filter_id_conv)
      then have nf: "x \<notin> set (rack_firsts t u pl)" for u using rack_firsts_subset by fastforce
      show ?thesis
      proof (cases "rack_of t x \<in> used")
        case False
        have x1: "rack_firsts t used (n # pl) = x # rack_firsts t (insert (rack_of t x) used) pl"
          "rack_firsts t used (filter (\<lambda>n. n \<noteq> x) (n # pl)) = rack_firsts t used pl" using False True x by simp_all
        consider "rack_firsts t used pl = rack_firsts t (insert (rack_of t x) used) pl"
          | b1 y b2 where "rack_firsts t (insert (rack_of t x) used) pl = b1 @ b2" "rack_firsts t used pl = b1 @ y # b2"
              "y \<in> set pl" "y \<notin> set (b1 @ b2)"
          using rack_firsts_unused [of pl t used "rack_of t x"] Cons.prems by auto
        then show ?thesis
        proof cases
          case 1
          then show ?thesis unfolding x1
            by (intro disjI2 disjI1 exI [of _ "[]"] exI [of _ "rack_firsts t used pl"]) simp
        next
          case (2 b1 y b2)
          with x(1) show ?thesis unfolding x1
            by (intro disjI2 exI [of _ "[]"] exI [of _ b1] exI [of _ y] exI [of _ b2]) auto
        qed
      qed (use True x nf in simp)
    next
      case False
      show ?thesis
      proof (cases "rack_of t n \<in> used")
        case True
        with False have eq: "rack_firsts t used (n # pl) = rack_firsts t used pl"
          "rack_firsts t used (filter (\<lambda>n. n \<noteq> x) (n # pl)) = rack_firsts t used (filter (\<lambda>n. n \<noteq> x) pl)" by simp_all
        have "?other used pl \<or> ?last used pl \<or> ?moved used pl" using Cons.IH [of used] Cons.prems by simp
        then show ?thesis unfolding eq by (simp only: list.set insert_iff) blast
      next
        case new: False
        let ?u = "insert (rack_of t n) used"
        have "?other ?u pl \<or> ?last ?u pl \<or> ?moved ?u pl" using Cons.IH [of ?u] Cons.prems by simp
        then consider "?other ?u pl" | "?last ?u pl" | "?moved ?u pl" by blast
        then show ?thesis
        proof cases
          case 1
          with False new show ?thesis by simp
        next
          case 2
          then obtain a b where "rack_firsts t ?u pl = a @ x # b" "rack_firsts t ?u (filter (\<lambda>n. n \<noteq> x) pl) = a @ b" by blast
          with False new show ?thesis by (intro disjI2 disjI1 exI [of _ "n # a"] exI [of _ b]) simp
        next
          case 3
          then obtain a b1 y b2 where "rack_firsts t ?u pl = a @ x # b1 @ b2"
            "rack_firsts t ?u (filter (\<lambda>n. n \<noteq> x) pl) = a @ b1 @ y # b2" "y \<in> set pl" "y \<notin> set (a @ x # b1 @ b2)" by blast
          with False new Cons.prems show ?thesis
            by (intro disjI2 exI [of _ "n # a"] exI [of _ b1] exI [of _ y] exI [of _ b2]) auto
        qed
      qed
    qed
  qed simp
  then show thesis using that by blast
qed

lemma take_move_forward:
  "set (take r (a @ x # b1 @ b2 @ c)) - {x} \<subseteq> set (take r (a @ b1 @ y # b2 @ filter (\<lambda>n. n \<noteq> y) c))"
proof
  fix z assume z: "z \<in> set (take r (a @ x # b1 @ b2 @ c)) - {x}"
  define m where "m = r - length a"
  from z consider "z \<in> set (take r a)" | k where "m = Suc k" "z \<in> set (take k b1)"
    | k where "m = Suc k" "z \<in> set (take (k - length b1) b2)"
    | k where "m = Suc k" "z \<in> set (take (k - length b1 - length b2) c)"
    by (cases m) (auto simp: m_def)
  then show "z \<in> set (take r (a @ b1 @ y # b2 @ filter (\<lambda>n. n \<noteq> y) c))"
  proof cases
    case (2 k)
    then show ?thesis using set_take_subset_set_take [of k "Suc k" b1] by (auto simp: m_def [symmetric])
  next
    case (3 k)
    then have "length b1 \<le> k" by (cases "length b1 \<le> k") simp_all
    then have "Suc k - length b1 = Suc (k - length b1)" by (rule Suc_diff_le)
    with 3 show ?thesis by (simp add: m_def [symmetric])
  next
    case (4 k)
    then have "length b1 \<le> k" by (cases "length b1 \<le> k") simp_all
    then have k: "Suc k - length b1 = Suc (k - length b1)" by (rule Suc_diff_le)
    show ?thesis
    proof (cases "z = y")
      case False
      with take_remove_subset [of "k - length b1 - length b2" c y] 4 k show ?thesis by (auto simp: m_def [symmetric])
    qed (use 4 k in \<open>simp add: m_def [symmetric]\<close>)
  qed simp
qed

lemma rack_order_drop:
  assumes "rack_firsts t {} (filter (\<lambda>n. n \<noteq> x) pl) = filter (\<lambda>n. n \<noteq> x) (rack_firsts t {} pl)"
  shows "rack_order t (filter (\<lambda>n. n \<noteq> x) pl) = filter (\<lambda>n. n \<noteq> x) (rack_order t pl)"
proof -
  have "filter (\<lambda>n. n \<notin> set (filter (\<lambda>n. n \<noteq> x) f)) (filter (\<lambda>n. n \<noteq> x) pl) = filter (\<lambda>n. n \<noteq> x) (filter (\<lambda>n. n \<notin> set f) pl)" for f
    unfolding filter_filter by (rule filter_cong) auto
  then show ?thesis by (simp only: rack_order_def Let_def assms filter_append)
qed

lemma rack_order_remove:
  assumes "distinct pl"
  shows "x \<notin> set (take r (rack_order t pl)) \<Longrightarrow> take r (rack_order t (filter (\<lambda>n. n \<noteq> x) pl)) = take r (rack_order t pl)"
    and "set (take r (rack_order t pl)) - {x} \<subseteq> set (take r (rack_order t (filter (\<lambda>n. n \<noteq> x) pl)))"
proof -
  have f: "distinct (rack_firsts t {} pl)" using rack_firsts_distinct [of t "{}" pl] by (simp add: distinct_map)
  have drop: "(x \<notin> set (take r (rack_order t pl)) \<longrightarrow> take r (filter (\<lambda>n. n \<noteq> x) (rack_order t pl)) = take r (rack_order t pl)) \<and>
      set (take r (rack_order t pl)) - {x} \<subseteq> set (take r (filter (\<lambda>n. n \<noteq> x) (rack_order t pl)))"
    by (intro conjI impI take_remove_same take_remove_subset)
  have "(x \<notin> set (take r (rack_order t pl)) \<longrightarrow> take r (rack_order t (filter (\<lambda>n. n \<noteq> x) pl)) = take r (rack_order t pl)) \<and>
    set (take r (rack_order t pl)) - {x} \<subseteq> set (take r (rack_order t (filter (\<lambda>n. n \<noteq> x) pl)))"
    using assms
  proof (cases rule: rack_firsts_remove [of pl x t "{}"])
    case other
    then have "filter (\<lambda>n. n \<noteq> x) (rack_firsts t {} pl) = rack_firsts t {} pl" by (auto simp: filter_id_conv)
    with other have "rack_order t (filter (\<lambda>n. n \<noteq> x) pl) = filter (\<lambda>n. n \<noteq> x) (rack_order t pl)"
      by (intro rack_order_drop) simp
    with drop show ?thesis by simp
  next
    case (last a b)
    then have "filter (\<lambda>n. n \<noteq> x) (rack_firsts t {} pl) = a @ b" using f by (auto intro!: arg_cong2 [of _ _ _ _ "(@)"] filter_True)
    with last have "rack_order t (filter (\<lambda>n. n \<noteq> x) pl) = filter (\<lambda>n. n \<noteq> x) (rack_order t pl)"
      by (intro rack_order_drop) simp
    with drop show ?thesis by simp
  next
    case (moved a b1 y b2)
    let ?c = "filter (\<lambda>n. n \<notin> set (a @ x # b1 @ b2)) pl"
    have L: "rack_order t pl = a @ x # b1 @ b2 @ ?c" using moved(1) by (simp add: rack_order_def Let_def)
    have "filter (\<lambda>n. n \<notin> set (a @ b1 @ y # b2)) (filter (\<lambda>n. n \<noteq> x) pl) = filter (\<lambda>n. n \<noteq> y) ?c"
      by (auto intro: filter_cong)
    then have L': "rack_order t (filter (\<lambda>n. n \<noteq> x) pl) = a @ b1 @ y # b2 @ filter (\<lambda>n. n \<noteq> y) ?c"
      using moved(2) by (simp add: rack_order_def Let_def)
    have "take r (rack_order t (filter (\<lambda>n. n \<noteq> x) pl)) = take r (rack_order t pl)"
      if "x \<notin> set (take r (rack_order t pl))"
    proof -
      have "r \<le> length a" using that unfolding L by (cases "r - length a") auto
      then show ?thesis by (simp add: L L')
    qed
    then show ?thesis using take_move_forward [of r a x b1 b2 ?c y] by (simp only: L L' simp_thms) blast
  qed
  then show "x \<notin> set (take r (rack_order t pl)) \<Longrightarrow> take r (rack_order t (filter (\<lambda>n. n \<noteq> x) pl)) = take r (rack_order t pl)"
    "set (take r (rack_order t pl)) - {x} \<subseteq> set (take r (rack_order t (filter (\<lambda>n. n \<noteq> x) pl)))" by blast+
qed

subsection \<open>Properties\<close>

text \<open>
  C40. Whatever changes of membership, to distinct ids, and of topology a partitioner goes through, it holds the last
  membership and the last topology it was given; its table has 4096 rows, each a permutation of the current nodes in
  descending order of their scores; and it is the very partitioner that would be built from the current members and topology, so placement has no
  memory of earlier members.
\<close>

theorem partitioner_invariant:
  assumes "distinct ns" and "list_all pt_op_ok ops"
  defines "p \<equiv> fold pt_apply ops (partitioner_new ns)"
  shows "list_nodes p = last_nodes ns ops \<and> pt_topology p = last_topology ops
    \<and> bucket_count p = 4096 \<and> length (pt_buckets p) = 4096
    \<and> (b < 4096 \<longrightarrow> mset (pt_buckets p ! b) = mset (list_nodes p) \<and>
        sorted_wrt (\<lambda>n m. bucket_score (fnv1a m) b \<le> bucket_score (fnv1a n) b) (pt_buckets p ! b))
    \<and> p = set_topology (partitioner_new (list_nodes p)) (pt_topology p)"
proof -
  have p: "partitioner_ok p" and last: "pt_nodes p = last_nodes ns ops" "pt_topology p = last_topology ops"
    using pt_fold [OF partitioner_ok_new [OF assms(1)] assms(2)] by (simp_all add: p_def last_topology_def)
  have "sorted_wrt (\<lambda>n m. bucket_score (fnv1a m) b \<le> bucket_score (fnv1a n) b) (sort_key (hrw_key b) (pt_nodes p))"
    using sorted_sort_key [of "hrw_key b" "pt_nodes p"] by (simp add: sorted_map hrw_key_def word_le_def)
  moreover have "p = set_topology (partitioner_new (pt_nodes p)) (pt_topology p)"
    by (rule partitioner.equality) (use p in \<open>simp_all add: partitioner_ok_def\<close>)
  ultimately show ?thesis
    using p last by (simp add: partitioner_ok_def list_nodes_def bucket_count_def NUM_BUCKETS_def)
qed

theorem partitioner_invariant_witness:
  "list_nodes (fold pt_apply [SetTopology [(''n0'', ''a'')], SetNodes [''n1'', ''n2''], SetTopology [(''n1'', ''b'')]]
     (partitioner_new [''n0'', ''n1''])) = [''n1'', ''n2''] \<and>
   fold pt_apply [SetTopology [(''n0'', ''a'')], SetNodes [''n1'', ''n2''], SetTopology [(''n1'', ''b'')]]
     (partitioner_new [''n0'', ''n1'']) = set_topology (partitioner_new [''n1'', ''n2'']) [(''n1'', ''b'')]"
  using partitioner_invariant [of "[''n0'', ''n1'']"
      "[SetTopology [(''n0'', ''a'')], SetNodes [''n1'', ''n2''], SetTopology [(''n1'', ''b'')]]" 0]
  by (simp add: last_topology_def del: fold_simps)

text \<open>
  The owners of a key are distinct members of the cluster, exactly as many as the
  replication factor asks for or the cluster has, with or without a topology; and the first of
  them, the primary, is the winner of the key's ranking whatever the topology.
\<close>

theorem replica_set_sound:
  assumes "partitioner_ok p"
  shows "length (replica_set p key r) = min r (length (pt_nodes p))
    \<and> distinct (replica_set p key r) \<and> set (replica_set p key r) \<subseteq> set (pt_nodes p)
    \<and> (replica_set p key r \<noteq> [] \<longrightarrow> hd (replica_set p key r) = hd (preference_list p key))"
proof -
  let ?pl = "preference_list p key"
  have pl: "?pl = pt_buckets p ! bucket_of key" by (simp add: preference_list_def)
  note facts = pick_facts [OF assms pl bucket_of_less] and row = row_facts [OF assms pl bucket_of_less]
  have "hd (pick p ?pl r) = hd ?pl" if ne: "pick p ?pl r \<noteq> []"
  proof (cases "pt_topology p = []")
    case True
    with ne show ?thesis by (simp add: pick_def)
  next
    case False
    from ne facts(1) [of r] have pos: "0 < min r (length (pt_nodes p))"
      by (metis length_greater_0_conv)
    with row(3) obtain n ns where n: "?pl = n # ns"
      by (metis length_0_conv less_numeral_extra(3) min_0R neq_Nil_conv)
    let ?c = "take (min r (length (pt_nodes p))) (rack_firsts (pt_topology p) {} ?pl)"
    obtain c' where "?c = n # c'"
      using pos by (cases "min r (length (pt_nodes p))") (simp_all add: n)
    with pick_topology_eq [OF False row(1) refl refl, of r] show ?thesis by (simp add: n)
  qed
  with facts show ?thesis by (simp add: replica_set_def)
qed

text \<open>
  C37. With a topology set, the owners of a key cover as many racks as any choice of that many
  owners could: all the racks of the cluster, or one per owner when there are fewer owners.
\<close>

theorem replica_set_rack_spread:
  assumes "partitioner_ok p" and "pt_topology p \<noteq> []"
  shows "card (rack_of (pt_topology p) ` set (replica_set p key r)) =
    min (min r (length (pt_nodes p))) (card (rack_of (pt_topology p) ` set (pt_nodes p)))"
proof -
  let ?t = "pt_topology p" and ?pl = "preference_list p key"
  let ?r = "min r (length (pt_nodes p))"
  let ?f = "rack_firsts ?t {} ?pl"
  have pl: "?pl = pt_buckets p ! bucket_of key" by (simp add: preference_list_def)
  note row = row_facts [OF assms(1) pl bucket_of_less]
  have eq: "replica_set p key r = take ?r ?f @ take (?r - length (take ?r ?f))
      (filter (\<lambda>n. n \<notin> set (take ?r ?f)) ?pl)"
    unfolding replica_set_def by (rule pick_topology_eq [OF assms(2) row(1) refl refl])
  have len: "length ?f = card (rack_of ?t ` set (pt_nodes p))"
    by (simp add: length_rack_firsts row(2))
  show ?thesis
  proof (cases "?r \<le> length ?f")
    case True
    then have "replica_set p key r = take ?r ?f" by (simp add: eq)
    moreover have "distinct (map (rack_of ?t) (take ?r ?f))"
      using rack_firsts_distinct [of ?t "{}" ?pl] by (simp flip: take_map)
    ultimately have "card (rack_of ?t ` set (replica_set p key r)) = length (take ?r ?f)"
      by (metis distinct_card length_map list.set_map)
    with True len show ?thesis by simp
  next
    case False
    then have "take ?r ?f = ?f" by (intro take_all) linarith
    then have sub: "set ?f \<subseteq> set (replica_set p key r)" by (simp only: eq set_append Un_upper1)
    have "set (replica_set p key r) \<subseteq> set ?pl"
      using rack_firsts_subset [of ?t "{}" ?pl] by (auto simp: eq dest: in_set_takeD)
    moreover have "rack_of ?t ` set ?f = rack_of ?t ` set ?pl"
      by (simp add: rack_firsts_racks)
    ultimately have "rack_of ?t ` set (replica_set p key r) = rack_of ?t ` set ?pl"
      using sub by blast
    with False len row(2) show ?thesis by simp
  qed
qed

theorem replica_set_rack_spread_witness:
  "card (rack_of [(''n0'', ''a''), (''n1'', ''a''), (''n2'', ''b'')] `
     set (replica_set (set_topology (partitioner_new [''n0'', ''n1'', ''n2''])
       [(''n0'', ''a''), (''n1'', ''a''), (''n2'', ''b'')]) ''alpha'' 2)) = 2"
  using replica_set_rack_spread [OF partitioner_ok_set_topology [OF partitioner_ok_new],
      of "[''n0'', ''n1'', ''n2'']" "[(''n0'', ''a''), (''n1'', ''a''), (''n2'', ''b'')]" "''alpha''" 2]
  by (simp add: rack_of_def)

text \<open>
  Without a topology the owners are the R nodes of highest score in the key's bucket: no
  node outside the replica set scores higher than a node inside it.
\<close>

theorem replica_set_top_scores:
  assumes "partitioner_ok p" and "pt_topology p = []"
    and "n \<in> set (replica_set p key r)" and "m \<in> set (pt_nodes p) - set (replica_set p key r)"
  shows "bucket_score (fnv1a m) (bucket_of key) \<le> bucket_score (fnv1a n) (bucket_of key)"
proof -
  let ?pl = "preference_list p key"
  have pl: "?pl = pt_buckets p ! bucket_of key" by (simp add: preference_list_def)
  note row = row_facts [OF assms(1) pl bucket_of_less]
  have rs: "replica_set p key r = take r ?pl" by (rule replica_set_plain [OF assms(1,2)])
  have "m \<in> set (drop r ?pl)"
    using assms(4) row(2) by (metis Diff_iff Un_iff append_take_drop_id rs set_append)
  moreover have "n \<in> set (take r ?pl)" using assms(3) by (simp add: rs)
  moreover have "sorted (map (hrw_key (bucket_of key)) (take r ?pl @ drop r ?pl))"
    using row(4) by (simp only: append_take_drop_id)
  ultimately have "hrw_key (bucket_of key) n \<le> hrw_key (bucket_of key) m"
    by (simp only: map_append sorted_append) auto
  then show ?thesis by (simp add: hrw_key_def word_le_def)
qed

text \<open>
  The placement depends only on the \<^emph>\<open>set\<close> of members: a coordinator and a direct client
  that list the same members in any order route every key to the same owners, in the same order,
  as long as no two node ids have the same FNV-1a hash. (The per-bucket mix of the hash is a
  bijection on 32-bit words, so distinct hashes never tie in any bucket.)
\<close>

theorem placement_order_independent:
  assumes "distinct ns" and "distinct ms" and "set ns = set ms" and "inj_on fnv1a (set ns)"
  shows "replica_set (set_topology (partitioner_new ns) t) key r =
         replica_set (set_topology (partitioner_new ms) t) key r"
  unfolding replica_set_owners
  by (rule owners_order_independent) (use assms partitioner_oks in simp_all)

text \<open>
  C38. Minimal movement, with and without racks: when a node leaves, a key it does not own keeps its replica set
  unchanged, and a key it owns keeps every other owner.
\<close>

theorem remove_node_minimal_movement:
  assumes "partitioner_ok p" and "p' = set_nodes p (filter (\<lambda>n. n \<noteq> x) (pt_nodes p))"
  shows "(x \<notin> set (replica_set p key r) \<longrightarrow> replica_set p' key r = replica_set p key r)
    \<and> set (replica_set p key r) - {x} \<subseteq> set (replica_set p' key r)"
proof -
  let ?L = "preference_list p key"
  have ok': "partitioner_ok p'"
    using assms(1) by (simp add: assms(2) partitioner_ok_def)
  have L': "preference_list p' key = filter (\<lambda>n. n \<noteq> x) ?L"
    using ok' assms(1) by (simp add: preference_list_eq assms(2) filter_sort)
  show ?thesis
  proof (cases "pt_topology p = []")
    case True
    then have R: "replica_set p key r = take r ?L" "replica_set p' key r = take r (filter (\<lambda>n. n \<noteq> x) ?L)"
      using replica_set_plain ok' assms L' by simp_all
    show ?thesis unfolding R by (intro conjI impI take_remove_same take_remove_subset)
  next
    case False
    have "length (filter (\<lambda>n. n \<noteq> x) ?L) = length (pt_nodes p')"
      unfolding L' [symmetric] by (simp add: preference_list_eq [OF ok'])
    note row = row_facts(1,3) [OF assms(1) preference_list_def bucket_of_less, of key] this
    have R: "replica_set p key r = take r (rack_order (pt_topology p) ?L)"
      "replica_set p' key r = take r (rack_order (pt_topology p) (filter (\<lambda>n. n \<noteq> x) ?L))"
      using pick_rack_order [OF False row(1,2)] pick_rack_order [of p' "filter (\<lambda>n. n \<noteq> x) ?L"] row False L'
      by (simp_all add: replica_set_def assms(2))
    show ?thesis unfolding R by (intro conjI impI rack_order_remove row(1))
  qed
qed

theorem remove_node_minimal_movement_witness:
  "set (replica_set (set_topology (partitioner_new [''a'', ''b'', ''c'']) [(''a'', ''r''), (''b'', ''r'')]) ''k'' 2) - {''b''} \<subseteq>
   set (replica_set (set_nodes (set_topology (partitioner_new [''a'', ''b'', ''c'']) [(''a'', ''r''), (''b'', ''r'')])
     [''a'', ''c'']) ''k'' 2)"
  using remove_node_minimal_movement [OF partitioner_ok_set_topology [OF partitioner_ok_new],
      of "[''a'', ''b'', ''c'']" _ "[(''a'', ''r''), (''b'', ''r'')]" "''b''" "''k''" 2]
  by simp

text \<open>
  The condition of \<open>placement_order_independent\<close> is needed, and real ids can break it: the ids \<open>costarring\<close> and
  \<open>liquid\<close> collide under FNV-1a, so they tie in every bucket and the order in which a
  process happens to list the two members decides the primary of every key.
\<close>

theorem fnv_collision_order_dependent:
  "fnv1a ''costarring'' = fnv1a ''liquid''
   \<and> replica_set (partitioner_new [''costarring'', ''liquid'']) key 1 = [''costarring'']
   \<and> replica_set (partitioner_new [''liquid'', ''costarring'']) key 1 = [''liquid'']"
proof -
  have eq: "fnv1a ''costarring'' = fnv1a ''liquid''" by (simp add: fnv_eval)
  then have "hrw_key b ''costarring'' = hrw_key b ''liquid''" for b
    by (simp add: hrw_key_def)
  with eq show ?thesis
    by (simp add: replica_set_plain partitioner_ok_new preference_list_eq)
qed

end
