(* ===== verification/Reshard.thy ===== *)
theory Reshard
  imports Partitioner
begin

text \<open>
  The reshard planner, \<^verbatim>\<open>src/reshard.rs\<close>: from two memberships it computes, bucket by bucket,
  which node has to receive a copy and which node has to drop its data. The lemmas show that the
  plan is exact (it turns the old owner sets into the new ones and does nothing else), that every
  copy is taken from an old owner, and that \<open>moved_buckets\<close> counts the buckets whose owner set
  changes.
\<close>

subsection \<open>The plan\<close>

record copy_action =
  cp_bucket :: nat
  cp_from :: node_id
  cp_to :: node_id

record drop_action =
  dr_bucket :: nat
  dr_node :: node_id

record reshard_plan =
  rp_copies :: "copy_action list"
  rp_drops :: "drop_action list"
  rp_buckets :: nat
  rp_moved_buckets :: nat

definition plan_partitioner :: "node_id list \<Rightarrow> (node_id, string) hashmap \<Rightarrow> partitioner" where
  "plan_partitioner ns topology =
     (let p = partitioner_new ns in if topology \<noteq> [] then set_topology p topology else p)"

definition plan_replication :: "nat \<Rightarrow> node_id list \<Rightarrow> nat" where
  "plan_replication replication ns = max (min replication (max (length ns) 1)) 1"

text \<open>The two inner loops over one bucket, each pushing its actions and setting \<open>changed\<close>.\<close>

fun push_copies :: "nat \<Rightarrow> node_id list \<Rightarrow> node_id list \<Rightarrow> copy_action list \<times> bool
    \<Rightarrow> copy_action list \<times> bool" where
  "push_copies b old_owners [] (copies, changed) = (copies, changed)"
| "push_copies b old_owners (to # new_owners) (copies, changed) =
     push_copies b old_owners new_owners
       (if to \<notin> set old_owners then
          (case old_owners of
             src # _ \<Rightarrow> (copies @ [\<lparr>cp_bucket = b, cp_from = src, cp_to = to\<rparr>], True)
           | [] \<Rightarrow> (copies, changed))
        else (copies, changed))"

fun push_drops :: "nat \<Rightarrow> node_id list \<Rightarrow> node_id list \<Rightarrow> drop_action list \<times> bool
    \<Rightarrow> drop_action list \<times> bool" where
  "push_drops b new_owners [] (drops, changed) = (drops, changed)"
| "push_drops b new_owners (node # old_owners) (drops, changed) =
     push_drops b new_owners old_owners
       (if node \<notin> set new_owners then (drops @ [\<lparr>dr_bucket = b, dr_node = node\<rparr>], True)
        else (drops, changed))"

text \<open>
  One iteration of the bucket loop. \<open>oo\<close> and \<open>no\<close> give the old and the new owners of a bucket.
\<close>

fun plan_bucket :: "(nat \<Rightarrow> node_id list) \<Rightarrow> (nat \<Rightarrow> node_id list)
    \<Rightarrow> copy_action list \<times> drop_action list \<times> nat \<Rightarrow> nat
    \<Rightarrow> copy_action list \<times> drop_action list \<times> nat" where
  "plan_bucket oo no (copies, drops, moved_buckets) b =
     (let old_owners = oo b;
          new_owners = no b;
          (copies, changed) = push_copies b old_owners new_owners (copies, False);
          (drops, changed) = push_drops b new_owners old_owners (drops, changed)
      in (copies, drops, if changed then moved_buckets + 1 else moved_buckets))"

definition plan_reshard :: "node_id list \<Rightarrow> node_id list \<Rightarrow> nat \<Rightarrow> (node_id, string) hashmap
    \<Rightarrow> reshard_plan" where
  "plan_reshard old new replication topology =
     (let old_p = plan_partitioner old topology;
          new_p = plan_partitioner new topology;
          r_old = plan_replication replication old;
          r_new = plan_replication replication new;
          buckets = bucket_count new_p;
          (copies, drops, moved_buckets) =
            foldl (plan_bucket (\<lambda>b. if old = [] then [] else owners_of_bucket old_p b r_old)
                               (\<lambda>b. owners_of_bucket new_p b r_new))
              ([], [], 0) [0..<buckets]
      in \<lparr>rp_copies = copies, rp_drops = drops, rp_buckets = buckets,
          rp_moved_buckets = moved_buckets\<rparr>)"

text \<open>The owners of a bucket under a membership, as the planner sees them.\<close>

definition plan_owners :: "node_id list \<Rightarrow> nat \<Rightarrow> (node_id, string) hashmap \<Rightarrow> nat \<Rightarrow> node_id list" where
  "plan_owners ns replication topology b =
     owners_of_bucket (plan_partitioner ns topology) b (plan_replication replication ns)"

subsection \<open>The loops as comprehensions\<close>

definition bucket_copies :: "nat \<Rightarrow> node_id list \<Rightarrow> node_id list \<Rightarrow> copy_action list" where
  "bucket_copies b old_owners new_owners =
     (if old_owners = [] then []
      else map (\<lambda>to. \<lparr>cp_bucket = b, cp_from = hd old_owners, cp_to = to\<rparr>)
             (filter (\<lambda>to. to \<notin> set old_owners) new_owners))"

definition bucket_drops :: "nat \<Rightarrow> node_id list \<Rightarrow> node_id list \<Rightarrow> drop_action list" where
  "bucket_drops b old_owners new_owners =
     map (\<lambda>node. \<lparr>dr_bucket = b, dr_node = node\<rparr>) (filter (\<lambda>node. node \<notin> set new_owners) old_owners)"

lemma push_copies_eq:
  "push_copies b oo no (copies, ch) =
     (copies @ bucket_copies b oo no, ch \<or> bucket_copies b oo no \<noteq> [])"
  by (induction no arbitrary: copies ch) (auto simp: bucket_copies_def split: list.splits)

lemma push_drops_eq:
  "push_drops b no oo (drops, ch) =
     (drops @ bucket_drops b oo no, ch \<or> bucket_drops b oo no \<noteq> [])"
  by (induction oo arbitrary: drops ch) (auto simp: bucket_drops_def)

definition bucket_moves :: "nat \<Rightarrow> node_id list \<Rightarrow> node_id list \<Rightarrow> bool" where
  "bucket_moves b oo no \<longleftrightarrow> bucket_copies b oo no \<noteq> [] \<or> bucket_drops b oo no \<noteq> []"

lemma plan_fold_eq:
  "foldl (plan_bucket oo no) (cs, ds, m) bs =
     (cs @ concat (map (\<lambda>b. bucket_copies b (oo b) (no b)) bs),
      ds @ concat (map (\<lambda>b. bucket_drops b (oo b) (no b)) bs),
      m + length (filter (\<lambda>b. bucket_moves b (oo b) (no b)) bs))"
  by (induction bs arbitrary: cs ds m)
    (simp_all add: push_copies_eq push_drops_eq bucket_moves_def Let_def)

lemma plan_partitioner_eq: "plan_partitioner ns t = set_topology (partitioner_new ns) t"
proof (cases "t = []")
  case True
  have "set_topology (partitioner_new ns) [] = partitioner_new ns"
    by (simp add: set_topology_def partitioner_new_def set_nodes_def Let_def)
  with True show ?thesis by (simp add: plan_partitioner_def)
qed (simp add: plan_partitioner_def)

lemma plan_replication_pos [simp]: "0 < plan_replication r ns"
  by (simp add: plan_replication_def)

lemma plan_owners_facts:
  assumes "distinct ns" and "b < NUM_BUCKETS"
  shows "distinct (plan_owners ns r t b)" and "set (plan_owners ns r t b) \<subseteq> set ns"
    and "ns \<noteq> [] \<Longrightarrow> plan_owners ns r t b \<noteq> []"
    and "length (plan_owners ns r t b) = min (plan_replication r ns) (length ns)"
  using assms hrw.place_distinct hrw.place_subset hrw.place_nonempty hrw.place_length
  by (simp_all add: plan_owners_def plan_partitioner_eq)

text \<open>The plan in closed form; an empty old membership owns nothing.\<close>

definition old_plan_owners :: "node_id list \<Rightarrow> nat \<Rightarrow> (node_id, string) hashmap \<Rightarrow> nat \<Rightarrow> node_id list" where
  "old_plan_owners old r t b = (if old = [] then [] else plan_owners old r t b)"

lemma plan_reshard_eq:
  shows "rp_copies (plan_reshard old new r t) =
      concat (map (\<lambda>b. bucket_copies b (old_plan_owners old r t b) (plan_owners new r t b))
        [0..<NUM_BUCKETS])"
    and "rp_drops (plan_reshard old new r t) =
      concat (map (\<lambda>b. bucket_drops b (old_plan_owners old r t b) (plan_owners new r t b))
        [0..<NUM_BUCKETS])"
    and "rp_moved_buckets (plan_reshard old new r t) =
      card {b. b < NUM_BUCKETS \<and>
        bucket_moves b (old_plan_owners old r t b) (plan_owners new r t b)}"
    and "rp_buckets (plan_reshard old new r t) = NUM_BUCKETS"
proof -
  have moved: "length (filter P [0..<n]) = card {b. b < n \<and> P b}" for P and n :: nat
    by (simp add: length_filter_conv_card cong: conj_cong)
  have bc: "bucket_count (plan_partitioner new t) = NUM_BUCKETS"
    by (simp add: bucket_count_def plan_partitioner_eq)
  note eq = plan_reshard_def Let_def bc plan_fold_eq old_plan_owners_def plan_owners_def
  show "rp_copies (plan_reshard old new r t) =
      concat (map (\<lambda>b. bucket_copies b (old_plan_owners old r t b) (plan_owners new r t b))
        [0..<NUM_BUCKETS])"
    by (simp add: eq cong: if_cong)
  show "rp_drops (plan_reshard old new r t) =
      concat (map (\<lambda>b. bucket_drops b (old_plan_owners old r t b) (plan_owners new r t b))
        [0..<NUM_BUCKETS])"
    by (simp add: eq cong: if_cong)
  show "rp_moved_buckets (plan_reshard old new r t) =
      card {b. b < NUM_BUCKETS \<and>
        bucket_moves b (old_plan_owners old r t b) (plan_owners new r t b)}"
    by (simp add: eq moved cong: if_cong)
  show "rp_buckets (plan_reshard old new r t) = NUM_BUCKETS"
    by (simp add: eq cong: if_cong)
qed

lemma in_bucket_copies:
  "c \<in> set (bucket_copies b oo no) \<longleftrightarrow>
     oo \<noteq> [] \<and> cp_bucket c = b \<and> cp_from c = hd oo \<and> cp_to c \<in> set no - set oo"
  by (cases c) (auto simp: bucket_copies_def)

lemma in_bucket_drops:
  "d \<in> set (bucket_drops b oo no) \<longleftrightarrow> dr_bucket d = b \<and> dr_node d \<in> set oo - set no"
  by (cases d) (auto simp: bucket_drops_def)

lemma bucket_moves_iff:
  "oo \<noteq> [] \<Longrightarrow> bucket_moves b oo no \<longleftrightarrow> set oo \<noteq> set no"
  by (auto simp: bucket_moves_def bucket_copies_def bucket_drops_def filter_empty_conv)

lemma in_plan_copies:
  "c \<in> set (rp_copies (plan_reshard old new r t)) \<longleftrightarrow>
     cp_bucket c < NUM_BUCKETS \<and>
     c \<in> set (bucket_copies (cp_bucket c) (old_plan_owners old r t (cp_bucket c))
       (plan_owners new r t (cp_bucket c)))"
  by (auto simp: plan_reshard_eq in_bucket_copies)

lemma in_plan_drops:
  "d \<in> set (rp_drops (plan_reshard old new r t)) \<longleftrightarrow>
     dr_bucket d < NUM_BUCKETS \<and>
     d \<in> set (bucket_drops (dr_bucket d) (old_plan_owners old r t (dr_bucket d))
       (plan_owners new r t (dr_bucket d)))"
  by (auto simp: plan_reshard_eq in_bucket_drops)

lemma plan_distinct:
  assumes "distinct old" and "distinct new"
  shows "distinct (rp_copies (plan_reshard old new r t))"
    and "distinct (rp_drops (plan_reshard old new r t))"
proof -
  have inj_cp: "inj_on (\<lambda>to. \<lparr>cp_bucket = b, cp_from = s, cp_to = to\<rparr>) A" for b s A
    by (simp add: inj_on_def)
  have inj_dr: "inj_on (\<lambda>n. \<lparr>dr_bucket = b, dr_node = n\<rparr>) A" for b A
    by (simp add: inj_on_def)
  have "distinct (bucket_copies b (old_plan_owners old r t b) (plan_owners new r t b))"
    if "b < NUM_BUCKETS" for b
    using plan_owners_facts(1) [OF assms(2) that, of r t]
    by (simp add: bucket_copies_def distinct_map inj_cp)
  then show "distinct (rp_copies (plan_reshard old new r t))"
    unfolding plan_reshard_eq by (rule distinct_concat_upt [where g = cp_bucket]) (simp_all add: in_bucket_copies)
  have "distinct (bucket_drops b (old_plan_owners old r t b) (plan_owners new r t b))"
    if "b < NUM_BUCKETS" for b
    using plan_owners_facts(1) [OF assms(1) that, of r t]
    by (simp add: bucket_drops_def distinct_map inj_dr old_plan_owners_def)
  then show "distinct (rp_drops (plan_reshard old new r t))"
    unfolding plan_reshard_eq by (rule distinct_concat_upt [where g = dr_bucket]) (simp_all add: in_bucket_drops)
qed

lemma plan_owners_plain:
  assumes "distinct ns" and "b < NUM_BUCKETS"
  shows "plan_owners ns r [] b = take (max r 1) (sort_key (hrw_key b) ns)"
proof -
  have "plan_owners ns r [] b =
      take (min (plan_replication r ns) (length ns)) (sort_key (hrw_key b) ns)"
    using assms by (simp add: plan_owners_def plan_partitioner_eq owners_of_bucket_def pick_def)
  also have "\<dots> = take (max r 1) (sort_key (hrw_key b) ns)"
    by (cases "max r 1 \<le> length ns") (auto simp: plan_replication_def min_def max_def)
  finally show ?thesis .
qed

lemma plan_owners_remove:
  assumes "distinct ns" and "b < NUM_BUCKETS"
  shows "set (plan_owners ns r [] b) - {x} \<subseteq> set (plan_owners (filter (\<lambda>n. n \<noteq> x) ns) r [] b)"
    and "x \<notin> set (plan_owners ns r [] b) \<Longrightarrow>
      plan_owners (filter (\<lambda>n. n \<noteq> x) ns) r [] b = plan_owners ns r [] b"
  using assms take_remove_subset take_remove_same
  by (simp_all add: plan_owners_plain flip: filter_sort)

lemma plan_owners_remove_one:
  assumes "distinct ns" and "b < NUM_BUCKETS"
    and "m \<in> set (plan_owners (filter (\<lambda>n. n \<noteq> x) ns) r [] b) - set (plan_owners ns r [] b)"
    and "m' \<in> set (plan_owners (filter (\<lambda>n. n \<noteq> x) ns) r [] b) - set (plan_owners ns r [] b)"
  shows "m = m'"
proof -
  let ?L = "sort_key (hrw_key b) ns"
  obtain ys where ys: "length ys \<le> 1"
    "take (max r 1) (filter (\<lambda>n. n \<noteq> x) ?L) = filter (\<lambda>n. n \<noteq> x) (take (max r 1) ?L) @ ys"
    using take_remove_one [of ?L "max r 1" x] assms(1) by auto
  have "m \<in> set ys" "m' \<in> set ys"
    using assms(3,4) ys(2) assms(1,2)
    by (auto simp: plan_owners_plain simp flip: filter_sort)
  with ys(1) show ?thesis by (cases ys) auto
qed

lemma plan_copies_bucket:
  assumes "b < NUM_BUCKETS"
  shows "{c \<in> set (rp_copies (plan_reshard old new r t)). cp_bucket c = b} =
    set (bucket_copies b (old_plan_owners old r t b) (plan_owners new r t b))"
  using assms by (auto simp: in_plan_copies in_bucket_copies)

lemma plan_drops_bucket:
  assumes "b < NUM_BUCKETS"
  shows "{d \<in> set (rp_drops (plan_reshard old new r t)). dr_bucket d = b} =
    set (bucket_drops b (old_plan_owners old r t b) (plan_owners new r t b))"
  using assms by (auto simp: in_plan_drops in_bucket_drops)

lemma bucket_copy_targets: "oo \<noteq> [] \<Longrightarrow> cp_to ` set (bucket_copies b oo no) = set no - set oo"
  by (auto simp: bucket_copies_def image_image)

lemma bucket_drop_targets: "dr_node ` set (bucket_drops b oo no) = set oo - set no"
  by (auto simp: bucket_drops_def image_image)

subsection \<open>Properties\<close>

text \<open>
  C35. The plan is exact: in every bucket, the old owners plus the copy targets minus the drop
  targets are the new owners; every copy goes from an old owner to a node that does not hold the
  bucket yet, every drop is at an old owner that loses it, no action is planned twice, and
  \<open>moved_buckets\<close> is the number of buckets whose owner set changes.
\<close>

theorem plan_reshard_exact:
  assumes "distinct old" and "distinct new" and "old \<noteq> []" and plan: "plan = plan_reshard old new r t"
  shows "(\<forall>b < NUM_BUCKETS.
      set (plan_owners old r t b) \<union> cp_to ` {c \<in> set (rp_copies plan). cp_bucket c = b}
        - dr_node ` {d \<in> set (rp_drops plan). dr_bucket d = b} = set (plan_owners new r t b))
    \<and> (\<forall>c \<in> set (rp_copies plan). cp_from c \<in> set (plan_owners old r t (cp_bucket c))
        \<and> cp_to c \<notin> set (plan_owners old r t (cp_bucket c)))
    \<and> (\<forall>d \<in> set (rp_drops plan). dr_node d \<in> set (plan_owners old r t (dr_bucket d)))
    \<and> distinct (rp_copies plan) \<and> distinct (rp_drops plan)
    \<and> rp_moved_buckets plan =
        card {b. b < NUM_BUCKETS \<and> set (plan_owners old r t b) \<noteq> set (plan_owners new r t b)}"
proof -
  have old: "old_plan_owners old r t b = plan_owners old r t b" for b
    using assms(3) by (simp add: old_plan_owners_def)
  have ne: "plan_owners old r t b \<noteq> []" if "b < NUM_BUCKETS" for b
    by (rule plan_owners_facts(3) [OF assms(1) that assms(3)])
  have cps: "cp_to ` {c \<in> set (rp_copies plan). cp_bucket c = b} =
      set (plan_owners new r t b) - set (plan_owners old r t b)" if "b < NUM_BUCKETS" for b
    using ne [OF that] by (simp add: plan plan_copies_bucket [OF that] old bucket_copy_targets)
  have drs: "dr_node ` {d \<in> set (rp_drops plan). dr_bucket d = b} =
      set (plan_owners old r t b) - set (plan_owners new r t b)" if "b < NUM_BUCKETS" for b
    by (simp add: plan plan_drops_bucket [OF that] old bucket_drop_targets)
  have "{b. b < NUM_BUCKETS \<and> bucket_moves b (plan_owners old r t b) (plan_owners new r t b)} =
      {b. b < NUM_BUCKETS \<and> set (plan_owners old r t b) \<noteq> set (plan_owners new r t b)}"
    using ne bucket_moves_iff by blast
  then have "rp_moved_buckets plan =
      card {b. b < NUM_BUCKETS \<and> set (plan_owners old r t b) \<noteq> set (plan_owners new r t b)}"
    by (simp add: plan plan_reshard_eq old)
  moreover have "\<forall>c \<in> set (rp_copies plan). cp_from c \<in> set (plan_owners old r t (cp_bucket c))
        \<and> cp_to c \<notin> set (plan_owners old r t (cp_bucket c))"
    unfolding plan by (auto simp: in_plan_copies in_bucket_copies old)
  moreover have "\<forall>d \<in> set (rp_drops plan). dr_node d \<in> set (plan_owners old r t (dr_bucket d))"
    unfolding plan by (auto simp: in_plan_drops in_bucket_drops old)
  moreover have "distinct (rp_copies plan)" "distinct (rp_drops plan)"
    unfolding plan by (rule plan_distinct [OF assms(1,2)])+
  moreover have "set (plan_owners old r t b) \<union> cp_to ` {c \<in> set (rp_copies plan). cp_bucket c = b}
      - dr_node ` {d \<in> set (rp_drops plan). dr_bucket d = b} = set (plan_owners new r t b)"
    if "b < NUM_BUCKETS" for b
    unfolding cps [OF that] drs [OF that] by blast
  ultimately show ?thesis by blast
qed

theorem plan_reshard_exact_witness:
  "distinct (rp_copies (plan_reshard [''a''] [''a'', ''b''] 1 []))
   \<and> rp_moved_buckets (plan_reshard [''a''] [''a'', ''b''] 1 []) =
       card {b. b < NUM_BUCKETS \<and>
         set (plan_owners [''a''] 1 [] b) \<noteq> set (plan_owners [''a'', ''b''] 1 [] b)}"
  using plan_reshard_exact [of "[''a'']" "[''a'', ''b'']" _ 1 "[]"] by simp

text \<open>
  Single-node changes move the minimum: when a node leaves, only buckets it owned receive
  copies, at most one each, and only it drops data; when a node joins, it is the only node that
  receives copies.
\<close>

theorem plan_single_node_minimal:
  assumes "distinct ns" and "without = filter (\<lambda>n. n \<noteq> x) ns"
  shows "(\<forall>c \<in> set (rp_copies (plan_reshard ns without r [])).
        x \<in> set (plan_owners ns r [] (cp_bucket c))
        \<and> (\<forall>c' \<in> set (rp_copies (plan_reshard ns without r [])). cp_bucket c' = cp_bucket c \<longrightarrow> c' = c))
    \<and> (\<forall>d \<in> set (rp_drops (plan_reshard ns without r [])). dr_node d = x)
    \<and> (\<forall>c \<in> set (rp_copies (plan_reshard without ns r [])). cp_to c = x)"
proof (intro conjI ballI)
  fix c assume c: "c \<in> set (rp_copies (plan_reshard ns without r []))"
  then have b: "cp_bucket c < NUM_BUCKETS" by (simp add: in_plan_copies)
  show "x \<in> set (plan_owners ns r [] (cp_bucket c))"
    using c plan_owners_remove(2) [OF assms(1) b, of x r] assms(2)
    by (rule_tac ccontr) (auto simp: in_plan_copies in_bucket_copies old_plan_owners_def split: if_splits)
  fix c' assume c': "c' \<in> set (rp_copies (plan_reshard ns without r []))"
  show "cp_bucket c' = cp_bucket c \<longrightarrow> c' = c"
    using c c' plan_owners_remove_one [OF assms(1) b, of "cp_to c'" x r "cp_to c"] assms(2)
    by (intro impI copy_action.equality)
      (simp_all add: in_plan_copies in_bucket_copies old_plan_owners_def split: if_splits)
next
  fix d assume d: "d \<in> set (rp_drops (plan_reshard ns without r []))"
  then have b: "dr_bucket d < NUM_BUCKETS" by (simp add: in_plan_drops)
  show "dr_node d = x"
    using d plan_owners_remove(1) [OF assms(1) b, of r x] assms(2)
    by (auto simp: in_plan_drops in_bucket_drops old_plan_owners_def split: if_splits)
next
  fix c assume c: "c \<in> set (rp_copies (plan_reshard without ns r []))"
  then have b: "cp_bucket c < NUM_BUCKETS" by (simp add: in_plan_copies)
  show "cp_to c = x"
    using c plan_owners_remove(1) [OF assms(1) b, of r x] assms(2)
    by (auto simp: in_plan_copies in_bucket_copies old_plan_owners_def split: if_splits)
qed

end
