(* ===== verification/Lease.thy ===== *)
theory Lease
  imports Stplr_Prelude
begin

text \<open>
  TTL leases, \<^verbatim>\<open>src/lease.rs\<close>: the record kept at the leader key, the pure transition
  \<open>evaluate\<close>, and runs of acquire attempts against one arbiter with a monotone clock. The lemmas
  show mutual exclusion (at every moment at most one holder has an unexpired grant), fencing
  (tokens never decrease, and two grants with the same token belong to the same holder), and where
  both stop holding: an expiry that overflows \<^verbatim>\<open>u64\<close>.
\<close>

subsection \<open>The lease record and its transition\<close>

definition LEASE_COLL :: string where
  "LEASE_COLL = ''__lease''"

definition LEADER_KEY :: string where
  "LEADER_KEY = ''coordinator''"

record lease =
  ls_holder :: string
  ls_expires_ms :: u64
  ls_token :: u64

record lease_outcome =
  lo_granted :: bool
  lo_lease :: lease

definition evaluate :: "lease option \<Rightarrow> string \<Rightarrow> u64 \<Rightarrow> u64 \<Rightarrow> lease_outcome" where
  "evaluate current holder ttl_ms now_ms =
     (case current of
        Some l \<Rightarrow>
          if ls_holder l = holder \<and> now_ms < ls_expires_ms l then
            \<lparr>lo_granted = True,
             lo_lease = \<lparr>ls_holder = holder, ls_expires_ms = now_ms + ttl_ms, ls_token = ls_token l\<rparr>\<rparr>
          else if now_ms < ls_expires_ms l then
            \<lparr>lo_granted = False, lo_lease = l\<rparr>
          else
            \<lparr>lo_granted = True,
             lo_lease = \<lparr>ls_holder = holder, ls_expires_ms = now_ms + ttl_ms,
                         ls_token = ls_token l + 1\<rparr>\<rparr>
      | None \<Rightarrow>
          \<lparr>lo_granted = True,
           lo_lease = \<lparr>ls_holder = holder, ls_expires_ms = now_ms + ttl_ms, ls_token = 1\<rparr>\<rparr>)"

text \<open>
  What the arbiter stores after an attempt: the outcome's lease when granted, else what it had.
\<close>

definition lease_next :: "lease option \<Rightarrow> string \<Rightarrow> u64 \<Rightarrow> u64 \<Rightarrow> lease option" where
  "lease_next current holder ttl_ms now_ms =
     (let outcome = evaluate current holder ttl_ms now_ms in
      if lo_granted outcome then Some (lo_lease outcome) else current)"

text \<open>
  Runs of the arbiter: the stored lease, the clock, and the grants handed out, newest first. The
  clock never goes back and no expiry overflows.
\<close>

inductive lease_run :: "lease option \<Rightarrow> u64 \<Rightarrow> lease list \<Rightarrow> bool" where
  lease_vacant: "lease_run None now []"
| lease_attempt:
    "lease_run current now grants \<Longrightarrow> now \<le> now' \<Longrightarrow> unat now' + unat ttl < 2 ^ 64 \<Longrightarrow>
     outcome = evaluate current holder ttl now' \<Longrightarrow>
     lease_run (lease_next current holder ttl now') now'
       (if lo_granted outcome then lo_lease outcome # grants else grants)"

text \<open>
  A holder believes it leads while the last grant it was handed has not expired.
\<close>

fun believes :: "string \<Rightarrow> lease list \<Rightarrow> u64 \<Rightarrow> bool" where
  "believes h [] now = False"
| "believes h (g # gs) now = (if ls_holder g = h then now < ls_expires_ms g else believes h gs now)"

definition fenced :: "lease \<Rightarrow> lease \<Rightarrow> bool" where
  "fenced newer older \<longleftrightarrow> ls_token older \<le> ls_token newer \<and>
     (ls_token older = ls_token newer \<longrightarrow> ls_holder older = ls_holder newer)"

subsection \<open>Invariants of a run\<close>

lemma evaluate_cases:
  obtains (renew) l where "current = Some l" "ls_holder l = h" "now < ls_expires_ms l"
      "evaluate current h ttl now = \<lparr>lo_granted = True, lo_lease =
         \<lparr>ls_holder = h, ls_expires_ms = now + ttl, ls_token = ls_token l\<rparr>\<rparr>"
  | (denied) l where "current = Some l" "ls_holder l \<noteq> h" "now < ls_expires_ms l"
      "evaluate current h ttl now = \<lparr>lo_granted = False, lo_lease = l\<rparr>"
  | (expired) l where "current = Some l" "ls_expires_ms l \<le> now"
      "evaluate current h ttl now = \<lparr>lo_granted = True, lo_lease =
         \<lparr>ls_holder = h, ls_expires_ms = now + ttl, ls_token = ls_token l + 1\<rparr>\<rparr>"
  | (vacant) "current = None"
      "evaluate current h ttl now = \<lparr>lo_granted = True, lo_lease =
         \<lparr>ls_holder = h, ls_expires_ms = now + ttl, ls_token = 1\<rparr>\<rparr>"
proof (cases current)
  case None
  with vacant show thesis by (simp add: evaluate_def)
next
  case (Some l)
  then show thesis
    using renew denied expired
    by (cases "now < ls_expires_ms l"; cases "ls_holder l = h") (auto simp: evaluate_def not_less)
qed

lemma believes_later: "believes h gs now' \<Longrightarrow> now \<le> now' \<Longrightarrow> believes h gs now"
  by (induction h gs now rule: believes.induct) (auto split: if_splits)

lemma lease_run_current:
  "lease_run current now gs \<Longrightarrow> current = (case gs of [] \<Rightarrow> None | g # _ \<Rightarrow> Some g)"
  by (induction rule: lease_run.induct) (auto simp: lease_next_def Let_def)

lemma lease_run_others:
  "lease_run current now gs \<Longrightarrow> believes h gs now \<Longrightarrow> \<exists>l. current = Some l \<and> ls_holder l = h"
proof (induction arbitrary: h rule: lease_run.induct)
  case (lease_attempt current now gs now' ttl out holder)
  note cur = lease_run_current [OF lease_attempt.hyps(1)]
  have IH: "\<exists>l. current = Some l \<and> ls_holder l = h \<and> now' < ls_expires_ms l"
    if "believes h gs now'" for h
  proof -
    from that lease_attempt.hyps(2) have "believes h gs now" by (rule believes_later)
    from lease_attempt.IH [OF this] that cur show ?thesis by (cases gs) auto
  qed
  show ?case
    using lease_attempt.prems IH [of h]
    by (cases rule: evaluate_cases [of current holder now' ttl])
      (auto simp: lease_next_def Let_def lease_attempt.hyps(4) split: if_splits)
qed simp

lemma lease_run_token: "lease_run (Some l) now gs \<Longrightarrow> unat (ls_token l) \<le> length gs"
proof (induction "Some l" now gs arbitrary: l rule: lease_run.induct)
  case (lease_attempt current now gs now' ttl out holder)
  show ?case
  proof (cases rule: evaluate_cases [of current holder now' ttl])
    case (expired k)
    then have "unat (ls_token k) \<le> length gs" using lease_attempt.hyps(2) by simp
    moreover have "unat (ls_token k + 1) \<le> Suc (unat (ls_token k))"
      by (simp add: unat_word_ariths)
    ultimately show ?thesis
      using expired lease_attempt.hyps(5,6) by (auto simp: lease_next_def Let_def)
  qed (use lease_attempt.hyps in \<open>fastforce simp: lease_next_def Let_def\<close>)+
qed

lemma fenced_trans: "fenced a b \<Longrightarrow> fenced b c \<Longrightarrow> fenced a c"
  by (auto simp: fenced_def)

lemma lease_run_fenced:
  "lease_run current now gs \<Longrightarrow> length gs < 2 ^ 64 \<Longrightarrow> sorted_wrt fenced gs"
proof (induction rule: lease_run.induct)
  case (lease_attempt current now gs now' ttl out holder)
  note cur = lease_run_current [OF lease_attempt.hyps(1)]
  have IH: "sorted_wrt fenced gs"
    using lease_attempt by (auto split: if_splits)
  show ?case
  proof (cases rule: evaluate_cases [of current holder now' ttl])
    case (renew l)
    then obtain gs' where gs: "gs = l # gs'" using cur by (cases gs) auto
    have "fenced (lo_lease out) l" using renew lease_attempt.hyps(4) by (simp add: fenced_def)
    with IH renew lease_attempt.hyps(4) show ?thesis by (auto simp: gs dest: fenced_trans)
  next
    case (expired l)
    then obtain gs' where gs: "gs = l # gs'" using cur by (cases gs) auto
    have "unat (ls_token l) \<le> length gs"
      using lease_attempt.hyps(1) expired(1) lease_run_token by simp
    moreover have "Suc (length gs) < 2 ^ 64"
      using lease_attempt.prems expired(3) lease_attempt.hyps(4) by simp
    ultimately have "unat (ls_token l) + 1 < 2 ^ 64" by linarith
    then have "ls_token l < ls_token l + 1"
      by (simp add: word_less_nat_alt unat_word_ariths)
    then have "fenced (lo_lease out) l" using expired lease_attempt.hyps(4) by (simp add: fenced_def)
    with IH expired lease_attempt.hyps(4) show ?thesis by (auto simp: gs dest: fenced_trans)
  next
    case vacant
    then have "gs = []" using cur by (cases gs) auto
    with vacant lease_attempt.hyps(4) show ?thesis by simp
  qed (use IH lease_attempt.hyps(4) in simp)
qed simp

subsection \<open>Properties\<close>

text \<open>
  C27. Mutual exclusion: whatever holders try whenever, at the arbiter's clock or later at most
  one of them has an unexpired grant, and it is the holder of the stored lease.
\<close>

theorem lease_mutual_exclusion:
  assumes "lease_run current now grants" and "now \<le> t"
    and "believes h grants t" and "believes h' grants t"
  shows "h = h' \<and> (\<exists>l. current = Some l \<and> ls_holder l = h)"
proof -
  have "believes h grants now" "believes h' grants now"
    using assms(2-4) by (auto intro: believes_later)
  with lease_run_others [OF assms(1), of h] lease_run_others [OF assms(1), of h'] show ?thesis by auto
qed

theorem lease_mutual_exclusion_witness:
  "\<exists>current grants. lease_run current 5 grants \<and> believes ''c1'' grants 5 \<and> \<not> believes ''c2'' grants 5"
proof -
  let ?l = "\<lparr>ls_holder = ''c1'', ls_expires_ms = 10, ls_token = 1\<rparr>"
  have "lease_run (lease_next None ''c1'' 5 5) 5
      (if lo_granted (evaluate None ''c1'' 5 5) then lo_lease (evaluate None ''c1'' 5 5) # [] else [])"
    by (rule lease_attempt [OF lease_vacant [of 5]]) simp_all
  then have run: "lease_run (Some ?l) 5 [?l]"
    by (simp add: lease_next_def evaluate_def)
  have "believes ''c1'' [?l] 5" by simp
  moreover have "\<not> believes ''c2'' [?l] 5"
    using lease_mutual_exclusion [OF run, of 5 "''c1''" "''c2''"] by auto
  ultimately show ?thesis using run by blast
qed

text \<open>
  C28. Fencing: along the grants of a run the token never decreases, and it stays the same only
  between grants of one holder; so a holder whose token is behind the newest one has been deposed.
  The bound on the number of grants keeps the 64-bit token from wrapping.
\<close>

theorem lease_fencing:
  assumes "lease_run current now (newer @ g # middle @ g' # older)"
    and "length (newer @ g # middle @ g' # older) < 2 ^ 64"
  shows "ls_token g' \<le> ls_token g \<and> (ls_holder g' \<noteq> ls_holder g \<longrightarrow> ls_token g' < ls_token g)"
  using lease_run_fenced [OF assms] by (auto simp: sorted_wrt_append fenced_def order_less_le)

theorem lease_fencing_witness:
  "\<exists>current now. lease_run current now
     ([] @ \<lparr>ls_holder = ''c2'', ls_expires_ms = 16, ls_token = 2\<rparr> # [] @
      \<lparr>ls_holder = ''c1'', ls_expires_ms = 10, ls_token = 1\<rparr> # [])
   \<and> ls_token \<lparr>ls_holder = ''c1'', ls_expires_ms = 10, ls_token = 1\<rparr>
     < ls_token \<lparr>ls_holder = ''c2'', ls_expires_ms = 16, ls_token = 2\<rparr>"
proof -
  let ?l = "\<lparr>ls_holder = ''c1'', ls_expires_ms = 10, ls_token = 1\<rparr>"
  let ?l' = "\<lparr>ls_holder = ''c2'', ls_expires_ms = 16, ls_token = 2\<rparr>"
  have "lease_run (lease_next None ''c1'' 5 5) 5
      (if lo_granted (evaluate None ''c1'' 5 5) then lo_lease (evaluate None ''c1'' 5 5) # [] else [])"
    by (rule lease_attempt [OF lease_vacant [of 5]]) simp_all
  then have run: "lease_run (Some ?l) 5 [?l]"
    by (simp add: lease_next_def evaluate_def)
  have "lease_run (lease_next (Some ?l) ''c2'' 5 11) 11
      (if lo_granted (evaluate (Some ?l) ''c2'' 5 11)
       then lo_lease (evaluate (Some ?l) ''c2'' 5 11) # [?l] else [?l])"
    by (rule lease_attempt [OF run]) simp_all
  then have "lease_run (Some ?l') 11 ([] @ ?l' # [] @ ?l # [])"
    by (simp add: lease_next_def evaluate_def)
  moreover from lease_fencing [OF this] have "ls_token ?l < ls_token ?l'" by simp
  ultimately show ?thesis by blast
qed

text \<open>
  The bound on the expiry is needed: \<^verbatim>\<open>now_ms + ttl_ms\<close> wraps, so a very large TTL gives a
  lease that is expired when it is granted, and a second holder is granted the lease at the same
  moment, while the first holder was told that it holds it.
\<close>

theorem lease_ttl_overflow:
  "lo_granted (evaluate None ''c1'' (- 1) 5) \<and>
   lo_granted (evaluate (lease_next None ''c1'' (- 1) 5) ''c2'' 1000 5)"
  by (simp add: evaluate_def lease_next_def)

end
