(* ===== verification/Guard.thy ===== *)
theory Guard
  imports Stplr_Prelude
begin

text \<open>
  The per-bucket freeze/drain gate, \<^verbatim>\<open>src/guard.rs\<close>. The critical sections of \<^verbatim>\<open>Gates\<close> are
  functions on its state; \<open>gate_step\<close> interleaves any number of tasks that enter, leave, freeze,
  drain and unfreeze, one critical section at a time, with the loops of \<^verbatim>\<open>enter\<close> and \<^verbatim>\<open>drain\<close>
  broken at every point where another task can run. The \<^verbatim>\<open>tokio::sync::watch\<close> channel is a
  parameter of the model; \<open>watch_laws\<close> states the documented behaviour the gate relies on.

  The lemmas show that a drained frozen bucket has no operation in flight and admits none until
  it is unfrozen, that the in-flight table counts the live tokens exactly, and that no wakeup is
  lost.
\<close>

subsection \<open>The gate\<close>

record ('ch, 'rx) watch_channel =
  wt_channel :: "u64 \<Rightarrow> 'ch"
  wt_subscribe :: "'ch \<Rightarrow> 'rx"
  wt_send :: "'ch \<Rightarrow> u64 \<Rightarrow> 'ch"
  wt_changed :: "'ch \<Rightarrow> 'rx \<Rightarrow> bool"

text \<open>
  A receiver observes a change once at least one value was sent after it subscribed, however many
  were: the channel retains the latest value.
\<close>

definition watch_laws :: "('ch, 'rx) watch_channel \<Rightarrow> bool" where
  "watch_laws W \<longleftrightarrow>
     (\<forall>ch v vs. wt_changed W (foldl (wt_send W) ch (v # vs)) (wt_subscribe W ch))"

record 'ch gates =
  ga_frozen :: "nat set"
  ga_in_flight :: "(nat, nat) hashmap"
  ga_tx :: 'ch
  ga_gen :: u64

definition gates_new :: "('ch, 'rx) watch_channel \<Rightarrow> 'ch gates" where
  "gates_new W = \<lparr>ga_frozen = {}, ga_in_flight = [], ga_tx = wt_channel W 0, ga_gen = 0\<rparr>"

definition bump :: "('ch, 'rx) watch_channel \<Rightarrow> 'ch gates \<Rightarrow> 'ch gates" where
  "bump W g = (let n = ga_gen g + 1 in g\<lparr>ga_gen := n, ga_tx := wt_send W (ga_tx g) n\<rparr>)"

text \<open>One pass of the loop of \<^verbatim>\<open>enter\<close> under the lock: \<open>None\<close> while the bucket is frozen.\<close>

definition enter_try :: "nat \<Rightarrow> 'ch gates \<Rightarrow> 'ch gates option" where
  "enter_try b g =
     (if b \<notin> ga_frozen g then
        Some (g\<lparr>ga_in_flight := hm_insert b (hm_or_default 0 (ga_in_flight g) b + 1) (ga_in_flight g)\<rparr>)
      else None)"

definition leave_dec :: "nat \<Rightarrow> 'ch gates \<Rightarrow> 'ch gates" where
  "leave_dec b g =
     (case hm_get (ga_in_flight g) b of
        Some n \<Rightarrow> if n - 1 = 0 then g\<lparr>ga_in_flight := hm_remove b (ga_in_flight g)\<rparr>
                  else g\<lparr>ga_in_flight := hm_insert b (n - 1) (ga_in_flight g)\<rparr>
      | None \<Rightarrow> g)"

definition gate_leave :: "('ch, 'rx) watch_channel \<Rightarrow> nat \<Rightarrow> 'ch gates \<Rightarrow> 'ch gates" where
  "gate_leave W b g = bump W (leave_dec b g)"

definition gate_freeze :: "nat list \<Rightarrow> 'ch gates \<Rightarrow> 'ch gates" where
  "gate_freeze buckets g = foldl (\<lambda>g b. g\<lparr>ga_frozen := insert b (ga_frozen g)\<rparr>) g buckets"

text \<open>The condition that \<^verbatim>\<open>drain\<close> checks under the lock.\<close>

definition drained :: "nat list \<Rightarrow> 'ch gates \<Rightarrow> bool" where
  "drained buckets g \<longleftrightarrow> list_all (\<lambda>b. hm_or_default 0 (ga_in_flight g) b = 0) buckets"

definition thaw :: "nat list \<Rightarrow> 'ch gates \<Rightarrow> 'ch gates" where
  "thaw buckets g = foldl (\<lambda>g b. g\<lparr>ga_frozen := ga_frozen g - {b}\<rparr>) g buckets"

definition gate_unfreeze :: "('ch, 'rx) watch_channel \<Rightarrow> nat list \<Rightarrow> 'ch gates \<Rightarrow> 'ch gates" where
  "gate_unfreeze W buckets g = bump W (thaw buckets g)"

subsection \<open>Interleaved tasks\<close>

text \<open>
  A task inside \<^verbatim>\<open>enter\<close> or \<^verbatim>\<open>drain\<close> has subscribed and is about to check (\<open>Checking\<close>), or has
  failed its check and awaits a change (\<open>Waiting\<close>). \<open>gs_tokens\<close> are the live gate tokens,
  \<open>gs_bumps\<close> counts the tasks that released the lock in \<^verbatim>\<open>leave\<close> or \<^verbatim>\<open>unfreeze\<close> and have not sent
  their notification yet, and \<open>gs_exclusive\<close> holds the buckets that a returned \<^verbatim>\<open>drain\<close> found
  frozen and idle and that were not unfrozen since.
\<close>

datatype gate_call = Entering nat | Draining "nat list"
datatype 'rx gate_task = Checking gate_call 'rx | Waiting gate_call 'rx

record ('ch, 'rx) gate_sys =
  gs_gates :: "'ch gates"
  gs_tokens :: "nat list"
  gs_tasks :: "'rx gate_task list"
  gs_bumps :: nat
  gs_exclusive :: "nat set"

definition gate_init :: "('ch, 'rx) watch_channel \<Rightarrow> ('ch, 'rx) gate_sys" where
  "gate_init W = \<lparr>gs_gates = gates_new W, gs_tokens = [], gs_tasks = [], gs_bumps = 0,
     gs_exclusive = {}\<rparr>"

inductive gate_step :: "('ch, 'rx) watch_channel \<Rightarrow> ('ch, 'rx) gate_sys \<Rightarrow> ('ch, 'rx) gate_sys \<Rightarrow> bool"
  for W where
  g_subscribe: "gate_step W s
     (s\<lparr>gs_tasks := Checking c (wt_subscribe W (ga_tx (gs_gates s))) # gs_tasks s\<rparr>)"
| g_entered: "gs_tasks s = ts @ Checking (Entering b) rx # us \<Longrightarrow>
     enter_try b (gs_gates s) = Some g \<Longrightarrow>
     gate_step W s (s\<lparr>gs_gates := g, gs_tasks := ts @ us, gs_tokens := b # gs_tokens s\<rparr>)"
| g_enter_blocked: "gs_tasks s = ts @ Checking (Entering b) rx # us \<Longrightarrow>
     enter_try b (gs_gates s) = None \<Longrightarrow>
     gate_step W s (s\<lparr>gs_tasks := ts @ Waiting (Entering b) rx # us\<rparr>)"
| g_drained: "gs_tasks s = ts @ Checking (Draining bs) rx # us \<Longrightarrow> drained bs (gs_gates s) \<Longrightarrow>
     gate_step W s (s\<lparr>gs_tasks := ts @ us,
       gs_exclusive := gs_exclusive s \<union> set bs \<inter> ga_frozen (gs_gates s)\<rparr>)"
| g_drain_blocked: "gs_tasks s = ts @ Checking (Draining bs) rx # us \<Longrightarrow>
     \<not> drained bs (gs_gates s) \<Longrightarrow>
     gate_step W s (s\<lparr>gs_tasks := ts @ Waiting (Draining bs) rx # us\<rparr>)"
| g_wake: "gs_tasks s = ts @ Waiting c rx # us \<Longrightarrow> wt_changed W (ga_tx (gs_gates s)) rx \<Longrightarrow>
     gate_step W s (s\<lparr>gs_tasks := ts @ Checking c (wt_subscribe W (ga_tx (gs_gates s))) # us\<rparr>)"
| g_leave: "gs_tokens s = ts @ b # us \<Longrightarrow>
     gate_step W s (s\<lparr>gs_gates := leave_dec b (gs_gates s), gs_tokens := ts @ us,
       gs_bumps := gs_bumps s + 1\<rparr>)"
| g_bump: "gs_bumps s = Suc n \<Longrightarrow>
     gate_step W s (s\<lparr>gs_gates := bump W (gs_gates s), gs_bumps := n\<rparr>)"
| g_freeze: "gate_step W s (s\<lparr>gs_gates := gate_freeze bs (gs_gates s)\<rparr>)"
| g_unfreeze: "gate_step W s (s\<lparr>gs_gates := thaw bs (gs_gates s), gs_bumps := gs_bumps s + 1,
       gs_exclusive := gs_exclusive s - set bs\<rparr>)"

abbreviation gate_reach :: "('ch, 'rx) watch_channel \<Rightarrow> ('ch, 'rx) gate_sys \<Rightarrow> bool" where
  "gate_reach W \<equiv> (gate_step W)\<^sup>*\<^sup>* (gate_init W)"

text \<open>What keeps a task waiting.\<close>

fun blocked :: "gate_call \<Rightarrow> 'ch gates \<Rightarrow> bool" where
  "blocked (Entering b) g \<longleftrightarrow> b \<in> ga_frozen g"
| "blocked (Draining bs) g \<longleftrightarrow> \<not> drained bs g"

definition gate_ok :: "('ch, 'rx) gate_sys \<Rightarrow> bool" where
  "gate_ok s \<longleftrightarrow>
     (\<forall>b. hm_get (ga_in_flight (gs_gates s)) b =
       (let n = count (mset (gs_tokens s)) b in if n = 0 then None else Some n)) \<and>
     (\<forall>b \<in> gs_exclusive s. b \<in> ga_frozen (gs_gates s) \<and> b \<notin> set (gs_tokens s))"

text \<open>A receiver that subscribed at some earlier state of the channel, and what was sent since.\<close>

definition rx_behind :: "('ch, 'rx) watch_channel \<Rightarrow> 'ch \<Rightarrow> 'rx \<Rightarrow> bool \<Rightarrow> bool" where
  "rx_behind W ch rx news \<longleftrightarrow>
     (\<exists>ch0 vs. rx = wt_subscribe W ch0 \<and> ch = foldl (wt_send W) ch0 vs \<and> (news \<longrightarrow> vs \<noteq> []))"

fun task_ok :: "('ch, 'rx) watch_channel \<Rightarrow> nat \<Rightarrow> 'ch gates \<Rightarrow> 'rx gate_task \<Rightarrow> bool" where
  "task_ok W bumps g (Checking c rx) \<longleftrightarrow> rx_behind W (ga_tx g) rx False"
| "task_ok W bumps g (Waiting c rx) \<longleftrightarrow> rx_behind W (ga_tx g) rx (bumps = 0 \<and> \<not> blocked c g)"

subsection \<open>Invariants\<close>

lemma gate_freeze_simps [simp]:
  "ga_frozen (gate_freeze bs g) = ga_frozen g \<union> set bs"
  "ga_in_flight (gate_freeze bs g) = ga_in_flight g"
  "ga_tx (gate_freeze bs g) = ga_tx g"
  unfolding gate_freeze_def by (induction bs arbitrary: g) auto

lemma thaw_simps [simp]:
  "ga_frozen (thaw bs g) = ga_frozen g - set bs"
  "ga_in_flight (thaw bs g) = ga_in_flight g"
  "ga_tx (thaw bs g) = ga_tx g"
  unfolding thaw_def by (induction bs arbitrary: g) auto

lemma bump_simps [simp]:
  "ga_frozen (bump W g) = ga_frozen g"
  "ga_in_flight (bump W g) = ga_in_flight g"
  "ga_tx (bump W g) = wt_send W (ga_tx g) (ga_gen g + 1)"
  by (simp_all add: bump_def Let_def)

lemma leave_dec_simps [simp]:
  "ga_frozen (leave_dec b g) = ga_frozen g"
  "ga_tx (leave_dec b g) = ga_tx g"
  "hm_get (ga_in_flight (leave_dec b g)) b' =
     (if b' = b then (case hm_get (ga_in_flight g) b of None \<Rightarrow> None
        | Some n \<Rightarrow> if n - 1 = 0 then None else Some (n - 1))
      else hm_get (ga_in_flight g) b')"
  by (auto simp: leave_dec_def hm_simps split: option.splits)

lemma enter_try_Some:
  "enter_try b g = Some g' \<longleftrightarrow> b \<notin> ga_frozen g \<and>
     g' = g\<lparr>ga_in_flight := hm_insert b (hm_or_default 0 (ga_in_flight g) b + 1) (ga_in_flight g)\<rparr>"
  by (auto simp: enter_try_def)

lemma in_flight_count:
  "gate_ok s \<Longrightarrow> hm_or_default 0 (ga_in_flight (gs_gates s)) b = count (mset (gs_tokens s)) b"
  by (simp add: gate_ok_def hm_or_default_def Let_def)

lemma drained_iff:
  "gate_ok s \<Longrightarrow> drained bs (gs_gates s) \<longleftrightarrow> set bs \<inter> set (gs_tokens s) = {}"
  by (auto simp: drained_def list_all_iff in_flight_count count_eq_zero_iff)

lemma gate_ok_step:
  assumes "gate_step W s s'" and "gate_ok s"
  shows "gate_ok s'"
  using assms
proof (cases rule: gate_step.cases)
  case (g_entered ts b rx us g)
  then show ?thesis
    using assms(2) in_flight_count [OF assms(2), of b]
    by (auto simp: gate_ok_def enter_try_Some hm_simps Let_def)
next
  case (g_drained ts bs rx us)
  then have "set bs \<inter> set (gs_tokens s) = {}" using drained_iff [OF assms(2)] by simp
  with g_drained assms(2) show ?thesis by (auto simp: gate_ok_def)
next
  case (g_leave ts b us)
  then show ?thesis using assms(2) by (auto simp: gate_ok_def Let_def)
qed (auto simp: gate_ok_def)

lemma gate_ok_reach: "gate_reach W s \<Longrightarrow> gate_ok s"
  by (induction rule: rtranclp_induct)
    (auto simp: gate_ok_step, simp add: gate_ok_def gate_init_def gates_new_def)

lemma rx_behind_send: "rx_behind W ch rx n \<Longrightarrow> rx_behind W (wt_send W ch v) rx n'"
proof -
  assume "rx_behind W ch rx n"
  then obtain ch0 vs where "rx = wt_subscribe W ch0" "ch = foldl (wt_send W) ch0 vs"
    by (auto simp: rx_behind_def)
  then show ?thesis unfolding rx_behind_def by (intro exI [of _ ch0] exI [of _ "vs @ [v]"]) simp
qed

lemma rx_behind_weaken: "rx_behind W ch rx n \<Longrightarrow> (n' \<Longrightarrow> n) \<Longrightarrow> rx_behind W ch rx n'"
  unfolding rx_behind_def by blast

lemma rx_behind_new: "rx_behind W ch (wt_subscribe W ch) False"
  unfolding rx_behind_def by (metis foldl_Nil)

lemma blocked_enter:
  "enter_try b g = Some g' \<Longrightarrow> blocked c g \<Longrightarrow> blocked c g'"
  by (cases c) (auto simp: enter_try_Some drained_def list_all_iff hm_simps split: if_splits)

lemma blocked_freeze: "blocked c g \<Longrightarrow> blocked c (gate_freeze bs g)"
  by (cases c) (simp_all add: drained_def)

lemma task_ok_mono:
  assumes "task_ok W n g t" and "ga_tx g' = ga_tx g"
    and "n' = 0 \<Longrightarrow> n = 0 \<and> (\<forall>c. blocked c g \<longrightarrow> blocked c g')"
  shows "task_ok W n' g' t"
  using assms by (cases t) (auto intro: rx_behind_weaken)

lemma tasks_ok_step:
  assumes "gate_step W s s'" and "\<forall>t \<in> set (gs_tasks s). task_ok W (gs_bumps s) (gs_gates s) t"
  shows "\<forall>t \<in> set (gs_tasks s'). task_ok W (gs_bumps s') (gs_gates s') t"
  using assms
proof (cases rule: gate_step.cases)
  case (g_entered ts b rx us g)
  have "task_ok W (gs_bumps s) g t" if "task_ok W (gs_bumps s) (gs_gates s) t" for t
    using g_entered(3) blocked_enter [OF g_entered(3)]
    by (intro task_ok_mono [OF that]) (auto simp: enter_try_Some)
  with g_entered assms(2) show ?thesis by simp
next
  case (g_enter_blocked ts b rx us)
  then show ?thesis using assms(2) by (auto simp: enter_try_def split: if_splits)
next
  case (g_leave ts b us)
  have "task_ok W (gs_bumps s + 1) (leave_dec b (gs_gates s)) t"
    if "task_ok W (gs_bumps s) (gs_gates s) t" for t
    by (rule task_ok_mono [OF that]) simp_all
  with g_leave assms(2) show ?thesis by simp
next
  case (g_bump n)
  have "task_ok W n (bump W (gs_gates s)) t" if "task_ok W (gs_bumps s) (gs_gates s) t" for t
    using that by (cases t) (simp_all add: rx_behind_send)
  with g_bump assms(2) show ?thesis by simp
next
  case (g_freeze bs)
  have "task_ok W (gs_bumps s) (gate_freeze bs (gs_gates s)) t"
    if "task_ok W (gs_bumps s) (gs_gates s) t" for t
    by (rule task_ok_mono [OF that]) (simp_all add: blocked_freeze)
  with g_freeze assms(2) show ?thesis by simp
next
  case (g_unfreeze bs)
  have "task_ok W (gs_bumps s + 1) (thaw bs (gs_gates s)) t"
    if "task_ok W (gs_bumps s) (gs_gates s) t" for t
    by (rule task_ok_mono [OF that]) simp_all
  with g_unfreeze assms(2) show ?thesis by simp
qed (use assms(2) in \<open>simp_all add: rx_behind_new\<close>)

lemma tasks_ok_reach:
  "gate_reach W s \<Longrightarrow> \<forall>t \<in> set (gs_tasks s). task_ok W (gs_bumps s) (gs_gates s) t"
proof (induction rule: rtranclp_induct)
  case base
  then show ?case by (simp add: gate_init_def)
next
  case (step s s')
  show ?case by (rule tasks_ok_step [OF step.hyps(2) step.IH])
qed

subsection \<open>Properties\<close>

text \<open>
  C26. Exclusive access: from the moment \<^verbatim>\<open>drain\<close> returns on frozen buckets until they are
  unfrozen, no operation holds a token for any of them and none can enter, whatever the other
  tasks do; and the in-flight table counts the live tokens of every bucket exactly.
\<close>

theorem gate_exclusive:
  assumes "gate_reach W s"
  shows "(\<forall>b \<in> gs_exclusive s. b \<notin> set (gs_tokens s) \<and> enter_try b (gs_gates s) = None)
    \<and> (\<forall>b. hm_or_default 0 (ga_in_flight (gs_gates s)) b = count (mset (gs_tokens s)) b)"
  using gate_ok_reach [OF assms] in_flight_count [OF gate_ok_reach [OF assms]]
  by (simp add: gate_ok_def enter_try_def)

text \<open>A channel that counts the values sent, and a run that freezes and drains bucket 7 on it.\<close>

definition counting_watch :: "(nat, nat) watch_channel" where
  "counting_watch = \<lparr>wt_channel = (\<lambda>_. 0), wt_subscribe = (\<lambda>ch. ch), wt_send = (\<lambda>ch _. ch + 1),
     wt_changed = (\<lambda>ch rx. rx < ch)\<rparr>"

lemma counting_watch_laws: "watch_laws counting_watch"
proof -
  have "foldl (\<lambda>ch (_ :: u64). Suc ch) ch vs = ch + length vs" for ch vs
    by (induction vs arbitrary: ch) auto
  then show ?thesis by (simp add: watch_laws_def counting_watch_def)
qed

lemma freeze_drain_run:
  "gate_reach counting_watch ((gate_init counting_watch)
     \<lparr>gs_gates := gate_freeze [7] (gs_gates (gate_init counting_watch)), gs_exclusive := {7}\<rparr>)"
  (is "gate_reach _ ?s3")
proof -
  let ?W = counting_watch and ?s = "gate_init counting_watch"
  let ?s1 = "?s\<lparr>gs_gates := gate_freeze [7] (gs_gates ?s)\<rparr>"
  let ?rx = "wt_subscribe ?W (ga_tx (gs_gates ?s1))"
  let ?s2 = "?s1\<lparr>gs_tasks := Checking (Draining [7]) ?rx # gs_tasks ?s1\<rparr>"
  have a: "gate_step ?W ?s ?s1" by (rule g_freeze)
  have b: "gate_step ?W ?s1 ?s2" by (rule g_subscribe)
  have tasks: "gs_tasks ?s2 = [] @ Checking (Draining [7]) ?rx # []"
    by (simp add: gate_init_def)
  have dr: "drained [7] (gs_gates ?s2)"
    by (simp add: drained_def gate_init_def gates_new_def hm_or_default_def)
  have c: "gate_step ?W ?s2 (?s2\<lparr>gs_tasks := [] @ [],
      gs_exclusive := gs_exclusive ?s2 \<union> set [7] \<inter> ga_frozen (gs_gates ?s2)\<rparr>)"
    by (rule g_drained [OF tasks dr])
  have "?s2\<lparr>gs_tasks := [] @ [],
      gs_exclusive := gs_exclusive ?s2 \<union> set [7] \<inter> ga_frozen (gs_gates ?s2)\<rparr> = ?s3"
    by (simp add: gate_init_def)
  with a b c show ?thesis
    by (metis (no_types, lifting) rtranclp.rtrancl_into_rtrancl rtranclp.rtrancl_refl)
qed

theorem gate_exclusive_witness:
  "enter_try 7 (gate_freeze [7] (gs_gates (gate_init counting_watch))) = None"
  using gate_exclusive [OF freeze_drain_run] by simp

text \<open>
  C32. No wakeup is lost: when no notification is outstanding, a task that waits inside
  \<^verbatim>\<open>enter\<close> or \<^verbatim>\<open>drain\<close> is either about to be woken by its receiver or is really blocked, by a
  frozen bucket or by an operation still in flight.
\<close>

theorem gate_no_lost_wakeup:
  assumes "watch_laws W" and "gate_reach W s" and "Waiting c rx \<in> set (gs_tasks s)"
    and "gs_bumps s = 0"
  shows "wt_changed W (ga_tx (gs_gates s)) rx \<or> blocked c (gs_gates s)"
proof (rule disjCI)
  assume "\<not> blocked c (gs_gates s)"
  with tasks_ok_reach [OF assms(2)] assms(3,4) have "rx_behind W (ga_tx (gs_gates s)) rx True"
    by fastforce
  then obtain ch0 v vs where "rx = wt_subscribe W ch0" "ga_tx (gs_gates s) = foldl (wt_send W) ch0 (v # vs)"
    unfolding rx_behind_def by (metis neq_Nil_conv)
  with assms(1) show "wt_changed W (ga_tx (gs_gates s)) rx"
    by (simp add: watch_laws_def)
qed

lemma frozen_wait_run:
  "gate_reach counting_watch ((gate_init counting_watch)
     \<lparr>gs_gates := gate_freeze [7] (gs_gates (gate_init counting_watch)),
      gs_tasks := [Waiting (Entering 7) 0]\<rparr>)"
  (is "gate_reach _ ?s3")
proof -
  let ?W = counting_watch and ?s = "gate_init counting_watch"
  let ?s1 = "?s\<lparr>gs_gates := gate_freeze [7] (gs_gates ?s)\<rparr>"
  let ?rx = "wt_subscribe ?W (ga_tx (gs_gates ?s1))"
  let ?s2 = "?s1\<lparr>gs_tasks := Checking (Entering 7) ?rx # gs_tasks ?s1\<rparr>"
  have a: "gate_step ?W ?s ?s1" by (rule g_freeze)
  have b: "gate_step ?W ?s1 ?s2" by (rule g_subscribe)
  have tasks: "gs_tasks ?s2 = [] @ Checking (Entering 7) ?rx # []"
    by (simp add: gate_init_def)
  have bl: "enter_try 7 (gs_gates ?s2) = None" by (simp add: enter_try_def)
  have c: "gate_step ?W ?s2 (?s2\<lparr>gs_tasks := [] @ Waiting (Entering 7) ?rx # []\<rparr>)"
    by (rule g_enter_blocked [OF tasks bl])
  have "?s2\<lparr>gs_tasks := [] @ Waiting (Entering 7) ?rx # []\<rparr> = ?s3"
    by (simp add: gate_init_def counting_watch_def gates_new_def)
  with a b c show ?thesis
    by (metis (no_types, lifting) rtranclp.rtrancl_into_rtrancl rtranclp.rtrancl_refl)
qed

theorem gate_no_lost_wakeup_witness:
  "wt_changed counting_watch (ga_tx (gate_freeze [7] (gs_gates (gate_init counting_watch)))) 0
   \<or> blocked (Entering 7) (gate_freeze [7] (gs_gates (gate_init counting_watch)))"
  using gate_no_lost_wakeup [OF counting_watch_laws frozen_wait_run, of "Entering 7" 0]
  by (simp add: gate_init_def)

end
