(* ===== verification/Json.thy ===== *)
theory Json
  imports Lease
begin

text \<open>
  JSON values. \<^verbatim>\<open>serde_json\<close> is a library the sources only call, so the type of values is a
  type variable and the conversions the sources use are a parameter, the record \<open>json\<close>;
  \<open>json_laws\<close> states what the sources rely on: a value converted to JSON converts back to itself,
  and equality of values is reflexive.
\<close>

record 'v json =
  js_eq :: "'v \<Rightarrow> 'v \<Rightarrow> bool"
  js_of_strings :: "string list \<Rightarrow> 'v"
  js_to_strings :: "'v \<Rightarrow> string list option"
  js_of_i64 :: "i64 \<Rightarrow> 'v"
  js_as_i64 :: "'v \<Rightarrow> i64 option"
  js_as_str :: "'v \<Rightarrow> string option"
  js_of_lease :: "lease \<Rightarrow> 'v"
  js_to_lease :: "'v \<Rightarrow> lease option"

definition json_laws :: "'v json \<Rightarrow> bool" where
  "json_laws J \<longleftrightarrow>
     (\<forall>v. js_eq J v v) \<and>
     (\<forall>xs. js_to_strings J (js_of_strings J xs) = Some xs) \<and>
     (\<forall>n. js_as_i64 J (js_of_i64 J n) = Some n) \<and>
     (\<forall>l. js_to_lease J (js_of_lease J l) = Some l)"

text \<open>\<^verbatim>\<open>==\<close> on \<^verbatim>\<open>Option<Value>\<close>.\<close>

fun js_eq_opt :: "'v json \<Rightarrow> 'v option \<Rightarrow> 'v option \<Rightarrow> bool" where
  "js_eq_opt J None None = True"
| "js_eq_opt J (Some a) (Some b) = js_eq J a b"
| "js_eq_opt J _ _ = False"

text \<open>\<^verbatim>\<open>v.as_i64().or_else(|| v.as_str().and_then(|s| s.trim().parse().ok()))\<close>.\<close>

definition js_integer :: "'v json \<Rightarrow> 'v \<Rightarrow> i64 option" where
  "js_integer J v = (case js_as_i64 J v of
       Some n \<Rightarrow> Some n
     | None \<Rightarrow> (case js_as_str J v of None \<Rightarrow> None | Some s \<Rightarrow> parse_i64 (trim_str s)))"

text \<open>\<^verbatim>\<open>and_then(|v| serde_json::from_value(v).ok()).unwrap_or_default()\<close> at \<^verbatim>\<open>Vec<String>\<close>.\<close>

definition js_members :: "'v json \<Rightarrow> 'v option \<Rightarrow> string list" where
  "js_members J ov = (case ov of None \<Rightarrow> []
     | Some v \<Rightarrow> (case js_to_strings J v of None \<Rightarrow> [] | Some xs \<Rightarrow> xs))"

lemma js_members_of_strings [simp]: "json_laws J \<Longrightarrow> js_members J (Some (js_of_strings J xs)) = xs"
  by (simp add: js_members_def json_laws_def)

lemma js_members_None [simp]: "js_members J None = []"
  by (simp add: js_members_def)

lemma js_integer_of_i64 [simp]: "json_laws J \<Longrightarrow> js_integer J (js_of_i64 J n) = Some n"
  by (simp add: js_integer_def json_laws_def)

lemma js_eq_opt_refl [simp]: "json_laws J \<Longrightarrow> js_eq_opt J v v"
  by (cases v) (simp_all add: json_laws_def)

subsection \<open>A concrete instance, for evaluation\<close>

datatype jv = JStr string | JInt i64 | JStrings "string list" | JLease lease

definition jv_json :: "jv json" where
  "jv_json = \<lparr>js_eq = (=),
     js_of_strings = JStrings, js_to_strings = (\<lambda>v. case v of JStrings xs \<Rightarrow> Some xs | _ \<Rightarrow> None),
     js_of_i64 = JInt, js_as_i64 = (\<lambda>v. case v of JInt n \<Rightarrow> Some n | _ \<Rightarrow> None),
     js_as_str = (\<lambda>v. case v of JStr s \<Rightarrow> Some s | _ \<Rightarrow> None),
     js_of_lease = JLease, js_to_lease = (\<lambda>v. case v of JLease l \<Rightarrow> Some l | _ \<Rightarrow> None)\<rparr>"

lemma jv_json_laws [simp]: "json_laws jv_json"
  by (simp add: json_laws_def jv_json_def)

end
