(* ===== verification/Store.thy ===== *)
theory Store
  imports Partitioner Json
begin

text \<open>
  The storage seam, \<^verbatim>\<open>src/store.rs\<close>: the trait \<^verbatim>\<open>IndexStore\<close> with its provided methods, and the
  in-memory implementation \<^verbatim>\<open>MemoryStore\<close>.

  A trait object is a record of operations, \<open>index_store\<close>, over a store type \<open>'s\<close>: its fields
  are the methods an implementation supplies or may override, and the provided methods that no
  implementation overrides are functions over the record. Reads take the clock \<open>now\<close>, which the
  code reads with \<^verbatim>\<open>now_epoch_ms\<close>. The locale \<open>kv_store\<close> is the contract of a store: every
  operation in terms of what \<open>get_object\<close> returns. The provided methods are proved correct
  once, against the contract, and \<^verbatim>\<open>MemoryStore\<close> is shown to fulfil it.
\<close>

subsection \<open>The trait\<close>

record 'v row =
  row_id :: string
  row_doc :: 'v

record capabilities =
  native_set_logic :: bool

record ('s, 'v) index_store =
  st_put_object :: "string \<Rightarrow> string \<Rightarrow> 'v \<Rightarrow> 's \<Rightarrow> 's"
  st_put_batch :: "(string \<times> string \<times> 'v) list \<Rightarrow> 's \<Rightarrow> 's"
  st_get_object :: "u64 \<Rightarrow> 's \<Rightarrow> string \<Rightarrow> string \<Rightarrow> 'v option"
  st_scan_objects :: "u64 \<Rightarrow> 's \<Rightarrow> string \<Rightarrow> 'v list"
  st_scan_entries :: "u64 \<Rightarrow> 's \<Rightarrow> string \<Rightarrow> (string \<times> 'v) list"
  st_scan_range :: "u64 \<Rightarrow> 's \<Rightarrow> string \<Rightarrow> string option \<Rightarrow> string option \<Rightarrow> string option \<Rightarrow> nat
    \<Rightarrow> string list"
  st_clear_collection :: "string \<Rightarrow> 's \<Rightarrow> 's"
  st_delete_object :: "string \<Rightarrow> string \<Rightarrow> 's \<Rightarrow> 's"
  st_put_object_at :: "string \<Rightarrow> string \<Rightarrow> 'v \<Rightarrow> u64 \<Rightarrow> 's \<Rightarrow> 's"
  st_expiry_of :: "'s \<Rightarrow> string \<Rightarrow> string \<Rightarrow> u64 option"
  st_sweep_expired :: "u64 \<Rightarrow> 's \<Rightarrow> 's \<times> nat"
  st_snapshot :: "'s \<Rightarrow> string \<Rightarrow> string + unit"
  st_capabilities :: "'s \<Rightarrow> capabilities"

text \<open>The default bodies that an implementation may override.\<close>

definition default_put_batch :: "(string \<Rightarrow> string \<Rightarrow> 'v \<Rightarrow> 's \<Rightarrow> 's) \<Rightarrow> (string \<times> string \<times> 'v) list
    \<Rightarrow> 's \<Rightarrow> 's" where
  "default_put_batch put_object items s = foldl (\<lambda>s (coll, oid, obj). put_object coll oid obj s) s items"

definition range_ok :: "string option \<Rightarrow> string option \<Rightarrow> string option \<Rightarrow> string \<Rightarrow> bool" where
  "range_ok after pre end k \<longleftrightarrow>
     (case after of None \<Rightarrow> True | Some a \<Rightarrow> a < k) \<and>
     (case pre of None \<Rightarrow> True | Some p \<Rightarrow> starts_with k p) \<and>
     (case end of None \<Rightarrow> True | Some e \<Rightarrow> k < e)"

definition default_scan_range :: "(string \<Rightarrow> (string \<times> 'v) list) \<Rightarrow> string \<Rightarrow> string option
    \<Rightarrow> string option \<Rightarrow> string option \<Rightarrow> nat \<Rightarrow> string list" where
  "default_scan_range scan_entries coll after pre end limit =
     take limit (filter (range_ok after pre end) (sort (map fst (scan_entries coll))))"

definition default_put_object_at :: "(string \<Rightarrow> string \<Rightarrow> 'v \<Rightarrow> 's \<Rightarrow> 's) \<Rightarrow> string \<Rightarrow> string \<Rightarrow> 'v
    \<Rightarrow> u64 \<Rightarrow> 's \<Rightarrow> 's" where
  "default_put_object_at put_object coll oid obj expire_at_ms s = put_object coll oid obj s"

definition default_expiry_of :: "'s \<Rightarrow> string \<Rightarrow> string \<Rightarrow> u64 option" where
  "default_expiry_of s coll oid = None"

definition default_sweep_expired :: "u64 \<Rightarrow> 's \<Rightarrow> 's \<times> nat" where
  "default_sweep_expired now_ms s = (s, 0)"

definition default_snapshot :: "'s \<Rightarrow> string \<Rightarrow> string + unit" where
  "default_snapshot s dest = Inl ''snapshot not supported by this store (durable backend only)''"

text \<open>The provided methods.\<close>

definition store_scan_keys :: "('s, 'v) index_store \<Rightarrow> u64 \<Rightarrow> 's \<Rightarrow> string \<Rightarrow> string option \<Rightarrow> nat
    \<Rightarrow> string list" where
  "store_scan_keys S now s coll after limit = st_scan_range S now s coll after None None limit"

definition store_mget :: "('s, 'v) index_store \<Rightarrow> u64 \<Rightarrow> 's \<Rightarrow> string \<Rightarrow> string list
    \<Rightarrow> 'v option list" where
  "store_mget S now s coll keys = map (st_get_object S now s coll) keys"

text \<open>
  The loop of \<^verbatim>\<open>scan_buckets\<close>: \<open>take_page\<close> is its inner loop, which returns the keys collected
  and whether the function returned inside it. The outer loop ends when a page is short; that it
  does end is a property of the store, so it is a partial function.
\<close>

definition SCAN_CHUNK :: nat where
  "SCAN_CHUNK = 1024"

fun take_page :: "nat set \<Rightarrow> nat \<Rightarrow> string list \<Rightarrow> string list \<Rightarrow> string list \<times> bool" where
  "take_page want limit [] out = (out, False)"
| "take_page want limit (k # page) out =
     (if bucket_of k \<in> want then
        (let out = out @ [k] in
         if limit \<le> length out then (out, True) else take_page want limit page out)
      else take_page want limit page out)"

partial_function (option) scan_buckets_loop :: "(string option \<Rightarrow> string list) \<Rightarrow> nat set \<Rightarrow> nat
    \<Rightarrow> string option \<Rightarrow> string list \<Rightarrow> string list option" where
  "scan_buckets_loop scan want limit cursor out =
     (if scan cursor = [] then Some out
      else if snd (take_page want limit (scan cursor) out) then
        Some (fst (take_page want limit (scan cursor) out))
      else if length (scan cursor) \<noteq> SCAN_CHUNK then
        Some (fst (take_page want limit (scan cursor) out))
      else scan_buckets_loop scan want limit (Some (last (scan cursor)))
             (fst (take_page want limit (scan cursor) out)))"

definition store_scan_buckets :: "('s, 'v) index_store \<Rightarrow> u64 \<Rightarrow> 's \<Rightarrow> string \<Rightarrow> nat list
    \<Rightarrow> string option \<Rightarrow> nat \<Rightarrow> string list option" where
  "store_scan_buckets S now s coll buckets after limit =
     scan_buckets_loop (\<lambda>cursor. st_scan_range S now s coll cursor None None SCAN_CHUNK)
       (set buckets) limit after []"

definition store_cas :: "('s, 'v) index_store \<Rightarrow> 'v json \<Rightarrow> u64 \<Rightarrow> string \<Rightarrow> string \<Rightarrow> 'v option \<Rightarrow> 'v
    \<Rightarrow> 's \<Rightarrow> 's \<times> bool" where
  "store_cas S J now coll key expect new s =
     (if js_eq_opt J (st_get_object S now s coll key) expect
      then (st_put_object S coll key new s, True) else (s, False))"

definition store_incr :: "('s, 'v) index_store \<Rightarrow> 'v json \<Rightarrow> u64 \<Rightarrow> string \<Rightarrow> string \<Rightarrow> i64
    \<Rightarrow> 's \<Rightarrow> 's \<times> i64 option" where
  "store_incr S J now coll key delta s =
     (case (case st_get_object S now s coll key of None \<Rightarrow> Some 0 | Some v \<Rightarrow> js_integer J v) of
        None \<Rightarrow> (s, None)
      | Some cur \<Rightarrow> (let next = cur + delta in
          (st_put_object S coll key (js_of_i64 J next) s, Some next)))"

definition store_set_add :: "('s, 'v) index_store \<Rightarrow> 'v json \<Rightarrow> u64 \<Rightarrow> string \<Rightarrow> string \<Rightarrow> string
    \<Rightarrow> 's \<Rightarrow> 's \<times> bool" where
  "store_set_add S J now coll key member s =
     (let arr = js_members J (st_get_object S now s coll key) in
      if member \<in> set arr then (s, False)
      else (st_put_object S coll key (js_of_strings J (arr @ [member])) s, True))"

definition store_set_remove :: "('s, 'v) index_store \<Rightarrow> 'v json \<Rightarrow> u64 \<Rightarrow> string \<Rightarrow> string \<Rightarrow> string
    \<Rightarrow> 's \<Rightarrow> 's \<times> bool" where
  "store_set_remove S J now coll key member s =
     (let arr = js_members J (st_get_object S now s coll key);
          before = length arr;
          arr = filter (\<lambda>m. m \<noteq> member) arr in
      if length arr = before then (s, False)
      else if arr = [] then (st_delete_object S coll key s, True)
      else (st_put_object S coll key (js_of_strings J arr) s, True))"

definition store_set_members :: "('s, 'v) index_store \<Rightarrow> 'v json \<Rightarrow> u64 \<Rightarrow> 's \<Rightarrow> string \<Rightarrow> string
    \<Rightarrow> string list" where
  "store_set_members S J now s coll key = js_members J (st_get_object S now s coll key)"

subsection \<open>The in-memory store\<close>

record 'v memory_store =
  ms_tables :: "(string, 'v row list) hashmap"
  ms_objects :: "(string, (string, 'v) hashmap) hashmap"
  ms_expiry :: "(string, (string, u64) hashmap) hashmap"

definition mem_new :: "'v memory_store" where
  "mem_new = \<lparr>ms_tables = [], ms_objects = [], ms_expiry = []\<rparr>"

definition mem_add_row :: "string \<Rightarrow> string \<Rightarrow> 'v \<Rightarrow> 'v memory_store \<Rightarrow> 'v memory_store" where
  "mem_add_row table oid doc s = s\<lparr>ms_tables :=
     hm_insert table (hm_or_default [] (ms_tables s) table @ [\<lparr>row_id = oid, row_doc = doc\<rparr>])
       (ms_tables s)\<rparr>"

definition mem_list_tables :: "'v memory_store \<Rightarrow> string list" where
  "mem_list_tables s = hm_keys (ms_tables s)"

definition mem_scan_table :: "'v memory_store \<Rightarrow> string \<Rightarrow> 'v row list" where
  "mem_scan_table s table = (case hm_get (ms_tables s) table of None \<Rightarrow> [] | Some rows \<Rightarrow> rows)"

definition mem_get_row :: "'v memory_store \<Rightarrow> string \<Rightarrow> string \<Rightarrow> 'v option" where
  "mem_get_row s table oid = (case hm_get (ms_tables s) table of None \<Rightarrow> None
     | Some rows \<Rightarrow> map_option row_doc (find (\<lambda>r. row_id r = oid) rows))"

definition mem_is_expired :: "u64 \<Rightarrow> 'v memory_store \<Rightarrow> string \<Rightarrow> string \<Rightarrow> bool" where
  "mem_is_expired now s coll oid =
     (case hm_get (ms_expiry s) coll of None \<Rightarrow> False
      | Some m \<Rightarrow> (case hm_get m oid of None \<Rightarrow> False | Some exp \<Rightarrow> exp \<le> now))"

definition mem_clear_expiry :: "string \<Rightarrow> string \<Rightarrow> 'v memory_store \<Rightarrow> 'v memory_store" where
  "mem_clear_expiry coll oid s =
     (case hm_get (ms_expiry s) coll of None \<Rightarrow> s
      | Some m \<Rightarrow> s\<lparr>ms_expiry := hm_insert coll (hm_remove oid m) (ms_expiry s)\<rparr>)"

definition mem_put_object :: "string \<Rightarrow> string \<Rightarrow> 'v \<Rightarrow> 'v memory_store \<Rightarrow> 'v memory_store" where
  "mem_put_object coll oid obj s =
     (let s = mem_clear_expiry coll oid s in
      s\<lparr>ms_objects := hm_insert coll (hm_insert oid obj (hm_or_default [] (ms_objects s) coll))
        (ms_objects s)\<rparr>)"

definition mem_get_object :: "u64 \<Rightarrow> 'v memory_store \<Rightarrow> string \<Rightarrow> string \<Rightarrow> 'v option" where
  "mem_get_object now s coll oid =
     (if mem_is_expired now s coll oid then None
      else case hm_get (ms_objects s) coll of None \<Rightarrow> None | Some m \<Rightarrow> hm_get m oid)"

definition mem_scan_entries :: "u64 \<Rightarrow> 'v memory_store \<Rightarrow> string \<Rightarrow> (string \<times> 'v) list" where
  "mem_scan_entries now s coll =
     (case hm_get (ms_objects s) coll of None \<Rightarrow> []
      | Some m \<Rightarrow> filter (\<lambda>(oid, v). \<not> mem_is_expired now s coll oid) m)"

definition mem_scan_objects :: "u64 \<Rightarrow> 'v memory_store \<Rightarrow> string \<Rightarrow> 'v list" where
  "mem_scan_objects now s coll =
     (case hm_get (ms_objects s) coll of None \<Rightarrow> []
      | Some m \<Rightarrow> map snd (filter (\<lambda>(oid, v). \<not> mem_is_expired now s coll oid) m))"

definition mem_clear_collection :: "string \<Rightarrow> 'v memory_store \<Rightarrow> 'v memory_store" where
  "mem_clear_collection coll s =
     s\<lparr>ms_objects := hm_remove coll (ms_objects s), ms_expiry := hm_remove coll (ms_expiry s)\<rparr>"

text \<open>\<^verbatim>\<open>if let Some(m) = self.objects.get_mut(coll) { m.remove(id); }\<close>\<close>

definition hm_remove_in :: "string \<Rightarrow> string \<Rightarrow> (string, (string, 'a) hashmap) hashmap
    \<Rightarrow> (string, (string, 'a) hashmap) hashmap" where
  "hm_remove_in coll oid mm = (case hm_get mm coll of None \<Rightarrow> mm
     | Some m \<Rightarrow> hm_insert coll (hm_remove oid m) mm)"

definition mem_delete_object :: "string \<Rightarrow> string \<Rightarrow> 'v memory_store \<Rightarrow> 'v memory_store" where
  "mem_delete_object coll oid s =
     mem_clear_expiry coll oid (s\<lparr>ms_objects := hm_remove_in coll oid (ms_objects s)\<rparr>)"

definition mem_put_object_at :: "string \<Rightarrow> string \<Rightarrow> 'v \<Rightarrow> u64 \<Rightarrow> 'v memory_store
    \<Rightarrow> 'v memory_store" where
  "mem_put_object_at coll oid obj expire_at_ms s =
     s\<lparr>ms_objects := hm_insert coll (hm_insert oid obj (hm_or_default [] (ms_objects s) coll))
         (ms_objects s),
       ms_expiry := hm_insert coll (hm_insert oid expire_at_ms (hm_or_default [] (ms_expiry s) coll))
         (ms_expiry s)\<rparr>"

definition mem_expiry_of :: "'v memory_store \<Rightarrow> string \<Rightarrow> string \<Rightarrow> u64 option" where
  "mem_expiry_of s coll oid = (case hm_get (ms_expiry s) coll of None \<Rightarrow> None | Some m \<Rightarrow> hm_get m oid)"

text \<open>The two loops of \<^verbatim>\<open>sweep_expired\<close>.\<close>

definition mem_dead :: "u64 \<Rightarrow> 'v memory_store \<Rightarrow> (string \<times> string) list" where
  "mem_dead now_ms s = concat (map (\<lambda>(coll, m).
     map (\<lambda>(oid, exp). (coll, oid)) (filter (\<lambda>(oid, exp). exp \<le> now_ms) m)) (ms_expiry s))"

definition mem_reclaim :: "'v memory_store \<Rightarrow> string \<times> string \<Rightarrow> 'v memory_store" where
  "mem_reclaim s = (\<lambda>(c, k). s\<lparr>ms_objects := hm_remove_in c k (ms_objects s),
     ms_expiry := hm_remove_in c k (ms_expiry s)\<rparr>)"

definition mem_sweep_expired :: "u64 \<Rightarrow> 'v memory_store \<Rightarrow> 'v memory_store \<times> nat" where
  "mem_sweep_expired now_ms s =
     (let dead = mem_dead now_ms s in (foldl mem_reclaim s dead, length dead))"

definition memory_index :: "('v memory_store, 'v) index_store" where
  "memory_index = \<lparr>
     st_put_object = mem_put_object,
     st_put_batch = default_put_batch mem_put_object,
     st_get_object = mem_get_object,
     st_scan_objects = mem_scan_objects,
     st_scan_entries = mem_scan_entries,
     st_scan_range = (\<lambda>now s. default_scan_range (mem_scan_entries now s)),
     st_clear_collection = mem_clear_collection,
     st_delete_object = mem_delete_object,
     st_put_object_at = mem_put_object_at,
     st_expiry_of = mem_expiry_of,
     st_sweep_expired = mem_sweep_expired,
     st_snapshot = default_snapshot,
     st_capabilities = (\<lambda>_. \<lparr>native_set_logic = False\<rparr>)\<rparr>"

text \<open>Lookup in a two-level map, and the invariant: distinct keys on both levels, an expiry only for
  an object that exists.\<close>

definition hm_get2 :: "(string, (string, 'a) hashmap) hashmap \<Rightarrow> string \<Rightarrow> string \<Rightarrow> 'a option" where
  "hm_get2 mm c k = (case hm_get mm c of None \<Rightarrow> None | Some m \<Rightarrow> hm_get m k)"

definition hm2_ok :: "(string, (string, 'a) hashmap) hashmap \<Rightarrow> bool" where
  "hm2_ok mm \<longleftrightarrow> hm_ok mm \<and> list_all (\<lambda>(c, m). hm_ok m) mm"

definition mem_ok :: "'v memory_store \<Rightarrow> bool" where
  "mem_ok s \<longleftrightarrow> hm2_ok (ms_objects s) \<and> hm2_ok (ms_expiry s) \<and>
     list_all (\<lambda>(c, m). list_all (\<lambda>(k, e). hm_get2 (ms_objects s) c k \<noteq> None) m) (ms_expiry s)"

text \<open>What a store holds, with the expiry of each object.\<close>

definition mem_view :: "'v memory_store \<Rightarrow> string \<times> string \<Rightarrow> ('v \<times> u64 option) option" where
  "mem_view s = (\<lambda>(c, k). map_option (\<lambda>v. (v, mem_expiry_of s c k)) (hm_get2 (ms_objects s) c k))"

fun live_at :: "u64 \<Rightarrow> 'v \<times> u64 option \<Rightarrow> bool" where
  "live_at now (v, None) = True"
| "live_at now (v, Some e) = (now < e)"

subsection \<open>The scan loop\<close>

lemma take_page_eq:
  assumes L: "L = max limit 1" and "length out < L"
  shows "take_page want limit page out =
    (take L (out @ filter (\<lambda>k. bucket_of k \<in> want) page),
     L \<le> length (out @ filter (\<lambda>k. bucket_of k \<in> want) page))"
  using assms(2)
proof (induction page arbitrary: out)
  case (Cons k page)
  have iff: "limit \<le> length (out @ [k]) \<longleftrightarrow> L \<le> length (out @ [k])" by (simp add: L)
  show ?case
  proof (cases "bucket_of k \<in> want \<and> L \<le> length (out @ [k])")
    case True
    then have "L = length (out @ [k])" using Cons.prems by simp
    with True iff show ?thesis by simp
  next
    case False
    with Cons iff show ?thesis by (auto simp: Let_def take_Cons')
  qed
qed simp

lemma filter_above:
  "sorted_wrt (<) (xs @ x # ys) \<Longrightarrow> filter (\<lambda>k. x < k) (xs @ x # ys) = (ys :: 'a::linorder list)"
  by (auto simp: sorted_wrt_append filter_empty_conv filter_id_conv dest: order_less_asym)

lemma sorted_split_last:
  fixes K :: "'a::linorder list"
  assumes "sorted_wrt (<) K" and "n \<le> length K" and "0 < n"
  shows "filter (\<lambda>k. last (take n K) < k) K = drop n K"
proof -
  have ne: "take n K \<noteq> []" using assms(2,3) by auto
  have "K = take n K @ drop n K" by simp
  also have "take n K = butlast (take n K) @ [last (take n K)]" using ne by simp
  finally have split: "K = butlast (take n K) @ last (take n K) # drop n K" by simp
  show ?thesis
    using filter_above [of "butlast (take n K)" "last (take n K)" "drop n K"] assms(1) split
    by metis
qed

text \<open>
  When the pages are the ascending keys after the cursor, the loop terminates and returns the
  first keys of the wanted buckets; a limit of 0 still returns one key.
\<close>

lemma scan_buckets_loop_correct:
  fixes K :: "string list"
  assumes scan: "\<And>c. scan c = take SCAN_CHUNK (filter (range_ok c None None) K)"
    and K: "sorted_wrt (<) K"
    and out: "length out < max limit 1"
  shows "scan_buckets_loop scan want limit cursor out =
    Some (take (max limit 1) (out @ filter (\<lambda>k. bucket_of k \<in> want) (filter (range_ok cursor None None) K)))"
proof -
  define L where L: "L = max limit 1"
  from out have "length out < L" by (simp add: L)
  then have "scan_buckets_loop scan want limit cursor out =
    Some (take L (out @ filter (\<lambda>k. bucket_of k \<in> want) (filter (range_ok cursor None None) K)))"
  proof (induction "length (filter (range_ok cursor None None) K)" arbitrary: cursor out rule: less_induct)
    case less
    let ?R = "filter (range_ok cursor None None) K"
    let ?P = "\<lambda>k. bucket_of k \<in> want"
    let ?page = "take SCAN_CHUNK ?R"
    let ?all = "out @ filter ?P ?page"
    have step: "scan_buckets_loop scan want limit cursor out =
       (if ?page = [] then Some out
        else if L \<le> length ?all then Some (take L ?all)
        else if length ?page \<noteq> SCAN_CHUNK then Some (take L ?all)
        else scan_buckets_loop scan want limit (Some (last ?page)) (take L ?all))"
      by (subst scan_buckets_loop.simps)
        (simp only: scan take_page_eq [OF L less.prems] fst_conv snd_conv)
    have split: "filter ?P ?R = filter ?P ?page @ filter ?P (drop SCAN_CHUNK ?R)"
      by (metis append_take_drop_id filter_append)
    have pos: "0 < SCAN_CHUNK" by (simp add: SCAN_CHUNK_def)
    have page_Nil: "?page = [] \<longleftrightarrow> ?R = []" using pos by simp
    consider (empty) "?R = []" | (full) "L \<le> length ?all" "?R \<noteq> []"
      | (short) "length ?all < L" "length ?R < SCAN_CHUNK" "?R \<noteq> []"
      | (more) "length ?all < L" "SCAN_CHUNK \<le> length ?R" "?R \<noteq> []"
      by linarith
    then show ?case
    proof cases
      case empty
      then show ?thesis using less.prems unfolding step page_Nil by simp
    next
      case full
      then show ?thesis unfolding step page_Nil split by simp
    next
      case short
      then have "?page = ?R" by simp
      with short show ?thesis unfolding step page_Nil by simp
    next
      case more
      let ?c = "Some (last ?page)"
      have "last ?page \<in> set ?R"
        using more(3) page_Nil by (metis in_set_takeD last_in_set)
      then have "range_ok cursor None None (last ?page)" by simp
      then have "filter (range_ok ?c None None) K = filter (\<lambda>k. last ?page < k) ?R"
        by (auto simp: range_ok_def split: option.splits intro!: filter_cong)
      also have "\<dots> = drop SCAN_CHUNK ?R"
        by (rule sorted_split_last [OF sorted_wrt_filter [OF K] more(2) pos])
      finally have R': "filter (range_ok ?c None None) K = drop SCAN_CHUNK ?R" .
      have "length (filter (range_ok ?c None None) K) < length ?R"
        using more(3) pos by (simp add: R')
      from less.hyps [OF this more(1)] have
        "scan_buckets_loop scan want limit ?c ?all = Some (take L (?all @ filter ?P (drop SCAN_CHUNK ?R)))"
        by (simp only: R')
      moreover have "take L ?all = ?all" using more(1) by simp
      moreover have "length ?page = SCAN_CHUNK" using more(2) by simp
      moreover have "?page \<noteq> []" "\<not> L \<le> length ?all" using page_Nil more(1,3) by simp_all
      ultimately show ?thesis unfolding step split by (simp only: if_False append_assoc simp_thms)
    qed
  qed
  then show ?thesis by (simp only: L)
qed

subsection \<open>The contract of a store\<close>

locale kv_store =
  fixes S :: "('s, 'v) index_store" and invar :: "'s \<Rightarrow> bool"
  assumes get_put: "invar s \<Longrightarrow> st_get_object S now (st_put_object S c k v s) c' k' =
      (if c' = c \<and> k' = k then Some v else st_get_object S now s c' k')"
    and get_put_at: "invar s \<Longrightarrow> st_get_object S now (st_put_object_at S c k v e s) c' k' =
      (if c' = c \<and> k' = k then (if e \<le> now then None else Some v) else st_get_object S now s c' k')"
    and get_delete: "invar s \<Longrightarrow> st_get_object S now (st_delete_object S c k s) c' k' =
      (if c' = c \<and> k' = k then None else st_get_object S now s c' k')"
    and get_clear: "invar s \<Longrightarrow> st_get_object S now (st_clear_collection S c s) c' k' =
      (if c' = c then None else st_get_object S now s c' k')"
    and get_sweep: "invar s \<Longrightarrow> t \<le> now \<Longrightarrow>
      st_get_object S now (fst (st_sweep_expired S t s)) c k = st_get_object S now s c k"
    and put_batch: "st_put_batch S items s = default_put_batch (st_put_object S) items s"
    and entries_distinct: "invar s \<Longrightarrow> distinct (map fst (st_scan_entries S now s c))"
    and entries_get: "invar s \<Longrightarrow> map_of (st_scan_entries S now s c) k = st_get_object S now s c k"
    and objects_entries: "mset (st_scan_objects S now s c) = mset (map snd (st_scan_entries S now s c))"
    and range_keys: "invar s \<Longrightarrow> st_scan_range S now s c after pre end limit =
      take limit (filter (range_ok after pre end)
        (sorted_list_of_set {k. st_get_object S now s c k \<noteq> None}))"
    and expiry_put: "invar s \<Longrightarrow> st_expiry_of S (st_put_object S c k v s) c' k' =
      (if c' = c \<and> k' = k then None else st_expiry_of S s c' k')"
    and expiry_put_at: "invar s \<Longrightarrow> st_expiry_of S (st_put_object_at S c k v e s) c' k' =
      (if c' = c \<and> k' = k then Some e else st_expiry_of S s c' k')"
    and expiry_delete: "invar s \<Longrightarrow> st_expiry_of S (st_delete_object S c k s) c' k' =
      (if c' = c \<and> k' = k then None else st_expiry_of S s c' k')"
    and get_time: "st_expiry_of S s c k = None \<Longrightarrow>
      st_get_object S now s c k = st_get_object S now' s c k"
    and get_expired: "st_expiry_of S s c k = Some e \<Longrightarrow> e \<le> now \<Longrightarrow> st_get_object S now s c k = None"
    and invar_put: "invar s \<Longrightarrow> invar (st_put_object S c k v s)"
    and invar_put_at: "invar s \<Longrightarrow> invar (st_put_object_at S c k v e s)"
    and invar_delete: "invar s \<Longrightarrow> invar (st_delete_object S c k s)"
    and invar_clear: "invar s \<Longrightarrow> invar (st_clear_collection S c s)"
    and invar_sweep: "invar s \<Longrightarrow> invar (fst (st_sweep_expired S t s))"
begin

abbreviation get :: "u64 \<Rightarrow> 's \<Rightarrow> string \<Rightarrow> string \<Rightarrow> 'v option" where
  "get \<equiv> st_get_object S"

abbreviation keys :: "u64 \<Rightarrow> 's \<Rightarrow> string \<Rightarrow> string list" where
  "keys now s c \<equiv> sorted_list_of_set {k. get now s c k \<noteq> None}"

lemma finite_keys: "invar s \<Longrightarrow> finite {k. get now s c k \<noteq> None}"
  by (rule finite_subset [of _ "set (map fst (st_scan_entries S now s c))"])
    (auto simp flip: entries_get simp: map_of_eq_None_iff image_iff)

lemma entries_iff: "invar s \<Longrightarrow> (k, v) \<in> set (st_scan_entries S now s c) \<longleftrightarrow> get now s c k = Some v"
  using entries_distinct [of s now c] entries_get [of s now c k] by auto

lemma scan_keys_correct:
  "invar s \<Longrightarrow> store_scan_keys S now s c after limit =
     take limit (filter (range_ok after None None) (keys now s c))"
  by (simp add: store_scan_keys_def range_keys)

lemma scan_buckets_correct:
  assumes "invar s"
  shows "store_scan_buckets S now s c buckets after limit =
    Some (take (max limit 1) (filter (\<lambda>k. bucket_of k \<in> set buckets)
      (filter (range_ok after None None) (keys now s c))))"
proof -
  have "sorted_wrt (<) (keys now s c)"
    using finite_keys [OF assms] by simp
  then show ?thesis
    using scan_buckets_loop_correct
      [of "\<lambda>cursor. st_scan_range S now s c cursor None None SCAN_CHUNK" "keys now s c" "[]" limit]
    by (simp add: store_scan_buckets_def range_keys [OF assms])
qed

lemma get_put_batch:
  "invar s \<Longrightarrow> invar (st_put_batch S items s) \<and>
     get now (st_put_batch S items s) c k =
       (case map_of (rev (map (\<lambda>(c, k, v). ((c, k), v)) items)) (c, k) of
          Some v \<Rightarrow> Some v | None \<Rightarrow> get now s c k)"
proof (induction items arbitrary: s)
  case (Cons i items)
  obtain c' k' v' where i: "i = (c', k', v')" by (cases i)
  have "invar (st_put_object S c' k' v' s)" using Cons.prems by (rule invar_put)
  from Cons.IH [OF this] show ?case
    using Cons.prems
    by (auto simp: put_batch default_put_batch_def i get_put map_add_def split: option.splits)
qed (simp add: put_batch default_put_batch_def)

lemma cas_correct:
  assumes "invar s"
  shows "invar (fst (store_cas S J now c k expect new s))"
    and "snd (store_cas S J now c k expect new s) = js_eq_opt J (get now s c k) expect"
    and "get now' (fst (store_cas S J now c k expect new s)) c' k' =
      (if js_eq_opt J (get now s c k) expect \<and> c' = c \<and> k' = k then Some new else get now' s c' k')"
  using assms by (auto simp: store_cas_def invar_put get_put)

lemma incr_correct:
  assumes "invar s" and "cur = (case get now s c k of None \<Rightarrow> Some 0 | Some v \<Rightarrow> js_integer J v)"
  shows "invar (fst (store_incr S J now c k delta s))"
    and "snd (store_incr S J now c k delta s) = map_option (\<lambda>n. n + delta) cur"
    and "get now' (fst (store_incr S J now c k delta s)) c' k' =
      (case cur of Some n \<Rightarrow> if c' = c \<and> k' = k then Some (js_of_i64 J (n + delta)) else get now' s c' k'
       | None \<Rightarrow> get now' s c' k')"
  using assms(1) unfolding assms(2)
  by (auto simp: store_incr_def invar_put get_put Let_def split: option.splits)

lemma set_add_correct:
  assumes "invar s" and "json_laws J" and "distinct (store_set_members S J now s c k)"
    and "r = store_set_add S J now c k m s"
  shows "invar (fst r) \<and> snd r = (m \<notin> set (store_set_members S J now s c k)) \<and>
    set (store_set_members S J now (fst r) c k) = insert m (set (store_set_members S J now s c k)) \<and>
    distinct (store_set_members S J now (fst r) c k) \<and>
    (\<forall>c' k'. (c', k') \<noteq> (c, k) \<longrightarrow> get now (fst r) c' k' = get now s c' k')"
  using assms
  by (auto simp: store_set_add_def store_set_members_def Let_def get_put invar_put)

lemma set_remove_correct:
  assumes "invar s" and "json_laws J" and "r = store_set_remove S J now c k m s"
  shows "invar (fst r) \<and> snd r = (m \<in> set (store_set_members S J now s c k)) \<and>
    store_set_members S J now (fst r) c k = filter (\<lambda>x. x \<noteq> m) (store_set_members S J now s c k) \<and>
    (m \<in> set (store_set_members S J now s c k) \<and> store_set_members S J now (fst r) c k = [] \<longrightarrow>
      get now (fst r) c k = None) \<and>
    (\<forall>c' k'. (c', k') \<noteq> (c, k) \<longrightarrow> get now (fst r) c' k' = get now s c' k')"
proof -
  let ?arr = "js_members J (get now s c k)"
  have len: "length (filter (\<lambda>x. x \<noteq> m) ?arr) = length ?arr \<longleftrightarrow> m \<notin> set ?arr"
    by (metis (mono_tags, lifting) filter_True length_filter_less less_irrefl_nat)
  have id: "m \<notin> set ?arr \<Longrightarrow> filter (\<lambda>x. x \<noteq> m) ?arr = ?arr" by (auto intro: filter_True)
  show ?thesis
    using assms id
    by (auto simp: store_set_remove_def store_set_members_def Let_def len get_put get_delete
        invar_put invar_delete)
qed

end

subsection \<open>The in-memory store fulfils the contract\<close>

lemma hm2_ok_alt: "hm2_ok mm \<longleftrightarrow> hm_ok mm \<and> (\<forall>c m. hm_get mm c = Some m \<longrightarrow> hm_ok m)"
  by (auto simp: hm2_ok_def list_all_iff dest: map_of_SomeD intro: hm_in_set [THEN iffD1])

lemma hm_get2_insert:
  "hm_get2 (hm_insert c (hm_insert k v (hm_or_default [] mm c)) mm) c' k' =
     (if c' = c \<and> k' = k then Some v else hm_get2 mm c' k')"
  by (auto simp: hm_get2_def hm_or_default_def hm_simps split: option.splits)

lemma hm_get2_remove_in:
  "hm_get2 (hm_remove_in c k mm) c' k' = (if c' = c \<and> k' = k then None else hm_get2 mm c' k')"
  by (auto simp: hm_get2_def hm_remove_in_def hm_simps split: option.splits)

lemma hm_get2_remove: "hm_get2 (hm_remove c mm) c' k' = (if c' = c then None else hm_get2 mm c' k')"
  by (simp add: hm_get2_def hm_simps)

lemma hm2_ok_insert: "hm2_ok mm \<Longrightarrow> hm2_ok (hm_insert c (hm_insert k v (hm_or_default [] mm c)) mm)"
  by (auto simp: hm2_ok_alt hm_or_default_def hm_simps split: option.splits if_splits)

lemma hm2_ok_remove_in: "hm2_ok mm \<Longrightarrow> hm2_ok (hm_remove_in c k mm)"
  by (auto simp: hm2_ok_alt hm_remove_in_def hm_simps simp del: map_of_eq_Some_iff
      split: option.splits if_splits)

lemma hm2_ok_remove: "hm2_ok mm \<Longrightarrow> hm2_ok (hm_remove c mm)"
  by (auto simp: hm2_ok_alt hm_simps split: if_splits)

lemmas hm2_facts = hm_get2_insert hm_get2_remove_in hm_get2_remove hm2_ok_insert hm2_ok_remove_in
  hm2_ok_remove

lemma hm_get2_Some: "hm2_ok mm \<Longrightarrow> hm_get2 mm c k = Some e \<longleftrightarrow> (\<exists>m. (c, m) \<in> set mm \<and> (k, e) \<in> set m)"
proof -
  assume "hm2_ok mm"
  then have ok: "hm_ok mm" and inner: "\<And>m. (c, m) \<in> set mm \<Longrightarrow> hm_ok m"
    by (auto simp: hm2_ok_def list_all_iff)
  show ?thesis
  proof (cases "hm_get mm c")
    case None
    then have "(c, m) \<notin> set mm" for m by (force simp: map_of_eq_None_iff)
    with None show ?thesis by (simp add: hm_get2_def)
  next
    case (Some m0)
    then have m0: "(c, m) \<in> set mm \<longleftrightarrow> m = m0" for m
      unfolding hm_in_set [OF ok] by (simp only: option.inject) (rule eq_commute)
    then have "hm_ok m0" using inner by simp
    then have "hm_get m0 k = Some e \<longleftrightarrow> (k, e) \<in> set m0" by simp
    with m0 Some show ?thesis by (simp only: hm_get2_def option.case) auto
  qed
qed

lemma mem_ok_alt:
  "mem_ok s \<longleftrightarrow> hm2_ok (ms_objects s) \<and> hm2_ok (ms_expiry s) \<and>
     (\<forall>c k. hm_get2 (ms_expiry s) c k \<noteq> None \<longrightarrow> hm_get2 (ms_objects s) c k \<noteq> None)"
  by (auto simp: mem_ok_def list_all_iff hm_get2_Some) blast+

lemma mem_expiry_of_eq: "mem_expiry_of s c k = hm_get2 (ms_expiry s) c k"
  by (simp add: mem_expiry_of_def hm_get2_def)

lemma mem_clear_expiry_eq: "mem_clear_expiry c k s = s\<lparr>ms_expiry := hm_remove_in c k (ms_expiry s)\<rparr>"
  by (simp add: mem_clear_expiry_def hm_remove_in_def split: option.splits)

lemma mem_get_object_eq:
  "mem_get_object now s c k =
     (if \<exists>e \<le> now. hm_get2 (ms_expiry s) c k = Some e then None else hm_get2 (ms_objects s) c k)"
  by (auto simp: mem_get_object_def mem_is_expired_def hm_get2_def split: option.splits)

lemma mem_is_expired_eq: "mem_is_expired now s c k \<longleftrightarrow> (\<exists>e \<le> now. hm_get2 (ms_expiry s) c k = Some e)"
  by (auto simp: mem_is_expired_def hm_get2_def split: option.splits)

lemma mem_put_fields:
  "ms_objects (mem_put_object c k v s) =
     hm_insert c (hm_insert k v (hm_or_default [] (ms_objects s) c)) (ms_objects s)"
  "ms_expiry (mem_put_object c k v s) = hm_remove_in c k (ms_expiry s)"
  by (simp_all add: mem_put_object_def mem_clear_expiry_eq Let_def)

lemma mem_delete_fields:
  "ms_objects (mem_delete_object c k s) = hm_remove_in c k (ms_objects s)"
  "ms_expiry (mem_delete_object c k s) = hm_remove_in c k (ms_expiry s)"
  by (simp_all add: mem_delete_object_def mem_clear_expiry_eq)

lemma mem_put_at_fields:
  "ms_objects (mem_put_object_at c k v e s) =
     hm_insert c (hm_insert k v (hm_or_default [] (ms_objects s) c)) (ms_objects s)"
  "ms_expiry (mem_put_object_at c k v e s) =
     hm_insert c (hm_insert k e (hm_or_default [] (ms_expiry s) c)) (ms_expiry s)"
  by (simp_all add: mem_put_object_at_def)

lemma mem_clear_fields:
  "ms_objects (mem_clear_collection c s) = hm_remove c (ms_objects s)"
  "ms_expiry (mem_clear_collection c s) = hm_remove c (ms_expiry s)"
  by (simp_all add: mem_clear_collection_def)

lemmas mem_fields = mem_put_fields mem_delete_fields mem_put_at_fields mem_clear_fields

lemma mem_dead_iff: "mem_ok s \<Longrightarrow>
  (c, k) \<in> set (mem_dead t s) \<longleftrightarrow> (\<exists>e \<le> t. hm_get2 (ms_expiry s) c k = Some e)"
  by (auto simp: mem_dead_def mem_ok_alt hm_get2_Some) force

lemma distinct_map_key: "hm_ok m \<Longrightarrow> distinct (map (\<lambda>(oid, exp). (c, oid)) (filter P m))"
  by (induction m) (auto simp: image_iff)

lemma mem_dead_distinct:
  assumes "mem_ok s"
  shows "distinct (mem_dead t s)"
proof -
  have "distinct (concat (map (\<lambda>(coll, m).
      map (\<lambda>(oid, exp). (coll, oid)) (filter (\<lambda>(oid, exp). exp \<le> t) m)) mm))"
    if "hm_ok mm" "list_all (\<lambda>(c, m). hm_ok m) mm" for mm :: "(string, (string, u64) hashmap) hashmap"
    using that
  proof (induction mm)
    case (Cons p mm)
    obtain c m where p: "p = (c, m)" by (cases p)
    have "distinct (map (\<lambda>(oid, exp). (c, oid)) (filter (\<lambda>(oid, exp). exp \<le> t) m))"
      using Cons.prems(2) by (simp add: p distinct_map_key)
    moreover have "c \<notin> fst ` set mm" using Cons.prems(1) by (simp add: p)
    ultimately show ?case using Cons by (auto simp: p image_iff)
  qed simp
  then show ?thesis using assms by (simp add: mem_dead_def mem_ok_def hm2_ok_def)
qed

lemma mem_reclaim_fields:
  "hm_get2 (ms_objects (mem_reclaim s ck)) c k = (if ck = (c, k) then None else hm_get2 (ms_objects s) c k)"
  "hm_get2 (ms_expiry (mem_reclaim s ck)) c k = (if ck = (c, k) then None else hm_get2 (ms_expiry s) c k)"
  "mem_ok s \<Longrightarrow> mem_ok (mem_reclaim s ck)"
  by (auto simp: mem_reclaim_def hm2_facts mem_ok_alt split: prod.splits)

lemma mem_sweep_fields:
  "hm_get2 (ms_objects (foldl mem_reclaim s dead)) c k =
     (if (c, k) \<in> set dead then None else hm_get2 (ms_objects s) c k)"
  "hm_get2 (ms_expiry (foldl mem_reclaim s dead)) c k =
     (if (c, k) \<in> set dead then None else hm_get2 (ms_expiry s) c k)"
  "mem_ok s \<Longrightarrow> mem_ok (foldl mem_reclaim s dead)"
  by (induction dead arbitrary: s) (simp_all add: mem_reclaim_fields)

lemma mem_sweep_facts:
  assumes "mem_ok s"
  shows "mem_ok (fst (mem_sweep_expired t s))"
    and "hm_get2 (ms_objects (fst (mem_sweep_expired t s))) c k =
      (if \<exists>e \<le> t. hm_get2 (ms_expiry s) c k = Some e then None else hm_get2 (ms_objects s) c k)"
    and "hm_get2 (ms_expiry (fst (mem_sweep_expired t s))) c k =
      (if \<exists>e \<le> t. hm_get2 (ms_expiry s) c k = Some e then None else hm_get2 (ms_expiry s) c k)"
  using assms by (simp_all add: mem_sweep_expired_def Let_def mem_sweep_fields mem_dead_iff)

lemma mem_ok_ops:
  assumes "mem_ok s"
  shows "mem_ok (mem_put_object c k v s)" and "mem_ok (mem_put_object_at c k v e s)"
    and "mem_ok (mem_delete_object c k s)" and "mem_ok (mem_clear_collection c s)"
  using assms by (auto simp: mem_ok_alt mem_fields hm2_facts)

lemma mem_entries_get:
  assumes "mem_ok s"
  shows "distinct (map fst (mem_scan_entries now s c))"
    and "map_of (mem_scan_entries now s c) k = mem_get_object now s c k"
  using assms
  by (auto simp: mem_scan_entries_def mem_get_object_def mem_ok_def hm2_ok_alt hm_simps
      split: option.splits)

lemma sort_distinct_eq: "distinct xs \<Longrightarrow> sort xs = sorted_list_of_set (set (xs :: 'a::linorder list))"
  by (simp add: sorted_list_of_set_sort_remdups distinct_remdups_id)

lemma mem_entries_keys:
  assumes "mem_ok s"
  shows "sort (map fst (mem_scan_entries now s c)) =
    sorted_list_of_set {k. mem_get_object now s c k \<noteq> None}"
proof -
  have "set (map fst (mem_scan_entries now s c)) = {k. mem_get_object now s c k \<noteq> None}"
    using mem_entries_get(2) [OF assms, of now c]
    by (metis (no_types, lifting) Collect_cong dom_def dom_map_of_conv_image_fst list.set_map)
  then show ?thesis using mem_entries_get(1) [OF assms] by (simp add: sort_distinct_eq)
qed

lemma mem_scan_range:
  "mem_ok s \<Longrightarrow> default_scan_range (mem_scan_entries now s) c after pre end limit =
     take limit (filter (range_ok after pre end) (sorted_list_of_set {k. mem_get_object now s c k \<noteq> None}))"
  by (simp add: default_scan_range_def mem_entries_keys)

lemma mem_scan_objects_eq: "mem_scan_objects now s c = map snd (mem_scan_entries now s c)"
  by (simp add: mem_scan_objects_def mem_scan_entries_def split: option.splits)

interpretation mem: kv_store memory_index mem_ok
  by (unfold_locales, unfold memory_index_def index_store.simps)
    (auto simp: mem_scan_range mem_scan_objects_eq mem_entries_get mem_ok_ops mem_sweep_facts
      mem_get_object_eq mem_expiry_of_eq mem_fields hm2_facts)

lemma mem_ok_new [simp]: "mem_ok mem_new"
  by (simp add: mem_ok_def mem_new_def hm2_ok_def)

lemma mem_index_simps [simp]:
  "st_get_object memory_index = mem_get_object"
  "st_put_object memory_index = mem_put_object"
  "st_delete_object memory_index = mem_delete_object"
  "st_put_object_at memory_index = mem_put_object_at"
  "st_scan_entries memory_index = mem_scan_entries"
  "st_expiry_of memory_index = mem_expiry_of"
  "st_sweep_expired memory_index = mem_sweep_expired"
  "st_put_batch memory_index = default_put_batch mem_put_object"
  by (simp_all add: memory_index_def)

lemmas mem_eval = mem_new_def mem_put_object_def mem_get_object_def mem_is_expired_def mem_put_object_at_def
  mem_clear_expiry_def hm_or_default_def mem_delete_object_def hm_remove_in_def mem_scan_entries_def

lemma live_at_alt: "live_at now (v, oe) \<longleftrightarrow> \<not> (\<exists>e \<le> now. oe = Some e)"
  by (cases oe) (auto simp: not_le)

subsection \<open>Properties\<close>

lemma mem_view_ops:
  assumes "mem_ok m"
  shows "mem_ok (mem_put_object c k v m)" "mem_ok (mem_put_object_at c k v e m)" "mem_ok (mem_delete_object c k m)"
    and "mem_ok (mem_clear_collection c m)" "mem_ok (fst (mem_sweep_expired t m))"
    and "mem_view (mem_put_object c k v m) = (mem_view m)((c, k) \<mapsto> (v, None))"
    and "mem_view (mem_put_object_at c k v e m) = (mem_view m)((c, k) \<mapsto> (v, Some e))"
    and "mem_view (mem_delete_object c k m) = (mem_view m)((c, k) := None)"
    and "mem_view (mem_clear_collection c m) = (\<lambda>(c', k). if c' = c then None else mem_view m (c', k))"
    and "mem_view (fst (mem_sweep_expired t m)) =
        (\<lambda>ck. case mem_view m ck of Some ve \<Rightarrow> if live_at t ve then Some ve else None | None \<Rightarrow> None)"
    and "mem_get_object now m c k =
        (case mem_view m (c, k) of Some ve \<Rightarrow> if live_at now ve then Some (fst ve) else None | None \<Rightarrow> None)"
    and "mem_expiry_of m c k = Option.bind (mem_view m (c, k)) snd"
proof -
  note view = mem_view_def mem_expiry_of_eq fun_eq_iff
  show "mem_view (fst (mem_sweep_expired t m)) =
      (\<lambda>ck. case mem_view m ck of Some ve \<Rightarrow> if live_at t ve then Some ve else None | None \<Rightarrow> None)"
    using mem_sweep_facts [OF assms] by (auto simp: view live_at_alt split: option.splits)
  show "mem_get_object now m c k =
      (case mem_view m (c, k) of Some ve \<Rightarrow> if live_at now ve then Some (fst ve) else None | None \<Rightarrow> None)"
    by (auto simp: view mem_get_object_eq live_at_alt split: option.splits)
  show "mem_expiry_of m c k = Option.bind (mem_view m (c, k)) snd"
    using assms by (cases "hm_get2 (ms_objects m) c k"; cases "hm_get2 (ms_expiry m) c k") (force simp: view mem_ok_alt)+
qed (use mem_ok_ops [OF assms] mem_sweep_facts(1) [OF assms] in
  \<open>simp_all add: mem_view_def mem_expiry_of_eq fun_eq_iff mem_fields hm2_facts\<close>)

text \<open>
  C34. The in-memory store implements a map from (collection, key) to a value with an optional
  expiry: put, put with expiry, delete, clear and sweep are the obvious updates of that map and
  keep the store's invariant; a read returns the value while it is live; and a sweep drops exactly
  the entries whose expiry has passed and returns their number.
\<close>

theorem memory_store_refines_map:
  assumes "mem_ok s"
  shows "mem_ok (mem_put_object c k v s) \<and> mem_ok (mem_put_object_at c k v e s)
    \<and> mem_ok (mem_delete_object c k s) \<and> mem_ok (mem_clear_collection c s)
    \<and> mem_ok (fst (mem_sweep_expired t s))
    \<and> mem_view (mem_put_object c k v s) = (mem_view s)((c, k) \<mapsto> (v, None))
    \<and> mem_view (mem_put_object_at c k v e s) = (mem_view s)((c, k) \<mapsto> (v, Some e))
    \<and> mem_view (mem_delete_object c k s) = (mem_view s)((c, k) := None)
    \<and> mem_view (mem_clear_collection c s) = (\<lambda>(c', k). if c' = c then None else mem_view s (c', k))
    \<and> mem_view (fst (mem_sweep_expired t s)) =
        (\<lambda>ck. case mem_view s ck of Some ve \<Rightarrow> if live_at t ve then Some ve else None | None \<Rightarrow> None)
    \<and> snd (mem_sweep_expired t s) = card {ck. \<exists>ve. mem_view s ck = Some ve \<and> \<not> live_at t ve}
    \<and> mem_get_object now s c k =
        (case mem_view s (c, k) of Some ve \<Rightarrow> if live_at now ve then Some (fst ve) else None | None \<Rightarrow> None)"
proof -
  have "{ck. \<exists>ve. mem_view s ck = Some ve \<and> \<not> live_at t ve} = set (mem_dead t s)"
    using assms by (auto simp: mem_view_def mem_expiry_of_eq mem_dead_iff [OF assms] live_at_alt mem_ok_alt)
  then have "snd (mem_sweep_expired t s) = card {ck. \<exists>ve. mem_view s ck = Some ve \<and> \<not> live_at t ve}"
    using mem_dead_distinct [OF assms, of t]
    by (simp only: mem_sweep_expired_def Let_def snd_conv distinct_card)
  then show ?thesis using mem_view_ops [OF assms] by simp
qed

theorem memory_store_refines_map_witness:
  "mem_get_object 5 (mem_put_object_at ''kv'' ''k'' (JInt 1) 9 mem_new) ''kv'' ''k'' = Some (JInt 1)
   \<and> snd (mem_sweep_expired 9 (mem_put_object_at ''kv'' ''k'' (JInt 1) 9 mem_new)) = 1"
proof -
  let ?s = "mem_put_object_at ''kv'' ''k'' (JInt 1) 9 mem_new"
  have ok: "mem_ok ?s" and view: "mem_view ?s = [(''kv'', ''k'') \<mapsto> (JInt 1, Some 9)]"
    using memory_store_refines_map [OF mem_ok_new, of "''kv''" "''k''" "JInt 1" 9]
    by (simp_all add: mem_view_def mem_new_def hm_get2_def fun_eq_iff)
  have "{ck. \<exists>ve. mem_view ?s ck = Some ve \<and> \<not> live_at 9 ve} = {(''kv'', ''k'')}"
    by (auto simp: view split: if_splits)
  with memory_store_refines_map [OF ok, of "''kv''" "''k''" _ _ 9 5] view show ?thesis by simp
qed

text \<open>
  C36. The bucket-filtered scan terminates on every in-memory store and returns, in ascending
  order, the first \<open>limit\<close> keys after the cursor whose bucket is wanted, whatever the number of
  1024-key pages it takes; a limit of 0 behaves like a limit of 1.
\<close>

theorem memory_scan_buckets_total:
  assumes "mem_ok s"
  shows "store_scan_buckets memory_index now s c buckets after limit =
    Some (take (max limit 1) (filter (\<lambda>k. bucket_of k \<in> set buckets)
      (filter (range_ok after None None) (sorted_list_of_set {k. mem_get_object now s c k \<noteq> None}))))"
  using mem.scan_buckets_correct [OF assms] by simp

theorem memory_scan_buckets_total_witness:
  "store_scan_buckets memory_index 0 (mem_put_object ''kv'' ''k'' (JInt 1) mem_new) ''kv''
     [bucket_of ''k''] None 0 = Some [''k'']"
proof -
  let ?s = "mem_put_object ''kv'' ''k'' (JInt 1) mem_new"
  have "{k. mem_get_object 0 ?s ''kv'' k \<noteq> None} = {''k''}"
    by (auto simp: mem_eval split: if_splits)
  then show ?thesis
    using memory_scan_buckets_total [of ?s 0 "''kv''" "[bucket_of ''k'']" None 0]
    by (simp add: mem_ok_ops range_ok_def)
qed

text \<open>
  Compare-and-set and increment are atomic read-modify-writes: a compare-and-set writes the
  new value exactly when the current value equals the expected one (absence included) and
  reports which; an increment adds modulo 2^64 to the integer that is there (0 when absent,
  a decimal string accepted), stores and returns the sum, and on any other value returns
  \<^verbatim>\<open>None\<close> and changes nothing. No other key is touched.
\<close>

theorem memory_cas_incr:
  assumes "mem_ok s"
    and "cur = (case mem_get_object now s c k of None \<Rightarrow> Some 0 | Some v \<Rightarrow> js_integer J v)"
    and "(s1, set_it) = store_cas memory_index J now c k expect new s"
    and "(s2, res) = store_incr memory_index J now c k delta s"
  shows "mem_ok s1 \<and> mem_ok s2
    \<and> set_it = js_eq_opt J (mem_get_object now s c k) expect
    \<and> mem_get_object now' s1 c' k' = (if set_it \<and> (c', k') = (c, k) then Some new
        else mem_get_object now' s c' k')
    \<and> res = map_option (\<lambda>n. n + delta) cur
    \<and> mem_get_object now' s2 c' k' = (case res of
        Some n \<Rightarrow> if (c', k') = (c, k) then Some (js_of_i64 J n) else mem_get_object now' s c' k'
      | None \<Rightarrow> mem_get_object now' s c' k')"
  using mem.cas_correct [OF assms(1), where J = J and now = now and c = c and k = k
      and expect = expect and new = new] assms(2)
    mem.incr_correct [OF assms(1), where J = J and now = now and c = c and k = k
      and cur = cur and delta = delta]
  by (auto simp: assms(3,4) [symmetric] split: option.splits)

text \<open>
  Set membership: adding and removing a member are insertion into and deletion from the set
  of members, the list kept stays free of duplicates, the returned flag says whether the set
  changed, and removing the last member deletes the key.
\<close>

theorem memory_set_ops:
  assumes "mem_ok s" and "json_laws J"
    and "ms = store_set_members memory_index J now s c k" and "distinct ms"
    and "(s1, added) = store_set_add memory_index J now c k m s"
    and "(s2, removed) = store_set_remove memory_index J now c k m s"
  shows "set (store_set_members memory_index J now s1 c k) = insert m (set ms)
    \<and> distinct (store_set_members memory_index J now s1 c k) \<and> added = (m \<notin> set ms)
    \<and> set (store_set_members memory_index J now s2 c k) = set ms - {m}
    \<and> distinct (store_set_members memory_index J now s2 c k) \<and> removed = (m \<in> set ms)
    \<and> (set ms = {m} \<longrightarrow> mem_get_object now s2 c k = None)
    \<and> mem_ok s1 \<and> mem_ok s2"
proof -
  let ?M = "store_set_members memory_index J now"
  have dist: "distinct (?M s c k)" using assms(3,4) by simp
  have add: "mem_ok s1 \<and> added = (m \<notin> set ms) \<and> set (?M s1 c k) = insert m (set ms)
      \<and> distinct (?M s1 c k)"
    using mem.set_add_correct [OF assms(1,2) dist assms(5)]
    unfolding fst_conv snd_conv assms(3) [symmetric] by blast
  have rem: "mem_ok s2 \<and> removed = (m \<in> set ms) \<and> ?M s2 c k = filter (\<lambda>x. x \<noteq> m) ms
      \<and> (m \<in> set ms \<and> ?M s2 c k = [] \<longrightarrow> mem_get_object now s2 c k = None)"
    using mem.set_remove_correct [OF assms(1,2,6)]
    unfolding fst_conv snd_conv assms(3) [symmetric] mem_index_simps by blast
  have "set (filter (\<lambda>x. x \<noteq> m) ms) = set ms - {m}" "distinct (filter (\<lambda>x. x \<noteq> m) ms)"
    "set ms = {m} \<Longrightarrow> filter (\<lambda>x. x \<noteq> m) ms = []"
    using assms(4) by (auto simp: filter_empty_conv)
  with add rem show ?thesis by simp
qed

end
