(* ===== verification/Shard.thy ===== *)
theory Shard
  imports Store
begin

text \<open>
  One node's shard, \<^verbatim>\<open>src/shard.rs\<close>: a store with an id, the object, set and lease operations on
  it, and the three primitives of a reshard (export, import and drop the entries of a set of
  buckets). The lemmas extend the contract \<open>kv_store\<close> with what the shard does to it, so they hold
  for every store that fulfils the contract; the properties are instances at the in-memory store.
\<close>

subsection \<open>The shard\<close>

record 's shard =
  sh_id :: string
  sh_store :: 's

definition shard_new :: "string \<Rightarrow> 's \<Rightarrow> 's shard" where
  "shard_new name store = \<lparr>sh_id = name, sh_store = store\<rparr>"

definition shard_object :: "('s, 'v) index_store \<Rightarrow> u64 \<Rightarrow> 's shard \<Rightarrow> string \<Rightarrow> string \<Rightarrow> 'v option" where
  "shard_object S now sh coll key = st_get_object S now (sh_store sh) coll key"

definition shard_scan_range :: "('s, 'v) index_store \<Rightarrow> u64 \<Rightarrow> 's shard \<Rightarrow> string \<Rightarrow> string option
    \<Rightarrow> string option \<Rightarrow> string option \<Rightarrow> nat \<Rightarrow> string list" where
  "shard_scan_range S now sh coll after pre end limit =
     st_scan_range S now (sh_store sh) coll after pre end limit"

definition shard_mget :: "('s, 'v) index_store \<Rightarrow> u64 \<Rightarrow> 's shard \<Rightarrow> string \<Rightarrow> string list
    \<Rightarrow> 'v option list" where
  "shard_mget S now sh coll keys = store_mget S now (sh_store sh) coll keys"

definition shard_scan_buckets :: "('s, 'v) index_store \<Rightarrow> u64 \<Rightarrow> 's shard \<Rightarrow> string \<Rightarrow> nat list
    \<Rightarrow> string option \<Rightarrow> nat \<Rightarrow> string list option" where
  "shard_scan_buckets S now sh coll buckets after limit =
     store_scan_buckets S now (sh_store sh) coll buckets after limit"

text \<open>A store operation that returns a result, lifted to the shard.\<close>

definition on_store :: "('s \<Rightarrow> 's \<times> 'r) \<Rightarrow> 's shard \<Rightarrow> 's shard \<times> 'r" where
  "on_store f sh = (let (store, r) = f (sh_store sh) in (sh\<lparr>sh_store := store\<rparr>, r))"

definition shard_set_add :: "('s, 'v) index_store \<Rightarrow> 'v json \<Rightarrow> u64 \<Rightarrow> string \<Rightarrow> string \<Rightarrow> string
    \<Rightarrow> 's shard \<Rightarrow> 's shard \<times> bool" where
  "shard_set_add S J now coll key member = on_store (store_set_add S J now coll key member)"

definition shard_set_remove :: "('s, 'v) index_store \<Rightarrow> 'v json \<Rightarrow> u64 \<Rightarrow> string \<Rightarrow> string \<Rightarrow> string
    \<Rightarrow> 's shard \<Rightarrow> 's shard \<times> bool" where
  "shard_set_remove S J now coll key member = on_store (store_set_remove S J now coll key member)"

definition shard_set_members :: "('s, 'v) index_store \<Rightarrow> 'v json \<Rightarrow> u64 \<Rightarrow> 's shard \<Rightarrow> string \<Rightarrow> string
    \<Rightarrow> string list" where
  "shard_set_members S J now sh coll key = store_set_members S J now (sh_store sh) coll key"

definition shard_write_object :: "('s, 'v) index_store \<Rightarrow> string \<Rightarrow> string \<Rightarrow> 'v \<Rightarrow> 's shard \<Rightarrow> 's shard" where
  "shard_write_object S coll key obj sh = sh\<lparr>sh_store := st_put_object S coll key obj (sh_store sh)\<rparr>"

definition shard_write_object_ttl :: "('s, 'v) index_store \<Rightarrow> u64 \<Rightarrow> string \<Rightarrow> string \<Rightarrow> 'v \<Rightarrow> u64
    \<Rightarrow> 's shard \<Rightarrow> 's shard" where
  "shard_write_object_ttl S now coll key obj ttl_ms sh =
     (if ttl_ms = 0 then sh\<lparr>sh_store := st_put_object S coll key obj (sh_store sh)\<rparr>
      else sh\<lparr>sh_store := st_put_object_at S coll key obj (now + ttl_ms) (sh_store sh)\<rparr>)"

definition shard_sweep_expired :: "('s, 'v) index_store \<Rightarrow> u64 \<Rightarrow> 's shard \<Rightarrow> 's shard \<times> nat" where
  "shard_sweep_expired S now = on_store (st_sweep_expired S now)"

definition shard_cas :: "('s, 'v) index_store \<Rightarrow> 'v json \<Rightarrow> u64 \<Rightarrow> string \<Rightarrow> string \<Rightarrow> 'v option \<Rightarrow> 'v
    \<Rightarrow> 's shard \<Rightarrow> 's shard \<times> bool" where
  "shard_cas S J now coll key expect new = on_store (store_cas S J now coll key expect new)"

definition shard_incr :: "('s, 'v) index_store \<Rightarrow> 'v json \<Rightarrow> u64 \<Rightarrow> string \<Rightarrow> string \<Rightarrow> i64
    \<Rightarrow> 's shard \<Rightarrow> 's shard \<times> i64 option" where
  "shard_incr S J now coll key delta = on_store (store_incr S J now coll key delta)"

definition shard_write_batch :: "('s, 'v) index_store \<Rightarrow> (string \<times> string \<times> 'v) list
    \<Rightarrow> 's shard \<Rightarrow> 's shard" where
  "shard_write_batch S items sh = sh\<lparr>sh_store := st_put_batch S items (sh_store sh)\<rparr>"

definition shard_delete_object :: "('s, 'v) index_store \<Rightarrow> string \<Rightarrow> string \<Rightarrow> 's shard \<Rightarrow> 's shard" where
  "shard_delete_object S coll key sh = sh\<lparr>sh_store := st_delete_object S coll key (sh_store sh)\<rparr>"

definition shard_snapshot :: "('s, 'v) index_store \<Rightarrow> 's shard \<Rightarrow> string \<Rightarrow> string + unit" where
  "shard_snapshot S sh dest = st_snapshot S (sh_store sh) dest"

definition stored_lease :: "('s, 'v) index_store \<Rightarrow> 'v json \<Rightarrow> u64 \<Rightarrow> 's shard \<Rightarrow> string \<Rightarrow> lease option" where
  "stored_lease S J now sh key = (case st_get_object S now (sh_store sh) LEASE_COLL key of
     None \<Rightarrow> None | Some v \<Rightarrow> js_to_lease J v)"

definition shard_lease_acquire :: "('s, 'v) index_store \<Rightarrow> 'v json \<Rightarrow> u64 \<Rightarrow> string \<Rightarrow> string \<Rightarrow> u64
    \<Rightarrow> 's shard \<Rightarrow> 's shard \<times> lease_outcome" where
  "shard_lease_acquire S J now key holder ttl_ms sh =
     (let current = stored_lease S J now sh key;
          outcome = evaluate current holder ttl_ms now in
      (if lo_granted outcome
       then sh\<lparr>sh_store := st_put_object S LEASE_COLL key (js_of_lease J (lo_lease outcome)) (sh_store sh)\<rparr>
       else sh, outcome))"

definition shard_export_entries :: "('s, 'v) index_store \<Rightarrow> u64 \<Rightarrow> 's shard \<Rightarrow> string \<Rightarrow> nat list
    \<Rightarrow> (string \<times> 'v) list" where
  "shard_export_entries S now sh coll buckets =
     (let want = set buckets in
      filter (\<lambda>(oid, _). bucket_of oid \<in> want) (st_scan_entries S now (sh_store sh) coll))"

definition shard_import_entries :: "('s, 'v) index_store \<Rightarrow> string \<Rightarrow> (string \<times> 'v) list
    \<Rightarrow> 's shard \<Rightarrow> 's shard" where
  "shard_import_entries S coll entries sh =
     foldl (\<lambda>sh (oid, obj). sh\<lparr>sh_store := st_put_object S coll oid obj (sh_store sh)\<rparr>) sh entries"

definition shard_drop_buckets :: "('s, 'v) index_store \<Rightarrow> u64 \<Rightarrow> string \<Rightarrow> nat list
    \<Rightarrow> 's shard \<Rightarrow> 's shard \<times> nat" where
  "shard_drop_buckets S now coll buckets sh =
     (let want = set buckets;
          ids = map fst (filter (\<lambda>(oid, _). bucket_of oid \<in> want)
                  (st_scan_entries S now (sh_store sh) coll)) in
      (foldl (\<lambda>sh oid. sh\<lparr>sh_store := st_delete_object S coll oid (sh_store sh)\<rparr>) sh ids, length ids))"

subsection \<open>What the operations do to a store that fulfils the contract\<close>

context kv_store
begin

lemma on_store_simps:
  "sh_store (fst (on_store f sh)) = fst (f (sh_store sh))"
  "snd (on_store f sh) = snd (f (sh_store sh))"
  "sh_id (fst (on_store f sh)) = sh_id sh"
  by (simp_all add: on_store_def split: prod.splits)

lemma import_entries_get:
  "invar (sh_store sh) \<Longrightarrow>
   invar (sh_store (shard_import_entries S c es sh)) \<and>
   sh_id (shard_import_entries S c es sh) = sh_id sh \<and>
   get now (sh_store (shard_import_entries S c es sh)) c' k =
     (case (if c' = c then map_of (rev es) k else None) of
        Some v \<Rightarrow> Some v | None \<Rightarrow> get now (sh_store sh) c' k)"
proof (induction es arbitrary: sh)
  case (Cons e es)
  obtain i v where e: "e = (i, v)" by (cases e)
  let ?sh = "sh\<lparr>sh_store := st_put_object S c i v (sh_store sh)\<rparr>"
  have "invar (sh_store ?sh)" using Cons.prems by (simp add: invar_put)
  from Cons.IH [OF this] Cons.prems show ?case
    by (auto simp: shard_import_entries_def e get_put map_add_def split: option.splits)
qed (simp add: shard_import_entries_def)

lemma export_entries_get:
  assumes "invar (sh_store sh)"
  shows "map_of (shard_export_entries S now sh c bs) k =
      (if bucket_of k \<in> set bs then get now (sh_store sh) c k else None)"
    and "distinct (map fst (shard_export_entries S now sh c bs))"
    and "map_of (rev (shard_export_entries S now sh c bs)) = map_of (shard_export_entries S now sh c bs)"
proof -
  show d: "distinct (map fst (shard_export_entries S now sh c bs))"
    unfolding shard_export_entries_def Let_def
    by (rule hm_ok_filter [OF entries_distinct [OF assms]])
  have "filter (\<lambda>(oid, _). bucket_of oid \<in> set bs) es =
      filter (\<lambda>(oid, v). (\<lambda>oid. bucket_of oid \<in> set bs) oid) es" for es :: "(string \<times> 'v) list"
    by (rule refl)
  then show "map_of (shard_export_entries S now sh c bs) k =
      (if bucket_of k \<in> set bs then get now (sh_store sh) c k else None)"
    by (simp add: shard_export_entries_def hm_get_filter_fst entries_get [OF assms])
  show "map_of (rev (shard_export_entries S now sh c bs)) = map_of (shard_export_entries S now sh c bs)"
    using d by (intro map_of_inject_set [THEN iffD2]) (simp_all add: rev_map [symmetric])
qed

lemma delete_many_get:
  "invar (sh_store sh) \<Longrightarrow>
   invar (sh_store (foldl (\<lambda>sh oid. sh\<lparr>sh_store := st_delete_object S c oid (sh_store sh)\<rparr>) sh ids)) \<and>
   sh_id (foldl (\<lambda>sh oid. sh\<lparr>sh_store := st_delete_object S c oid (sh_store sh)\<rparr>) sh ids) = sh_id sh \<and>
   get now (sh_store (foldl (\<lambda>sh oid. sh\<lparr>sh_store := st_delete_object S c oid (sh_store sh)\<rparr>) sh ids)) c' k =
     (if c' = c \<and> k \<in> set ids then None else get now (sh_store sh) c' k)"
  by (induction ids arbitrary: sh) (auto simp: get_delete invar_delete)

lemma drop_buckets_get:
  assumes "invar (sh_store sh)" and "r = shard_drop_buckets S now c bs sh"
  shows "invar (sh_store (fst r)) \<and> sh_id (fst r) = sh_id sh \<and>
    get now (sh_store (fst r)) c' k =
      (if c' = c \<and> bucket_of k \<in> set bs then None else get now (sh_store sh) c' k) \<and>
    snd r = card {k. bucket_of k \<in> set bs \<and> get now (sh_store sh) c k \<noteq> None}"
proof -
  let ?ids = "map fst (shard_export_entries S now sh c bs)"
  have r: "r = (foldl (\<lambda>sh oid. sh\<lparr>sh_store := st_delete_object S c oid (sh_store sh)\<rparr>) sh ?ids, length ?ids)"
    by (simp add: assms(2) shard_drop_buckets_def shard_export_entries_def Let_def)
  have mem: "k \<in> set ?ids \<longleftrightarrow> bucket_of k \<in> set bs \<and> get now (sh_store sh) c k \<noteq> None" for k
    unfolding hm_keys_iff export_entries_get(1) [OF assms(1)] by simp
  have ids: "set ?ids = {k. bucket_of k \<in> set bs \<and> get now (sh_store sh) c k \<noteq> None}"
    by (rule set_eqI) (simp only: mem mem_Collect_eq)
  then have "length ?ids = card {k. bucket_of k \<in> set bs \<and> get now (sh_store sh) c k \<noteq> None}"
    using export_entries_get(2) [OF assms(1), of now c bs] by (metis distinct_card)
  moreover have "invar (sh_store (fst r)) \<and> sh_id (fst r) = sh_id sh \<and>
      get now (sh_store (fst r)) c' k = (if c' = c \<and> k \<in> set ?ids then None else get now (sh_store sh) c' k)"
    unfolding r fst_conv by (rule delete_many_get [OF assms(1)])
  moreover have "snd r = length ?ids" by (simp add: r)
  ultimately show ?thesis using mem [of k] by (simp split: if_splits)
qed

lemma lease_acquire_refines:
  assumes "invar (sh_store sh)" and "json_laws J" and "r = shard_lease_acquire S J now key holder ttl sh"
  shows "invar (sh_store (fst r)) \<and>
    snd r = evaluate (stored_lease S J now sh key) holder ttl now \<and>
    stored_lease S J now (fst r) key = lease_next (stored_lease S J now sh key) holder ttl now \<and>
    (\<forall>c k. (c, k) \<noteq> (LEASE_COLL, key) \<longrightarrow> get now (sh_store (fst r)) c k = get now (sh_store sh) c k)"
proof -
  have "js_to_lease J (js_of_lease J l) = Some l" for l
    using assms(2) by (simp add: json_laws_def)
  then show ?thesis
    using assms(1,3)
    by (auto simp: shard_lease_acquire_def Let_def lease_next_def stored_lease_def get_put invar_put)
qed

end

subsection \<open>Properties\<close>

text \<open>
  Moving buckets between shards is exact: after the target imports what the source exports
  and the source drops the same buckets, every key of those buckets that was live on the source
  reads the same on the target and is gone from the source, the number of dropped entries is the
  number of those keys, and no other key of either shard changes.
\<close>

theorem shard_bucket_move_exact:
  assumes "mem_ok (sh_store a)" and "mem_ok (sh_store b)"
    and "b' = shard_import_entries memory_index c (shard_export_entries memory_index now a c bs) b"
    and "(a', n) = shard_drop_buckets memory_index now c bs a"
  shows "mem_ok (sh_store a') \<and> mem_ok (sh_store b')
    \<and> shard_object memory_index now b' c' k =
        (if c' = c \<and> bucket_of k \<in> set bs \<and> shard_object memory_index now a c k \<noteq> None
         then shard_object memory_index now a c k else shard_object memory_index now b c' k)
    \<and> shard_object memory_index now a' c' k =
        (if c' = c \<and> bucket_of k \<in> set bs then None else shard_object memory_index now a c' k)
    \<and> n = card {k. bucket_of k \<in> set bs \<and> shard_object memory_index now a c k \<noteq> None}"
proof -
  note exp = mem.export_entries_get [OF assms(1), of now c bs]
  have "mem_ok (sh_store b') \<and> shard_object memory_index now b' c' k =
      (if c' = c \<and> bucket_of k \<in> set bs \<and> shard_object memory_index now a c k \<noteq> None
       then shard_object memory_index now a c k else shard_object memory_index now b c' k)"
    using mem.import_entries_get [OF assms(2), where c = c and now = now and c' = c' and k = k
        and es = "shard_export_entries memory_index now a c bs"]
    unfolding exp(1) exp(3) assms(3) [symmetric] shard_object_def
    by (simp split: if_splits option.splits)
  moreover have "mem_ok (sh_store a') \<and> shard_object memory_index now a' c' k =
      (if c' = c \<and> bucket_of k \<in> set bs then None else shard_object memory_index now a c' k)
      \<and> n = card {k. bucket_of k \<in> set bs \<and> shard_object memory_index now a c k \<noteq> None}"
    using mem.drop_buckets_get [OF assms(1,4), where c' = c' and k = k]
    unfolding shard_object_def fst_conv snd_conv mem_index_simps by blast
  ultimately show ?thesis by blast
qed

abbreviation one_shard :: "jv memory_store shard" where
  "one_shard \<equiv> shard_write_object memory_index ''kv'' ''k'' (JInt 1) (shard_new ''n0'' mem_new)"

lemma one_shard_ok: "mem_ok (sh_store one_shard)"
  by (simp add: shard_write_object_def shard_new_def mem_ok_ops)

lemma one_shard_object: "shard_object memory_index now one_shard ''kv'' ''k'' = Some (JInt 1)"
  by (simp add: shard_write_object_def shard_new_def shard_object_def mem_eval)

text \<open>
  The shard's lease operation is the pure transition: the outcome it returns is \<open>evaluate\<close> of
  the lease it had stored, and the lease it stores afterwards is that of the transition; no other
  object of the shard changes. So the mutual exclusion and fencing of lease runs hold for the
  leases of a shard.
\<close>

theorem shard_lease_refines:
  assumes "mem_ok (sh_store sh)" and "json_laws J"
    and "(sh', outcome) = shard_lease_acquire memory_index J now key holder ttl sh"
  shows "mem_ok (sh_store sh')
    \<and> outcome = evaluate (stored_lease memory_index J now sh key) holder ttl now
    \<and> stored_lease memory_index J now sh' key =
        lease_next (stored_lease memory_index J now sh key) holder ttl now
    \<and> ((c, k) \<noteq> (LEASE_COLL, key) \<longrightarrow> shard_object memory_index now sh' c k = shard_object memory_index now sh c k)"
  using mem.lease_acquire_refines [OF assms]
  unfolding fst_conv snd_conv mem_index_simps shard_object_def by blast

text \<open>
  C39. A TTL write is readable for exactly its time to live as long as the expiry does not
  overflow; with a TTL of 0 it never expires. Past the overflow the write is lost at once: the
  wrapped expiry lies in the past.
\<close>

theorem shard_write_ttl_lifetime:
  assumes "mem_ok (sh_store sh)"
    and "sh' = shard_write_object_ttl memory_index now c k v ttl sh"
  shows "(ttl = 0 \<longrightarrow> shard_object memory_index t sh' c k = Some v)
    \<and> (ttl \<noteq> 0 \<and> unat now + unat ttl < 2 ^ 64 \<longrightarrow>
        shard_object memory_index t sh' c k = (if unat t < unat now + unat ttl then Some v else None))
    \<and> (unat now + unat ttl \<ge> 2 ^ 64 \<longrightarrow> shard_object memory_index now sh' c k = None)"
proof -
  have no_wrap: "unat (now + ttl) = unat now + unat ttl" if "unat now + unat ttl < 2 ^ 64"
    using that by (simp add: unat_word_ariths)
  have lt: "unat now < 2 ^ 64" "unat ttl < 2 ^ 64" using unsigned_less [of now] unsigned_less [of ttl] by simp_all
  then have wrap: "now + ttl \<le> now" if "unat now + unat ttl \<ge> 2 ^ 64"
    using that by (simp add: word_le_nat_alt unat_word_ariths mod_if) arith
  show ?thesis
    using mem.get_put [OF assms(1), of _ c k v] mem.get_put_at [OF assms(1), of _ c k v] no_wrap wrap lt
    by (auto simp: assms(2) shard_write_object_ttl_def shard_object_def word_le_nat_alt not_le)
qed

theorem shard_write_ttl_lifetime_witness:
  "shard_object memory_index 9 (shard_write_object_ttl memory_index 5 ''kv'' ''k'' (JInt 1) 5
     (shard_new ''n0'' mem_new)) ''kv'' ''k'' = Some (JInt 1)
   \<and> shard_object memory_index 5 (shard_write_object_ttl memory_index 5 ''kv'' ''k'' (JInt 1) 0xFFFFFFFFFFFFFFFF
     (shard_new ''n0'' mem_new)) ''kv'' ''k'' = None"
proof -
  have ok: "mem_ok (sh_store (shard_new ''n0'' mem_new))" by (simp add: shard_new_def)
  show ?thesis
    using shard_write_ttl_lifetime [OF ok refl, of 5 9 5 "''kv''" "''k''" "JInt 1"]
      shard_write_ttl_lifetime [OF ok refl, of "0xFFFFFFFFFFFFFFFF" 9 5 "''kv''" "''k''" "JInt 1"]
    by simp
qed

text \<open>
  Moving a bucket loses the expiry of its keys: an entry carries no expiry, so a key that is
  about to expire on the source never expires on the target.
\<close>

theorem shard_move_loses_ttl:
  assumes "mem_ok (sh_store a)" and "mem_ok (sh_store b)"
    and "mem_view (sh_store a) (c, k) = Some (v, Some e)" and "now < e" and "e \<le> t"
    and "bucket_of k \<in> set bs"
    and "b' = shard_import_entries memory_index c (shard_export_entries memory_index now a c bs) b"
  shows "shard_object memory_index t a c k = None \<and> shard_object memory_index t b' c k = Some v"
proof -
  have e: "mem_expiry_of (sh_store a) c k = Some e" "mem_get_object now (sh_store a) c k = Some v"
    using assms(3,4) by (auto simp: mem_view_def mem_get_object_eq mem_expiry_of_eq)
  then have "shard_object memory_index t a c k = None"
    using mem.get_expired [of "sh_store a" c k e t] assms(5) by (simp add: shard_object_def)
  moreover have "shard_object memory_index t b' c k = Some v"
    using mem.import_entries_get [OF assms(2), where c = c and now = t and c' = c and k = k
        and es = "shard_export_entries memory_index now a c bs"]
      mem.export_entries_get(1,3) [OF assms(1), of now c bs] assms(6) e(2)
    by (simp add: assms(7) shard_object_def)
  ultimately show ?thesis by blast
qed

end
