(* ===== verification/Client.thy ===== *)
theory Client
  imports Shard
begin

text \<open>
  The coordinator's transport seam, \<^verbatim>\<open>src/client.rs\<close>. A \<^verbatim>\<open>dyn ShardClient\<close> is a value of type
  \<open>'c\<close> together with the record \<open>shard_client\<close> of the trait's methods over a world \<open>'w\<close> that
  holds the shards; every call returns the new world and a \<open>cresult\<close>. \<open>inproc\<close> is the
  implementation for co-located shards: a client holds its id and the address of a shared shard.

  The locale \<open>reliable_client\<close> is what the coordinator relies on: every call succeeds and acts on
  the one shard the client is bound to, with the effect in terms of \<open>peek\<close>, the value a shard
  currently returns for a key; \<open>scanning_client\<close> adds the range scan. In-process clients fulfil it over every store that fulfils the
  store contract.
\<close>

subsection \<open>The trait\<close>

datatype 'a cresult = COk 'a | CErr string

record ('c, 'w, 'v) shard_client =
  sc_id :: "'c \<Rightarrow> node_id"
  sc_object :: "'c \<Rightarrow> string \<Rightarrow> string \<Rightarrow> 'w \<Rightarrow> 'w \<times> 'v option cresult"
  sc_scan_range :: "'c \<Rightarrow> string \<Rightarrow> string option \<Rightarrow> string option \<Rightarrow> string option \<Rightarrow> nat
    \<Rightarrow> 'w \<Rightarrow> 'w \<times> string list cresult"
  sc_scan_buckets :: "'c \<Rightarrow> string \<Rightarrow> nat list \<Rightarrow> string option \<Rightarrow> nat
    \<Rightarrow> 'w \<Rightarrow> ('w \<times> string list cresult) option"
  sc_mget :: "'c \<Rightarrow> string \<Rightarrow> string list \<Rightarrow> 'w \<Rightarrow> 'w \<times> 'v option list cresult"
  sc_set_add :: "'c \<Rightarrow> string \<Rightarrow> string \<Rightarrow> string \<Rightarrow> 'w \<Rightarrow> 'w \<times> bool cresult"
  sc_set_remove :: "'c \<Rightarrow> string \<Rightarrow> string \<Rightarrow> string \<Rightarrow> 'w \<Rightarrow> 'w \<times> bool cresult"
  sc_write_object :: "'c \<Rightarrow> string \<Rightarrow> string \<Rightarrow> 'v \<Rightarrow> 'w \<Rightarrow> 'w \<times> unit cresult"
  sc_write_object_ttl :: "'c \<Rightarrow> string \<Rightarrow> string \<Rightarrow> 'v \<Rightarrow> u64 \<Rightarrow> 'w \<Rightarrow> 'w \<times> unit cresult"
  sc_delete_object :: "'c \<Rightarrow> string \<Rightarrow> string \<Rightarrow> 'w \<Rightarrow> 'w \<times> unit cresult"
  sc_cas :: "'c \<Rightarrow> string \<Rightarrow> string \<Rightarrow> 'v option \<Rightarrow> 'v \<Rightarrow> 'w \<Rightarrow> 'w \<times> bool cresult"
  sc_incr :: "'c \<Rightarrow> string \<Rightarrow> string \<Rightarrow> i64 \<Rightarrow> 'w \<Rightarrow> 'w \<times> i64 option cresult"
  sc_export_entries :: "'c \<Rightarrow> string \<Rightarrow> nat list \<Rightarrow> 'w \<Rightarrow> 'w \<times> (string \<times> 'v) list cresult"
  sc_import_entries :: "'c \<Rightarrow> string \<Rightarrow> (string \<times> 'v) list \<Rightarrow> 'w \<Rightarrow> 'w \<times> unit cresult"
  sc_drop_buckets :: "'c \<Rightarrow> string \<Rightarrow> nat list \<Rightarrow> 'w \<Rightarrow> 'w \<times> nat cresult"
  sc_health :: "'c \<Rightarrow> 'w \<Rightarrow> bool"
  sc_endpoint :: "'c \<Rightarrow> string"
  sc_lease_acquire :: "'c \<Rightarrow> string \<Rightarrow> string \<Rightarrow> u64 \<Rightarrow> 'w \<Rightarrow> 'w \<times> lease_outcome cresult"

text \<open>The default bodies of the trait.\<close>

definition default_sc_scan_range :: "'c \<Rightarrow> string \<Rightarrow> string option \<Rightarrow> string option \<Rightarrow> string option
    \<Rightarrow> nat \<Rightarrow> 'w \<Rightarrow> 'w \<times> string list cresult" where
  "default_sc_scan_range cl coll after pre end limit w = (w, COk [])"

definition default_sc_scan_buckets :: "'c \<Rightarrow> string \<Rightarrow> nat list \<Rightarrow> string option \<Rightarrow> nat
    \<Rightarrow> 'w \<Rightarrow> ('w \<times> string list cresult) option" where
  "default_sc_scan_buckets cl coll buckets after limit w = Some (w, COk [])"

fun default_sc_mget :: "('c \<Rightarrow> string \<Rightarrow> string \<Rightarrow> 'w \<Rightarrow> 'w \<times> 'v option cresult) \<Rightarrow> 'c \<Rightarrow> string
    \<Rightarrow> string list \<Rightarrow> 'w \<Rightarrow> 'w \<times> 'v option list cresult" where
  "default_sc_mget object cl coll [] w = (w, COk [])"
| "default_sc_mget object cl coll (k # keys) w =
     (case object cl coll k w of
        (w, CErr e) \<Rightarrow> (w, CErr e)
      | (w, COk o1) \<Rightarrow> (case default_sc_mget object cl coll keys w of
            (w, CErr e) \<Rightarrow> (w, CErr e) | (w, COk os) \<Rightarrow> (w, COk (o1 # os))))"

definition default_sc_write_object_ttl :: "('c \<Rightarrow> string \<Rightarrow> string \<Rightarrow> 'v \<Rightarrow> 'w \<Rightarrow> 'w \<times> unit cresult)
    \<Rightarrow> 'c \<Rightarrow> string \<Rightarrow> string \<Rightarrow> 'v \<Rightarrow> u64 \<Rightarrow> 'w \<Rightarrow> 'w \<times> unit cresult" where
  "default_sc_write_object_ttl write_object cl coll key obj ttl_ms = write_object cl coll key obj"

definition default_sc_cas :: "'c \<Rightarrow> string \<Rightarrow> string \<Rightarrow> 'v option \<Rightarrow> 'v \<Rightarrow> 'w \<Rightarrow> 'w \<times> bool cresult" where
  "default_sc_cas cl coll key expect new w = (w, CErr ''cas not supported by this client'')"

definition default_sc_incr :: "'c \<Rightarrow> string \<Rightarrow> string \<Rightarrow> i64 \<Rightarrow> 'w \<Rightarrow> 'w \<times> i64 option cresult" where
  "default_sc_incr cl coll key delta w = (w, CErr ''incr not supported by this client'')"

definition default_sc_endpoint :: "'c \<Rightarrow> string" where
  "default_sc_endpoint cl = []"

definition default_sc_lease_acquire :: "'c \<Rightarrow> string \<Rightarrow> string \<Rightarrow> u64 \<Rightarrow> 'w \<Rightarrow> 'w \<times> lease_outcome cresult" where
  "default_sc_lease_acquire cl key holder ttl_ms w =
     (w, CErr ''lease_acquire not supported by this client'')"

subsection \<open>In-process clients\<close>

text \<open>
  The world of in-process clients: the shared shards by address, and the clock. A call holds the
  shard's lock throughout, so it is one step, and it reads the clock once.
\<close>

record 's world =
  w_shards :: "nat \<Rightarrow> 's shard"
  w_now :: u64

record inproc_client =
  ic_id :: node_id
  ic_shard :: nat

definition inproc_new :: "node_id \<Rightarrow> nat \<Rightarrow> inproc_client" where
  "inproc_new name shard = \<lparr>ic_id = name, ic_shard = shard\<rparr>"

definition with_read :: "('s shard \<Rightarrow> 'r) \<Rightarrow> inproc_client \<Rightarrow> 's world \<Rightarrow> 's world \<times> 'r cresult" where
  "with_read f cl w = (w, COk (f (w_shards w (ic_shard cl))))"

definition with_write :: "('s shard \<Rightarrow> 's shard \<times> 'r) \<Rightarrow> inproc_client \<Rightarrow> 's world
    \<Rightarrow> 's world \<times> 'r cresult" where
  "with_write f cl w =
     (let (sh, r) = f (w_shards w (ic_shard cl)) in
      (w\<lparr>w_shards := (w_shards w)(ic_shard cl := sh)\<rparr>, COk r))"

definition inproc :: "('s, 'v) index_store \<Rightarrow> 'v json \<Rightarrow> (inproc_client, 's world, 'v) shard_client" where
  "inproc S J = \<lparr>
     sc_id = ic_id,
     sc_object = (\<lambda>cl coll key w. with_read (\<lambda>sh. shard_object S (w_now w) sh coll key) cl w),
     sc_scan_range = (\<lambda>cl coll after pre end limit w.
       with_read (\<lambda>sh. shard_scan_range S (w_now w) sh coll after pre end limit) cl w),
     sc_scan_buckets = (\<lambda>cl coll buckets after limit w.
       map_option (\<lambda>keys. (w, COk keys))
         (shard_scan_buckets S (w_now w) (w_shards w (ic_shard cl)) coll buckets after limit)),
     sc_mget = (\<lambda>cl coll keys w. with_read (\<lambda>sh. shard_mget S (w_now w) sh coll keys) cl w),
     sc_set_add = (\<lambda>cl coll key member w. with_write (shard_set_add S J (w_now w) coll key member) cl w),
     sc_set_remove = (\<lambda>cl coll key member w. with_write (shard_set_remove S J (w_now w) coll key member) cl w),
     sc_write_object = (\<lambda>cl coll key obj. with_write (\<lambda>sh. (shard_write_object S coll key obj sh, ())) cl),
     sc_write_object_ttl = (\<lambda>cl coll key obj ttl_ms w.
       with_write (\<lambda>sh. (shard_write_object_ttl S (w_now w) coll key obj ttl_ms sh, ())) cl w),
     sc_delete_object = (\<lambda>cl coll key. with_write (\<lambda>sh. (shard_delete_object S coll key sh, ())) cl),
     sc_cas = (\<lambda>cl coll key expect new w. with_write (shard_cas S J (w_now w) coll key expect new) cl w),
     sc_incr = (\<lambda>cl coll key delta w. with_write (shard_incr S J (w_now w) coll key delta) cl w),
     sc_export_entries = (\<lambda>cl coll buckets w.
       with_read (\<lambda>sh. shard_export_entries S (w_now w) sh coll buckets) cl w),
     sc_import_entries = (\<lambda>cl coll entries. with_write (\<lambda>sh. (shard_import_entries S coll entries sh, ())) cl),
     sc_drop_buckets = (\<lambda>cl coll buckets w. with_write (shard_drop_buckets S (w_now w) coll buckets) cl w),
     sc_health = (\<lambda>cl w. True),
     sc_endpoint = default_sc_endpoint,
     sc_lease_acquire = (\<lambda>cl key holder ttl_ms w.
       with_write (shard_lease_acquire S J (w_now w) key holder ttl_ms) cl w)\<rparr>"

subsection \<open>What the coordinator relies on\<close>

definition upd_peek :: "('a \<Rightarrow> string \<Rightarrow> string \<Rightarrow> 'v option) \<Rightarrow> 'a \<Rightarrow> string \<Rightarrow> string \<Rightarrow> 'v option
    \<Rightarrow> 'a \<Rightarrow> string \<Rightarrow> string \<Rightarrow> 'v option" where
  "upd_peek p a c k ov = (\<lambda>a' c' k'. if a' = a \<and> c' = c \<and> k' = k then ov else p a' c' k')"

text \<open>The value a set or counter operation leaves at its key.\<close>

definition added_value :: "'v json \<Rightarrow> string \<Rightarrow> 'v option \<Rightarrow> 'v option" where
  "added_value J m ov = (let arr = js_members J ov in
     if m \<in> set arr then ov else Some (js_of_strings J (arr @ [m])))"

definition removed_value :: "'v json \<Rightarrow> string \<Rightarrow> 'v option \<Rightarrow> 'v option" where
  "removed_value J m ov = (let arr = js_members J ov; rest = filter (\<lambda>x. x \<noteq> m) arr in
     if length rest = length arr then ov else if rest = [] then None else Some (js_of_strings J rest))"

definition incr_value :: "'v json \<Rightarrow> i64 \<Rightarrow> 'v option \<Rightarrow> i64 option" where
  "incr_value J delta ov = map_option (\<lambda>n. n + delta) (case ov of None \<Rightarrow> Some 0 | Some v \<Rightarrow> js_integer J v)"

locale reliable_client =
  fixes C :: "('c, 'w, 'v) shard_client" and J :: "'v json"
    and addr :: "'c \<Rightarrow> 'a" and peek :: "'w \<Rightarrow> 'a \<Rightarrow> string \<Rightarrow> string \<Rightarrow> 'v option"
    and alive :: "'w \<Rightarrow> u64 \<Rightarrow> bool" and wok :: "'w \<Rightarrow> bool"
  assumes peek_finite: "wok w \<Longrightarrow> finite {k. peek w a c k \<noteq> None}"
    and object: "wok w \<Longrightarrow> sc_object C cl c k w = (w, COk (peek w (addr cl) c k))"
    and mget: "wok w \<Longrightarrow> sc_mget C cl c ks w = (w, COk (map (peek w (addr cl) c) ks))"
    and write_object: "wok w \<Longrightarrow> sc_write_object C cl c k v w = (w', r) \<Longrightarrow>
      wok w' \<and> peek w' = upd_peek (peek w) (addr cl) c k (Some v) \<and> alive w' = alive w \<and> r = COk ()"
    and write_object_ttl: "wok w \<Longrightarrow> sc_write_object_ttl C cl c k v ttl w = (w', r) \<Longrightarrow>
      wok w' \<and> peek w' = upd_peek (peek w) (addr cl) c k (if alive w ttl then Some v else None) \<and>
      alive w' = alive w \<and> r = COk ()"
    and delete_object: "wok w \<Longrightarrow> sc_delete_object C cl c k w = (w', r) \<Longrightarrow>
      wok w' \<and> peek w' = upd_peek (peek w) (addr cl) c k None \<and> alive w' = alive w \<and> r = COk ()"
    and set_add: "wok w \<Longrightarrow> sc_set_add C cl c k m w = (w', rb) \<Longrightarrow>
      wok w' \<and> peek w' = upd_peek (peek w) (addr cl) c k (added_value J m (peek w (addr cl) c k)) \<and>
      alive w' = alive w \<and> rb = COk (m \<notin> set (js_members J (peek w (addr cl) c k)))"
    and set_remove: "wok w \<Longrightarrow> sc_set_remove C cl c k m w = (w', rb) \<Longrightarrow>
      wok w' \<and> peek w' = upd_peek (peek w) (addr cl) c k (removed_value J m (peek w (addr cl) c k)) \<and>
      alive w' = alive w \<and> rb = COk (m \<in> set (js_members J (peek w (addr cl) c k)))"
    and cas: "wok w \<Longrightarrow> sc_cas C cl c k expect new w = (w', rb) \<Longrightarrow>
      wok w' \<and> alive w' = alive w \<and> rb = COk (js_eq_opt J (peek w (addr cl) c k) expect) \<and>
      peek w' = (if js_eq_opt J (peek w (addr cl) c k) expect
        then upd_peek (peek w) (addr cl) c k (Some new) else peek w)"
    and incr: "wok w \<Longrightarrow> sc_incr C cl c k delta w = (w', ri) \<Longrightarrow>
      wok w' \<and> alive w' = alive w \<and> ri = COk (incr_value J delta (peek w (addr cl) c k)) \<and>
      peek w' = (case incr_value J delta (peek w (addr cl) c k) of None \<Rightarrow> peek w
        | Some n \<Rightarrow> upd_peek (peek w) (addr cl) c k (Some (js_of_i64 J n)))"
    and export_entries: "wok w \<Longrightarrow> sc_export_entries C cl c bs w = (w', re) \<Longrightarrow>
      w' = w \<and> (\<exists>es. re = COk es \<and> distinct (map fst es) \<and>
        (\<forall>k. map_of es k = (if bucket_of k \<in> set bs then peek w (addr cl) c k else None)))"
    and import_entries: "wok w \<Longrightarrow> distinct (map fst es) \<Longrightarrow> sc_import_entries C cl c es w = (w', r) \<Longrightarrow>
      wok w' \<and> alive w' = alive w \<and> r = COk () \<and>
      peek w' = (\<lambda>a' c' k. case (if a' = addr cl \<and> c' = c then map_of es k else None) of
        Some v \<Rightarrow> Some v | None \<Rightarrow> peek w a' c' k)"
    and drop_buckets: "wok w \<Longrightarrow> sc_drop_buckets C cl c bs w = (w', rn) \<Longrightarrow>
      wok w' \<and> alive w' = alive w \<and>
      rn = COk (card {k. bucket_of k \<in> set bs \<and> peek w (addr cl) c k \<noteq> None}) \<and>
      peek w' = (\<lambda>a' c' k. if a' = addr cl \<and> c' = c \<and> bucket_of k \<in> set bs then None else peek w a' c' k)"
    and lease_acquire: "wok w \<Longrightarrow> sc_lease_acquire C cl key holder ttl w = (w', rl) \<Longrightarrow>
      wok w' \<and> alive w' = alive w \<and>
      (\<forall>a c k. c \<noteq> LEASE_COLL \<longrightarrow> peek w' a c k = peek w a c k)"

begin

lemma peek_upd_same [simp]: "upd_peek p a c k ov a c k = ov"
  by (simp add: upd_peek_def)

end

text \<open>A client that also answers a range scan of any page size in full.\<close>

locale scanning_client = reliable_client +
  assumes scan_range: "wok w \<Longrightarrow> sc_scan_range C cl c after pre end limit w =
      (w, COk (take limit (filter (range_ok after pre end)
        (sorted_list_of_set {k. peek w (addr cl) c k \<noteq> None}))))"

definition inproc_peek :: "('s, 'v) index_store \<Rightarrow> 's world \<Rightarrow> nat \<Rightarrow> string \<Rightarrow> string \<Rightarrow> 'v option" where
  "inproc_peek S w a c k = st_get_object S (w_now w) (sh_store (w_shards w a)) c k"

definition inproc_alive :: "'s world \<Rightarrow> u64 \<Rightarrow> bool" where
  "inproc_alive w ttl \<longleftrightarrow> ttl = 0 \<or> w_now w < w_now w + ttl"

definition inproc_ok :: "('s \<Rightarrow> bool) \<Rightarrow> 's world \<Rightarrow> bool" where
  "inproc_ok invar w \<longleftrightarrow> (\<forall>a. invar (sh_store (w_shards w a)))"

lemma with_write_eq:
  "with_write f cl w = (w', r) \<longleftrightarrow> (\<exists>sh x. f (w_shards w (ic_shard cl)) = (sh, x) \<and> r = COk x \<and>
     w' = w\<lparr>w_shards := (w_shards w)(ic_shard cl := sh)\<rparr>)"
  by (auto simp: with_write_def split: prod.splits)

lemma upd_peek_inproc:
  "inproc_peek S (w\<lparr>w_shards := (w_shards w)(a := sh)\<rparr>) =
     (\<lambda>a' c k. if a' = a then st_get_object S (w_now w) (sh_store sh) c k else inproc_peek S w a' c k)"
  by (auto simp: inproc_peek_def fun_eq_iff)

lemma inproc_ok_upd:
  "inproc_ok invar w \<Longrightarrow> invar (sh_store sh) \<Longrightarrow>
   inproc_ok invar (w\<lparr>w_shards := (w_shards w)(a := sh)\<rparr>)"
  by (simp add: inproc_ok_def)

lemma alive_upd [simp]: "inproc_alive (w\<lparr>w_shards := f\<rparr>) = inproc_alive w"
  by (simp add: inproc_alive_def fun_eq_iff)

lemma inproc_ok_shard: "inproc_ok invar w \<Longrightarrow> invar (sh_store (w_shards w a))"
  by (simp add: inproc_ok_def)

context kv_store
begin

text \<open>A write through a client: it succeeds, and only the client's shard changes.\<close>

lemma inproc_write:
  assumes "inproc_ok invar w" and "with_write f cl w = (w', r)"
    and "invar (sh_store (fst (f (w_shards w (ic_shard cl)))))"
  shows "inproc_ok invar w' \<and> inproc_alive w' = inproc_alive w \<and>
    r = COk (snd (f (w_shards w (ic_shard cl)))) \<and>
    inproc_peek S w' = (\<lambda>a c k. if a = ic_shard cl
      then get (w_now w) (sh_store (fst (f (w_shards w (ic_shard cl))))) c k else inproc_peek S w a c k)"
  using assms by (auto simp: with_write_eq inproc_ok_upd upd_peek_inproc fun_eq_iff)

lemma inproc_key_write:
  assumes "inproc_ok invar w" and "with_write f cl w = (w', r)"
    and "invar (sh_store (fst (f (w_shards w (ic_shard cl)))))"
    and "\<And>c' k'. get (w_now w) (sh_store (fst (f (w_shards w (ic_shard cl))))) c' k' =
      (if c' = c \<and> k' = k then ov else inproc_peek S w (ic_shard cl) c' k')"
    and "snd (f (w_shards w (ic_shard cl))) = x"
  shows "inproc_ok invar w' \<and> inproc_peek S w' = upd_peek (inproc_peek S w) (ic_shard cl) c k ov \<and>
    inproc_alive w' = inproc_alive w \<and> r = COk x"
  using inproc_write [OF assms(1-3)] assms(4,5) by (auto simp: upd_peek_def fun_eq_iff)

lemma peek_unfold: "get (w_now w) (sh_store (w_shards w a)) c k = inproc_peek S w a c k"
  by (simp add: inproc_peek_def)

lemma inproc_write_object:
  assumes "inproc_ok invar w" and "sc_write_object (inproc S J) cl c k v w = (w', r)"
  shows "inproc_ok invar w' \<and> inproc_peek S w' = upd_peek (inproc_peek S w) (ic_shard cl) c k (Some v) \<and>
    inproc_alive w' = inproc_alive w \<and> r = COk ()"
  using inproc_ok_shard [OF assms(1), of "ic_shard cl"]
  by (intro inproc_key_write [OF assms(1) assms(2) [unfolded inproc_def shard_client.simps]])
    (simp_all add: shard_write_object_def invar_put get_put peek_unfold)

lemma inproc_delete_object:
  assumes "inproc_ok invar w" and "sc_delete_object (inproc S J) cl c k w = (w', r)"
  shows "inproc_ok invar w' \<and> inproc_peek S w' = upd_peek (inproc_peek S w) (ic_shard cl) c k None \<and>
    inproc_alive w' = inproc_alive w \<and> r = COk ()"
  using inproc_ok_shard [OF assms(1), of "ic_shard cl"]
  by (intro inproc_key_write [OF assms(1) assms(2) [unfolded inproc_def shard_client.simps]])
    (simp_all add: shard_delete_object_def invar_delete get_delete peek_unfold)

lemma inproc_write_object_ttl:
  assumes "inproc_ok invar w" and "sc_write_object_ttl (inproc S J) cl c k v ttl w = (w', r)"
  shows "inproc_ok invar w' \<and> inproc_peek S w' = upd_peek (inproc_peek S w) (ic_shard cl) c k
      (if inproc_alive w ttl then Some v else None) \<and>
    inproc_alive w' = inproc_alive w \<and> r = COk ()"
  using inproc_ok_shard [OF assms(1), of "ic_shard cl"]
  by (intro inproc_key_write [OF assms(1) assms(2) [unfolded inproc_def shard_client.simps]])
    (auto simp: shard_write_object_ttl_def invar_put get_put invar_put_at get_put_at peek_unfold
      inproc_alive_def not_le)

lemma inproc_set_add:
  assumes "inproc_ok invar w" and "sc_set_add (inproc S J) cl c k m w = (w', r)"
  shows "inproc_ok invar w' \<and> inproc_peek S w' = upd_peek (inproc_peek S w) (ic_shard cl) c k
      (added_value J m (inproc_peek S w (ic_shard cl) c k)) \<and>
    inproc_alive w' = inproc_alive w \<and> r = COk (m \<notin> set (js_members J (inproc_peek S w (ic_shard cl) c k)))"
  using inproc_ok_shard [OF assms(1), of "ic_shard cl"]
  by (intro inproc_key_write [OF assms(1) assms(2) [unfolded inproc_def shard_client.simps]])
    (auto simp: shard_set_add_def on_store_def store_set_add_def Let_def invar_put get_put peek_unfold
      added_value_def)

lemma inproc_set_remove:
  assumes "inproc_ok invar w" and "sc_set_remove (inproc S J) cl c k m w = (w', r)"
  shows "inproc_ok invar w' \<and> inproc_peek S w' = upd_peek (inproc_peek S w) (ic_shard cl) c k
      (removed_value J m (inproc_peek S w (ic_shard cl) c k)) \<and>
    inproc_alive w' = inproc_alive w \<and> r = COk (m \<in> set (js_members J (inproc_peek S w (ic_shard cl) c k)))"
proof -
  let ?arr = "js_members J (inproc_peek S w (ic_shard cl) c k)"
  have len: "length (filter (\<lambda>x. x \<noteq> m) ?arr) = length ?arr \<longleftrightarrow> m \<notin> set ?arr"
    by (metis (mono_tags, lifting) filter_True length_filter_less less_irrefl_nat)
  show ?thesis
    using inproc_ok_shard [OF assms(1), of "ic_shard cl"]
    by (intro inproc_key_write [OF assms(1) assms(2) [unfolded inproc_def shard_client.simps]])
      (auto simp: shard_set_remove_def on_store_def store_set_remove_def Let_def invar_put get_put
        invar_delete get_delete peek_unfold removed_value_def len)
qed

lemma inproc_cas:
  assumes "inproc_ok invar w" and "sc_cas (inproc S J) cl c k expect new w = (w', r)"
  shows "inproc_ok invar w' \<and> inproc_alive w' = inproc_alive w \<and>
    r = COk (js_eq_opt J (inproc_peek S w (ic_shard cl) c k) expect) \<and>
    inproc_peek S w' = (if js_eq_opt J (inproc_peek S w (ic_shard cl) c k) expect
      then upd_peek (inproc_peek S w) (ic_shard cl) c k (Some new) else inproc_peek S w)"
proof -
  let ?b = "js_eq_opt J (inproc_peek S w (ic_shard cl) c k) expect"
  let ?ov = "if ?b then Some new else inproc_peek S w (ic_shard cl) c k"
  have "inproc_ok invar w' \<and> inproc_peek S w' = upd_peek (inproc_peek S w) (ic_shard cl) c k ?ov \<and>
      inproc_alive w' = inproc_alive w \<and> r = COk ?b"
    using inproc_ok_shard [OF assms(1), of "ic_shard cl"]
    by (intro inproc_key_write [OF assms(1) assms(2) [unfolded inproc_def shard_client.simps]])
      (auto simp: shard_cas_def on_store_def store_cas_def invar_put get_put peek_unfold)
  moreover have "upd_peek (inproc_peek S w) (ic_shard cl) c k (inproc_peek S w (ic_shard cl) c k) = inproc_peek S w"
    by (auto simp: upd_peek_def fun_eq_iff)
  ultimately show ?thesis by auto
qed

lemma inproc_incr:
  assumes "inproc_ok invar w" and "sc_incr (inproc S J) cl c k delta w = (w', r)"
  shows "inproc_ok invar w' \<and> inproc_alive w' = inproc_alive w \<and>
    r = COk (incr_value J delta (inproc_peek S w (ic_shard cl) c k)) \<and>
    inproc_peek S w' = (case incr_value J delta (inproc_peek S w (ic_shard cl) c k) of None \<Rightarrow> inproc_peek S w
      | Some n \<Rightarrow> upd_peek (inproc_peek S w) (ic_shard cl) c k (Some (js_of_i64 J n)))"
proof -
  let ?v = "incr_value J delta (inproc_peek S w (ic_shard cl) c k)"
  let ?ov = "case ?v of None \<Rightarrow> inproc_peek S w (ic_shard cl) c k | Some n \<Rightarrow> Some (js_of_i64 J n)"
  have "inproc_ok invar w' \<and> inproc_peek S w' = upd_peek (inproc_peek S w) (ic_shard cl) c k ?ov \<and>
      inproc_alive w' = inproc_alive w \<and> r = COk ?v"
    using inproc_ok_shard [OF assms(1), of "ic_shard cl"]
    by (intro inproc_key_write [OF assms(1) assms(2) [unfolded inproc_def shard_client.simps]])
      (auto simp: shard_incr_def on_store_def store_incr_def incr_value_def Let_def invar_put get_put
        peek_unfold split: option.splits)
  moreover have "upd_peek (inproc_peek S w) (ic_shard cl) c k (inproc_peek S w (ic_shard cl) c k) = inproc_peek S w"
    by (auto simp: upd_peek_def fun_eq_iff)
  ultimately show ?thesis by (auto split: option.splits)
qed

lemma inproc_import_entries:
  assumes "inproc_ok invar w" and "distinct (map fst es)"
    and "sc_import_entries (inproc S J) cl c es w = (w', r)"
  shows "inproc_ok invar w' \<and> inproc_alive w' = inproc_alive w \<and> r = COk () \<and>
    inproc_peek S w' = (\<lambda>a' c' k. case (if a' = ic_shard cl \<and> c' = c then map_of es k else None) of
      Some v \<Rightarrow> Some v | None \<Rightarrow> inproc_peek S w a' c' k)"
proof -
  let ?sh = "w_shards w (ic_shard cl)"
  note ok = inproc_ok_shard [OF assms(1), of "ic_shard cl"]
  have rev: "map_of (rev es) = map_of es"
    using assms(2) by (intro map_of_inject_set [THEN iffD2]) (simp_all add: rev_map [symmetric])
  note imp = import_entries_get [OF ok, where es = es and c = c and now = "w_now w", unfolded rev]
  have "inproc_ok invar w' \<and> inproc_alive w' = inproc_alive w \<and> r = COk () \<and>
      inproc_peek S w' = (\<lambda>a c' k. if a = ic_shard cl
        then get (w_now w) (sh_store (shard_import_entries S c es ?sh)) c' k else inproc_peek S w a c' k)"
    using inproc_write [OF assms(1) assms(3) [unfolded inproc_def shard_client.simps]] imp by (simp cong: if_cong)
  then show ?thesis
    using imp by (auto simp: fun_eq_iff peek_unfold split: option.splits)
qed

lemma inproc_drop_buckets:
  assumes "inproc_ok invar w" and "sc_drop_buckets (inproc S J) cl c bs w = (w', r)"
  shows "inproc_ok invar w' \<and> inproc_alive w' = inproc_alive w \<and>
    r = COk (card {k. bucket_of k \<in> set bs \<and> inproc_peek S w (ic_shard cl) c k \<noteq> None}) \<and>
    inproc_peek S w' = (\<lambda>a' c' k. if a' = ic_shard cl \<and> c' = c \<and> bucket_of k \<in> set bs then None
      else inproc_peek S w a' c' k)"
proof -
  let ?sh = "w_shards w (ic_shard cl)"
  note drop = drop_buckets_get [OF inproc_ok_shard [OF assms(1)] refl, where now = "w_now w" and c = c and bs = bs]
  have "inproc_ok invar w' \<and> inproc_alive w' = inproc_alive w \<and>
      r = COk (snd (shard_drop_buckets S (w_now w) c bs ?sh)) \<and>
      inproc_peek S w' = (\<lambda>a c' k. if a = ic_shard cl
        then get (w_now w) (sh_store (fst (shard_drop_buckets S (w_now w) c bs ?sh))) c' k
        else inproc_peek S w a c' k)"
    using drop by (intro inproc_write [OF assms(1) assms(2) [unfolded inproc_def shard_client.simps]]) simp_all
  then show ?thesis using drop by (auto simp: fun_eq_iff peek_unfold)
qed

lemma inproc_lease_acquire:
  assumes "inproc_ok invar w" and "sc_lease_acquire (inproc S J) cl key holder ttl w = (w', r)"
  shows "inproc_ok invar w' \<and> inproc_alive w' = inproc_alive w \<and>
    (\<forall>a c k. c \<noteq> LEASE_COLL \<longrightarrow> inproc_peek S w' a c k = inproc_peek S w a c k)"
proof -
  let ?sh = "w_shards w (ic_shard cl)"
  let ?r = "shard_lease_acquire S J (w_now w) key holder ttl ?sh"
  have "invar (sh_store (fst ?r)) \<and>
      (\<forall>c k. c \<noteq> LEASE_COLL \<longrightarrow> get (w_now w) (sh_store (fst ?r)) c k = get (w_now w) (sh_store ?sh) c k)"
    using inproc_ok_shard [OF assms(1), of "ic_shard cl"]
    by (auto simp: shard_lease_acquire_def Let_def get_put invar_put)
  moreover from this have "inproc_ok invar w' \<and> inproc_alive w' = inproc_alive w \<and> r = COk (snd ?r) \<and>
      inproc_peek S w' = (\<lambda>a c' k. if a = ic_shard cl then get (w_now w) (sh_store (fst ?r)) c' k
        else inproc_peek S w a c' k)"
    by (intro inproc_write [OF assms(1) assms(2) [unfolded inproc_def shard_client.simps]]) simp_all
  ultimately show ?thesis by (auto simp: peek_unfold)
qed

end

sublocale kv_store \<subseteq> ip: scanning_client "inproc S J" J ic_shard "inproc_peek S" inproc_alive "inproc_ok invar"
  for J
proof (unfold_locales, goal_cases)
  case (1 w a c)
  then show ?case using finite_keys by (simp add: inproc_peek_def inproc_ok_def)
next
  case (2 w cl c k)
  show ?case by (simp add: inproc_def with_read_def shard_object_def inproc_peek_def)
next
  case (3 w cl c ks)
  show ?case
    by (simp add: inproc_def with_read_def shard_mget_def store_mget_def inproc_peek_def [abs_def])
next
  case (11 w cl c bs w' re)
  then show ?case
    using export_entries_get [OF inproc_ok_shard [OF 11(1)], where now = "w_now w" and c = c and bs = bs]
    by (auto simp: inproc_def with_read_def peek_unfold)
next
  case (15 w cl c after pre "end" limit)
  then show ?case
    by (simp add: inproc_def with_read_def shard_scan_range_def range_keys inproc_ok_shard inproc_peek_def)
qed (rule inproc_write_object inproc_write_object_ttl inproc_delete_object inproc_set_add
    inproc_set_remove inproc_cas inproc_incr inproc_import_entries inproc_drop_buckets
    inproc_lease_acquire; assumption)+

end
