(* ===== verification/Journal.thy ===== *)
theory Journal
  imports Stplr_Prelude
begin

text \<open>
  The migration journal, \<^verbatim>\<open>src/journal.rs\<close>: one record of an unfinished migration, kept so that a
  restarted coordinator can resume it. The mutex of \<^verbatim>\<open>InMemoryJournal\<close> makes each call atomic, so
  a journal is the optional record it holds.
\<close>

record migration_record =
  mr_old_nodes :: "node_id list"
  mr_new_nodes :: "node_id list"
  mr_replication :: nat
  mr_done :: "nat list"

type_synonym journal = "migration_record option"

definition journal_new :: journal where
  "journal_new = None"

definition journal_load :: "journal \<Rightarrow> migration_record option" where
  "journal_load j = j"

definition journal_save :: "migration_record \<Rightarrow> journal \<Rightarrow> journal" where
  "journal_save rec j = Some rec"

definition journal_clear :: "journal \<Rightarrow> journal" where
  "journal_clear j = None"

lemma journal_simps [simp]:
  "journal_load (journal_save rec j) = Some rec"
  "journal_load (journal_clear j) = None"
  "journal_load journal_new = None"
  by (simp_all add: journal_load_def journal_save_def journal_clear_def journal_new_def)

end
