(* ===== verification/Cluster.thy ===== *)
theory Cluster
  imports Client Reshard Guard Journal "HOL-Library.Product_Lexorder"
begin

text \<open>
  The cluster front door, \<^verbatim>\<open>src/cluster.rs\<close>: routing, replication and failover of object and set
  operations over the shards' clients. (Membership change and migration are in \<open>Migration\<close>.)

  The interior-mutable fields of \<^verbatim>\<open>Cluster\<close> are the record \<open>cluster\<close>; the clients' shards are the
  world \<open>'w\<close> of the client record \<open>C\<close>, threaded through every call. A data operation enters the
  gate of its key's bucket for its whole duration; it is modelled as one step of the world, which
  is what the gate provides against migrations (theory \<open>Guard\<close>). The gate does not order data operations among themselves: two
  concurrent writes of one key may reach its replicas in different orders, which this model leaves out.

  The central notion is \<open>placed\<close>: every shard that is not marked down holds, for every managed
  collection, exactly the content of the keys it owns. The lemmas show, for every reliable client,
  that the data operations read and update that content and keep the placement.
\<close>

subsection \<open>State\<close>

record partition =
  pn_id :: node_id
  pn_endpoint :: string
  pn_buckets :: "nat list"

record route_info =
  ri_key_value :: string
  ri_owners :: "node_id list"
  ri_served_by :: "node_id option"

record overlay =
  ov_old_p :: partitioner
  ov_r_old :: nat
  ov_new_p :: partitioner
  ov_r_new :: nat
  ov_migrated :: "nat set"

record 'c cluster =
  cl_partitioner :: partitioner
  cl_clients :: "(node_id, 'c) hashmap"
  cl_replication_target :: nat
  cl_replication :: nat
  cl_chunk :: nat
  cl_down :: "node_id set"
  cl_journal :: journal
  cl_overlay :: "overlay option"
  cl_colls :: "string list"
  cl_topology :: "(node_id, string) hashmap"
  cl_epoch :: u64

definition CHUNK :: nat where
  "CHUNK = 256"

definition clamp :: "nat \<Rightarrow> nat \<Rightarrow> nat" where
  "clamp target n = max (min target (max n 1)) 1"

definition cluster_new :: "(node_id, 'c) hashmap \<Rightarrow> nat \<Rightarrow> string list \<Rightarrow> 'c cluster" where
  "cluster_new clients replication colls =
     (let ids = hm_keys clients; rt = max replication 1; r = clamp rt (length ids) in
      \<lparr>cl_partitioner = partitioner_new ids, cl_clients = clients, cl_replication_target = rt,
       cl_replication = r, cl_chunk = CHUNK, cl_down = {}, cl_journal = journal_new,
       cl_overlay = None, cl_colls = colls, cl_topology = [], cl_epoch = 1\<rparr>)"

definition with_journal :: "journal \<Rightarrow> 'c cluster \<Rightarrow> 'c cluster" where
  "with_journal j cl = cl\<lparr>cl_journal := j\<rparr>"

definition cluster_set_topology :: "(node_id, string) hashmap \<Rightarrow> 'c cluster \<Rightarrow> 'c cluster" where
  "cluster_set_topology topology cl =
     cl\<lparr>cl_topology := topology, cl_partitioner := set_topology (cl_partitioner cl) topology\<rparr>"

definition with_topology :: "(node_id, string) hashmap \<Rightarrow> 'c cluster \<Rightarrow> 'c cluster" where
  "with_topology topology cl = cluster_set_topology topology cl"

definition make_partitioner :: "'c cluster \<Rightarrow> node_id list \<Rightarrow> partitioner" where
  "make_partitioner cl nodes =
     (let p = partitioner_new nodes in
      if cl_topology cl \<noteq> [] then set_topology p (cl_topology cl) else p)"

definition with_chunk :: "nat \<Rightarrow> 'c cluster \<Rightarrow> 'c cluster" where
  "with_chunk chunk cl = cl\<lparr>cl_chunk := max chunk 1\<rparr>"

definition mark_down :: "node_id \<Rightarrow> 'c cluster \<Rightarrow> 'c cluster" where
  "mark_down n cl = cl\<lparr>cl_down := insert n (cl_down cl)\<rparr>"

definition member_ids :: "'c cluster \<Rightarrow> node_id list" where
  "member_ids cl = sort (list_nodes (cl_partitioner cl))"

definition members_with_endpoints :: "('c, 'w, 'v) shard_client \<Rightarrow> 'c cluster \<Rightarrow> (node_id \<times> string) list" where
  "members_with_endpoints C cl = sort (map (\<lambda>(n, c). (n, sc_endpoint C c)) (cl_clients cl))"

definition add_node :: "node_id \<Rightarrow> 'c \<Rightarrow> 'c cluster \<Rightarrow> 'c cluster" where
  "add_node n client cl = cl\<lparr>cl_clients := hm_insert n client (cl_clients cl)\<rparr>"

definition shard_count :: "'c cluster \<Rightarrow> nat" where
  "shard_count cl = length (list_nodes (cl_partitioner cl))"

definition replication_factor :: "'c cluster \<Rightarrow> nat" where
  "replication_factor cl = cl_replication cl"

definition is_migrating :: "'c cluster \<Rightarrow> bool" where
  "is_migrating cl \<longleftrightarrow> cl_overlay cl \<noteq> None"

subsection \<open>Routing\<close>

definition owners :: "'c cluster \<Rightarrow> string \<Rightarrow> node_id list" where
  "owners cl key =
     (case cl_overlay cl of
        Some ov \<Rightarrow>
          (let b = bucket_of key in
           if b \<in> ov_migrated ov then owners_of_bucket (ov_new_p ov) b (ov_r_new ov)
           else owners_of_bucket (ov_old_p ov) b (ov_r_old ov))
      | None \<Rightarrow> replica_set (cl_partitioner cl) key (cl_replication cl))"

definition is_down :: "'c cluster \<Rightarrow> node_id \<Rightarrow> bool" where
  "is_down cl n \<longleftrightarrow> n \<in> cl_down cl"

definition client_of :: "'c cluster \<Rightarrow> node_id \<Rightarrow> 'c option" where
  "client_of cl n = hm_get (cl_clients cl) n"

definition live_owner :: "'c cluster \<Rightarrow> string \<Rightarrow> node_id option" where
  "live_owner cl key = find (\<lambda>n. \<not> is_down cl n) (owners cl key)"

definition route :: "'c cluster \<Rightarrow> string \<Rightarrow> route_info" where
  "route cl key = \<lparr>ri_key_value = key, ri_owners = owners cl key, ri_served_by = live_owner cl key\<rparr>"

definition cluster_lease_acquire :: "('c, 'w, 'v) shard_client \<Rightarrow> 'c cluster \<Rightarrow> string \<Rightarrow> string \<Rightarrow> u64
    \<Rightarrow> 'w \<Rightarrow> 'w \<times> lease_outcome option" where
  "cluster_lease_acquire C cl key holder ttl_ms w =
     (case owners cl key of
        [] \<Rightarrow> (w, None)
      | owner # _ \<Rightarrow>
          if is_down cl owner then (w, None)
          else case client_of cl owner of
            None \<Rightarrow> (w, None)
          | Some c \<Rightarrow> (case sc_lease_acquire C c key holder ttl_ms w of
                (w, COk out) \<Rightarrow> (w, Some out) | (w, CErr e) \<Rightarrow> (w, None)))"

definition try_acquire_leadership :: "('c, 'w, 'v) shard_client \<Rightarrow> 'c cluster \<Rightarrow> string \<Rightarrow> u64
    \<Rightarrow> 'w \<Rightarrow> 'w \<times> lease_outcome option" where
  "try_acquire_leadership C cl holder ttl_ms = cluster_lease_acquire C cl LEADER_KEY holder ttl_ms"

subsection \<open>Scans and batch reads\<close>

fun scan_clients :: "('c, 'w, 'v) shard_client \<Rightarrow> 'c cluster \<Rightarrow> string \<Rightarrow> string option \<Rightarrow> string option
    \<Rightarrow> string option \<Rightarrow> nat \<Rightarrow> 'c list \<Rightarrow> string set \<Rightarrow> 'w \<Rightarrow> 'w \<times> string set" where
  "scan_clients C cl coll after pre end limit [] merged w = (w, merged)"
| "scan_clients C cl coll after pre end limit (c # cs) merged w =
     (if is_down cl (sc_id C c) then scan_clients C cl coll after pre end limit cs merged w
      else case sc_scan_range C c coll after pre end limit w of
        (w, COk keys) \<Rightarrow> scan_clients C cl coll after pre end limit cs (merged \<union> set keys) w
      | (w, CErr e) \<Rightarrow> scan_clients C cl coll after pre end limit cs merged w)"

definition cluster_scan_range :: "('c, 'w, 'v) shard_client \<Rightarrow> 'c cluster \<Rightarrow> string \<Rightarrow> string option
    \<Rightarrow> string option \<Rightarrow> string option \<Rightarrow> nat \<Rightarrow> 'w \<Rightarrow> 'w \<times> string list \<times> string option" where
  "cluster_scan_range C cl coll after pre end limit w =
     (let (w, merged) = scan_clients C cl coll after pre end limit (map snd (cl_clients cl)) {} w;
          page = take limit (sorted_list_of_set merged);
          cursor = (if limit \<le> length page \<and> page \<noteq> [] then Some (last page) else None) in
      (w, page, cursor))"

definition cluster_scan_keys :: "('c, 'w, 'v) shard_client \<Rightarrow> 'c cluster \<Rightarrow> string \<Rightarrow> string option
    \<Rightarrow> nat \<Rightarrow> 'w \<Rightarrow> 'w \<times> string list \<times> string option" where
  "cluster_scan_keys C cl coll after limit = cluster_scan_range C cl coll after None None limit"

definition primary_buckets :: "partitioner \<Rightarrow> (node_id, nat list) hashmap" where
  "primary_buckets p = fold hm_push
     (concat (map (\<lambda>b. case owners_of_bucket p b 1 of [] \<Rightarrow> [] | primary # _ \<Rightarrow> [(primary, b)])
       [0..<bucket_count p])) []"

definition partition_plan :: "('c, 'w, 'v) shard_client \<Rightarrow> 'c cluster \<Rightarrow> partition list" where
  "partition_plan C cl =
     (let by_node = primary_buckets (cl_partitioner cl);
          endpoints = members_with_endpoints C cl in
      sort_key pn_id (map (\<lambda>(n, buckets).
        \<lparr>pn_id = n, pn_endpoint = (case hm_get endpoints n of None \<Rightarrow> [] | Some e \<Rightarrow> e),
         pn_buckets = buckets\<rparr>) by_node))"

text \<open>\<^verbatim>\<open>mget\<close>: one request per owner, answers put back at the positions of their keys.\<close>

definition mget_groups :: "'c cluster \<Rightarrow> string list \<Rightarrow> (node_id, nat list) hashmap" where
  "mget_groups cl keys = fold hm_push
     (concat (map (\<lambda>i. case find (\<lambda>n. \<not> is_down cl n) (owners cl (keys ! i)) of
        None \<Rightarrow> [] | Some owner \<Rightarrow> [(owner, i)]) [0..<length keys])) []"

definition mget_fill :: "nat list \<Rightarrow> 'v option list \<Rightarrow> 'v option list \<Rightarrow> 'v option list" where
  "mget_fill idxs vals out = fold (\<lambda>(j, i) out. out[i := (if j < length vals then vals ! j else None)])
     (zip [0..<length idxs] idxs) out"

fun mget_nodes :: "('c, 'w, 'v) shard_client \<Rightarrow> 'c cluster \<Rightarrow> string \<Rightarrow> string list
    \<Rightarrow> (node_id, nat list) hashmap \<Rightarrow> 'v option list \<Rightarrow> 'w \<Rightarrow> 'w \<times> 'v option list" where
  "mget_nodes C cl coll keys [] out w = (w, out)"
| "mget_nodes C cl coll keys ((n, idxs) # rest) out w =
     (case client_of cl n of
        None \<Rightarrow> mget_nodes C cl coll keys rest out w
      | Some c \<Rightarrow> (case sc_mget C c coll (map (\<lambda>i. keys ! i) idxs) w of
            (w, COk vals) \<Rightarrow> mget_nodes C cl coll keys rest (mget_fill idxs vals out) w
          | (w, CErr e) \<Rightarrow> mget_nodes C cl coll keys rest out w))"

definition cluster_mget :: "('c, 'w, 'v) shard_client \<Rightarrow> 'c cluster \<Rightarrow> string \<Rightarrow> string list
    \<Rightarrow> 'w \<Rightarrow> 'w \<times> 'v option list" where
  "cluster_mget C cl coll keys w =
     mget_nodes C cl coll keys (mget_groups cl keys) (replicate (length keys) None) w"

subsection \<open>Object and set operations\<close>

fun read_first :: "('c, 'w, 'v) shard_client \<Rightarrow> 'c cluster \<Rightarrow> string \<Rightarrow> string \<Rightarrow> node_id list
    \<Rightarrow> 'w \<Rightarrow> 'w \<times> 'v option" where
  "read_first C cl coll key [] w = (w, None)"
| "read_first C cl coll key (n # ns) w =
     (if is_down cl n then read_first C cl coll key ns w
      else case client_of cl n of
        None \<Rightarrow> read_first C cl coll key ns w
      | Some c \<Rightarrow> (case sc_object C c coll key w of
            (w, COk ov) \<Rightarrow> (w, ov) | (w, CErr e) \<Rightarrow> read_first C cl coll key ns w))"

definition cluster_get :: "('c, 'w, 'v) shard_client \<Rightarrow> 'c cluster \<Rightarrow> string \<Rightarrow> string
    \<Rightarrow> 'w \<Rightarrow> 'w \<times> 'v option" where
  "cluster_get C cl coll key w = read_first C cl coll key (owners cl key) w"

fun broadcast_to :: "'c cluster \<Rightarrow> ('c \<Rightarrow> 'w \<Rightarrow> 'w) \<Rightarrow> node_id list \<Rightarrow> 'w \<Rightarrow> 'w" where
  "broadcast_to cl oper [] w = w"
| "broadcast_to cl oper (n # ns) w =
     (if is_down cl n then broadcast_to cl oper ns w
      else case client_of cl n of
        None \<Rightarrow> broadcast_to cl oper ns w
      | Some c \<Rightarrow> broadcast_to cl oper ns (oper c w))"

definition broadcast :: "'c cluster \<Rightarrow> string \<Rightarrow> ('c \<Rightarrow> 'w \<Rightarrow> 'w) \<Rightarrow> 'w \<Rightarrow> 'w" where
  "broadcast cl key oper w = broadcast_to cl oper (owners cl key) w"

definition cluster_put :: "('c, 'w, 'v) shard_client \<Rightarrow> 'c cluster \<Rightarrow> string \<Rightarrow> string \<Rightarrow> 'v
    \<Rightarrow> 'w \<Rightarrow> 'w" where
  "cluster_put C cl coll key obj = broadcast cl key (\<lambda>c w. fst (sc_write_object C c coll key obj w))"

definition cluster_put_ttl :: "('c, 'w, 'v) shard_client \<Rightarrow> 'c cluster \<Rightarrow> string \<Rightarrow> string \<Rightarrow> 'v \<Rightarrow> u64
    \<Rightarrow> 'w \<Rightarrow> 'w" where
  "cluster_put_ttl C cl coll key obj ttl_ms =
     broadcast cl key (\<lambda>c w. fst (sc_write_object_ttl C c coll key obj ttl_ms w))"

definition cluster_delete :: "('c, 'w, 'v) shard_client \<Rightarrow> 'c cluster \<Rightarrow> string \<Rightarrow> string \<Rightarrow> 'w \<Rightarrow> 'w" where
  "cluster_delete C cl coll key = broadcast cl key (\<lambda>c w. fst (sc_delete_object C c coll key w))"

definition cluster_set_add :: "('c, 'w, 'v) shard_client \<Rightarrow> 'c cluster \<Rightarrow> string \<Rightarrow> string \<Rightarrow> string
    \<Rightarrow> 'w \<Rightarrow> 'w" where
  "cluster_set_add C cl coll key member = broadcast cl key (\<lambda>c w. fst (sc_set_add C c coll key member w))"

definition cluster_set_remove :: "('c, 'w, 'v) shard_client \<Rightarrow> 'c cluster \<Rightarrow> string \<Rightarrow> string \<Rightarrow> string
    \<Rightarrow> 'w \<Rightarrow> 'w" where
  "cluster_set_remove C cl coll key member =
     broadcast cl key (\<lambda>c w. fst (sc_set_remove C c coll key member w))"

text \<open>The replication loop after a successful operation on the primary: it skips no down node,
  since the list holds live owners only.\<close>

fun replicate_to :: "('c, 'w, 'v) shard_client \<Rightarrow> 'c cluster \<Rightarrow> string \<Rightarrow> string \<Rightarrow> 'v \<Rightarrow> node_id list
    \<Rightarrow> 'w \<Rightarrow> 'w" where
  "replicate_to C cl coll key v [] w = w"
| "replicate_to C cl coll key v (n # ns) w =
     (case client_of cl n of
        None \<Rightarrow> replicate_to C cl coll key v ns w
      | Some c \<Rightarrow> replicate_to C cl coll key v ns (fst (sc_write_object C c coll key v w)))"

definition cluster_cas :: "('c, 'w, 'v) shard_client \<Rightarrow> 'c cluster \<Rightarrow> string \<Rightarrow> string \<Rightarrow> 'v option \<Rightarrow> 'v
    \<Rightarrow> 'w \<Rightarrow> 'w \<times> bool" where
  "cluster_cas C cl coll key expect new w =
     (case filter (\<lambda>n. \<not> is_down cl n) (owners cl key) of
        [] \<Rightarrow> (w, False)
      | primary # replicas \<Rightarrow>
          (case client_of cl primary of
             None \<Rightarrow> (w, False)
           | Some pc \<Rightarrow> (case sc_cas C pc coll key expect new w of
                 (w, COk True) \<Rightarrow> (replicate_to C cl coll key new replicas w, True)
               | (w, _) \<Rightarrow> (w, False))))"

definition cluster_incr :: "('c, 'w, 'v) shard_client \<Rightarrow> 'v json \<Rightarrow> 'c cluster \<Rightarrow> string \<Rightarrow> string \<Rightarrow> i64
    \<Rightarrow> 'w \<Rightarrow> 'w \<times> i64 option" where
  "cluster_incr C J cl coll key delta w =
     (case filter (\<lambda>n. \<not> is_down cl n) (owners cl key) of
        [] \<Rightarrow> (w, None)
      | primary # replicas \<Rightarrow>
          (case client_of cl primary of
             None \<Rightarrow> (w, None)
           | Some pc \<Rightarrow> (case sc_incr C pc coll key delta w of
                 (w, COk (Some n)) \<Rightarrow> (replicate_to C cl coll key (js_of_i64 J n) replicas w, Some n)
               | (w, _) \<Rightarrow> (w, None))))"

definition bulk_groups :: "'c cluster \<Rightarrow> (string \<times> 'v) list \<Rightarrow> (node_id, (string \<times> 'v) list) hashmap" where
  "bulk_groups cl entries = fold hm_push
     (concat (map (\<lambda>(key, obj). map (\<lambda>n. (n, (key, obj)))
        (replica_set (cl_partitioner cl) key (cl_replication cl))) entries)) []"

definition cluster_bulk_load :: "('c, 'w, 'v) shard_client \<Rightarrow> 'c cluster \<Rightarrow> string \<Rightarrow> (string \<times> 'v) list
    \<Rightarrow> 'w \<Rightarrow> 'w" where
  "cluster_bulk_load C cl coll entries w =
     (let per = bulk_groups cl entries in
      fold (\<lambda>(n, client) w. case hm_get per n of
          Some es \<Rightarrow> fst (sc_import_entries C client coll es w) | None \<Rightarrow> w) (cl_clients cl) w)"

subsection \<open>Well-formed clusters and the placement of content\<close>

definition cluster_ok :: "'c cluster \<Rightarrow> bool" where
  "cluster_ok cl \<longleftrightarrow> partitioner_ok (cl_partitioner cl) \<and> hm_ok (cl_clients cl) \<and>
     pt_topology (cl_partitioner cl) = cl_topology cl \<and> 1 \<le> cl_chunk cl \<and>
     cl_replication cl = clamp (cl_replication_target cl) (length (pt_nodes (cl_partitioner cl))) \<and>
     set (pt_nodes (cl_partitioner cl)) \<subseteq> set (hm_keys (cl_clients cl))"

text \<open>Distinct members talk to distinct shards.\<close>

definition addr_inj :: "('c \<Rightarrow> 'a) \<Rightarrow> 'c cluster \<Rightarrow> bool" where
  "addr_inj addr cl \<longleftrightarrow> (\<forall>n c n' c'. client_of cl n = Some c \<longrightarrow> client_of cl n' = Some c' \<longrightarrow>
     addr c = addr c' \<longrightarrow> n = n')"

text \<open>
  Every member that is not down holds the content of the keys it owns, and no other key, in every
  managed collection. The set \<open>K\<close> restricts the keys that are looked at: all of them, except
  while buckets are in transit.
\<close>

definition placed :: "('c \<Rightarrow> 'a) \<Rightarrow> ('w \<Rightarrow> 'a \<Rightarrow> string \<Rightarrow> string \<Rightarrow> 'v option) \<Rightarrow> string set \<Rightarrow> 'c cluster
    \<Rightarrow> (string \<Rightarrow> string \<Rightarrow> 'v option) \<Rightarrow> 'w \<Rightarrow> bool" where
  "placed addr peek K cl content w \<longleftrightarrow>
     (\<forall>n c coll k. client_of cl n = Some c \<longrightarrow> n \<notin> cl_down cl \<longrightarrow> coll \<in> set (cl_colls cl) \<longrightarrow> k \<in> K \<longrightarrow>
        peek w (addr c) coll k = (if n \<in> set (owners cl k) then content coll k else None))"

text \<open>A key has an owner that is up and has a client.\<close>

definition served :: "'c cluster \<Rightarrow> string \<Rightarrow> bool" where
  "served cl key \<longleftrightarrow> list_ex (\<lambda>n. n \<notin> cl_down cl \<and> client_of cl n \<noteq> None) (owners cl key)"

definition upd_content :: "(string \<Rightarrow> string \<Rightarrow> 'v option) \<Rightarrow> string \<Rightarrow> string \<Rightarrow> 'v option
    \<Rightarrow> string \<Rightarrow> string \<Rightarrow> 'v option" where
  "upd_content content c k ov = (\<lambda>c' k'. if c' = c \<and> k' = k then ov else content c' k')"

text \<open>The owners of every key are distinct and each has a client.\<close>

definition routing_ok :: "'c cluster \<Rightarrow> bool" where
  "routing_ok cl \<longleftrightarrow> (\<forall>k. distinct (owners cl k) \<and> (\<forall>n \<in> set (owners cl k). client_of cl n \<noteq> None))"

text \<open>Clients know the id they are registered under.\<close>

definition ids_ok :: "('c, 'w, 'v) shard_client \<Rightarrow> 'c cluster \<Rightarrow> bool" where
  "ids_ok C cl \<longleftrightarrow> list_all (\<lambda>(n, c). sc_id C c = n) (cl_clients cl)"

lemma client_of_keys: "client_of cl n \<noteq> None \<longleftrightarrow> n \<in> fst ` set (cl_clients cl)"
  by (simp add: client_of_def map_of_eq_None_iff del: not_None_eq)

lemma routing_ok_stable:
  assumes "cluster_ok cl" and "cl_overlay cl = None"
  shows "routing_ok cl"
proof -
  note ok = assms(1) [unfolded cluster_ok_def]
  have "distinct (owners cl k) \<and> set (owners cl k) \<subseteq> set (pt_nodes (cl_partitioner cl))" for k
    using pick_facts [OF _ refl bucket_of_less] ok assms(2)
    by (simp add: owners_def replica_set_def preference_list_def)
  then show ?thesis using ok by (auto simp: routing_ok_def client_of_keys simp del: not_None_eq)
qed

lemma served_nonempty:
  "routing_ok cl \<Longrightarrow> served cl k \<longleftrightarrow> filter (\<lambda>n. \<not> is_down cl n) (owners cl k) \<noteq> []"
  by (auto simp: served_def routing_ok_def list_ex_iff filter_empty_conv is_down_def)

lemma live_primary:
  assumes "routing_ok cl" and "served cl key"
  obtains primary replicas pc where "filter (\<lambda>n. \<not> is_down cl n) (owners cl key) = primary # replicas"
    and "primary \<in> set (owners cl key)" and "primary \<notin> cl_down cl" and "client_of cl primary = Some pc"
proof -
  obtain primary replicas where live: "filter (\<lambda>n. \<not> is_down cl n) (owners cl key) = primary # replicas"
    using assms served_nonempty by (metis list.exhaust)
  then have "primary \<in> {n \<in> set (owners cl key). n \<notin> cl_down cl}"
    by (metis (mono_tags, lifting) is_down_def list.set_intros(1) mem_Collect_eq set_filter)
  moreover from this obtain pc where "client_of cl primary = Some pc"
    using assms(1) by (auto simp: routing_ok_def)
  ultimately show thesis using live that by simp
qed

lemma find_live:
  assumes "routing_ok cl"
  shows "find (\<lambda>n. \<not> is_down cl n) (owners cl k) = None \<longleftrightarrow> \<not> served cl k"
    and "find (\<lambda>n. \<not> is_down cl n) (owners cl k) = Some n \<Longrightarrow>
      n \<in> set (owners cl k) \<and> n \<notin> cl_down cl \<and> client_of cl n \<noteq> None"
proof -
  show "find (\<lambda>n. \<not> is_down cl n) (owners cl k) = None \<longleftrightarrow> \<not> served cl k"
    using assms by (auto simp: find_None_iff served_def list_ex_iff routing_ok_def is_down_def)
  have "find P xs = Some x \<Longrightarrow> x \<in> set xs \<and> P x" for P xs and x :: node_id
    by (induction xs) (auto split: if_splits)
  then show "find (\<lambda>n. \<not> is_down cl n) (owners cl k) = Some n \<Longrightarrow>
      n \<in> set (owners cl k) \<and> n \<notin> cl_down cl \<and> client_of cl n \<noteq> None"
    using assms by (fastforce simp: routing_ok_def is_down_def)
qed

subsection \<open>Filling in a batch\<close>

lemma fold_zip_snd: "length js = length xs \<Longrightarrow> fold (\<lambda>(j, i). f i) (zip js xs) s = fold f xs s"
  by (induction js xs arbitrary: s rule: list_induct2) simp_all

lemma mget_fill_eq:
  "mget_fill idxs (map h idxs) out = fold (\<lambda>i out. out[i := h i]) idxs out"
proof -
  have "fold (\<lambda>(j, i) out. out[i := (if j < length (map h idxs) then map h idxs ! j else None)])
      (zip [0..<length idxs] idxs) out = fold (\<lambda>(j, i) out. out[i := h i]) (zip [0..<length idxs] idxs) out"
    by (rule fold_cong) (auto simp: set_zip)
  also have "\<dots> = fold (\<lambda>i out. out[i := h i]) idxs out"
    by (rule fold_zip_snd) simp
  finally show ?thesis by (simp add: mget_fill_def)
qed

lemma fold_upd_nth:
  "i < length out \<Longrightarrow>
   fold (\<lambda>i out. out[i := h i]) idxs out ! i = (if i \<in> set idxs then h i else out ! i)"
  by (induction idxs arbitrary: out) (auto simp: nth_list_update)

lemma fold_upd_length [simp]: "length (fold (\<lambda>i out. out[i := h i]) idxs out) = length out"
  by (induction idxs arbitrary: out) auto

lemma fold_groups_nth:
  "i < length out \<Longrightarrow>
   fold (\<lambda>(n, idxs). fold (\<lambda>i out. out[i := h i]) idxs) gs out ! i =
     (if \<exists>(n, idxs) \<in> set gs. i \<in> set idxs then h i else out ! i)"
  by (induction gs arbitrary: out) (auto simp: fold_upd_nth)

lemma fold_groups_length [simp]:
  "length (fold (\<lambda>(n, idxs). fold (\<lambda>i out. out[i := h i]) idxs) gs out) = length out"
  by (induction gs arbitrary: out) auto

lemma mget_groups_in:
  assumes "(n, idxs) \<in> set (mget_groups cl keys)"
  shows "i \<in> set idxs \<longleftrightarrow> i < length keys \<and> find (\<lambda>n. \<not> is_down cl n) (owners cl (keys ! i)) = Some n"
proof -
  let ?L = "concat (map (\<lambda>i. case find (\<lambda>n. \<not> is_down cl n) (owners cl (keys ! i)) of
        None \<Rightarrow> [] | Some owner \<Rightarrow> [(owner, i)]) [0..<length keys])"
  have "hm_get (mget_groups cl keys) n = Some idxs"
    using assms hm_ok_push_fold [of "[]" ?L] by (simp add: mget_groups_def)
  then have "idxs = map snd (filter (\<lambda>(k', v). k' = n) ?L)"
    unfolding mget_groups_def by (rule hm_get_push_fold)
  then show ?thesis by (force split: option.splits)
qed

lemma mget_groups_cover:
  "(\<exists>(n, idxs) \<in> set (mget_groups cl keys). i \<in> set idxs) \<longleftrightarrow>
     i < length keys \<and> find (\<lambda>n. \<not> is_down cl n) (owners cl (keys ! i)) \<noteq> None"
proof
  let ?L = "concat (map (\<lambda>i. case find (\<lambda>n. \<not> is_down cl n) (owners cl (keys ! i)) of
        None \<Rightarrow> [] | Some owner \<Rightarrow> [(owner, i)]) [0..<length keys])"
  assume i: "i < length keys \<and> find (\<lambda>n. \<not> is_down cl n) (owners cl (keys ! i)) \<noteq> None"
  then obtain n where n: "find (\<lambda>n. \<not> is_down cl n) (owners cl (keys ! i)) = Some n" by auto
  with i have "(n, i) \<in> set ?L" by (force split: option.splits)
  then have "n \<in> fst ` set (mget_groups cl keys)"
    by (force simp: mget_groups_def hm_keys_push_fold)
  then obtain idxs where "(n, idxs) \<in> set (mget_groups cl keys)" by auto
  with mget_groups_in [OF this, of i] i n show "\<exists>(n, idxs) \<in> set (mget_groups cl keys). i \<in> set idxs" by auto
qed (auto simp: mget_groups_in)

subsection \<open>The data plane over a reliable client\<close>

context reliable_client
begin

abbreviation plc :: "string set \<Rightarrow> 'c cluster \<Rightarrow> (string \<Rightarrow> string \<Rightarrow> 'v option) \<Rightarrow> 'w \<Rightarrow> bool" where
  "plc \<equiv> placed addr peek"

lemma read_first_placed:
  assumes "wok w" and "plc K cl content w" and "coll \<in> set (cl_colls cl)" and "key \<in> K"
  shows "set ns \<subseteq> set (owners cl key) \<Longrightarrow> list_ex (\<lambda>n. n \<notin> cl_down cl \<and> client_of cl n \<noteq> None) ns \<Longrightarrow>
    read_first C cl coll key ns w = (w, content coll key)"
  using assms by (induction ns) (auto simp: is_down_def object placed_def split: option.splits)

lemma get_placed:
  assumes "wok w" and "plc K cl content w" and "coll \<in> set (cl_colls cl)" and "key \<in> K" and "served cl key"
  shows "cluster_get C cl coll key w = (w, content coll key)"
  unfolding cluster_get_def
  by (rule read_first_placed [OF assms(1-4)]) (use assms(5) in \<open>simp_all add: served_def\<close>)

text \<open>The shards that a broadcast to \<open>ns\<close> reaches.\<close>

definition reached :: "'c cluster \<Rightarrow> node_id list \<Rightarrow> 'a set" where
  "reached cl ns = {addr c | n c. n \<in> set ns \<and> n \<notin> cl_down cl \<and> client_of cl n = Some c}"

lemma reached_Cons:
  "reached cl (n # ns) = (if n \<in> cl_down cl then {} else
     case client_of cl n of None \<Rightarrow> {} | Some c \<Rightarrow> {addr c}) \<union> reached cl ns"
  by (auto simp: reached_def split: option.splits)

lemma reached_not_head:
  "addr_inj addr cl \<Longrightarrow> n \<notin> set ns \<Longrightarrow> client_of cl n = Some c \<Longrightarrow> addr c \<notin> reached cl ns"
  by (auto simp: reached_def addr_inj_def)

text \<open>A key-local operation: it rewrites one key of the client's shard with \<open>f\<close>.\<close>

definition key_local :: "('c \<Rightarrow> 'w \<Rightarrow> 'w) \<Rightarrow> (u64 \<Rightarrow> bool) \<Rightarrow> string \<Rightarrow> string
    \<Rightarrow> ('v option \<Rightarrow> 'v option) \<Rightarrow> bool" where
  "key_local oper al coll key f \<longleftrightarrow>
     (\<forall>c w. wok w \<longrightarrow> alive w = al \<longrightarrow> wok (oper c w) \<and> alive (oper c w) = al \<and>
        peek (oper c w) = upd_peek (peek w) (addr c) coll key (f (peek w (addr c) coll key)))"

lemma broadcast_to_effect:
  assumes "key_local oper (alive w) coll key f" and "addr_inj addr cl" and "wok w" and "distinct ns"
  shows "wok (broadcast_to cl oper ns w) \<and> alive (broadcast_to cl oper ns w) = alive w \<and>
    peek (broadcast_to cl oper ns w) = (\<lambda>a c' k'. if c' = coll \<and> k' = key \<and> a \<in> reached cl ns
      then f (peek w a coll key) else peek w a c' k')"
  using assms
proof (induction ns arbitrary: w)
  case Nil
  then show ?case by (simp add: reached_def fun_eq_iff)
next
  case (Cons n ns)
  show ?case
  proof (cases "n \<in> cl_down cl \<or> client_of cl n = None")
    case True
    then show ?thesis using Cons by (auto simp: is_down_def reached_Cons)
  next
    case False
    then obtain c where c: "client_of cl n = Some c" "n \<notin> cl_down cl" by auto
    have step: "wok (oper c w)" "alive (oper c w) = alive w"
      "peek (oper c w) = upd_peek (peek w) (addr c) coll key (f (peek w (addr c) coll key))"
      using Cons.prems(1,3) by (auto simp: key_local_def)
    have "addr c \<notin> reached cl ns"
      using reached_not_head [OF Cons.prems(2) _ c(1)] Cons.prems(4) by simp
    with Cons.IH [of "oper c w"] Cons.prems step show ?thesis
      by (auto simp: c is_down_def reached_Cons upd_peek_def fun_eq_iff)
  qed
qed

lemma reached_iff:
  assumes "addr_inj addr cl" and "client_of cl n = Some c" and "n \<notin> cl_down cl"
  shows "addr c \<in> reached cl ns \<longleftrightarrow> n \<in> set ns"
  using assms by (auto simp: reached_def addr_inj_def)

lemma broadcast_placed:
  assumes "key_local oper (alive w) coll key f" and "addr_inj addr cl" and "wok w" and "routing_ok cl"
    and "plc K cl content w"
  shows "wok (broadcast cl key oper w) \<and> alive (broadcast cl key oper w) = alive w \<and>
    (\<forall>a c k. k \<noteq> key \<longrightarrow> peek (broadcast cl key oper w) a c k = peek w a c k) \<and>
    plc K cl (upd_content content coll key (f (content coll key))) (broadcast cl key oper w)"
proof -
  have dist: "distinct (owners cl key)" using assms(4) by (simp add: routing_ok_def)
  note eff = broadcast_to_effect [OF assms(1-3) dist]
  have "plc K cl (upd_content content coll key (f (content coll key))) (broadcast cl key oper w)"
    unfolding placed_def broadcast_def
  proof (intro allI impI)
    fix n c coll' k
    assume n: "client_of cl n = Some c" "n \<notin> cl_down cl" and coll': "coll' \<in> set (cl_colls cl)" and k: "k \<in> K"
    have here: "peek w (addr c) coll' k = (if n \<in> set (owners cl k) then content coll' k else None)"
      using assms(5) n coll' k by (simp add: placed_def)
    note reached_iff [OF assms(2) n]
    with here eff show "peek (broadcast_to cl oper (owners cl key) w) (addr c) coll' k =
        (if n \<in> set (owners cl k) then upd_content content coll key (f (content coll key)) coll' k else None)"
      by (auto simp: upd_content_def)
  qed
  with eff show ?thesis by (simp add: broadcast_def)
qed

lemma key_local_ops:
  "key_local (\<lambda>c w. fst (sc_write_object C c coll key v w)) al coll key (\<lambda>_. Some v)"
  "key_local (\<lambda>c w. fst (sc_delete_object C c coll key w)) al coll key (\<lambda>_. None)"
  "key_local (\<lambda>c w. fst (sc_write_object_ttl C c coll key v ttl w)) al coll key
     (\<lambda>_. if al ttl then Some v else None)"
  "key_local (\<lambda>c w. fst (sc_set_add C c coll key m w)) al coll key (added_value J m)"
  "key_local (\<lambda>c w. fst (sc_set_remove C c coll key m w)) al coll key (removed_value J m)"
  unfolding key_local_def
  by (metis write_object prod.collapse, metis delete_object prod.collapse,
      metis write_object_ttl prod.collapse, metis set_add prod.collapse, metis set_remove prod.collapse)

lemmas data_ops_placed =
  broadcast_placed [OF key_local_ops(1), folded cluster_put_def]
  broadcast_placed [OF key_local_ops(2), folded cluster_delete_def]
  broadcast_placed [OF key_local_ops(3), folded cluster_put_ttl_def]
  broadcast_placed [OF key_local_ops(4), folded cluster_set_add_def]
  broadcast_placed [OF key_local_ops(5), folded cluster_set_remove_def]

lemma replicate_eq_broadcast:
  "\<forall>n \<in> set ns. n \<notin> cl_down cl \<Longrightarrow>
   replicate_to C cl coll key v ns w = broadcast_to cl (\<lambda>c w. fst (sc_write_object C c coll key v w)) ns w"
  by (induction ns arbitrary: w) (auto simp: is_down_def split: option.splits)

lemma replicate_placed:
  assumes "addr_inj addr cl" and "wok w" and "routing_ok cl" and "plc K cl content w0"
    and live: "filter (\<lambda>n. \<not> is_down cl n) (owners cl key) = primary # replicas"
    and pc: "client_of cl primary = Some pc"
    and w: "peek w = upd_peek (peek w0) (addr pc) coll key (Some v)"
  shows "wok (replicate_to C cl coll key v replicas w) \<and> alive (replicate_to C cl coll key v replicas w) = alive w \<and>
    (\<forall>a c k. k \<noteq> key \<longrightarrow> peek (replicate_to C cl coll key v replicas w) a c k = peek w0 a c k) \<and>
    plc K cl (upd_content content coll key (Some v)) (replicate_to C cl coll key v replicas w)"
proof -
  have live_set: "set (primary # replicas) = {n \<in> set (owners cl key). n \<notin> cl_down cl}"
    using arg_cong [OF live, of set] by (auto simp: is_down_def)
  have "distinct (primary # replicas)"
    using assms(3) by (metis live distinct_filter routing_ok_def)
  then have dist: "distinct replicas" "primary \<notin> set replicas" by simp_all
  have repl: "replicate_to C cl coll key v replicas w =
      broadcast_to cl (\<lambda>c w. fst (sc_write_object C c coll key v w)) replicas w"
    by (rule replicate_eq_broadcast) (use live_set in auto)
  note eff = broadcast_to_effect [OF key_local_ops(1) assms(1,2) dist(1), of coll key v]
  have "plc K cl (upd_content content coll key (Some v)) (replicate_to C cl coll key v replicas w)"
    unfolding placed_def repl
  proof (intro allI impI)
    fix n c coll' k
    assume n: "client_of cl n = Some c" "n \<notin> cl_down cl" and coll': "coll' \<in> set (cl_colls cl)" and k: "k \<in> K"
    have here: "peek w0 (addr c) coll' k = (if n \<in> set (owners cl k) then content coll' k else None)"
      using assms(4) n coll' k by (simp add: placed_def)
    have own: "n \<in> set (owners cl key) \<longleftrightarrow> n = primary \<or> n \<in> set replicas" using live_set n(2) by auto
    have eqa: "addr c = addr pc \<longleftrightarrow> n = primary" using assms(1) n(1) pc by (auto simp: addr_inj_def)
    note reached_iff [OF assms(1) n, of replicas]
    with here eff own eqa w show "peek (broadcast_to cl (\<lambda>c w. fst (sc_write_object C c coll key v w)) replicas w)
        (addr c) coll' k =
        (if n \<in> set (owners cl k) then upd_content content coll key (Some v) coll' k else None)"
      by (auto simp: upd_content_def upd_peek_def)
  qed
  with eff w show ?thesis by (simp add: repl upd_peek_def)
qed

lemma upd_content_id: "upd_content content coll key (content coll key) = content"
  by (auto simp: upd_content_def fun_eq_iff)

lemma cas_placed:
  assumes "addr_inj addr cl" and "wok w" and "routing_ok cl" and "plc K cl content w"
    and "coll \<in> set (cl_colls cl)" and "key \<in> K" and "served cl key"
    and "(w', done) = cluster_cas C cl coll key expect new w"
  shows "wok w' \<and> alive w' = alive w \<and> (\<forall>a c k. k \<noteq> key \<longrightarrow> peek w' a c k = peek w a c k) \<and>
    done = js_eq_opt J (content coll key) expect \<and>
    plc K cl (upd_content content coll key (if done then Some new else content coll key)) w'"
proof -
  obtain primary replicas pc where live: "filter (\<lambda>n. \<not> is_down cl n) (owners cl key) = primary # replicas"
    and prim: "primary \<in> set (owners cl key)" "primary \<notin> cl_down cl" and pc: "client_of cl primary = Some pc"
    by (rule live_primary [OF assms(3,7)])
  obtain w1 r where op: "sc_cas C pc coll key expect new w = (w1, r)" by fastforce
  have peek: "peek w (addr pc) coll key = content coll key"
    using assms(4,5,6) pc prim by (simp add: placed_def)
  note eff = cas [OF assms(2) op, unfolded peek]
  show ?thesis
  proof (cases "js_eq_opt J (content coll key) expect")
    case True
    with eff have peek1: "peek w1 = upd_peek (peek w) (addr pc) coll key (Some new)" and r: "r = COk True"
      and w1: "wok w1" "alive w1 = alive w" by auto
    with replicate_placed [OF assms(1) w1(1) assms(3,4) live pc peek1] w1(2) assms(8) True show ?thesis
      by (simp add: cluster_cas_def live pc op)
  next
    case False
    with eff have "peek w1 = peek w" "r = COk False" "wok w1" "alive w1 = alive w" by auto
    with assms(4,8) False show ?thesis
      by (simp add: cluster_cas_def live pc op upd_content_id placed_def)
  qed
qed

lemma incr_placed:
  assumes "addr_inj addr cl" and "wok w" and "routing_ok cl" and "plc K cl content w"
    and "coll \<in> set (cl_colls cl)" and "key \<in> K" and "served cl key"
    and "(w', res) = cluster_incr C J cl coll key delta w"
  shows "wok w' \<and> alive w' = alive w \<and> (\<forall>a c k. k \<noteq> key \<longrightarrow> peek w' a c k = peek w a c k) \<and>
    res = incr_value J delta (content coll key) \<and>
    plc K cl (upd_content content coll key
      (case res of Some n \<Rightarrow> Some (js_of_i64 J n) | None \<Rightarrow> content coll key)) w'"
proof -
  obtain primary replicas pc where live: "filter (\<lambda>n. \<not> is_down cl n) (owners cl key) = primary # replicas"
    and prim: "primary \<in> set (owners cl key)" "primary \<notin> cl_down cl" and pc: "client_of cl primary = Some pc"
    by (rule live_primary [OF assms(3,7)])
  obtain w1 r where op: "sc_incr C pc coll key delta w = (w1, r)" by fastforce
  have peek: "peek w (addr pc) coll key = content coll key"
    using assms(4,5,6) pc prim by (simp add: placed_def)
  note eff = incr [OF assms(2) op, unfolded peek]
  show ?thesis
  proof (cases "incr_value J delta (content coll key)")
    case (Some n)
    with eff have peek1: "peek w1 = upd_peek (peek w) (addr pc) coll key (Some (js_of_i64 J n))"
      and r: "r = COk (Some n)" and w1: "wok w1" "alive w1 = alive w" by auto
    with replicate_placed [OF assms(1) w1(1) assms(3,4) live pc peek1] w1(2) assms(8) Some show ?thesis
      by (simp add: cluster_incr_def live pc op)
  next
    case None
    with eff have "peek w1 = peek w" "r = COk None" "wok w1" "alive w1 = alive w" by auto
    with assms(4,8) None show ?thesis
      by (simp add: cluster_incr_def live pc op upd_content_id placed_def)
  qed
qed

lemma mget_nodes_placed:
  assumes "wok w" and "plc UNIV cl content w" and "coll \<in> set (cl_colls cl)" and "routing_ok cl"
  shows "(\<And>n idxs i. (n, idxs) \<in> set gs \<Longrightarrow> i \<in> set idxs \<Longrightarrow>
      n \<in> set (owners cl (keys ! i)) \<and> n \<notin> cl_down cl) \<Longrightarrow>
    mget_nodes C cl coll keys gs out w =
      (w, fold (\<lambda>(n, idxs). fold (\<lambda>i out. out[i := content coll (keys ! i)]) idxs) gs out)"
proof (induction gs arbitrary: out)
  case (Cons g gs)
  obtain n idxs where g: "g = (n, idxs)" by (cases g)
  have IH: "mget_nodes C cl coll keys gs out w =
      (w, fold (\<lambda>(n, idxs). fold (\<lambda>i out. out[i := content coll (keys ! i)]) idxs) gs out)" for out
    by (rule Cons.IH) (use Cons.prems in auto)
  show ?case
  proof (cases "client_of cl n")
    case None
    have "idxs = []"
    proof (rule ccontr)
      assume "idxs \<noteq> []"
      then have "n \<in> set (owners cl (keys ! hd idxs))" using Cons.prems [of n idxs "hd idxs"] by (simp add: g)
      then have "client_of cl n \<noteq> None" using assms(4) unfolding routing_ok_def by blast
      with None show False by simp
    qed
    with None IH show ?thesis by (simp add: g)
  next
    case (Some c)
    have vals: "map (peek w (addr c) coll) (map (\<lambda>i. keys ! i) idxs) = map (\<lambda>i. content coll (keys ! i)) idxs"
      using Cons.prems [of n idxs] assms(2,3) Some by (auto simp: g placed_def)
    have "sc_mget C c coll (map (\<lambda>i. keys ! i) idxs) w = (w, COk (map (\<lambda>i. content coll (keys ! i)) idxs))"
      unfolding mget [OF assms(1)] vals by (rule refl)
    with Some IH show ?thesis by (simp add: g mget_fill_eq)
  qed
qed simp

lemma mget_placed:
  assumes "wok w" and "plc UNIV cl content w" and "coll \<in> set (cl_colls cl)" and "routing_ok cl"
  shows "cluster_mget C cl coll keys w = (w, map (\<lambda>k. if served cl k then content coll k else None) keys)"
proof -
  let ?h = "\<lambda>i. content coll (keys ! i)" and ?gs = "mget_groups cl keys"
  have "cluster_mget C cl coll keys w =
      (w, fold (\<lambda>(n, idxs). fold (\<lambda>i out. out[i := ?h i]) idxs) ?gs (replicate (length keys) None))"
    unfolding cluster_mget_def
    by (rule mget_nodes_placed [OF assms]) (use mget_groups_in find_live(2) [OF assms(4)] in blast)
  moreover have "fold (\<lambda>(n, idxs). fold (\<lambda>i out. out[i := ?h i]) idxs) ?gs (replicate (length keys) None) =
      map (\<lambda>k. if served cl k then content coll k else None) keys"
    by (rule nth_equalityI)
      (simp_all add: fold_groups_nth mget_groups_cover find_live(1) [OF assms(4)] del: not_None_eq)
  ultimately show ?thesis by simp
qed

end

context scanning_client
begin

lemma scan_clients_eq:
  assumes "wok w"
  shows "scan_clients C cl coll after pre end limit cs merged w =
    (w, merged \<union> (\<Union>c \<in> {c \<in> set cs. sc_id C c \<notin> cl_down cl}.
      set (take limit (filter (range_ok after pre end)
        (sorted_list_of_set {k. peek w (addr c) coll k \<noteq> None})))))"
proof (induction cs arbitrary: merged)
  case (Cons c cs)
  then show ?case by (auto simp: is_down_def scan_range [OF assms] simp del: not_None_eq)
qed simp

lemma scan_placed:
  assumes "wok w" and "plc UNIV cl content w" and "coll \<in> set (cl_colls cl)" and "routing_ok cl"
    and "ids_ok C cl" and "hm_ok (cl_clients cl)"
    and all: "all = {k. content coll k \<noteq> None \<and> served cl k \<and> range_ok after pre end k}"
  shows "finite all \<and> cluster_scan_range C cl coll after pre end limit w =
    (w, take limit (sorted_list_of_set all),
     if limit \<le> card all \<and> limit \<noteq> 0 then Some (sorted_list_of_set all ! (limit - 1)) else None)"
proof -
  let ?live = "{c \<in> set (map snd (cl_clients cl)). sc_id C c \<notin> cl_down cl}"
  let ?F = "\<lambda>c. {k. peek w (addr c) coll k \<noteq> None \<and> range_ok after pre end k}"
  have fin: "finite (?F c)" for c
    by (rule finite_subset [OF _ peek_finite [OF assms(1), of "addr c" coll]]) blast
  have filt: "filter (range_ok after pre end) (sorted_list_of_set {k. peek w (addr c) coll k \<noteq> None}) =
      sorted_list_of_set (?F c)" for c
    using filter_sorted_list_of_set [OF peek_finite [OF assms(1), of "addr c" coll]] by simp
  have live: "c \<in> ?live \<longleftrightarrow> (\<exists>n. client_of cl n = Some c \<and> n \<notin> cl_down cl)" for c
  proof -
    have "client_of cl n = Some c \<longleftrightarrow> (n, c) \<in> set (cl_clients cl)" for n
      using assms(6) by (simp add: client_of_def)
    moreover have "sc_id C c = n" if "(n, c) \<in> set (cl_clients cl)" for n
      using assms(5) that by (auto simp: ids_ok_def list_all_iff)
    ultimately show ?thesis by force
  qed
  have "(\<Union>c \<in> ?live. ?F c) = all"
  proof (intro equalityI subsetI)
    fix k assume "k \<in> (\<Union>c \<in> ?live. ?F c)"
    then obtain c n where "client_of cl n = Some c" "n \<notin> cl_down cl"
      "peek w (addr c) coll k \<noteq> None" "range_ok after pre end k" using live by blast
    with assms(2,3) show "k \<in> all" unfolding all
      by (auto simp: placed_def served_def list_ex_iff split: if_splits)
  next
    fix k assume "k \<in> all"
    then obtain n c where "n \<in> set (owners cl k)" "client_of cl n = Some c" "n \<notin> cl_down cl"
      "content coll k \<noteq> None" "range_ok after pre end k"
      unfolding all by (auto simp: served_def list_ex_iff)
    moreover from this have "peek w (addr c) coll k \<noteq> None" using assms(2,3) by (simp add: placed_def)
    ultimately show "k \<in> (\<Union>c \<in> ?live. ?F c)" using live by blast
  qed
  moreover have "finite (\<Union>c \<in> ?live. ?F c)" using fin by (intro finite_UN_I) simp_all
  moreover have "take limit (sorted_list_of_set (\<Union>c \<in> ?live. set (take limit (sorted_list_of_set (?F c))))) =
      take limit (sorted_list_of_set (\<Union>c \<in> ?live. ?F c))"
    by (rule take_sorted_Union) (simp, rule fin)
  ultimately have fin_all: "finite all" and page: "cluster_scan_range C cl coll after pre end limit w =
      (w, take limit (sorted_list_of_set all),
       if limit \<le> length (take limit (sorted_list_of_set all)) \<and> take limit (sorted_list_of_set all) \<noteq> []
       then Some (last (take limit (sorted_list_of_set all))) else None)"
    by (simp_all only: cluster_scan_range_def scan_clients_eq [OF assms(1)] filt Let_def prod.case Un_empty_left)
  have "last (take limit L) = L ! (limit - 1)" if "limit \<le> length L" "limit \<noteq> 0" for L :: "string list"
    using that by (subst last_conv_nth) auto
  with fin_all page show ?thesis by auto
qed

end

subsection \<open>The partition plan\<close>

lemma primary_buckets_facts:
  assumes "partitioner_ok p" and "pt_nodes p \<noteq> []"
  shows "hm_ok (primary_buckets p)"
    and "(n, bs) \<in> set (primary_buckets p) \<Longrightarrow>
      bs = filter (\<lambda>b. hd (owners_of_bucket p b 1) = n) [0..<NUM_BUCKETS]"
    and "b < NUM_BUCKETS \<Longrightarrow> hd (owners_of_bucket p b 1) \<in> fst ` set (primary_buckets p)"
proof -
  have one: "\<exists>n. owners_of_bucket p b 1 = [n]" if "b < NUM_BUCKETS" for b
  proof -
    have "length (owners_of_bucket p b 1) = 1"
      using pick_facts(1) [OF assms(1) refl that, of 1] assms(2)
      by (simp add: owners_of_bucket_def Suc_leI min_def)
    then show ?thesis by (cases "owners_of_bucket p b 1") auto
  qed
  let ?L = "map (\<lambda>b. (hd (owners_of_bucket p b 1), b)) [0..<NUM_BUCKETS]"
  have "concat (map (\<lambda>b. case owners_of_bucket p b 1 of [] \<Rightarrow> [] | primary # _ \<Rightarrow> [(primary, b)]) bs) =
      map (\<lambda>b. (hd (owners_of_bucket p b 1), b)) bs" if "\<forall>b \<in> set bs. b < NUM_BUCKETS" for bs
    using that one by (induction bs) (fastforce split: list.splits)+
  then have eq: "primary_buckets p = fold hm_push ?L []"
    using assms(1) by (simp add: primary_buckets_def bucket_count_def partitioner_ok_def)
  show ok: "hm_ok (primary_buckets p)" unfolding eq by (rule hm_ok_push_fold) simp
  show "bs = filter (\<lambda>b. hd (owners_of_bucket p b 1) = n) [0..<NUM_BUCKETS]"
    if "(n, bs) \<in> set (primary_buckets p)"
  proof -
    have "hm_get (fold hm_push ?L []) n = Some bs" using ok that by (simp add: eq)
    then have "bs = map snd (filter (\<lambda>(k', v). k' = n) ?L)" by (rule hm_get_push_fold)
    then show ?thesis by (simp add: filter_map comp_def)
  qed
  show "hd (owners_of_bucket p b 1) \<in> fst ` set (primary_buckets p)" if "b < NUM_BUCKETS"
    unfolding eq hm_keys_push_fold using that by (force simp: image_iff)
qed

subsection \<open>Clusters of in-process shards\<close>

text \<open>What the properties assume of a cluster over in-memory shards.\<close>

abbreviation mclient :: "'v json \<Rightarrow> (inproc_client, 'v memory_store world, 'v) shard_client" where
  "mclient J \<equiv> inproc memory_index J"

abbreviation mplaced :: "inproc_client cluster \<Rightarrow> (string \<Rightarrow> string \<Rightarrow> 'v option)
    \<Rightarrow> 'v memory_store world \<Rightarrow> bool" where
  "mplaced \<equiv> placed ic_shard (inproc_peek memory_index) UNIV"

definition mcluster_ok :: "inproc_client cluster \<Rightarrow> 'v memory_store world \<Rightarrow> bool" where
  "mcluster_ok cl w \<longleftrightarrow> hm_ok (cl_clients cl) \<and> routing_ok cl \<and> addr_inj ic_shard cl \<and>
     list_all (\<lambda>(n, c). ic_id c = n) (cl_clients cl) \<and> inproc_ok mem_ok w"

lemma mcluster_facts:
  assumes "mcluster_ok cl w"
  shows "hm_ok (cl_clients cl)" "routing_ok cl" "addr_inj ic_shard cl" "inproc_ok mem_ok w"
    and "ids_ok (mclient J) cl"
  using assms by (simp_all add: mcluster_ok_def ids_ok_def inproc_def)

text \<open>Two members with an empty store each, replication 2.\<close>

definition two_nodes :: "inproc_client cluster" where
  "two_nodes = cluster_new [(''n0'', inproc_new ''n0'' 0), (''n1'', inproc_new ''n1'' 1)] 2 [''kv'']"

definition empty_world :: "jv memory_store world" where
  "empty_world = \<lparr>w_shards = (\<lambda>a. shard_new [] mem_new), w_now = 5\<rparr>"

lemma two_nodes_simps [simp]:
  "cl_overlay two_nodes = None" "cl_down two_nodes = {}" "cl_colls two_nodes = [''kv'']"
  "cl_clients two_nodes = [(''n0'', inproc_new ''n0'' 0), (''n1'', inproc_new ''n1'' 1)]"
  by (simp_all add: two_nodes_def cluster_new_def)

lemma two_nodes_ok: "cluster_ok two_nodes"
  by (simp add: two_nodes_def cluster_new_def cluster_ok_def partitioner_ok_new clamp_def CHUNK_def)

lemma owners_two_nodes: "set (owners two_nodes k) = {''n0'', ''n1''}"
proof -
  let ?p = "partitioner_new [''n0'', ''n1'']"
  have ok: "partitioner_ok ?p" by (rule partitioner_ok_new) simp
  have own: "owners two_nodes k = take (Suc (Suc 0)) (preference_list ?p k)"
    by (simp add: two_nodes_def owners_def cluster_new_def clamp_def replica_set_plain [OF ok])
  show ?thesis unfolding own preference_list_eq [OF ok] by (simp add: insert_commute)
qed

lemma two_nodes_start: "mcluster_ok two_nodes empty_world" "mplaced two_nodes (\<lambda>c k. None) empty_world"
  "served two_nodes k"
  using routing_ok_stable [OF two_nodes_ok] mem_ok_new [unfolded mem_new_def]
  by (simp_all add: mcluster_ok_def addr_inj_def client_of_def inproc_ok_def empty_world_def
      shard_new_def inproc_new_def placed_def inproc_peek_def mem_eval served_def list_ex_iff
      owners_two_nodes split: if_splits)

subsection \<open>Properties\<close>

text \<open>
  C7. The data operations refine a single map. Over a cluster whose live members hold the content
  of the keys they own, put, put with a TTL, delete, set-add and set-remove update exactly that
  key of the content, on every replica, and keep the placement; members that are marked down are
  skipped and not relied upon; and a read of a key with a live owner returns the content.
\<close>

theorem cluster_ops_refine_map:
  fixes J :: "'v json"
  assumes "mcluster_ok cl w" and "mplaced cl content w" and "coll \<in> set (cl_colls cl)"
  shows "(served cl key \<longrightarrow> cluster_get (mclient J) cl coll key w = (w, content coll key))
    \<and> (let w' = cluster_put (mclient J) cl coll key v w in
        mcluster_ok cl w' \<and> mplaced cl (upd_content content coll key (Some v)) w')
    \<and> (let w' = cluster_put_ttl (mclient J) cl coll key v ttl w in
        mcluster_ok cl w' \<and> mplaced cl (upd_content content coll key
          (if ttl = 0 \<or> w_now w < w_now w + ttl then Some v else None)) w')
    \<and> (let w' = cluster_delete (mclient J) cl coll key w in
        mcluster_ok cl w' \<and> mplaced cl (upd_content content coll key None) w')
    \<and> (let w' = cluster_set_add (mclient J) cl coll key m w in
        mcluster_ok cl w' \<and> mplaced cl (upd_content content coll key (added_value J m (content coll key))) w')
    \<and> (let w' = cluster_set_remove (mclient J) cl coll key m w in
        mcluster_ok cl w' \<and> mplaced cl (upd_content content coll key (removed_value J m (content coll key))) w')"
proof -
  note f = mcluster_facts [OF assms(1)]
  have alive: "(ttl = 0 \<or> w_now w < w_now w + ttl) = inproc_alive w ttl" by (simp add: inproc_alive_def)
  note ops = mem.ip.data_ops_placed [OF f(3,4,2) assms(2), where J = J]
  show ?thesis
    using mem.ip.get_placed [OF f(4) assms(2,3) UNIV_I] assms(1) ops [of coll key]
    by (simp add: Let_def alive mcluster_ok_def)
qed

theorem cluster_ops_refine_map_witness:
  "snd (cluster_get (mclient jv_json) two_nodes ''kv'' ''k''
     (cluster_put (mclient jv_json) two_nodes ''kv'' ''k'' (JInt 7) empty_world)) = Some (JInt 7)"
proof -
  let ?w = "cluster_put (mclient jv_json) two_nodes ''kv'' ''k'' (JInt 7) empty_world"
  have kv: "''kv'' \<in> set (cl_colls two_nodes)" by simp
  have w: "mcluster_ok two_nodes ?w" "mplaced two_nodes (upd_content (\<lambda>c k. None) ''kv'' ''k'' (Some (JInt 7))) ?w"
    using cluster_ops_refine_map [OF two_nodes_start(1,2) kv, of "''k''" jv_json "JInt 7"]
    by (simp_all add: Let_def)
  show ?thesis
    using cluster_ops_refine_map [OF w kv, of "''k''" jv_json] two_nodes_start(3)
    by (simp add: upd_content_def)
qed

text \<open>
  C9. Compare-and-set and increment act on the content through one arbiter, the first live owner,
  and reach every live replica: the result is the one the content calls for, a failed
  compare-and-set or an increment of a non-integer leaves the content alone, and the placement is
  kept, so replicas do not diverge. An operation is one step here: two that run at the same time on one key are not
  ordered by the code between the arbiter and the other replicas.
\<close>

theorem cluster_cas_incr_refine:
  assumes "mcluster_ok cl w" and "mplaced cl content w" and "coll \<in> set (cl_colls cl)" and "served cl key"
    and "(w1, ok) = cluster_cas (mclient J) cl coll key expect new w"
    and "(w2, res) = cluster_incr (mclient J) J cl coll key delta w"
  shows "ok = js_eq_opt J (content coll key) expect
    \<and> mcluster_ok cl w1 \<and> mplaced cl (upd_content content coll key (if ok then Some new else content coll key)) w1
    \<and> res = incr_value J delta (content coll key)
    \<and> mcluster_ok cl w2 \<and> mplaced cl (upd_content content coll key
        (case res of Some n \<Rightarrow> Some (js_of_i64 J n) | None \<Rightarrow> content coll key)) w2"
proof -
  note f = mcluster_facts [OF assms(1)]
  show ?thesis
    using mem.ip.cas_placed [OF f(3,4,2) assms(2,3) UNIV_I assms(4,5)]
      mem.ip.incr_placed [OF f(3,4,2) assms(2,3) UNIV_I assms(4,6)] assms(1)
    unfolding mcluster_ok_def by blast
qed

theorem cluster_cas_incr_refine_witness:
  "snd (cluster_cas (mclient jv_json) two_nodes ''kv'' ''k'' None (JInt 1) empty_world) = True
   \<and> snd (cluster_incr (mclient jv_json) jv_json two_nodes ''kv'' ''k'' 4 empty_world) = Some 4"
proof -
  have kv: "''kv'' \<in> set (cl_colls two_nodes)" by simp
  show ?thesis
    using cluster_cas_incr_refine [OF two_nodes_start(1,2) kv two_nodes_start(3) prod.collapse prod.collapse,
        where key = "''k''" and J = jv_json and expect = None and new = "JInt 1" and delta = 4]
    by (simp add: incr_value_def)
qed

text \<open>
  C11. A batch read returns, in the order of the request and with one request per owning shard,
  exactly what single reads would: the content of every key that has a live owner and nothing for
  the others.
\<close>

theorem cluster_mget_correct:
  assumes "mcluster_ok cl w" and "mplaced cl content w" and "coll \<in> set (cl_colls cl)"
  shows "cluster_mget (mclient J) cl coll keys w =
    (w, map (\<lambda>k. if served cl k then content coll k else None) keys)"
  using mem.ip.mget_placed [OF mcluster_facts(4) [OF assms(1)] assms(2,3) mcluster_facts(2) [OF assms(1)]] .

theorem cluster_mget_correct_witness:
  "snd (cluster_mget (mclient jv_json) two_nodes ''kv'' [''b'', ''a'', ''b'']
     (cluster_put (mclient jv_json) two_nodes ''kv'' ''a'' (JInt 7) empty_world)) = [None, Some (JInt 7), None]"
proof -
  let ?w = "cluster_put (mclient jv_json) two_nodes ''kv'' ''a'' (JInt 7) empty_world"
  let ?content = "upd_content (\<lambda>c k. None) ''kv'' ''a'' (Some (JInt 7))"
  note f = mcluster_facts [OF two_nodes_start(1)]
  have w: "mcluster_ok two_nodes ?w" "mplaced two_nodes ?content ?w"
    using mem.ip.data_ops_placed(1) [OF f(3,4,2) two_nodes_start(2), where J = jv_json] two_nodes_start(1)
    by (simp_all add: mcluster_ok_def)
  then show ?thesis
    using cluster_mget_correct [OF w, of "''kv''" jv_json "[''b'', ''a'', ''b'']"] two_nodes_start(3)
    by (simp add: upd_content_def)
qed

text \<open>
  C10. A cluster-wide scan returns the next page of the global key order: the first \<open>limit\<close> keys
  in ascending order among all live keys within the bounds, each once although it lives on
  several shards, and a cursor, the last key of the page, exactly when the page is full.
\<close>

theorem cluster_scan_correct:
  assumes "mcluster_ok cl w" and "mplaced cl content w" and "coll \<in> set (cl_colls cl)"
    and "all = {k. content coll k \<noteq> None \<and> served cl k \<and> range_ok after pre end k}"
  shows "finite all \<and> cluster_scan_range (mclient J) cl coll after pre end limit w =
    (w, take limit (sorted_list_of_set all),
     if limit \<le> card all \<and> limit \<noteq> 0 then Some (sorted_list_of_set all ! (limit - 1)) else None)"
  using mem.ip.scan_placed [OF mcluster_facts(4) [OF assms(1)] assms(2,3) mcluster_facts(2) [OF assms(1)]
      mcluster_facts(5) [OF assms(1)] mcluster_facts(1) [OF assms(1)] assms(4)] .

theorem cluster_scan_correct_witness:
  "snd (cluster_scan_range (mclient jv_json) two_nodes ''kv'' None None None 1
     (cluster_put (mclient jv_json) two_nodes ''kv'' ''k'' (JInt 7) empty_world)) = ([''k''], Some ''k'')"
proof -
  let ?w = "cluster_put (mclient jv_json) two_nodes ''kv'' ''k'' (JInt 7) empty_world"
  let ?content = "upd_content (\<lambda>c k. None) ''kv'' ''k'' (Some (JInt 7))"
  note f = mcluster_facts [OF two_nodes_start(1)]
  have w: "mcluster_ok two_nodes ?w" "mplaced two_nodes ?content ?w"
    using mem.ip.data_ops_placed(1) [OF f(3,4,2) two_nodes_start(2), where J = jv_json] two_nodes_start(1)
    by (simp_all add: mcluster_ok_def)
  have "{k. ?content ''kv'' k \<noteq> None \<and> served two_nodes k \<and> range_ok None None None k} = {''k''}"
    by (auto simp: upd_content_def two_nodes_start(3) range_ok_def split: if_splits)
  then show ?thesis
    using cluster_scan_correct [OF w _ refl, of "''kv''" None None None jv_json 1] by simp
qed

text \<open>
  C21. The partition plan tiles the keyspace: every bucket lies in exactly one partition, that of
  its primary owner, the partitions are listed in ascending order of distinct members, and their
  buckets together are all 4096 buckets, each once.
\<close>

theorem partition_plan_tiles:
  assumes "cluster_ok cl" and "pt_nodes (cl_partitioner cl) \<noteq> []"
    and plan: "plan = partition_plan C cl"
  shows "sorted_wrt (<) (map pn_id plan)
    \<and> mset (concat (map pn_buckets plan)) = mset [0..<NUM_BUCKETS]
    \<and> (\<forall>q \<in> set plan. \<forall>b \<in> set (pn_buckets q). pn_id q = hd (owners_of_bucket (cl_partitioner cl) b 1))"
proof -
  let ?p = "cl_partitioner cl"
  have ok: "partitioner_ok ?p" using assms(1) by (simp add: cluster_ok_def)
  note pb = primary_buckets_facts [OF ok assms(2)]
  define mk where "mk = (\<lambda>(n, buckets). \<lparr>pn_id = n,
      pn_endpoint = (case hm_get (members_with_endpoints C cl) n of None \<Rightarrow> [] | Some e \<Rightarrow> e),
      pn_buckets = buckets\<rparr>)"
  have eq: "plan = sort_key pn_id (map mk (primary_buckets ?p))"
    by (simp add: plan partition_plan_def mk_def Let_def)
  have mk: "pn_id (mk x) = fst x" "pn_buckets (mk x) = snd x" for x by (cases x; simp add: mk_def)+
  have setp: "set plan = mk ` set (primary_buckets ?p)" by (simp add: eq)
  have "mset (map pn_id plan) = mset (map fst (primary_buckets ?p))"
    unfolding eq mset_map mset_sort by (simp add: mk multiset.map_comp comp_def)
  then have "distinct (map pn_id plan)"
    using pb(1) mset_eq_imp_distinct_iff by blast
  then have sorted: "sorted_wrt (<) (map pn_id plan)"
    using sorted_sort_key [of pn_id "map mk (primary_buckets ?p)"] by (simp add: eq strict_sorted_iff)
  have bucket: "b \<in> set (pn_buckets q) \<longleftrightarrow> b < NUM_BUCKETS \<and> hd (owners_of_bucket ?p b 1) = pn_id q"
    if "q \<in> set plan" for q b
    using that pb(2) unfolding setp by (force simp: mk)
  have dq: "distinct (pn_buckets q)" if "q \<in> set plan" for q
    using that pb(2) unfolding setp by (force simp: mk)
  have "distinct (concat (map pn_buckets plan))"
  proof -
    have "distinct (concat (map pn_buckets qs))"
      if "distinct (map pn_id qs)" "set qs \<subseteq> set plan" for qs
      using that
    proof (induction qs)
      case (Cons q qs)
      have "set (pn_buckets q) \<inter> set (concat (map pn_buckets qs)) = {}"
        using Cons.prems bucket by (fastforce simp: image_iff)
      with Cons dq [of q] show ?case by simp
    qed simp
    then show ?thesis using \<open>distinct (map pn_id plan)\<close> by blast
  qed
  moreover have "set (concat (map pn_buckets plan)) = set [0..<NUM_BUCKETS]"
  proof (intro equalityI subsetI)
    fix b assume "b \<in> set [0..<NUM_BUCKETS]"
    then obtain x where "x \<in> set (primary_buckets ?p)" "fst x = hd (owners_of_bucket ?p b 1)"
      using pb(3) [of b] by auto
    then have "mk x \<in> set plan" "b \<in> set (pn_buckets (mk x))"
      using bucket [of "mk x" b] \<open>b \<in> _\<close> by (auto simp: setp mk)
    then show "b \<in> set (concat (map pn_buckets plan))" by auto
  qed (use bucket in auto)
  ultimately have "mset (concat (map pn_buckets plan)) = mset [0..<NUM_BUCKETS]"
    by (rule iffD1 [OF set_eq_iff_mset_eq_distinct [OF _ distinct_upt]])
  moreover have "pn_id q = hd (owners_of_bucket ?p b 1)" if "q \<in> set plan" "b \<in> set (pn_buckets q)" for q b
    using bucket [OF that(1)] that(2) by simp
  ultimately show ?thesis using sorted by simp
qed

theorem partition_plan_tiles_witness:
  "mset (concat (map pn_buckets (partition_plan (mclient jv_json) two_nodes))) = mset [0..<NUM_BUCKETS]"
proof -
  have "pt_nodes (cl_partitioner two_nodes) \<noteq> []" by (simp add: two_nodes_def cluster_new_def)
  from partition_plan_tiles [OF two_nodes_ok this refl] show ?thesis by blast
qed

end
