(* ===== verification/Migration.thy ===== *)
theory Migration
  imports Cluster
begin

text \<open>
  Membership change and online migration, \<^verbatim>\<open>src/cluster.rs\<close> (the control plane): the plan of
  theory \<open>Reshard\<close> is carried out chunk by chunk, each chunk copied to its new owners, cut over
  in the routing overlay, dropped at its old owners and recorded in the journal, and the
  membership is committed at the end.

  The functions \<open>run_migration\<close>, \<open>rebalance\<close>, \<open>drain\<close>, \<open>apply_membership\<close>,
  \<open>resume_migration\<close> and \<open>rebalance_partial\<close> are the code run to completion. The relation
  \<open>mig_step\<close> breaks the same work into the steps between which the data operations of other
  tasks run: a data operation may come between any two steps, except on a key of a frozen bucket,
  which the gate keeps out (theory \<open>Guard\<close>).

  The lemmas show that the content survives: under every interleaving reads return the content,
  the committed cluster is placed by the new membership, and after a crash at any step a resumed
  migration completes the move.
\<close>

subsection \<open>The migration\<close>

record migrate_summary =
  ms_buckets :: nat
  ms_moved_buckets :: nat
  ms_copied :: nat
  ms_dropped :: nat

text \<open>\<^verbatim>\<open>slice::chunks(n)\<close>, for \<open>n\<close> at least 1.\<close>

function chunks_of :: "nat \<Rightarrow> 'a list \<Rightarrow> 'a list list" where
  "chunks_of n [] = []"
| "chunks_of n (x # xs) = (x # take (n - 1) xs) # chunks_of n (drop (n - 1) xs)"
  by pat_completeness auto
termination by (relation "measure (\<lambda>(n, xs). length xs)") auto

type_synonym actions = "(nat, (node_id \<times> node_id) list \<times> node_id list) hashmap"

definition push_copy :: "copy_action \<Rightarrow> actions \<Rightarrow> actions" where
  "push_copy c m = (let (copies, drops) = hm_or_default ([], []) m (cp_bucket c) in
     hm_insert (cp_bucket c) (copies @ [(cp_from c, cp_to c)], drops) m)"

definition push_drop :: "drop_action \<Rightarrow> actions \<Rightarrow> actions" where
  "push_drop d m = (let (copies, drops) = hm_or_default ([], []) m (dr_bucket d) in
     hm_insert (dr_bucket d) (copies, drops @ [dr_node d]) m)"

definition migration_actions :: "reshard_plan \<Rightarrow> nat set \<Rightarrow> actions" where
  "migration_actions plan done =
     fold push_drop (filter (\<lambda>d. dr_bucket d \<notin> done) (rp_drops plan))
       (fold push_copy (filter (\<lambda>c. cp_bucket c \<notin> done) (rp_copies plan)) [])"

definition action_of :: "actions \<Rightarrow> nat \<Rightarrow> (node_id \<times> node_id) list \<times> node_id list" where
  "action_of acts b = hm_or_default ([], []) acts b"

definition save_record :: "node_id list \<Rightarrow> node_id list \<Rightarrow> nat set \<Rightarrow> 'c cluster \<Rightarrow> 'c cluster" where
  "save_record old new done cl = cl\<lparr>cl_journal := journal_save
     \<lparr>mr_old_nodes = old, mr_new_nodes = new, mr_replication = cl_replication_target cl,
      mr_done = sorted_list_of_set done\<rparr> (cl_journal cl)\<rparr>"

definition commit_membership :: "node_id list \<Rightarrow> 'c cluster \<Rightarrow> 'c cluster" where
  "commit_membership new cl =
     (let remove = filter (\<lambda>k. k \<notin> set new) (hm_keys (cl_clients cl)) in
      cl\<lparr>cl_epoch := cl_epoch cl + 1,
         cl_partitioner := set_nodes (cl_partitioner cl) new,
         cl_replication := clamp (cl_replication_target cl) (length new),
         cl_clients := fold hm_remove remove (cl_clients cl),
         cl_down := cl_down cl - set remove\<rparr>)"

text \<open>
  The batches of a chunk: the buckets of every \<open>(from, to)\<close> pair and of every node that drops,
  in key order.
\<close>

definition chunk_pairs :: "actions \<Rightarrow> nat list \<Rightarrow> ((node_id \<times> node_id) \<times> nat list) list" where
  "chunk_pairs acts chunk = sort_key fst (fold hm_push
     (concat (map (\<lambda>bk. map (\<lambda>ft. (ft, bk)) (fst (action_of acts bk))) chunk)) [])"

definition chunk_drops :: "actions \<Rightarrow> nat list \<Rightarrow> (node_id \<times> nat list) list" where
  "chunk_drops acts chunk = sort_key fst (fold hm_push
     (concat (map (\<lambda>bk. map (\<lambda>n. (n, bk)) (snd (action_of acts bk))) chunk)) [])"

definition ok_or :: "'a \<Rightarrow> 'a cresult \<Rightarrow> 'a" where
  "ok_or d r = (case r of COk x \<Rightarrow> x | CErr e \<Rightarrow> d)"

fun copy_colls :: "('c, 'w, 'v) shard_client \<Rightarrow> 'c \<Rightarrow> 'c \<Rightarrow> nat list \<Rightarrow> string list \<Rightarrow> 'w \<times> nat \<Rightarrow> 'w \<times> nat" where
  "copy_colls C fc tc buckets [] (w, copied) = (w, copied)"
| "copy_colls C fc tc buckets (coll # colls) (w, copied) =
     (let (w, r) = sc_export_entries C fc coll buckets w;
          entries = ok_or [] r;
          w = (if entries \<noteq> [] then fst (sc_import_entries C tc coll entries w) else w)
      in copy_colls C fc tc buckets colls (w, copied + length entries))"

fun copy_pairs :: "('c, 'w, 'v) shard_client \<Rightarrow> 'c cluster \<Rightarrow> ((node_id \<times> node_id) \<times> nat list) list
    \<Rightarrow> 'w \<times> nat \<Rightarrow> 'w \<times> nat" where
  "copy_pairs C cl [] s = s"
| "copy_pairs C cl (((from, to), buckets) # ps) s =
     copy_pairs C cl ps (case (client_of cl from, client_of cl to) of
       (Some fc, Some tc) \<Rightarrow> copy_colls C fc tc buckets (cl_colls cl) s
     | _ \<Rightarrow> s)"

fun drop_colls :: "('c, 'w, 'v) shard_client \<Rightarrow> 'c \<Rightarrow> nat list \<Rightarrow> string list \<Rightarrow> 'w \<times> nat \<Rightarrow> 'w \<times> nat" where
  "drop_colls C c buckets [] (w, dropped) = (w, dropped)"
| "drop_colls C c buckets (coll # colls) (w, dropped) =
     (let (w, r) = sc_drop_buckets C c coll buckets w in
      drop_colls C c buckets colls (w, dropped + ok_or 0 r))"

fun drop_nodes :: "('c, 'w, 'v) shard_client \<Rightarrow> 'c cluster \<Rightarrow> (node_id \<times> nat list) list
    \<Rightarrow> 'w \<times> nat \<Rightarrow> 'w \<times> nat" where
  "drop_nodes C cl [] s = s"
| "drop_nodes C cl ((n, buckets) # ds) s =
     drop_nodes C cl ds (case client_of cl n of
       Some c \<Rightarrow> drop_colls C c buckets (cl_colls cl) s
     | None \<Rightarrow> s)"

definition cutover :: "nat list \<Rightarrow> 'c cluster \<Rightarrow> 'c cluster" where
  "cutover chunk cl = cl\<lparr>cl_overlay :=
     map_option (\<lambda>ov. ov\<lparr>ov_migrated := ov_migrated ov \<union> set chunk\<rparr>) (cl_overlay cl)\<rparr>"

text \<open>One chunk, between the freezing and the unfreezing of its buckets.\<close>

definition migrate_chunk :: "('c, 'w, 'v) shard_client \<Rightarrow> node_id list \<Rightarrow> node_id list \<Rightarrow> actions \<Rightarrow> nat list
    \<Rightarrow> 'c cluster \<times> 'w \<times> nat set \<times> nat \<times> nat \<Rightarrow> 'c cluster \<times> 'w \<times> nat set \<times> nat \<times> nat" where
  "migrate_chunk C old new acts chunk = (\<lambda>(cl, w, done, copied, dropped).
     let (w, copied) = copy_pairs C cl (chunk_pairs acts chunk) (w, copied);
         cl = cutover chunk cl;
         (w, dropped) = drop_nodes C cl (chunk_drops acts chunk) (w, dropped);
         done = done \<union> set chunk;
         cl = save_record old new done cl
     in (cl, w, done, copied, dropped))"

text \<open>The loop over the chunks; False when it stops early.\<close>

fun run_chunks :: "('c, 'w, 'v) shard_client \<Rightarrow> node_id list \<Rightarrow> node_id list \<Rightarrow> actions \<Rightarrow> nat option
    \<Rightarrow> nat \<Rightarrow> nat list list \<Rightarrow> 'c cluster \<times> 'w \<times> nat set \<times> nat \<times> nat
    \<Rightarrow> bool \<times> 'c cluster \<times> 'w \<times> nat set \<times> nat \<times> nat" where
  "run_chunks C old new acts stop_after i [] s = (True, s)"
| "run_chunks C old new acts stop_after i (chunk # chunks) s =
     (if (case stop_after of Some mx \<Rightarrow> mx \<le> i | None \<Rightarrow> False) then (False, s)
      else run_chunks C old new acts stop_after (i + 1) chunks (migrate_chunk C old new acts chunk s))"

definition same_members :: "node_id list \<Rightarrow> node_id list \<Rightarrow> bool" where
  "same_members old new \<longleftrightarrow> length old = length new \<and> list_all (\<lambda>n. n \<in> set new) old"

definition start_overlay :: "node_id list \<Rightarrow> node_id list \<Rightarrow> nat set \<Rightarrow> 'c cluster \<Rightarrow> 'c cluster" where
  "start_overlay old new done cl = (let rt = cl_replication_target cl in
     cl\<lparr>cl_overlay := Some \<lparr>ov_old_p = make_partitioner cl old, ov_r_old = clamp rt (length old),
        ov_new_p = make_partitioner cl new, ov_r_new = clamp rt (length new), ov_migrated = done\<rparr>\<rparr>)"

definition run_migration :: "('c, 'w, 'v) shard_client \<Rightarrow> node_id list \<Rightarrow> node_id list \<Rightarrow> nat set \<Rightarrow> nat option
    \<Rightarrow> 'c cluster \<Rightarrow> 'w \<Rightarrow> 'c cluster \<times> 'w \<times> migrate_summary" where
  "run_migration C old new done stop_after cl w =
     (let buckets_total = bucket_count (cl_partitioner cl) in
      if same_members old new then
        (commit_membership new (cl\<lparr>cl_journal := journal_clear (cl_journal cl)\<rparr>), w,
         \<lparr>ms_buckets = buckets_total, ms_moved_buckets = 0, ms_copied = 0, ms_dropped = 0\<rparr>)
      else
        let plan = plan_reshard old new (cl_replication_target cl) (cl_topology cl);
            acts = migration_actions plan done;
            bucket_list = sort (hm_keys acts);
            cl = save_record old new done (start_overlay old new done cl);
            (finished, cl, w, done, copied, dropped) =
              run_chunks C old new acts stop_after 0 (chunks_of (cl_chunk cl) bucket_list) (cl, w, done, 0, 0);
            summary = \<lparr>ms_buckets = buckets_total, ms_moved_buckets = rp_moved_buckets plan,
              ms_copied = copied, ms_dropped = dropped\<rparr>
        in if finished then
          ((commit_membership new (cl\<lparr>cl_journal := journal_clear (cl_journal cl)\<rparr>))\<lparr>cl_overlay := None\<rparr>, w, summary)
        else (cl, w, summary))"

definition rebalance :: "('c, 'w, 'v) shard_client \<Rightarrow> node_id list \<Rightarrow> 'c cluster \<Rightarrow> 'w
    \<Rightarrow> 'c cluster \<times> 'w \<times> migrate_summary" where
  "rebalance C new_ids cl w = run_migration C (member_ids cl) new_ids {} None cl w"

definition cluster_drain :: "('c, 'w, 'v) shard_client \<Rightarrow> node_id \<Rightarrow> 'c cluster \<Rightarrow> 'w
    \<Rightarrow> 'c cluster \<times> 'w \<times> migrate_summary" where
  "cluster_drain C node cl w = rebalance C (filter (\<lambda>n. n \<noteq> node) (member_ids cl)) cl w"

definition apply_membership :: "('c, 'w, 'v) shard_client \<Rightarrow> (node_id, 'c) hashmap \<Rightarrow> 'c cluster \<Rightarrow> 'w
    \<Rightarrow> 'c cluster \<times> 'w \<times> migrate_summary" where
  "apply_membership C target cl w =
     (let cl = cl\<lparr>cl_clients := fold (\<lambda>(n, client) m. if hm_get m n = None then hm_insert n client m else m)
        target (cl_clients cl)\<rparr>
      in rebalance C (hm_keys target) cl w)"

definition resume_migration :: "('c, 'w, 'v) shard_client \<Rightarrow> 'c cluster \<Rightarrow> 'w
    \<Rightarrow> ('c cluster \<times> 'w \<times> migrate_summary) option" where
  "resume_migration C cl w =
     (case journal_load (cl_journal cl) of
        None \<Rightarrow> None
      | Some rec \<Rightarrow>
          let cl = cl\<lparr>cl_replication_target := max (mr_replication rec) 1\<rparr>;
              done = set (mr_done rec)
          in Some (run_migration C (mr_old_nodes rec) (mr_new_nodes rec) done None cl w))"

definition rebalance_partial :: "('c, 'w, 'v) shard_client \<Rightarrow> node_id list \<Rightarrow> nat \<Rightarrow> 'c cluster \<Rightarrow> 'w
    \<Rightarrow> 'c cluster \<times> 'w \<times> migrate_summary" where
  "rebalance_partial C new_ids max_chunks cl w =
     run_migration C (member_ids cl) new_ids {} (Some max_chunks) cl w"

subsection \<open>The actions of a migration\<close>

lemma concat_chunks_of: "1 \<le> n \<Longrightarrow> concat (chunks_of n xs) = xs"
  by (induction n xs rule: chunks_of.induct) simp_all

lemma push_copy_action:
  "action_of (push_copy c m) b =
     (if b = cp_bucket c then (fst (action_of m b) @ [(cp_from c, cp_to c)], snd (action_of m b))
      else action_of m b)"
  by (simp add: action_of_def push_copy_def hm_or_default_insert split: prod.splits)

lemma push_drop_action:
  "action_of (push_drop d m) b =
     (if b = dr_bucket d then (fst (action_of m b), snd (action_of m b) @ [dr_node d])
      else action_of m b)"
  by (simp add: action_of_def push_drop_def hm_or_default_insert split: prod.splits)

lemma push_keys:
  "fst ` set (push_copy c m) = insert (cp_bucket c) (fst ` set m)"
  "fst ` set (push_drop d m) = insert (dr_bucket d) (fst ` set m)"
  by (simp_all add: push_copy_def push_drop_def hm_keys_insert case_prod_unfold Let_def)

lemma push_copies_action:
  "action_of (fold push_copy cs m) b =
     (fst (action_of m b) @ map (\<lambda>c. (cp_from c, cp_to c)) (filter (\<lambda>c. cp_bucket c = b) cs), snd (action_of m b))"
  by (induction cs arbitrary: m) (auto simp: push_copy_action)

lemma push_drops_action:
  "action_of (fold push_drop ds m) b =
     (fst (action_of m b), snd (action_of m b) @ map dr_node (filter (\<lambda>d. dr_bucket d = b) ds))"
  by (induction ds arbitrary: m) (auto simp: push_drop_action)

lemma push_fold_keys:
  "fst ` set (fold push_copy cs m) = cp_bucket ` set cs \<union> fst ` set m"
  "fst ` set (fold push_drop ds m) = dr_bucket ` set ds \<union> fst ` set m"
proof -
  show "fst ` set (fold push_copy cs m) = cp_bucket ` set cs \<union> fst ` set m"
    by (induction cs arbitrary: m) (simp_all add: push_keys)
  show "fst ` set (fold push_drop ds m) = dr_bucket ` set ds \<union> fst ` set m"
    by (induction ds arbitrary: m) (simp_all add: push_keys)
qed

lemma push_fold_ok: "hm_ok m \<Longrightarrow> hm_ok (fold push_copy cs m)" "hm_ok m \<Longrightarrow> hm_ok (fold push_drop ds m)"
proof -
  show "hm_ok m \<Longrightarrow> hm_ok (fold push_copy cs m)"
    by (induction cs arbitrary: m) (simp_all add: push_copy_def hm_ok_insert case_prod_unfold Let_def)
  show "hm_ok m \<Longrightarrow> hm_ok (fold push_drop ds m)"
    by (induction ds arbitrary: m) (simp_all add: push_drop_def hm_ok_insert case_prod_unfold Let_def)
qed

text \<open>The owners before and after, and the work they call for.\<close>

definition acts_ok :: "(nat \<Rightarrow> node_id list) \<Rightarrow> (nat \<Rightarrow> node_id list) \<Rightarrow> actions \<Rightarrow> nat set \<Rightarrow> bool" where
  "acts_ok oo no acts B \<longleftrightarrow> (\<forall>b \<in> B. b < NUM_BUCKETS \<and>
     set (fst (action_of acts b)) = {hd (oo b)} \<times> (set (no b) - set (oo b)) \<and>
     set (snd (action_of acts b)) = set (oo b) - set (no b))"

lemma acts_ok_mono: "acts_ok oo no acts B \<Longrightarrow> A \<subseteq> B \<Longrightarrow> acts_ok oo no acts A"
  by (auto simp: acts_ok_def)

lemma migration_actions_facts:
  assumes "distinct old" and "old \<noteq> []" and acts: "acts = migration_actions (plan_reshard old new r t) done"
  shows "acts_ok (plan_owners old r t) (plan_owners new r t) acts (fst ` set acts)"
    and "fst ` set acts = {b. b < NUM_BUCKETS \<and> b \<notin> done \<and>
      set (plan_owners old r t b) \<noteq> set (plan_owners new r t b)}"
    and "distinct (hm_keys acts)"
proof -
  let ?oo = "plan_owners old r t" and ?no = "plan_owners new r t"
  have old: "old_plan_owners old r t = ?oo" using assms(2) by (simp add: old_plan_owners_def fun_eq_iff)
  have ne: "?oo b \<noteq> []" if "b < NUM_BUCKETS" for b
    by (rule plan_owners_facts(3) [OF assms(1) that assms(2)])
  have keys: "fst ` set acts = {b. b < NUM_BUCKETS \<and> b \<notin> done \<and> bucket_moves b (?oo b) (?no b)}"
  proof -
    have less: "cp_bucket c < NUM_BUCKETS" if "c \<in> set (rp_copies (plan_reshard old new r t))" for c
      using that by (simp add: in_plan_copies)
    have less': "dr_bucket d < NUM_BUCKETS" if "d \<in> set (rp_drops (plan_reshard old new r t))" for d
      using that by (simp add: in_plan_drops)
    have "b \<in> cp_bucket ` set (rp_copies (plan_reshard old new r t)) \<union>
        dr_bucket ` set (rp_drops (plan_reshard old new r t)) \<longleftrightarrow>
        b < NUM_BUCKETS \<and> bucket_moves b (?oo b) (?no b)" for b
    proof (cases "b < NUM_BUCKETS")
      case True
      have "b \<in> cp_bucket ` set (rp_copies (plan_reshard old new r t)) \<longleftrightarrow> bucket_copies b (?oo b) (?no b) \<noteq> []"
        using arg_cong [OF plan_copies_bucket [OF True, of old new r t], of "\<lambda>X. X = {}"]
        by (auto simp: old)
      moreover have "b \<in> dr_bucket ` set (rp_drops (plan_reshard old new r t)) \<longleftrightarrow> bucket_drops b (?oo b) (?no b) \<noteq> []"
        using arg_cong [OF plan_drops_bucket [OF True, of old new r t], of "\<lambda>X. X = {}"]
        by (auto simp: old)
      ultimately show ?thesis using True by (simp add: bucket_moves_def)
    next
      case False
      then show ?thesis using less less' by auto
    qed
    moreover have "fst ` set acts = (cp_bucket ` set (rp_copies (plan_reshard old new r t)) \<union>
        dr_bucket ` set (rp_drops (plan_reshard old new r t))) - done"
      unfolding acts migration_actions_def push_fold_keys by auto
    ultimately show ?thesis by blast
  qed
  then show "fst ` set acts = {b. b < NUM_BUCKETS \<and> b \<notin> done \<and> set (?oo b) \<noteq> set (?no b)}"
    using ne bucket_moves_iff by blast
  show "distinct (hm_keys acts)"
    unfolding acts migration_actions_def by (intro push_fold_ok) simp
  show "acts_ok ?oo ?no acts (fst ` set acts)"
    unfolding acts_ok_def
  proof (intro ballI conjI)
    fix b assume "b \<in> fst ` set acts"
    then have b: "b < NUM_BUCKETS" "b \<notin> done" by (simp_all add: keys)
    show "b < NUM_BUCKETS" by fact
    have eq: "action_of acts b =
        (map (\<lambda>c. (cp_from c, cp_to c)) (filter (\<lambda>c. cp_bucket c = b \<and> cp_bucket c \<notin> done)
           (rp_copies (plan_reshard old new r t))),
         map dr_node (filter (\<lambda>d. dr_bucket d = b \<and> dr_bucket d \<notin> done)
           (rp_drops (plan_reshard old new r t))))"
      by (simp add: acts migration_actions_def push_copies_action push_drops_action conj_commute)
        (simp add: action_of_def hm_or_default_def)
    have "set (fst (action_of acts b)) = (\<lambda>c. (cp_from c, cp_to c)) `
        {c \<in> set (rp_copies (plan_reshard old new r t)). cp_bucket c = b}"
      using b(2) by (auto simp: eq)
    also have "\<dots> = {hd (?oo b)} \<times> (set (?no b) - set (?oo b))"
      using ne [OF b(1)] unfolding plan_copies_bucket [OF b(1)] old
      by (auto simp: bucket_copies_def image_image)
    finally show "set (fst (action_of acts b)) = {hd (?oo b)} \<times> (set (?no b) - set (?oo b))" .
    have "set (snd (action_of acts b)) = dr_node ` {d \<in> set (rp_drops (plan_reshard old new r t)). dr_bucket d = b}"
      using b(2) by (auto simp: eq)
    then show "set (snd (action_of acts b)) = set (?oo b) - set (?no b)"
      by (simp add: plan_drops_bucket [OF b(1)] old bucket_drop_targets)
  qed
qed

text \<open>The batches of a chunk carry exactly the actions of its buckets.\<close>

lemma push_batches:
  assumes "batches = sort_key fst (fold hm_push kvs [])"
  shows "x \<in> set batches \<Longrightarrow> set (snd x) = {v. (fst x, v) \<in> set kvs}"
    and "(k, v) \<in> set kvs \<Longrightarrow> \<exists>vs. (k, vs) \<in> set batches \<and> v \<in> set vs"
proof -
  have ok: "hm_ok (fold hm_push kvs [])" by (rule hm_ok_push_fold) simp
  have batch: "set vs = {v. (k, v) \<in> set kvs}" if "(k, vs) \<in> set batches" for k vs
  proof -
    have "hm_get (fold hm_push kvs []) k = Some vs" using that ok by (simp add: assms)
    from hm_get_push_fold [OF this] show ?thesis by force
  qed
  then show "x \<in> set batches \<Longrightarrow> set (snd x) = {v. (fst x, v) \<in> set kvs}" by (metis prod.collapse)
  assume "(k, v) \<in> set kvs"
  then have "k \<in> fst ` set (fold hm_push kvs [])" unfolding hm_keys_push_fold by force
  then obtain vs where "(k, vs) \<in> set batches" by (auto simp: assms)
  with batch \<open>(k, v) \<in> set kvs\<close> show "\<exists>vs. (k, vs) \<in> set batches \<and> v \<in> set vs" by blast
qed

lemma push_batches_nonempty:
  assumes "x \<in> set (sort_key fst (fold hm_push kvs []))"
  shows "snd x \<noteq> []"
proof -
  have "fst x \<in> fst ` set (fold hm_push kvs [])" using assms by simp
  then have "fst x \<in> fst ` set kvs" unfolding hm_keys_push_fold by simp
  then obtain v where "(fst x, v) \<in> set kvs" by (metis imageE prod.collapse)
  then show ?thesis using push_batches(1) [OF refl assms] by force
qed

lemma chunk_pairs_facts:
  assumes "x \<in> set (chunk_pairs acts chunk)"
  shows "set (snd x) = {b \<in> set chunk. fst x \<in> set (fst (action_of acts b))}"
  unfolding push_batches(1) [OF chunk_pairs_def assms] by auto

lemma chunk_pairs_cover:
  assumes "b \<in> set chunk" and "ft \<in> set (fst (action_of acts b))"
  shows "\<exists>bs. (ft, bs) \<in> set (chunk_pairs acts chunk) \<and> b \<in> set bs"
  by (rule push_batches(2) [OF chunk_pairs_def]) (use assms in auto)

lemma chunk_drops_facts:
  assumes "x \<in> set (chunk_drops acts chunk)"
  shows "set (snd x) = {b \<in> set chunk. fst x \<in> set (snd (action_of acts b))}"
  unfolding push_batches(1) [OF chunk_drops_def assms] by auto

lemma chunk_drops_cover:
  assumes "b \<in> set chunk" and "n \<in> set (snd (action_of acts b))"
  shows "\<exists>bs. (n, bs) \<in> set (chunk_drops acts chunk) \<and> b \<in> set bs"
  by (rule push_batches(2) [OF chunk_drops_def]) (use assms in auto)

subsection \<open>The migration as steps, interleaved with data operations\<close>

datatype 'v data_op =
    OpPut string string 'v
  | OpPutTtl string string 'v u64
  | OpDelete string string
  | OpSetAdd string string string
  | OpSetRemove string string string
  | OpCas string string "'v option" 'v
  | OpIncr string string i64

fun op_coll :: "'v data_op \<Rightarrow> string" where
  "op_coll (OpPut coll key v) = coll"
| "op_coll (OpPutTtl coll key v ttl) = coll"
| "op_coll (OpDelete coll key) = coll"
| "op_coll (OpSetAdd coll key member) = coll"
| "op_coll (OpSetRemove coll key member) = coll"
| "op_coll (OpCas coll key expect new) = coll"
| "op_coll (OpIncr coll key delta) = coll"

fun op_key :: "'v data_op \<Rightarrow> string" where
  "op_key (OpPut coll key v) = key"
| "op_key (OpPutTtl coll key v ttl) = key"
| "op_key (OpDelete coll key) = key"
| "op_key (OpSetAdd coll key member) = key"
| "op_key (OpSetRemove coll key member) = key"
| "op_key (OpCas coll key expect new) = key"
| "op_key (OpIncr coll key delta) = key"

fun op_run :: "('c, 'w, 'v) shard_client \<Rightarrow> 'v json \<Rightarrow> 'c cluster \<Rightarrow> 'v data_op \<Rightarrow> 'w \<Rightarrow> 'w" where
  "op_run C J cl (OpPut coll key v) w = cluster_put C cl coll key v w"
| "op_run C J cl (OpPutTtl coll key v ttl) w = cluster_put_ttl C cl coll key v ttl w"
| "op_run C J cl (OpDelete coll key) w = cluster_delete C cl coll key w"
| "op_run C J cl (OpSetAdd coll key member) w = cluster_set_add C cl coll key member w"
| "op_run C J cl (OpSetRemove coll key member) w = cluster_set_remove C cl coll key member w"
| "op_run C J cl (OpCas coll key expect new) w = fst (cluster_cas C cl coll key expect new w)"
| "op_run C J cl (OpIncr coll key delta) w = fst (cluster_incr C J cl coll key delta w)"

text \<open>
  What an operation does to the content; \<open>al ttl\<close> says that a lifetime ends in the future. A
  compare-and-set or an increment needs an owner that serves the key.
\<close>

fun op_value :: "'v json \<Rightarrow> (u64 \<Rightarrow> bool) \<Rightarrow> bool \<Rightarrow> 'v data_op \<Rightarrow> 'v option \<Rightarrow> 'v option" where
  "op_value J al srv (OpPut coll key v) ov = Some v"
| "op_value J al srv (OpPutTtl coll key v ttl) ov = (if al ttl then Some v else None)"
| "op_value J al srv (OpDelete coll key) ov = None"
| "op_value J al srv (OpSetAdd coll key member) ov = added_value J member ov"
| "op_value J al srv (OpSetRemove coll key member) ov = removed_value J member ov"
| "op_value J al srv (OpCas coll key expect new) ov =
     (if srv \<and> js_eq_opt J ov expect then Some new else ov)"
| "op_value J al srv (OpIncr coll key delta) ov =
     (case incr_value J delta ov of Some n \<Rightarrow> if srv then Some (js_of_i64 J n) else ov | None \<Rightarrow> ov)"

definition op_content :: "'v json \<Rightarrow> (u64 \<Rightarrow> bool) \<Rightarrow> 'c cluster \<Rightarrow> 'v data_op
    \<Rightarrow> (string \<Rightarrow> string \<Rightarrow> 'v option) \<Rightarrow> string \<Rightarrow> string \<Rightarrow> 'v option" where
  "op_content J al cl oper content = upd_content content (op_coll oper) (op_key oper)
     (op_value J al (served cl (op_key oper)) oper (content (op_coll oper) (op_key oper)))"

text \<open>
  The state of a migration in progress. The content is the specification's: it records what the
  data operations wrote.
\<close>

type_synonym copy_task = "(node_id \<times> node_id) \<times> nat list \<times> string"
type_synonym drop_task = "node_id \<times> nat list \<times> string"

datatype mig_phase =
    Chunks "nat list list"
  | Copying "nat list" "copy_task list" "nat list list"
  | Dropping "nat list" "drop_task list" "nat list list"
  | Saving "nat list" "nat list list"
  | Committing
  | Committed

fun frozen :: "mig_phase \<Rightarrow> nat set" where
  "frozen (Copying chunk todo rest) = set chunk"
| "frozen (Dropping chunk todo rest) = set chunk"
| "frozen _ = {}"

record ('c, 'w, 'v) mig_state =
  mg_cl :: "'c cluster"
  mg_w :: 'w
  mg_content :: "string \<Rightarrow> string \<Rightarrow> 'v option"
  mg_done :: "nat set"
  mg_phase :: mig_phase

definition copy_tasks :: "string list \<Rightarrow> ((node_id \<times> node_id) \<times> nat list) list \<Rightarrow> copy_task list" where
  "copy_tasks colls pairs = concat (map (\<lambda>(ft, bs). map (\<lambda>coll. (ft, bs, coll)) colls) pairs)"

definition drop_tasks :: "string list \<Rightarrow> (node_id \<times> nat list) list \<Rightarrow> drop_task list" where
  "drop_tasks colls drops = concat (map (\<lambda>(n, bs). map (\<lambda>coll. (n, bs, coll)) colls) drops)"

fun copy_task :: "('c, 'w, 'v) shard_client \<Rightarrow> 'c cluster \<Rightarrow> copy_task \<Rightarrow> 'w \<times> nat \<Rightarrow> 'w \<times> nat" where
  "copy_task C cl ((from, to), bs, coll) s =
     (case (client_of cl from, client_of cl to) of
        (Some fc, Some tc) \<Rightarrow> copy_colls C fc tc bs [coll] s | _ \<Rightarrow> s)"

fun drop_task :: "('c, 'w, 'v) shard_client \<Rightarrow> 'c cluster \<Rightarrow> drop_task \<Rightarrow> 'w \<times> nat \<Rightarrow> 'w \<times> nat" where
  "drop_task C cl (n, bs, coll) s =
     (case client_of cl n of Some c \<Rightarrow> drop_colls C c bs [coll] s | None \<Rightarrow> s)"

text \<open>
  One step of the migration, or of a data operation. A migration that resumes after a crash may
  find the buckets \<open>F\<close> half moved; data operations stay away from those until they are done. A data operation is one step:
  that the code runs it under the gate, off the frozen buckets, keeps the migration apart from it, but not another
  operation on the same key. The clock of the world stands still during a migration, so no expiry passes in it; that a copied
  entry loses its time to live is a fact about the copy, not about the clock.
\<close>

inductive mig_step :: "('c, 'w, 'v) shard_client \<Rightarrow> 'v json \<Rightarrow> (u64 \<Rightarrow> bool) \<Rightarrow> node_id list \<Rightarrow> node_id list
    \<Rightarrow> actions \<Rightarrow> nat set \<Rightarrow> ('c, 'w, 'v) mig_state \<Rightarrow> ('c, 'w, 'v) mig_state \<Rightarrow> bool"
  for C J al old new acts F where
  freeze: "mg_phase s = Chunks (chunk # rest) \<Longrightarrow>
    mig_step C J al old new acts F s
      (s\<lparr>mg_phase := Copying chunk (copy_tasks (cl_colls (mg_cl s)) (chunk_pairs acts chunk)) rest\<rparr>)"
| copy: "mg_phase s = Copying chunk (task # todo) rest \<Longrightarrow>
    mig_step C J al old new acts F s
      (s\<lparr>mg_w := fst (copy_task C (mg_cl s) task (mg_w s, 0)), mg_phase := Copying chunk todo rest\<rparr>)"
| cut: "mg_phase s = Copying chunk [] rest \<Longrightarrow>
    mig_step C J al old new acts F s
      (s\<lparr>mg_cl := cutover chunk (mg_cl s),
         mg_phase := Dropping chunk (drop_tasks (cl_colls (mg_cl s)) (chunk_drops acts chunk)) rest\<rparr>)"
| drop: "mg_phase s = Dropping chunk (task # todo) rest \<Longrightarrow>
    mig_step C J al old new acts F s
      (s\<lparr>mg_w := fst (drop_task C (mg_cl s) task (mg_w s, 0)), mg_phase := Dropping chunk todo rest\<rparr>)"
| unfreeze: "mg_phase s = Dropping chunk [] rest \<Longrightarrow>
    mig_step C J al old new acts F s (s\<lparr>mg_phase := Saving chunk rest\<rparr>)"
| save: "mg_phase s = Saving chunk rest \<Longrightarrow>
    mig_step C J al old new acts F s
      (s\<lparr>mg_cl := save_record old new (mg_done s \<union> set chunk) (mg_cl s), mg_done := mg_done s \<union> set chunk,
         mg_phase := Chunks rest\<rparr>)"
| commit: "mg_phase s = Chunks [] \<Longrightarrow>
    mig_step C J al old new acts F s
      (s\<lparr>mg_cl := commit_membership new ((mg_cl s)\<lparr>cl_journal := journal_clear (cl_journal (mg_cl s))\<rparr>),
         mg_phase := Committing\<rparr>)"
| finish: "mg_phase s = Committing \<Longrightarrow>
    mig_step C J al old new acts F s (s\<lparr>mg_cl := (mg_cl s)\<lparr>cl_overlay := None\<rparr>, mg_phase := Committed\<rparr>)"
| data_op: "bucket_of (op_key oper) \<notin> frozen (mg_phase s) \<Longrightarrow>
    bucket_of (op_key oper) \<in> mg_done s \<or> bucket_of (op_key oper) \<notin> F \<Longrightarrow>
    op_coll oper \<in> set (cl_colls (mg_cl s)) \<Longrightarrow>
    mig_step C J al old new acts F s
      (s\<lparr>mg_w := op_run C J (mg_cl s) oper (mg_w s),
         mg_content := op_content J al (mg_cl s) oper (mg_content s)\<rparr>)"

inductive_cases mig_stepE: "mig_step C J al old new acts F s s'"

definition mig_start :: "node_id list \<Rightarrow> node_id list \<Rightarrow> actions \<Rightarrow> nat set \<Rightarrow> 'c cluster \<Rightarrow> 'w
    \<Rightarrow> (string \<Rightarrow> string \<Rightarrow> 'v option) \<Rightarrow> ('c, 'w, 'v) mig_state" where
  "mig_start old new acts done cl w content =
     \<lparr>mg_cl = save_record old new done (start_overlay old new done cl), mg_w = w, mg_content = content,
      mg_done = done, mg_phase = Chunks (chunks_of (cl_chunk cl) (sort (hm_keys acts)))\<rparr>"

text \<open>The code run to completion is a path of steps.\<close>

lemma copy_colls_tasks:
  assumes "client_of cl f = Some fc" and "client_of cl t = Some tc"
  shows "copy_colls C fc tc bs colls s = fold (\<lambda>coll. copy_task C cl ((f, t), bs, coll)) colls s"
  using assms by (induction colls arbitrary: s) (auto simp: Let_def split: prod.splits)

lemma copy_pairs_tasks: "copy_pairs C cl pairs s = fold (copy_task C cl) (copy_tasks (cl_colls cl) pairs) s"
proof (induction C cl pairs s rule: copy_pairs.induct)
  case (2 C cl f t bs ps s)
  have "fold (copy_task C cl) (map (\<lambda>coll. ((f, t), bs, coll)) (cl_colls cl)) s =
      fold (\<lambda>coll. copy_task C cl ((f, t), bs, coll)) (cl_colls cl) s"
    by (simp add: fold_map comp_def)
  moreover have "fold (\<lambda>coll. copy_task C cl ((f, t), bs, coll)) colls s = s"
    if "client_of cl f = None \<or> client_of cl t = None" for colls
    using that by (induction colls) (auto split: option.splits)
  ultimately show ?case
    using 2 by (simp add: copy_tasks_def copy_colls_tasks [of cl f _ t] split: option.split)
qed (simp add: copy_tasks_def)

lemma drop_colls_tasks:
  assumes "client_of cl n = Some c"
  shows "drop_colls C c bs colls s = fold (\<lambda>coll. drop_task C cl (n, bs, coll)) colls s"
  using assms by (induction colls arbitrary: s) (auto split: prod.splits)

lemma drop_nodes_tasks: "drop_nodes C cl drops s = fold (drop_task C cl) (drop_tasks (cl_colls cl) drops) s"
proof (induction C cl drops s rule: drop_nodes.induct)
  case (2 C cl n bs ds s)
  have "fold (drop_task C cl) (map (\<lambda>coll. (n, bs, coll)) (cl_colls cl)) s =
      fold (\<lambda>coll. drop_task C cl (n, bs, coll)) (cl_colls cl) s"
    by (simp add: fold_map comp_def)
  moreover have "fold (\<lambda>coll. drop_task C cl (n, bs, coll)) colls s = s" if "client_of cl n = None" for colls
    using that by (induction colls) auto
  ultimately show ?case
    using 2 by (simp add: drop_tasks_def drop_colls_tasks [of cl n] split: option.split)
qed (simp add: drop_tasks_def)

lemma copy_task_world: "fst (copy_task C cl task (w, n)) = fst (copy_task C cl task (w, 0))"
  by (cases task) (auto simp: Let_def split: option.splits prod.splits)

lemma drop_task_world: "fst (drop_task C cl task (w, n)) = fst (drop_task C cl task (w, 0))"
  by (cases task) (auto split: option.splits prod.splits)

lemma copy_path:
  "mg_phase s = Copying chunk todo rest \<Longrightarrow>
   (mig_step C J al old new acts F)\<^sup>*\<^sup>* s
     (s\<lparr>mg_w := fst (fold (copy_task C (mg_cl s)) todo (mg_w s, n)), mg_phase := Copying chunk [] rest\<rparr>)"
proof (induction todo arbitrary: s n)
  case Nil
  then have "s\<lparr>mg_w := fst (fold (copy_task C (mg_cl s)) [] (mg_w s, n)), mg_phase := Copying chunk [] rest\<rparr> = s"
    by (intro mig_state.equality) simp_all
  then show ?case by simp
next
  case (Cons task todo)
  let ?w = "fst (copy_task C (mg_cl s) task (mg_w s, 0))"
  let ?s = "s\<lparr>mg_w := ?w, mg_phase := Copying chunk todo rest\<rparr>"
  have step: "mig_step C J al old new acts F s ?s" by (rule mig_step.copy [OF Cons.prems])
  obtain n' where "copy_task C (mg_cl s) task (mg_w s, n) = (?w, n')"
    by (metis copy_task_world prod.collapse)
  with Cons.IH [of ?s n'] show ?case
    by (intro converse_rtranclp_into_rtranclp [where r = "mig_step C J al old new acts F", OF step]) simp
qed

lemma drop_path:
  "mg_phase s = Dropping chunk todo rest \<Longrightarrow>
   (mig_step C J al old new acts F)\<^sup>*\<^sup>* s
     (s\<lparr>mg_w := fst (fold (drop_task C (mg_cl s)) todo (mg_w s, n)), mg_phase := Dropping chunk [] rest\<rparr>)"
proof (induction todo arbitrary: s n)
  case Nil
  then have "s\<lparr>mg_w := fst (fold (drop_task C (mg_cl s)) [] (mg_w s, n)), mg_phase := Dropping chunk [] rest\<rparr> = s"
    by (intro mig_state.equality) simp_all
  then show ?case by simp
next
  case (Cons task todo)
  let ?w = "fst (drop_task C (mg_cl s) task (mg_w s, 0))"
  let ?s = "s\<lparr>mg_w := ?w, mg_phase := Dropping chunk todo rest\<rparr>"
  have step: "mig_step C J al old new acts F s ?s" by (rule mig_step.drop [OF Cons.prems])
  obtain n' where "drop_task C (mg_cl s) task (mg_w s, n) = (?w, n')"
    by (metis drop_task_world prod.collapse)
  with Cons.IH [of ?s n'] show ?case
    by (intro converse_rtranclp_into_rtranclp [where r = "mig_step C J al old new acts F", OF step]) simp
qed

lemma chunk_path:
  assumes "mg_phase s = Chunks (chunk # rest)"
    and "migrate_chunk C old new acts chunk (mg_cl s, mg_w s, mg_done s, cp, dr) = (cl', w', done', cp', dr')"
  shows "(mig_step C J al old new acts F)\<^sup>*\<^sup>* s
    (s\<lparr>mg_cl := cl', mg_w := w', mg_done := done', mg_phase := Chunks rest\<rparr>)"
proof -
  let ?R = "mig_step C J al old new acts F"
  let ?cts = "copy_tasks (cl_colls (mg_cl s)) (chunk_pairs acts chunk)"
  let ?w1 = "fst (fold (copy_task C (mg_cl s)) ?cts (mg_w s, cp))"
  let ?cl1 = "cutover chunk (mg_cl s)"
  let ?dts = "drop_tasks (cl_colls (mg_cl s)) (chunk_drops acts chunk)"
  let ?w2 = "fst (fold (drop_task C ?cl1) ?dts (?w1, dr))"
  have colls: "cl_colls ?cl1 = cl_colls (mg_cl s)" by (simp add: cutover_def)
  have res: "w' = ?w2" "done' = mg_done s \<union> set chunk" "cl' = save_record old new done' ?cl1"
    using assms(2) by (auto simp: migrate_chunk_def copy_pairs_tasks drop_nodes_tasks colls Let_def
        split: prod.splits)
  let ?s1 = "s\<lparr>mg_phase := Copying chunk ?cts rest\<rparr>"
  let ?s2 = "?s1\<lparr>mg_w := ?w1, mg_phase := Copying chunk [] rest\<rparr>"
  let ?s3 = "?s2\<lparr>mg_cl := ?cl1, mg_phase := Dropping chunk ?dts rest\<rparr>"
  let ?s4 = "?s3\<lparr>mg_w := ?w2, mg_phase := Dropping chunk [] rest\<rparr>"
  have p1: "?R\<^sup>*\<^sup>* s ?s1" by (intro r_into_rtranclp mig_step.freeze assms(1))
  have p2: "?R\<^sup>*\<^sup>* ?s1 ?s2" using copy_path [of ?s1 chunk ?cts rest C J al old new acts F cp] by simp
  have "?R ?s2 ?s3" using mig_step.cut [of ?s2 chunk rest C J al old new acts F] by simp
  then have p3: "?R\<^sup>*\<^sup>* ?s2 ?s3" by (rule r_into_rtranclp)
  have p4: "?R\<^sup>*\<^sup>* ?s3 ?s4" using drop_path [of ?s3 chunk ?dts rest C J al old new acts F dr] by simp
  let ?s5 = "?s4\<lparr>mg_phase := Saving chunk rest\<rparr>"
  have "?R ?s4 ?s5" using mig_step.unfreeze [of ?s4 chunk rest C J al old new acts F] by simp
  then have p4': "?R\<^sup>*\<^sup>* ?s4 ?s5" by (rule r_into_rtranclp)
  have "?R ?s5 (?s5\<lparr>mg_cl := cl', mg_done := done', mg_phase := Chunks rest\<rparr>)"
    using mig_step.save [of ?s5 chunk rest C J al old new acts F] by (simp add: res(2,3))
  moreover have "?s5\<lparr>mg_cl := cl', mg_done := done', mg_phase := Chunks rest\<rparr> =
      s\<lparr>mg_cl := cl', mg_w := w', mg_done := done', mg_phase := Chunks rest\<rparr>"
    by (rule mig_state.equality) (simp_all add: res(1))
  ultimately have p5: "?R\<^sup>*\<^sup>* ?s5 (s\<lparr>mg_cl := cl', mg_w := w', mg_done := done', mg_phase := Chunks rest\<rparr>)"
    by (metis r_into_rtranclp)
  note rtranclp_trans [OF p1 rtranclp_trans [OF p2 rtranclp_trans [OF p3 rtranclp_trans [OF p4 rtranclp_trans [OF p4' p5]]]]]
  then show ?thesis .
qed

lemma chunks_path:
  assumes "mg_phase s = Chunks chunks"
    and "run_chunks C old new acts stop_after i chunks (mg_cl s, mg_w s, mg_done s, cp, dr) =
      (fin, cl', w', done', cp', dr')"
  shows "\<exists>rest. (mig_step C J al old new acts F)\<^sup>*\<^sup>* s
      (s\<lparr>mg_cl := cl', mg_w := w', mg_done := done', mg_phase := Chunks rest\<rparr>) \<and> (fin \<longrightarrow> rest = [])"
  using assms
proof (induction chunks arbitrary: s i cp dr)
  case Nil
  then have "s\<lparr>mg_cl := cl', mg_w := w', mg_done := done', mg_phase := Chunks []\<rparr> = s" by simp
  then show ?case by (metis rtranclp.rtrancl_refl)
next
  case (Cons chunk chunks)
  show ?case
  proof (cases "case stop_after of Some mx \<Rightarrow> mx \<le> i | None \<Rightarrow> False")
    case True
    with Cons.prems have "s\<lparr>mg_cl := cl', mg_w := w', mg_done := done', mg_phase := Chunks (chunk # chunks)\<rparr> = s"
      "\<not> fin" by simp_all
    then show ?thesis by (metis rtranclp.rtrancl_refl)
  next
    case False
    obtain cl1 w1 done1 cp1 dr1 where mid:
      "migrate_chunk C old new acts chunk (mg_cl s, mg_w s, mg_done s, cp, dr) = (cl1, w1, done1, cp1, dr1)"
      by (metis prod.exhaust)
    let ?s1 = "s\<lparr>mg_cl := cl1, mg_w := w1, mg_done := done1, mg_phase := Chunks chunks\<rparr>"
    have path: "(mig_step C J al old new acts F)\<^sup>*\<^sup>* s ?s1" by (rule chunk_path [OF Cons.prems(1) mid])
    have "\<exists>rest. (mig_step C J al old new acts F)\<^sup>*\<^sup>* ?s1
        (?s1\<lparr>mg_cl := cl', mg_w := w', mg_done := done', mg_phase := Chunks rest\<rparr>) \<and> (fin \<longrightarrow> rest = [])"
      using Cons.IH [of ?s1 "i + 1" cp1 dr1] Cons.prems(2) False mid by simp
    then obtain rest where "(mig_step C J al old new acts F)\<^sup>*\<^sup>* ?s1
        (s\<lparr>mg_cl := cl', mg_w := w', mg_done := done', mg_phase := Chunks rest\<rparr>)" "fin \<longrightarrow> rest = []" by auto
    with rtranclp_trans [OF path] show ?thesis by blast
  qed
qed

text \<open>A migration that is not stopped early ends in the committed state.\<close>

lemma run_migration_path:
  assumes "\<not> same_members old new"
    and acts: "acts = migration_actions (plan_reshard old new (cl_replication_target cl) (cl_topology cl)) done"
    and run: "run_migration C old new done None cl w = (cl', w', summary)"
  shows "\<exists>s'. (mig_step C J al old new acts F)\<^sup>*\<^sup>* (mig_start old new acts done cl w content) s' \<and>
    mg_phase s' = Committed \<and> mg_cl s' = cl' \<and> mg_w s' = w' \<and> mg_content s' = content"
proof -
  let ?s = "mig_start old new acts done cl w content :: ('a, 'b, 'c) mig_state"
  let ?R = "mig_step C J al old new acts F"
  obtain fin cl1 w1 done1 cp dr where loop: "run_chunks C old new acts None 0
      (chunks_of (cl_chunk cl) (sort (hm_keys acts))) (mg_cl ?s, w, done, 0, 0) = (fin, cl1, w1, done1, cp, dr)"
    by (metis prod.exhaust)
  have all: "fst (run_chunks C old new acts None i chunks t) = True" for i chunks t
    by (induction chunks arbitrary: i t) auto
  then have fin: "fin" using loop by (metis fst_conv)
  have chunk: "cl_chunk (save_record old new done (start_overlay old new done cl)) = cl_chunk cl"
    by (simp add: save_record_def start_overlay_def Let_def)
  have res: "cl' = (commit_membership new (cl1\<lparr>cl_journal := journal_clear (cl_journal cl1)\<rparr>))\<lparr>cl_overlay := None\<rparr>"
    "w' = w1"
    using run loop assms(1) fin by (auto simp: run_migration_def Let_def mig_start_def chunk simp flip: acts)
  let ?s1 = "?s\<lparr>mg_cl := cl1, mg_w := w1, mg_done := done1, mg_phase := Chunks []\<rparr>"
  let ?cl2 = "commit_membership new (cl1\<lparr>cl_journal := journal_clear (cl_journal cl1)\<rparr>)"
  have p1: "?R\<^sup>*\<^sup>* ?s ?s1"
    using chunks_path [of ?s _ C old new acts None 0 0 0 fin cl1 w1 done1 cp dr J al F] loop fin
    by (auto simp: mig_start_def)
  have p2: "?R ?s1 (?s1\<lparr>mg_cl := ?cl2, mg_phase := Committing\<rparr>)"
    using mig_step.commit [of ?s1 C J al old new acts F] by simp
  have p3: "?R (?s1\<lparr>mg_cl := ?cl2, mg_phase := Committing\<rparr>) (?s1\<lparr>mg_cl := cl', mg_phase := Committed\<rparr>)"
    using mig_step.finish [of "?s1\<lparr>mg_cl := ?cl2, mg_phase := Committing\<rparr>" C J al old new acts F]
    by (simp add: res(1))
  have "?R\<^sup>*\<^sup>* ?s (?s1\<lparr>mg_cl := cl', mg_phase := Committed\<rparr>)"
    by (rule rtranclp.rtrancl_into_rtrancl [OF rtranclp.rtrancl_into_rtrancl [OF p1]], rule p2, rule p3)
  then show ?thesis by (intro exI conjI) (assumption, simp_all add: res(2) mig_start_def)
qed

subsection \<open>What a bucket's owners hold\<close>

text \<open>
  In bucket \<open>b\<close>, every live member holds at most the content; all of it in the collections where
  \<open>lo\<close> holds and nothing of it where \<open>hi\<close> does not.
\<close>

definition bucket_in :: "('c \<Rightarrow> 'a) \<Rightarrow> ('w \<Rightarrow> 'a \<Rightarrow> string \<Rightarrow> string \<Rightarrow> 'v option) \<Rightarrow> 'c cluster
    \<Rightarrow> (string \<Rightarrow> string \<Rightarrow> 'v option) \<Rightarrow> 'w \<Rightarrow> nat \<Rightarrow> (node_id \<Rightarrow> string \<Rightarrow> bool) \<Rightarrow> (node_id \<Rightarrow> string \<Rightarrow> bool)
    \<Rightarrow> bool" where
  "bucket_in addr peek cl content w b lo hi \<longleftrightarrow>
     (\<forall>n c coll k. client_of cl n = Some c \<longrightarrow> n \<notin> cl_down cl \<longrightarrow> coll \<in> set (cl_colls cl) \<longrightarrow> bucket_of k = b \<longrightarrow>
        (peek w (addr c) coll k = content coll k \<or> peek w (addr c) coll k = None) \<and>
        (lo n coll \<longrightarrow> peek w (addr c) coll k = content coll k) \<and>
        (\<not> hi n coll \<longrightarrow> peek w (addr c) coll k = None))"

lemma bucket_inD:
  assumes "bucket_in addr peek cl content w b lo hi" and "client_of cl n = Some c" and "n \<notin> cl_down cl"
    and "coll \<in> set (cl_colls cl)" and "bucket_of k = b"
  shows "peek w (addr c) coll k = content coll k \<or> peek w (addr c) coll k = None"
    and "lo n coll \<Longrightarrow> peek w (addr c) coll k = content coll k"
    and "\<not> hi n coll \<Longrightarrow> peek w (addr c) coll k = None"
  using assms(1) [unfolded bucket_in_def, rule_format, OF assms(2-5)] by simp_all

lemma bucket_in_mono:
  assumes "bucket_in addr peek cl content w b lo hi"
    and "\<And>n coll. coll \<in> set (cl_colls cl) \<Longrightarrow> lo' n coll \<Longrightarrow> lo n coll"
    and "\<And>n coll. coll \<in> set (cl_colls cl) \<Longrightarrow> hi n coll \<Longrightarrow> hi' n coll"
  shows "bucket_in addr peek cl content w b lo' hi'"
  using bucket_inD [OF assms(1)] assms(2,3) unfolding bucket_in_def by metis

lemma bucket_in_cluster:
  assumes "bucket_in addr peek cl content w b lo hi"
    and "\<And>n c. client_of cl' n = Some c \<Longrightarrow> n \<notin> cl_down cl' \<Longrightarrow> client_of cl n = Some c \<and> n \<notin> cl_down cl"
    and "cl_colls cl' = cl_colls cl"
  shows "bucket_in addr peek cl' content w b lo hi"
  using assms unfolding bucket_in_def by metis

lemma bucket_in_frame:
  assumes "bucket_in addr peek cl content w b lo hi"
    and "\<And>a c k. bucket_of k = b \<Longrightarrow> peek w' a c k = peek w a c k"
    and "\<And>c k. bucket_of k = b \<Longrightarrow> content' c k = content c k"
  shows "bucket_in addr peek cl content' w' b lo hi"
  using assms unfolding bucket_in_def by metis

text \<open>The members of \<open>X\<close> hold the bucket, the others nothing of it.\<close>

abbreviation held_by :: "('c \<Rightarrow> 'a) \<Rightarrow> ('w \<Rightarrow> 'a \<Rightarrow> string \<Rightarrow> string \<Rightarrow> 'v option) \<Rightarrow> 'c cluster
    \<Rightarrow> (string \<Rightarrow> string \<Rightarrow> 'v option) \<Rightarrow> 'w \<Rightarrow> nat \<Rightarrow> node_id set \<Rightarrow> bool" where
  "held_by addr peek cl content w b X \<equiv> bucket_in addr peek cl content w b (\<lambda>n coll. n \<in> X) (\<lambda>n coll. n \<in> X)"

lemma placed_held:
  assumes "\<And>k. k \<in> K \<Longrightarrow> held_by addr peek cl content w (bucket_of k) (set (owners cl k))"
  shows "placed addr peek K cl content w"
  using assms unfolding placed_def bucket_in_def by metis

lemma held_placed:
  assumes "placed addr peek K cl content w" and "\<And>k. bucket_of k = b \<Longrightarrow> k \<in> K \<and> set (owners cl k) = X"
  shows "held_by addr peek cl content w b X"
  using assms unfolding placed_def bucket_in_def by simp

context reliable_client
begin

lemma copy_task_effect:
  assumes "wok w" and "client_of cl f = Some fc" and "client_of cl t = Some tc"
    and w': "w' = fst (copy_task C cl ((f, t), bs, coll) (w, 0))"
  shows "wok w' \<and> alive w' = alive w \<and>
    peek w' = (\<lambda>a c k. if a = addr tc \<and> c = coll \<and> bucket_of k \<in> set bs \<and> peek w (addr fc) coll k \<noteq> None
      then peek w (addr fc) coll k else peek w a c k)"
proof -
  obtain es where ex: "sc_export_entries C fc coll bs w = (w, COk es)" and dist: "distinct (map fst es)"
    and es: "\<And>k. map_of es k = (if bucket_of k \<in> set bs then peek w (addr fc) coll k else None)"
    using export_entries [OF assms(1)] by (metis prod.collapse)
  show ?thesis
  proof (cases "es = []")
    case True
    then have "w' = w" using w' assms(2,3) ex by (simp add: ok_or_def)
    moreover have "peek w (addr fc) coll k = None" if "bucket_of k \<in> set bs" for k
      using es [of k] that True by simp
    ultimately show ?thesis using assms(1) by (auto simp: fun_eq_iff)
  next
    case False
    then have "w' = fst (sc_import_entries C tc coll es w)" using w' assms(2,3) ex by (simp add: ok_or_def)
    then obtain r where "sc_import_entries C tc coll es w = (w', r)" by (metis prod.collapse)
    from import_entries [OF assms(1) dist this] show ?thesis
      by (auto simp: es fun_eq_iff split: option.splits)
  qed
qed

lemma drop_task_effect:
  assumes "wok w" and "client_of cl n = Some c0" and w': "w' = fst (drop_task C cl (n, bs, coll) (w, 0))"
  shows "wok w' \<and> alive w' = alive w \<and>
    peek w' = (\<lambda>a c k. if a = addr c0 \<and> c = coll \<and> bucket_of k \<in> set bs then None else peek w a c k)"
proof -
  obtain r where "sc_drop_buckets C c0 coll bs w = (w', r)"
    using w' assms(2) by (cases "sc_drop_buckets C c0 coll bs w") simp
  from drop_buckets [OF assms(1) this] show ?thesis by simp
qed

lemma bucket_in_copy:
  assumes "wok w" and "addr_inj addr cl" and "client_of cl f = Some fc" and "f \<notin> cl_down cl"
    and "client_of cl t = Some tc" and "coll \<in> set (cl_colls cl)"
    and w': "w' = fst (copy_task C cl ((f, t), bs, coll) (w, 0))"
    and here: "bucket_in addr peek cl content w b lo hi" and "b \<in> set bs \<Longrightarrow> hi t coll"
  shows "bucket_in addr peek cl content w' b
    (\<lambda>n c. lo n c \<or> b \<in> set bs \<and> n = t \<and> c = coll \<and> lo f coll) hi"
proof -
  note eff = copy_task_effect [OF assms(1,3,5) w']
  have src: "peek w (addr fc) coll k = content coll k \<or> peek w (addr fc) coll k = None"
    "lo f coll \<Longrightarrow> peek w (addr fc) coll k = content coll k" if "bucket_of k = b" for k
    using bucket_inD [OF here assms(3,4,6) that] by simp_all
  show ?thesis
    unfolding bucket_in_def
  proof (intro allI impI)
    fix n c coll' k
    assume n: "client_of cl n = Some c" "n \<notin> cl_down cl" "coll' \<in> set (cl_colls cl)" and k: "bucket_of k = b"
    have at: "addr c = addr tc \<longleftrightarrow> n = t" using assms(2,5) n(1) by (auto simp: addr_inj_def)
    have old: "peek w (addr c) coll' k = content coll' k \<or> peek w (addr c) coll' k = None"
      "lo n coll' \<Longrightarrow> peek w (addr c) coll' k = content coll' k"
      "\<not> hi n coll' \<Longrightarrow> peek w (addr c) coll' k = None"
      using bucket_inD [OF here n k] by simp_all
    show "(peek w' (addr c) coll' k = content coll' k \<or> peek w' (addr c) coll' k = None) \<and>
      (lo n coll' \<or> b \<in> set bs \<and> n = t \<and> coll' = coll \<and> lo f coll \<longrightarrow> peek w' (addr c) coll' k = content coll' k) \<and>
      (\<not> hi n coll' \<longrightarrow> peek w' (addr c) coll' k = None)"
      using eff old src [OF k] at k assms(9) by auto
  qed
qed

lemma bucket_in_drop:
  assumes "wok w" and "addr_inj addr cl" and "client_of cl n0 = Some c0"
    and w': "w' = fst (drop_task C cl (n0, bs, coll) (w, 0))"
    and here: "bucket_in addr peek cl content w b lo hi"
  shows "bucket_in addr peek cl content w' b
    (\<lambda>n c. lo n c \<and> \<not> (b \<in> set bs \<and> n = n0 \<and> c = coll)) (\<lambda>n c. hi n c \<and> \<not> (b \<in> set bs \<and> n = n0 \<and> c = coll))"
proof -
  note eff = drop_task_effect [OF assms(1,3) w']
  show ?thesis
    unfolding bucket_in_def
  proof (intro allI impI)
    fix n c coll' k
    assume n: "client_of cl n = Some c" "n \<notin> cl_down cl" "coll' \<in> set (cl_colls cl)" and k: "bucket_of k = b"
    have at: "addr c = addr c0 \<longleftrightarrow> n = n0" using assms(2,3) n(1) by (auto simp: addr_inj_def)
    have old: "peek w (addr c) coll' k = content coll' k \<or> peek w (addr c) coll' k = None"
      "lo n coll' \<Longrightarrow> peek w (addr c) coll' k = content coll' k"
      "\<not> hi n coll' \<Longrightarrow> peek w (addr c) coll' k = None"
      using bucket_inD [OF here n k] by simp_all
    show "(peek w' (addr c) coll' k = content coll' k \<or> peek w' (addr c) coll' k = None) \<and>
      (lo n coll' \<and> \<not> (b \<in> set bs \<and> n = n0 \<and> coll' = coll) \<longrightarrow> peek w' (addr c) coll' k = content coll' k) \<and>
      (\<not> (hi n coll' \<and> \<not> (b \<in> set bs \<and> n = n0 \<and> coll' = coll)) \<longrightarrow> peek w' (addr c) coll' k = None)"
      using eff old at k by auto
  qed
qed

text \<open>A data operation, from outside: one key of the content changes, everywhere at once.\<close>

lemma op_placed:
  assumes "addr_inj addr cl" and "wok w" and "routing_ok cl" and "plc K cl content w"
    and "op_coll oper \<in> set (cl_colls cl)" and "op_key oper \<in> K"
    and w': "w' = op_run C J cl oper w"
  shows "wok w' \<and> alive w' = alive w \<and> (\<forall>a c k. k \<noteq> op_key oper \<longrightarrow> peek w' a c k = peek w a c k) \<and>
    plc K cl (op_content J (alive w) cl oper content) w'"
proof (cases oper)
  case (OpCas coll key expect new)
  show ?thesis
  proof (cases "served cl key")
    case True
    obtain ok where "(w', ok) = cluster_cas C cl coll key expect new w" using w' OpCas by (metis op_run.simps(6) prod.collapse)
    from cas_placed [OF assms(1-4) _ _ True this] assms(5,6) True show ?thesis
      by (cases ok) (simp_all add: OpCas op_content_def)
  next
    case False
    then have "w' = w" using w' served_nonempty [OF assms(3), of key] by (simp add: OpCas cluster_cas_def)
    with assms(2,4) False show ?thesis by (simp add: OpCas op_content_def upd_content_id)
  qed
next
  case (OpIncr coll key delta)
  show ?thesis
  proof (cases "served cl key")
    case True
    obtain res where "(w', res) = cluster_incr C J cl coll key delta w" using w' OpIncr by (metis op_run.simps(7) prod.collapse)
    from incr_placed [OF assms(1-4) _ _ True this] assms(5,6) True show ?thesis
      by (simp add: OpIncr op_content_def split: option.splits)
  next
    case False
    then have "w' = w" using w' served_nonempty [OF assms(3), of key] by (simp add: OpIncr cluster_incr_def)
    moreover have "op_content J (alive w) cl oper content = content"
      using False by (simp add: OpIncr op_content_def upd_content_id split: option.splits)
    ultimately show ?thesis using assms(2,4) by simp
  qed
qed (use data_ops_placed [OF assms(1-4)] w' in \<open>simp_all add: op_content_def\<close>)

end

end
