(* ===== verification/Online.thy ===== *)
theory Online
  imports Migration
begin

text \<open>
  Correctness of the online migration of theory \<open>Migration\<close>: the invariant of its steps, by which
  the content of the cluster survives every interleaving with data operations and a crash at any
  step, and the properties that follow for \<^verbatim>\<open>rebalance\<close>, \<^verbatim>\<open>drain\<close>, \<^verbatim>\<open>resume_migration\<close> and
  \<^verbatim>\<open>rebalance_partial\<close> of \<^verbatim>\<open>src/cluster.rs\<close>.
\<close>

subsection \<open>The invariant\<close>

text \<open>What a membership change asks of the cluster: the members are known and listed once.\<close>

definition change_ok :: "('c \<Rightarrow> 'a) \<Rightarrow> node_id list \<Rightarrow> node_id list \<Rightarrow> 'c cluster \<Rightarrow> bool" where
  "change_ok addr old new cl \<longleftrightarrow> distinct old \<and> distinct new \<and> old \<noteq> [] \<and>
     partitioner_ok (cl_partitioner cl) \<and> pt_topology (cl_partitioner cl) = cl_topology cl \<and>
     hm_ok (cl_clients cl) \<and> addr_inj addr cl \<and> 1 \<le> cl_chunk cl \<and>
     set old \<union> set new \<subseteq> set (hm_keys (cl_clients cl))"

text \<open>No copy of the plan is taken from a member that is marked down.\<close>

definition sources_up :: "node_id list \<Rightarrow> node_id list \<Rightarrow> 'c cluster \<Rightarrow> bool" where
  "sources_up old new cl \<longleftrightarrow>
     (\<forall>c \<in> set (rp_copies (plan_reshard old new (cl_replication_target cl) (cl_topology cl))).
        cp_from c \<notin> cl_down cl)"

text \<open>The owners of a bucket under the membership \<open>ms\<close>.\<close>

definition ring_owners :: "node_id list \<Rightarrow> 'c cluster \<Rightarrow> nat \<Rightarrow> node_id list" where
  "ring_owners ms cl b = plan_owners ms (cl_replication_target cl) (cl_topology cl) b"

definition before_commit :: "mig_phase \<Rightarrow> bool" where
  "before_commit ph \<longleftrightarrow> ph \<noteq> Committing \<and> ph \<noteq> Committed"

text \<open>
  A coordinator started over the same shards after a crash: it has the journal, and whatever
  membership, chunk size and replication it was started with. The journal has to be one that outlives the
  process and is given to \<^verbatim>\<open>with_journal\<close>. The only implementation of the trait in the sources, \<^verbatim>\<open>InMemoryJournal\<close>, does not, and \<^verbatim>\<open>stplrd\<close>
  neither sets another one nor calls \<^verbatim>\<open>resume_migration\<close>.
\<close>

definition restarted :: "'c cluster \<Rightarrow> 'c cluster \<Rightarrow> bool" where
  "restarted cl cl' \<longleftrightarrow> cluster_ok cl' \<and> cl_journal cl' = cl_journal cl \<and> cl_clients cl' = cl_clients cl \<and>
     cl_down cl' = cl_down cl \<and> cl_colls cl' = cl_colls cl \<and> cl_topology cl' = cl_topology cl"

text \<open>
  A stable cluster about to change to the members \<open>new\<close>, all of which it has clients for. No two
  current members collide under FNV-1a, so that their order does not matter.
\<close>

definition ready_to_change :: "node_id list \<Rightarrow> 'c cluster \<Rightarrow> bool" where
  "ready_to_change new cl \<longleftrightarrow> cluster_ok cl \<and> cl_overlay cl = None \<and> list_nodes (cl_partitioner cl) \<noteq> [] \<and>
     distinct new \<and> set new \<subseteq> set (hm_keys (cl_clients cl)) \<and>
     inj_on fnv1a (set (list_nodes (cl_partitioner cl))) \<and> sources_up (member_ids cl) new cl"

lemma make_partitioner_plan: "make_partitioner cl ms = plan_partitioner ms (cl_topology cl)"
  by (simp add: make_partitioner_def plan_partitioner_def)

lemma clamp_plan: "clamp r (length ms) = plan_replication r ms"
  by (simp add: clamp_def plan_replication_def)

definition mig_overlay :: "node_id list \<Rightarrow> node_id list \<Rightarrow> 'c cluster \<Rightarrow> nat set \<Rightarrow> overlay" where
  "mig_overlay old new cl M = \<lparr>ov_old_p = make_partitioner cl old, ov_r_old = clamp (cl_replication_target cl) (length old),
     ov_new_p = make_partitioner cl new, ov_r_new = clamp (cl_replication_target cl) (length new), ov_migrated = M\<rparr>"

lemma owners_overlay:
  "cl_overlay cl = Some (mig_overlay old new cl' M) \<Longrightarrow>
   owners cl k = (if bucket_of k \<in> M then ring_owners new cl' (bucket_of k) else ring_owners old cl' (bucket_of k))"
  by (simp add: owners_def mig_overlay_def Let_def ring_owners_def plan_owners_def make_partitioner_plan clamp_plan)

lemma routing_ok_overlay:
  assumes "change_ok addr old new cl" and "cl_overlay cl = Some (mig_overlay old new cl M)"
  shows "routing_ok cl"
  using assms(1) plan_owners_facts(1,2) [of old "bucket_of _"] plan_owners_facts(1,2) [of new "bucket_of _"]
  unfolding routing_ok_def owners_overlay [OF assms(2)] ring_owners_def change_ok_def
  by (auto simp: client_of_keys simp del: not_None_eq split: if_splits) blast+

text \<open>The routing of a committed membership is that of the plan.\<close>

lemma owners_committed:
  assumes "partitioner_ok (cl_partitioner cl)" and "cl_overlay cl = None"
    and "pt_topology (cl_partitioner cl) = cl_topology cl"
    and "cl_replication cl = clamp (cl_replication_target cl) (length (pt_nodes (cl_partitioner cl)))"
  shows "owners cl k = ring_owners (pt_nodes (cl_partitioner cl)) cl (bucket_of k)"
proof -
  let ?p = "cl_partitioner cl"
  have "plan_partitioner (pt_nodes ?p) (cl_topology cl) = ?p"
    using assms(1,3) by (intro partitioner.equality)
      (simp_all add: plan_partitioner_eq partitioner_ok_def)
  with assms(2,4) show ?thesis
    by (simp add: owners_def replica_set_owners ring_owners_def plan_owners_def clamp_plan)
qed

lemma hm_get_remove_fold: "hm_get (fold hm_remove ks m) n = (if n \<in> set ks then None else hm_get m n)"
  by (induction ks arbitrary: m) (auto simp: hm_get_remove)

lemma hm_ok_remove_fold: "hm_ok m \<Longrightarrow> hm_ok (fold hm_remove ks m)"
  by (induction ks arbitrary: m) (auto simp: hm_ok_remove)

lemma copy_tasks_iff: "(ft, bs, c) \<in> set (copy_tasks colls pairs) \<longleftrightarrow> (ft, bs) \<in> set pairs \<and> c \<in> set colls"
  unfolding copy_tasks_def by (induction pairs) auto

lemma drop_tasks_iff: "(n, bs, c) \<in> set (drop_tasks colls drops) \<longleftrightarrow> (n, bs) \<in> set drops \<and> c \<in> set colls"
  unfolding drop_tasks_def by (induction drops) auto

context reliable_client
begin

abbreviation held :: "'c cluster \<Rightarrow> (string \<Rightarrow> string \<Rightarrow> 'v option) \<Rightarrow> 'w \<Rightarrow> nat \<Rightarrow> node_id set \<Rightarrow> bool" where
  "held \<equiv> held_by addr peek"

definition loose :: "node_id set \<Rightarrow> node_id set \<Rightarrow> 'c cluster \<Rightarrow> (string \<Rightarrow> string \<Rightarrow> 'v option) \<Rightarrow> 'w \<Rightarrow> nat \<Rightarrow> bool" where
  "loose oo no cl content w b \<longleftrightarrow>
     (\<exists>lo. bucket_in addr peek cl content w b lo (\<lambda>n c. n \<in> oo \<union> no) \<and>
        ((\<forall>n \<in> oo. \<forall>c \<in> set (cl_colls cl). lo n c) \<or> (\<forall>n \<in> no. \<forall>c \<in> set (cl_colls cl). lo n c)))"

definition bucket_state :: "node_id set \<Rightarrow> node_id set \<Rightarrow> bool \<Rightarrow> bool \<Rightarrow> 'c cluster
    \<Rightarrow> (string \<Rightarrow> string \<Rightarrow> 'v option) \<Rightarrow> 'w \<Rightarrow> nat \<Rightarrow> bool" where
  "bucket_state oo no moved half cl content w b \<longleftrightarrow>
     (if moved then held cl content w b no
      else if half then loose oo no cl content w b else held cl content w b oo)"

definition copying :: "copy_task list \<Rightarrow> node_id list \<Rightarrow> node_id set \<Rightarrow> 'c cluster
    \<Rightarrow> (string \<Rightarrow> string \<Rightarrow> 'v option) \<Rightarrow> 'w \<Rightarrow> nat \<Rightarrow> bool" where
  "copying todo oo no cl content w b \<longleftrightarrow>
     (\<exists>lo. bucket_in addr peek cl content w b lo (\<lambda>n c. n \<in> set oo \<union> no) \<and>
        ((\<forall>n \<in> set oo. \<forall>c \<in> set (cl_colls cl). lo n c) \<and>
         (\<forall>n \<in> no - set oo. \<forall>c \<in> set (cl_colls cl).
            (\<forall>bs. b \<in> set bs \<longrightarrow> ((hd oo, n), bs, c) \<notin> set todo) \<longrightarrow> lo n c) \<or>
         (\<forall>n \<in> no. \<forall>c \<in> set (cl_colls cl). lo n c)))"

definition dropping :: "drop_task list \<Rightarrow> node_id set \<Rightarrow> 'c cluster
    \<Rightarrow> (string \<Rightarrow> string \<Rightarrow> 'v option) \<Rightarrow> 'w \<Rightarrow> nat \<Rightarrow> bool" where
  "dropping todo no cl content w b \<longleftrightarrow>
     (\<exists>hi. bucket_in addr peek cl content w b (\<lambda>n c. n \<in> no) hi \<and>
        (\<forall>n. \<forall>c \<in> set (cl_colls cl). hi n c \<longrightarrow> n \<in> no \<or> (\<exists>bs. b \<in> set bs \<and> (n, bs, c) \<in> set todo)))"

definition copy_todo_ok :: "(nat \<Rightarrow> node_id list) \<Rightarrow> (nat \<Rightarrow> node_id list) \<Rightarrow> 'c cluster \<Rightarrow> nat list \<Rightarrow> copy_task list \<Rightarrow> bool" where
  "copy_todo_ok oo no cl chunk todo \<longleftrightarrow>
     (\<forall>f t bs c. ((f, t), bs, c) \<in> set todo \<longrightarrow> c \<in> set (cl_colls cl) \<and> bs \<noteq> [] \<and>
        (\<forall>b \<in> set bs. b \<in> set chunk \<and> f = hd (oo b) \<and> t \<in> set (no b) - set (oo b)))"

definition drop_todo_ok :: "(nat \<Rightarrow> node_id list) \<Rightarrow> (nat \<Rightarrow> node_id list) \<Rightarrow> 'c cluster \<Rightarrow> nat list \<Rightarrow> drop_task list \<Rightarrow> bool" where
  "drop_todo_ok oo no cl chunk todo \<longleftrightarrow>
     (\<forall>n bs c. (n, bs, c) \<in> set todo \<longrightarrow> c \<in> set (cl_colls cl) \<and> bs \<noteq> [] \<and>
        (\<forall>b \<in> set bs. b \<in> set chunk \<and> n \<in> set (oo b) - set (no b)))"

text \<open>Before the commit: routing by the overlay with the buckets \<open>M\<close> cut over, the chunk \<open>cur\<close> in
  work and the buckets \<open>frz\<close> of it in transit.\<close>

definition underway :: "node_id list \<Rightarrow> node_id list \<Rightarrow> actions \<Rightarrow> nat set \<Rightarrow> ('c, 'w, 'v) mig_state
    \<Rightarrow> nat set \<Rightarrow> nat set \<Rightarrow> nat set \<Rightarrow> nat list list \<Rightarrow> bool" where
  "underway old new acts F s M cur frz rest \<longleftrightarrow>
     (let cl = mg_cl s; oo = ring_owners old cl; no = ring_owners new cl; todo = set (concat rest) in
      change_ok addr old new cl \<and> sources_up old new cl \<and>
      cl_overlay cl = Some (mig_overlay old new cl M) \<and>
      cl_journal cl = Some \<lparr>mr_old_nodes = old, mr_new_nodes = new, mr_replication = cl_replication_target cl,
        mr_done = sorted_list_of_set (mg_done s)\<rparr> \<and>
      finite (mg_done s) \<and> mg_done s \<subseteq> M \<and> M \<subseteq> mg_done s \<union> cur \<and>
      acts_ok oo no acts (cur \<union> todo) \<and> distinct (concat rest) \<and>
      cur \<inter> todo = {} \<and> mg_done s \<inter> (cur \<union> todo) = {} \<and>
      {b. b < NUM_BUCKETS \<and> set (oo b) \<noteq> set (no b)} \<subseteq> mg_done s \<union> cur \<union> todo \<and>
      (\<forall>b. b < NUM_BUCKETS \<longrightarrow> b \<notin> frz \<longrightarrow>
         bucket_state (set (oo b)) (set (no b)) (b \<in> M) (b \<in> F) cl (mg_content s) (mg_w s) b))"

text \<open>After the commit.\<close>

definition settled :: "node_id list \<Rightarrow> ('c, 'w, 'v) mig_state \<Rightarrow> bool" where
  "settled new s \<longleftrightarrow> cluster_ok (mg_cl s) \<and> addr_inj addr (mg_cl s) \<and> routing_ok (mg_cl s) \<and>
     pt_nodes (cl_partitioner (mg_cl s)) = new \<and> cl_journal (mg_cl s) = None \<and>
     plc UNIV (mg_cl s) (mg_content s) (mg_w s)"

definition mig_inv :: "(u64 \<Rightarrow> bool) \<Rightarrow> node_id list \<Rightarrow> node_id list \<Rightarrow> actions \<Rightarrow> nat set
    \<Rightarrow> ('c, 'w, 'v) mig_state \<Rightarrow> bool" where
  "mig_inv al old new acts F s \<longleftrightarrow> wok (mg_w s) \<and> alive (mg_w s) = al \<and>
     (let cl = mg_cl s; oo = ring_owners old cl; no = ring_owners new cl in
      case mg_phase s of
        Chunks rest \<Rightarrow> underway old new acts F s (mg_done s) {} {} rest
      | Copying chunk todo rest \<Rightarrow> underway old new acts F s (mg_done s) (set chunk) (set chunk) rest \<and>
          copy_todo_ok oo no cl chunk todo \<and>
          (\<forall>b \<in> set chunk. copying todo (oo b) (set (no b)) cl (mg_content s) (mg_w s) b)
      | Dropping chunk todo rest \<Rightarrow> underway old new acts F s (mg_done s \<union> set chunk) (set chunk) (set chunk) rest \<and>
          drop_todo_ok oo no cl chunk todo \<and>
          (\<forall>b \<in> set chunk. dropping todo (set (no b)) cl (mg_content s) (mg_w s) b)
      | Saving chunk rest \<Rightarrow> underway old new acts F s (mg_done s \<union> set chunk) (set chunk) {} rest
      | Committing \<Rightarrow> settled new s \<and>
          (\<forall>k. set (owners ((mg_cl s)\<lparr>cl_overlay := None\<rparr>) k) = set (owners (mg_cl s) k))
      | Committed \<Rightarrow> settled new s \<and> cl_overlay (mg_cl s) = None)"

lemma bucket_state_frame:
  assumes "bucket_state X Y m h cl content w b"
    and "\<And>lo hi. bucket_in addr peek cl content w b lo hi \<Longrightarrow> bucket_in addr peek cl content' w' b lo hi"
  shows "bucket_state X Y m h cl content' w' b"
  using assms unfolding bucket_state_def loose_def by (auto split: if_splits)

lemma same_view:
  assumes "cl_clients cl' = cl_clients cl" and "cl_down cl' = cl_down cl" and "cl_colls cl' = cl_colls cl"
    and "cl_replication_target cl' = cl_replication_target cl" and "cl_topology cl' = cl_topology cl"
    and "cl_partitioner cl' = cl_partitioner cl" and "cl_chunk cl' = cl_chunk cl"
  shows "bucket_in addr peek cl' = bucket_in addr peek cl" and "ring_owners ms cl' = ring_owners ms cl"
    and "change_ok addr old new cl' = change_ok addr old new cl" and "sources_up old new cl' = sources_up old new cl"
    and "mig_overlay old new cl' M = mig_overlay old new cl M"
    and "bucket_state X Y m h cl' = bucket_state X Y m h cl" and "client_of cl' = client_of cl"
  using assms
  by (simp_all add: bucket_in_def ring_owners_def change_ok_def sources_up_def mig_overlay_def loose_def
      bucket_state_def client_of_def addr_inj_def make_partitioner_plan fun_eq_iff)

lemma ring_facts:
  assumes "change_ok addr old new cl" and "b < NUM_BUCKETS"
  shows "ring_owners old cl b \<noteq> []"
    and "n \<in> set (ring_owners old cl b) \<union> set (ring_owners new cl b) \<Longrightarrow> \<exists>c. client_of cl n = Some c"
proof -
  have "distinct old" "distinct new" "old \<noteq> []" using assms(1) by (simp_all add: change_ok_def)
  note f = plan_owners_facts [OF this(1) assms(2)] plan_owners_facts [OF this(2) assms(2)] this(3)
  show "ring_owners old cl b \<noteq> []" using f(3) [OF f(9)] by (simp add: ring_owners_def)
  assume "n \<in> set (ring_owners old cl b) \<union> set (ring_owners new cl b)"
  then have "n \<in> set old \<union> set new" using f(2,6) unfolding ring_owners_def by blast
  then show "\<exists>c. client_of cl n = Some c"
    using assms(1) client_of_keys [of cl n] by (auto simp: change_ok_def)
qed

lemmas cut_view = same_view [of "cutover chunk cl" cl for chunk cl, simplified cutover_def, simplified, folded cutover_def]
lemmas save_view = same_view [of "save_record old new done cl" cl for old new "done" cl, simplified save_record_def,
    simplified, folded save_record_def]

lemma freeze_inv:
  assumes "mig_inv al old new acts F s" and ph: "mg_phase s = Chunks (chunk # rest)"
  shows "mig_inv al old new acts F
    (s\<lparr>mg_phase := Copying chunk (copy_tasks (cl_colls (mg_cl s)) (chunk_pairs acts chunk)) rest\<rparr>)"
proof -
  let ?cl = "mg_cl s" and ?w = "mg_w s" and ?ct = "mg_content s"
  let ?oo = "ring_owners old ?cl" and ?no = "ring_owners new ?cl"
  let ?todo = "copy_tasks (cl_colls ?cl) (chunk_pairs acts chunk)"
  have u: "underway old new acts F s (mg_done s) {} {} (chunk # rest)" and ok: "wok ?w" "alive ?w = al"
    using assms by (simp_all add: mig_inv_def Let_def)
  have acts: "acts_ok ?oo ?no acts (set chunk)"
    using u by (auto simp: underway_def Let_def intro: acts_ok_mono)
  have u': "underway old new acts F (s\<lparr>mg_phase := Copying chunk ?todo rest\<rparr>) (mg_done s) (set chunk) (set chunk) rest"
    using u by (auto simp: underway_def Let_def)
  have tasks: "copy_todo_ok ?oo ?no ?cl chunk ?todo"
    unfolding copy_todo_ok_def
  proof (intro allI impI)
    fix f t bs c assume "((f, t), bs, c) \<in> set ?todo"
    then have x: "((f, t), bs) \<in> set (chunk_pairs acts chunk)" and c: "c \<in> set (cl_colls ?cl)"
      using copy_tasks_iff by metis+
    have "bs \<noteq> []" using push_batches_nonempty [OF x [unfolded chunk_pairs_def]] by simp
    moreover have "b \<in> set chunk \<and> f = hd (?oo b) \<and> t \<in> set (?no b) - set (?oo b)" if "b \<in> set bs" for b
      using chunk_pairs_facts [OF x] that acts by (auto simp: acts_ok_def)
    ultimately show "c \<in> set (cl_colls ?cl) \<and> bs \<noteq> [] \<and>
        (\<forall>b \<in> set bs. b \<in> set chunk \<and> f = hd (?oo b) \<and> t \<in> set (?no b) - set (?oo b))"
      using c by blast
  qed
  have "copying ?todo (?oo b) (set (?no b)) ?cl ?ct ?w b" if b: "b \<in> set chunk" for b
  proof -
    have bN: "b < NUM_BUCKETS" and bd: "b \<notin> mg_done s" using u b acts by (auto simp: underway_def Let_def acts_ok_def)
    have "bucket_state (set (?oo b)) (set (?no b)) (b \<in> mg_done s) (b \<in> F) ?cl ?ct ?w b"
      using u bN by (simp add: underway_def Let_def)
    then have "bucket_state (set (?oo b)) (set (?no b)) False (b \<in> F) ?cl ?ct ?w b" using bd by simp
    then have "loose (set (?oo b)) (set (?no b)) ?cl ?ct ?w b"
    proof (cases "b \<in> F")
      case False
      assume "bucket_state (set (?oo b)) (set (?no b)) False (b \<in> F) ?cl ?ct ?w b"
      with False have "held ?cl ?ct ?w b (set (?oo b))" by (simp add: bucket_state_def)
      then have "bucket_in addr peek ?cl ?ct ?w b (\<lambda>n c. n \<in> set (?oo b)) (\<lambda>n c. n \<in> set (?oo b) \<union> set (?no b))"
        by (rule bucket_in_mono) simp_all
      then show ?thesis unfolding loose_def by blast
    qed (simp add: bucket_state_def)
    then obtain lo where lo: "bucket_in addr peek ?cl ?ct ?w b lo (\<lambda>n c. n \<in> set (?oo b) \<union> set (?no b))"
      "(\<forall>n \<in> set (?oo b). \<forall>c \<in> set (cl_colls ?cl). lo n c) \<or> (\<forall>n \<in> set (?no b). \<forall>c \<in> set (cl_colls ?cl). lo n c)"
      unfolding loose_def by blast
    have todo: "\<exists>bs. b \<in> set bs \<and> ((hd (?oo b), n), bs, c) \<in> set ?todo"
      if "n \<in> set (?no b) - set (?oo b)" "c \<in> set (cl_colls ?cl)" for n c
    proof -
      have "(hd (?oo b), n) \<in> set (fst (action_of acts b))" using acts b that(1) by (simp add: acts_ok_def)
      from chunk_pairs_cover [OF b this] obtain bs
        where "((hd (?oo b), n), bs) \<in> set (chunk_pairs acts chunk)" "b \<in> set bs" by blast
      then show ?thesis using copy_tasks_iff that(2) by metis
    qed
    show ?thesis unfolding copying_def by (rule exI [of _ lo]) (use lo todo in metis)
  qed
  with u' tasks ok show ?thesis by (simp add: mig_inv_def Let_def)
qed

lemma copy_inv:
  assumes "mig_inv al old new acts F s" and ph: "mg_phase s = Copying chunk (task # todo) rest"
  shows "mig_inv al old new acts F
    (s\<lparr>mg_w := fst (copy_task C (mg_cl s) task (mg_w s, 0)), mg_phase := Copying chunk todo rest\<rparr>)"
proof -
  let ?cl = "mg_cl s" and ?w = "mg_w s" and ?ct = "mg_content s"
  let ?oo = "ring_owners old ?cl" and ?no = "ring_owners new ?cl"
  have u: "underway old new acts F s (mg_done s) (set chunk) (set chunk) rest" and ok: "wok ?w" "alive ?w = al"
    and tasks: "copy_todo_ok ?oo ?no ?cl chunk (task # todo)"
    and cp: "\<And>b. b \<in> set chunk \<Longrightarrow> copying (task # todo) (?oo b) (set (?no b)) ?cl ?ct ?w b"
    using assms by (simp_all add: mig_inv_def Let_def)
  obtain f t bs c where task: "task = ((f, t), bs, c)" by (metis prod.exhaust)
  have c: "c \<in> set (cl_colls ?cl)" and bsN: "bs \<noteq> []"
    and bs: "\<And>b. b \<in> set bs \<Longrightarrow> b \<in> set chunk \<and> f = hd (?oo b) \<and> t \<in> set (?no b) - set (?oo b)"
    using tasks by (auto simp: copy_todo_ok_def task)
  have stat: "change_ok addr old new ?cl" "sources_up old new ?cl" "acts_ok ?oo ?no acts (set chunk)"
    using u by (auto simp: underway_def Let_def intro: acts_ok_mono)
  have b0: "hd bs \<in> set chunk" "f = hd (?oo (hd bs))" "t \<in> set (?no (hd bs)) - set (?oo (hd bs))"
    using bs [of "hd bs"] bsN by simp_all
  have b0N: "hd bs < NUM_BUCKETS" using b0(1) stat(3) by (simp add: acts_ok_def)
  note ooN = ring_facts(1) [OF stat(1)]
  obtain fc tc where cls: "client_of ?cl f = Some fc" "client_of ?cl t = Some tc"
    using ring_facts(2) [OF stat(1) b0N, of f] ring_facts(2) [OF stat(1) b0N, of t] b0 hd_in_set [OF ooN [OF b0N]]
    by auto
  have inj: "addr_inj addr ?cl" using stat(1) by (simp add: change_ok_def)
  have up: "f \<notin> cl_down ?cl"
  proof -
    have "\<lparr>cp_bucket = hd bs, cp_from = f, cp_to = t\<rparr> \<in>
        set (rp_copies (plan_reshard old new (cl_replication_target ?cl) (cl_topology ?cl)))"
      using b0 b0N ooN [OF b0N] stat(1)
      by (simp add: in_plan_copies in_bucket_copies old_plan_owners_def ring_owners_def change_ok_def)
    with stat(2) show ?thesis unfolding sources_up_def by force
  qed
  let ?w' = "fst (copy_task C ?cl task (?w, 0))"
  have eff: "wok ?w'" "alive ?w' = al" using copy_task_effect [OF ok(1) cls refl] ok by (simp_all add: task)
  note step = bucket_in_copy [OF ok(1) inj cls(1) up cls(2) c refl, where bs = bs, folded task]
  have out: "bucket_in addr peek ?cl ?ct ?w' b lo hi" if "bucket_in addr peek ?cl ?ct ?w b lo hi" "b \<notin> set chunk" for b lo hi
  proof -
    have "b \<notin> set bs" using bs that(2) by blast
    with step [OF that(1)] show ?thesis by simp
  qed
  have out_state: "bucket_state X Y m h ?cl ?ct ?w' b" if "bucket_state X Y m h ?cl ?ct ?w b" "b \<notin> set chunk" for X Y m h b
    by (rule bucket_state_frame [OF that(1) out [OF _ that(2)]])
  have "copying todo (?oo b) (set (?no b)) ?cl ?ct ?w' b" if b: "b \<in> set chunk" for b
  proof -
    have bN: "b < NUM_BUCKETS" using b stat(3) by (simp add: acts_ok_def)
    obtain lo where lo: "bucket_in addr peek ?cl ?ct ?w b lo (\<lambda>n c. n \<in> set (?oo b) \<union> set (?no b))"
      and progress: "(\<forall>n \<in> set (?oo b). \<forall>c \<in> set (cl_colls ?cl). lo n c) \<and>
         (\<forall>n \<in> set (?no b) - set (?oo b). \<forall>c \<in> set (cl_colls ?cl).
            (\<forall>bs. b \<in> set bs \<longrightarrow> ((hd (?oo b), n), bs, c) \<notin> set (task # todo)) \<longrightarrow> lo n c) \<or>
         (\<forall>n \<in> set (?no b). \<forall>c \<in> set (cl_colls ?cl). lo n c)"
      using cp [OF b] unfolding copying_def by blast
    let ?lo = "\<lambda>n c'. lo n c' \<or> b \<in> set bs \<and> n = t \<and> c' = c \<and> lo f c"
    have "bucket_in addr peek ?cl ?ct ?w' b ?lo (\<lambda>n c. n \<in> set (?oo b) \<union> set (?no b))"
      by (rule step [OF lo]) (use bs in blast)
    moreover have "?lo n c'"
      if all: "\<forall>n \<in> set (?oo b). \<forall>c \<in> set (cl_colls ?cl). lo n c"
        and old: "\<forall>n \<in> set (?no b) - set (?oo b). \<forall>c \<in> set (cl_colls ?cl).
            (\<forall>bs. b \<in> set bs \<longrightarrow> ((hd (?oo b), n), bs, c) \<notin> set (task # todo)) \<longrightarrow> lo n c"
        and n: "n \<in> set (?no b) - set (?oo b)" "c' \<in> set (cl_colls ?cl)"
        and gone: "\<forall>bs. b \<in> set bs \<longrightarrow> ((hd (?oo b), n), bs, c') \<notin> set todo" for n c'
    proof (cases "b \<in> set bs \<and> n = t \<and> c' = c")
      case True
      then have "f \<in> set (?oo b)" using bs ooN [OF bN] by auto
      with True all c show ?thesis by blast
    next
      case False
      then have "\<forall>bs. b \<in> set bs \<longrightarrow> ((hd (?oo b), n), bs, c') \<notin> set (task # todo)"
        using gone by (auto simp: task)
      with old n show ?thesis by blast
    qed
    ultimately show ?thesis
      unfolding copying_def using progress by (intro exI [of _ ?lo]) blast
  qed
  moreover have "underway old new acts F (s\<lparr>mg_w := ?w', mg_phase := Copying chunk todo rest\<rparr>) (mg_done s) (set chunk) (set chunk) rest"
    using u out_state by (simp add: underway_def Let_def)
  moreover have "copy_todo_ok ?oo ?no ?cl chunk todo" using tasks by (auto simp: copy_todo_ok_def)
  ultimately show ?thesis using eff by (simp add: mig_inv_def Let_def)
qed

lemma cutover_simps:
  "cl_colls (cutover chunk cl) = cl_colls cl" "cl_journal (cutover chunk cl) = cl_journal cl"
  "cl_replication_target (cutover chunk cl) = cl_replication_target cl"
  "cl_overlay cl = Some (mig_overlay old new cl M) \<Longrightarrow>
    cl_overlay (cutover chunk cl) = Some (mig_overlay old new cl (M \<union> set chunk))"
  by (simp_all add: cutover_def mig_overlay_def)

lemma save_record_simps:
  "cl_overlay (save_record old new d cl) = cl_overlay cl" "cl_colls (save_record old new d cl) = cl_colls cl"
  "cl_replication_target (save_record old new d cl) = cl_replication_target cl"
  "cl_journal (save_record old new d cl) = Some \<lparr>mr_old_nodes = old, mr_new_nodes = new,
     mr_replication = cl_replication_target cl, mr_done = sorted_list_of_set d\<rparr>"
  by (simp_all add: save_record_def journal_save_def)

lemma cut_inv:
  assumes "mig_inv al old new acts F s" and ph: "mg_phase s = Copying chunk [] rest"
  shows "mig_inv al old new acts F
    (s\<lparr>mg_cl := cutover chunk (mg_cl s),
       mg_phase := Dropping chunk (drop_tasks (cl_colls (mg_cl s)) (chunk_drops acts chunk)) rest\<rparr>)"
proof -
  let ?cl = "mg_cl s" and ?w = "mg_w s" and ?ct = "mg_content s"
  let ?oo = "ring_owners old ?cl" and ?no = "ring_owners new ?cl"
  let ?todo = "drop_tasks (cl_colls ?cl) (chunk_drops acts chunk)"
  have u: "underway old new acts F s (mg_done s) (set chunk) (set chunk) rest" and ok: "wok ?w" "alive ?w = al"
    and cp: "\<And>b. b \<in> set chunk \<Longrightarrow> copying [] (?oo b) (set (?no b)) ?cl ?ct ?w b"
    using assms by (simp_all add: mig_inv_def Let_def)
  have acts: "acts_ok ?oo ?no acts (set chunk)"
    using u by (auto simp: underway_def Let_def intro: acts_ok_mono)
  have "dropping ?todo (set (?no b)) ?cl ?ct ?w b" if b: "b \<in> set chunk" for b
  proof -
    obtain lo where lo: "bucket_in addr peek ?cl ?ct ?w b lo (\<lambda>n c. n \<in> set (?oo b) \<union> set (?no b))"
      and all: "\<forall>n \<in> set (?no b). \<forall>c \<in> set (cl_colls ?cl). lo n c"
      using cp [OF b] unfolding copying_def by auto
    have "bucket_in addr peek ?cl ?ct ?w b (\<lambda>n c. n \<in> set (?no b)) (\<lambda>n c. n \<in> set (?oo b) \<union> set (?no b))"
      by (rule bucket_in_mono [OF lo]) (use all in blast)+
    moreover have "\<exists>bs. b \<in> set bs \<and> (n, bs, c) \<in> set ?todo"
      if "n \<in> set (?oo b) - set (?no b)" "c \<in> set (cl_colls ?cl)" for n c
    proof -
      have "n \<in> set (snd (action_of acts b))" using acts b that(1) by (simp add: acts_ok_def)
      from chunk_drops_cover [OF b this] that(2) show ?thesis by (auto simp: drop_tasks_iff)
    qed
    ultimately show ?thesis unfolding dropping_def by blast
  qed
  moreover have "drop_todo_ok ?oo ?no ?cl chunk ?todo"
    unfolding drop_todo_ok_def
  proof (intro allI impI)
    fix n bs c assume "(n, bs, c) \<in> set ?todo"
    then have x: "(n, bs) \<in> set (chunk_drops acts chunk)" and c: "c \<in> set (cl_colls ?cl)"
      by (simp_all add: drop_tasks_iff)
    have "bs \<noteq> []" using push_batches_nonempty [OF x [unfolded chunk_drops_def]] by simp
    moreover have "b \<in> set chunk \<and> n \<in> set (?oo b) - set (?no b)" if "b \<in> set bs" for b
      using chunk_drops_facts [OF x] that acts by (auto simp: acts_ok_def)
    ultimately show "c \<in> set (cl_colls ?cl) \<and> bs \<noteq> [] \<and>
        (\<forall>b \<in> set bs. b \<in> set chunk \<and> n \<in> set (?oo b) - set (?no b))"
      using c by blast
  qed
  moreover have "underway old new acts F (s\<lparr>mg_cl := cutover chunk ?cl, mg_phase := Dropping chunk ?todo rest\<rparr>)
      (mg_done s \<union> set chunk) (set chunk) (set chunk) rest"
    using u by (auto simp: underway_def Let_def cut_view cutover_simps)
  ultimately show ?thesis
    using ok by (simp add: mig_inv_def Let_def cut_view cutover_simps dropping_def drop_todo_ok_def)
qed

lemma drop_inv:
  assumes "mig_inv al old new acts F s" and ph: "mg_phase s = Dropping chunk (task # todo) rest"
  shows "mig_inv al old new acts F
    (s\<lparr>mg_w := fst (drop_task C (mg_cl s) task (mg_w s, 0)), mg_phase := Dropping chunk todo rest\<rparr>)"
proof -
  let ?cl = "mg_cl s" and ?w = "mg_w s" and ?ct = "mg_content s"
  let ?oo = "ring_owners old ?cl" and ?no = "ring_owners new ?cl"
  have u: "underway old new acts F s (mg_done s \<union> set chunk) (set chunk) (set chunk) rest" and ok: "wok ?w" "alive ?w = al"
    and tasks: "drop_todo_ok ?oo ?no ?cl chunk (task # todo)"
    and dp: "\<And>b. b \<in> set chunk \<Longrightarrow> dropping (task # todo) (set (?no b)) ?cl ?ct ?w b"
    using assms by (simp_all add: mig_inv_def Let_def)
  obtain n0 bs c where task: "task = (n0, bs, c)" by (metis prod.exhaust)
  have c: "c \<in> set (cl_colls ?cl)" and bsN: "bs \<noteq> []"
    and bs: "\<And>b. b \<in> set bs \<Longrightarrow> b \<in> set chunk \<and> n0 \<in> set (?oo b) - set (?no b)"
    using tasks by (auto simp: drop_todo_ok_def task)
  have stat: "change_ok addr old new ?cl" "acts_ok ?oo ?no acts (set chunk)"
    using u by (auto simp: underway_def Let_def intro: acts_ok_mono)
  have b0: "hd bs \<in> set chunk" "n0 \<in> set (?oo (hd bs))" using bs [of "hd bs"] bsN by simp_all
  then have "hd bs < NUM_BUCKETS" using stat(2) by (simp add: acts_ok_def)
  then obtain c0 where c0: "client_of ?cl n0 = Some c0" using ring_facts(2) [OF stat(1)] b0(2) by blast
  have inj: "addr_inj addr ?cl" using stat(1) by (simp add: change_ok_def)
  let ?w' = "fst (drop_task C ?cl task (?w, 0))"
  have eff: "wok ?w'" "alive ?w' = al" using drop_task_effect [OF ok(1) c0 refl] ok by (simp_all add: task)
  note step = bucket_in_drop [OF ok(1) inj c0 refl, where bs = bs and coll = c, folded task]
  have out: "bucket_in addr peek ?cl ?ct ?w' b lo hi" if "bucket_in addr peek ?cl ?ct ?w b lo hi" "b \<notin> set chunk" for b lo hi
  proof -
    have "b \<notin> set bs" using bs that(2) by blast
    with step [OF that(1)] show ?thesis by simp
  qed
  have out_state: "bucket_state X Y m h ?cl ?ct ?w' b" if "bucket_state X Y m h ?cl ?ct ?w b" "b \<notin> set chunk" for X Y m h b
    by (rule bucket_state_frame [OF that(1) out [OF _ that(2)]])
  have "dropping todo (set (?no b)) ?cl ?ct ?w' b" if b: "b \<in> set chunk" for b
  proof -
    obtain hi where hi: "bucket_in addr peek ?cl ?ct ?w b (\<lambda>n c. n \<in> set (?no b)) hi"
      and left: "\<forall>n. \<forall>c \<in> set (cl_colls ?cl). hi n c \<longrightarrow> n \<in> set (?no b) \<or> (\<exists>bs. b \<in> set bs \<and> (n, bs, c) \<in> set (task # todo))"
      using dp [OF b] unfolding dropping_def by blast
    have "bucket_in addr peek ?cl ?ct ?w' b (\<lambda>n c. n \<in> set (?no b))
        (\<lambda>n c'. hi n c' \<and> \<not> (b \<in> set bs \<and> n = n0 \<and> c' = c))"
      by (rule bucket_in_mono [OF step [OF hi]]) (use bs in auto)
    moreover have "n \<in> set (?no b) \<or> (\<exists>bs. b \<in> set bs \<and> (n, bs, c') \<in> set todo)"
      if "c' \<in> set (cl_colls ?cl)" "hi n c' \<and> \<not> (b \<in> set bs \<and> n = n0 \<and> c' = c)" for n c'
      using left that by (auto simp: task)
    ultimately show ?thesis unfolding dropping_def by blast
  qed
  moreover have "underway old new acts F (s\<lparr>mg_w := ?w', mg_phase := Dropping chunk todo rest\<rparr>)
      (mg_done s \<union> set chunk) (set chunk) (set chunk) rest"
    using u out_state by (simp add: underway_def Let_def)
  moreover have "drop_todo_ok ?oo ?no ?cl chunk todo" using tasks by (auto simp: drop_todo_ok_def)
  ultimately show ?thesis using eff by (simp add: mig_inv_def Let_def)
qed

lemma unfreeze_inv:
  assumes "mig_inv al old new acts F s" and ph: "mg_phase s = Dropping chunk [] rest"
  shows "mig_inv al old new acts F (s\<lparr>mg_phase := Saving chunk rest\<rparr>)"
proof -
  let ?cl = "mg_cl s" and ?w = "mg_w s" and ?ct = "mg_content s" and ?M = "mg_done s \<union> set chunk"
  let ?oo = "ring_owners old ?cl" and ?no = "ring_owners new ?cl"
  have u: "underway old new acts F s ?M (set chunk) (set chunk) rest" and ok: "wok ?w" "alive ?w = al"
    and dp: "\<And>b. b \<in> set chunk \<Longrightarrow> dropping [] (set (?no b)) ?cl ?ct ?w b"
    using assms by (simp_all add: mig_inv_def Let_def)
  have "held ?cl ?ct ?w b (set (?no b))" if b: "b \<in> set chunk" for b
  proof -
    obtain hi where hi: "bucket_in addr peek ?cl ?ct ?w b (\<lambda>n c. n \<in> set (?no b)) hi"
      and none: "\<forall>n. \<forall>c \<in> set (cl_colls ?cl). hi n c \<longrightarrow> n \<in> set (?no b)"
      using dp [OF b] unfolding dropping_def by auto
    show ?thesis by (rule bucket_in_mono [OF hi]) (use none in auto)
  qed
  then have chunk_state: "bucket_state X (set (?no b)) True h ?cl ?ct ?w b" if "b \<in> set chunk" for X h b
    using that by (simp add: bucket_state_def)
  have all: "bucket_state (set (?oo b)) (set (?no b)) (b \<in> ?M) (b \<in> F) ?cl ?ct ?w b" if "b < NUM_BUCKETS" for b
    using u chunk_state [of b "set (?oo b)" "b \<in> F"] that by (cases "b \<in> set chunk") (simp_all add: underway_def Let_def)
  have "underway old new acts F (s\<lparr>mg_phase := Saving chunk rest\<rparr>) ?M (set chunk) {} rest"
    using u all by (simp add: underway_def Let_def)
  then show ?thesis using ok by (simp add: mig_inv_def Let_def)
qed

lemma save_inv:
  assumes "mig_inv al old new acts F s" and ph: "mg_phase s = Saving chunk rest"
  shows "mig_inv al old new acts F
    (s\<lparr>mg_cl := save_record old new (mg_done s \<union> set chunk) (mg_cl s), mg_done := mg_done s \<union> set chunk,
       mg_phase := Chunks rest\<rparr>)"
proof -
  let ?cl = "mg_cl s" and ?w = "mg_w s" and ?done = "mg_done s \<union> set chunk"
  let ?oo = "ring_owners old ?cl" and ?no = "ring_owners new ?cl"
  have u: "underway old new acts F s ?done (set chunk) {} rest" and ok: "wok ?w" "alive ?w = al"
    using assms by (simp_all add: mig_inv_def Let_def)
  have "underway old new acts F (s\<lparr>mg_cl := save_record old new ?done ?cl, mg_done := ?done, mg_phase := Chunks rest\<rparr>)
      ?done {} {} rest"
    using u acts_ok_mono [of ?oo ?no acts "set chunk \<union> set (concat rest)" "set (concat rest)"]
    by (simp add: underway_def Let_def save_view save_record_simps Int_Un_distrib Int_Un_distrib2 Un_ac)
  then show ?thesis using ok by (simp add: mig_inv_def Let_def)
qed

lemma commit_simps:
  assumes "cl' = commit_membership new (cl\<lparr>cl_journal := journal_clear (cl_journal cl)\<rparr>)"
  shows "client_of cl' n = (if n \<in> set new then client_of cl n else None)"
    and "n \<in> cl_down cl' \<longleftrightarrow> n \<in> cl_down cl \<and> (n \<in> set new \<or> client_of cl n = None)"
    and "cl_colls cl' = cl_colls cl" and "cl_overlay cl' = cl_overlay cl" and "cl_journal cl' = None"
    and "cl_topology cl' = cl_topology cl" and "cl_replication_target cl' = cl_replication_target cl"
    and "cl_chunk cl' = cl_chunk cl"
    and "cl_partitioner cl' = set_nodes (cl_partitioner cl) new"
    and "cl_replication cl' = clamp (cl_replication_target cl) (length new)"
    and "hm_ok (cl_clients cl) \<Longrightarrow> hm_ok (cl_clients cl')"
proof -
  let ?gone = "filter (\<lambda>k. k \<notin> set new) (hm_keys (cl_clients cl))"
  show "client_of cl' n = (if n \<in> set new then client_of cl n else None)"
    by (auto simp: assms commit_membership_def client_of_def hm_get_remove_fold Let_def map_of_eq_None_iff)
  show "n \<in> cl_down cl' \<longleftrightarrow> n \<in> cl_down cl \<and> (n \<in> set new \<or> client_of cl n = None)"
    by (auto simp: assms commit_membership_def client_of_def Let_def map_of_eq_None_iff)
  show "hm_ok (cl_clients cl) \<Longrightarrow> hm_ok (cl_clients cl')"
    by (simp add: assms commit_membership_def Let_def hm_ok_remove_fold)
qed (simp_all add: assms commit_membership_def Let_def journal_clear_def)

lemma commit_inv:
  assumes "mig_inv al old new acts F s" and ph: "mg_phase s = Chunks []"
  shows "mig_inv al old new acts F
    (s\<lparr>mg_cl := commit_membership new ((mg_cl s)\<lparr>cl_journal := journal_clear (cl_journal (mg_cl s))\<rparr>),
       mg_phase := Committing\<rparr>)"
proof -
  let ?cl = "mg_cl s" and ?w = "mg_w s" and ?ct = "mg_content s"
  let ?oo = "ring_owners old ?cl" and ?no = "ring_owners new ?cl"
  define cl' where "cl' = commit_membership new (?cl\<lparr>cl_journal := journal_clear (cl_journal ?cl)\<rparr>)"
  note cs = commit_simps [OF cl'_def]
  have u: "underway old new acts F s (mg_done s) {} {} []" and ok: "wok ?w" "alive ?w = al"
    using assms by (simp_all add: mig_inv_def Let_def)
  have stat: "change_ok addr old new ?cl" "cl_overlay ?cl = Some (mig_overlay old new ?cl (mg_done s))"
    and same: "\<And>b. b < NUM_BUCKETS \<Longrightarrow> b \<notin> mg_done s \<Longrightarrow> set (?oo b) = set (?no b)"
    and st: "\<And>b. b < NUM_BUCKETS \<Longrightarrow> bucket_state (set (?oo b)) (set (?no b)) (b \<in> mg_done s) (b \<in> F) ?cl ?ct ?w b"
    using u by (auto simp: underway_def Let_def)
  note co = stat(1) [unfolded change_ok_def]
  have held: "held ?cl ?ct ?w b (set (?no b))" if b: "b < NUM_BUCKETS" for b
  proof (cases "b \<in> mg_done s")
    case True
    then show ?thesis using st [OF b] by (simp add: bucket_state_def)
  next
    case False
    with same [OF b] st [OF b] have "b \<notin> F \<Longrightarrow> held ?cl ?ct ?w b (set (?no b))"
      and half: "b \<in> F \<Longrightarrow> loose (set (?no b)) (set (?no b)) ?cl ?ct ?w b" by (simp_all add: bucket_state_def)
    moreover have "held ?cl ?ct ?w b (set (?no b))" if F: "b \<in> F"
    proof -
      obtain lo where lo: "bucket_in addr peek ?cl ?ct ?w b lo (\<lambda>n c. n \<in> set (?no b) \<union> set (?no b))"
        "\<forall>n \<in> set (?no b). \<forall>c \<in> set (cl_colls ?cl). lo n c" using half [OF F] unfolding loose_def by blast
      show ?thesis by (rule bucket_in_mono [OF lo(1)]) (use lo(2) in auto)
    qed
    ultimately show ?thesis by blast
  qed
  have own: "set (owners ?cl k) = set (?no (bucket_of k))" for k
    using same [of "bucket_of k"] by (simp add: owners_overlay [OF stat(2)])
  have own': "owners cl' k = owners ?cl k" for k
    by (simp add: owners_def cs(4) stat(2))
  have "n \<in> set (hm_keys (cl_clients cl'))" if "n \<in> set new" for n
  proof -
    have "n \<in> fst ` set (cl_clients ?cl)" using co that by auto
    then have "client_of cl' n \<noteq> None" using client_of_keys [of ?cl n] that by (simp add: cs(1))
    then show ?thesis unfolding client_of_keys by simp
  qed
  then have okc: "cluster_ok cl'"
    using co cs(6-11) by (auto simp: cluster_ok_def partitioner_ok_set_nodes)
  have "owners (cl'\<lparr>cl_overlay := None\<rparr>) k = ring_owners new (cl'\<lparr>cl_overlay := None\<rparr>) (bucket_of k)" for k
    using owners_committed [of "cl'\<lparr>cl_overlay := None\<rparr>" k] okc by (simp add: cluster_ok_def cs)
  then have after: "set (owners (cl'\<lparr>cl_overlay := None\<rparr>) k) = set (owners cl' k)" for k
    using own own' by (simp add: ring_owners_def cs)
  have rt: "routing_ok ?cl" by (rule routing_ok_overlay [OF stat])
  have sub: "set (?no (bucket_of k)) \<subseteq> set new" for k
    using plan_owners_facts(2) [OF _ bucket_of_less] co by (simp add: ring_owners_def)
  have rt': "routing_ok cl'"
    unfolding routing_ok_def own'
  proof (intro allI conjI ballI)
    fix k n
    show "distinct (owners ?cl k)" using rt by (simp add: routing_ok_def)
    assume n: "n \<in> set (owners ?cl k)"
    with own sub have "n \<in> set new" by blast
    with n rt show "client_of cl' n \<noteq> None" by (simp add: cs(1) routing_ok_def)
  qed
  have "plc UNIV cl' ?ct ?w"
  proof (rule placed_held)
    fix k :: string
    have "held cl' ?ct ?w (bucket_of k) (set (?no (bucket_of k)))"
      by (rule bucket_in_cluster [OF held]) (auto simp: cs split: if_splits)
    then show "held cl' ?ct ?w (bucket_of k) (set (owners cl' k))" by (simp add: own own')
  qed
  moreover have "addr_inj addr cl'"
    using co unfolding addr_inj_def cs(1) by (metis option.distinct(1))
  ultimately show ?thesis
    using ok okc rt' after by (simp add: mig_inv_def Let_def settled_def cs flip: cl'_def)
qed

lemma finish_inv:
  assumes "mig_inv al old new acts F s" and ph: "mg_phase s = Committing"
  shows "mig_inv al old new acts F (s\<lparr>mg_cl := (mg_cl s)\<lparr>cl_overlay := None\<rparr>, mg_phase := Committed\<rparr>)"
proof -
  have "settled new s" and own: "\<And>k. set (owners ((mg_cl s)\<lparr>cl_overlay := None\<rparr>) k) = set (owners (mg_cl s) k)"
    and ok: "wok (mg_w s)" "alive (mg_w s) = al"
    using assms by (simp_all add: mig_inv_def Let_def)
  moreover have "routing_ok ((mg_cl s)\<lparr>cl_overlay := None\<rparr>)"
    by (rule routing_ok_stable) (use \<open>settled new s\<close> in \<open>auto simp: settled_def cluster_ok_def\<close>)
  ultimately show ?thesis
    by (auto simp: mig_inv_def Let_def settled_def cluster_ok_def placed_def addr_inj_def client_of_def)
qed

text \<open>A data operation on a key whose bucket is not in transit.\<close>

lemma data_op_bucket:
  assumes "addr_inj addr cl" and "wok w" and "routing_ok cl" and "op_coll oper \<in> set (cl_colls cl)"
    and b: "b = bucket_of (op_key oper)" and own: "\<forall>k. bucket_of k = b \<longrightarrow> set (owners cl k) = X"
    and held: "held cl content w b X"
    and w': "w' = op_run C J cl oper w" and content': "content' = op_content J (alive w) cl oper content"
  shows "wok w' \<and> alive w' = alive w \<and> held cl content' w' b X \<and>
    (\<forall>b' lo hi. b' \<noteq> b \<longrightarrow> bucket_in addr peek cl content w b' lo hi \<longrightarrow> bucket_in addr peek cl content' w' b' lo hi)"
proof -
  let ?K = "{k. bucket_of k = b}"
  have pl: "plc ?K cl content w" by (rule placed_held) (use held own in simp)
  note eff = op_placed [OF assms(1-3) pl assms(4) _ w']
  have key: "op_key oper \<in> ?K" by (simp add: b)
  have "held cl content' w' b X"
    by (rule held_placed [where K = ?K]) (use eff [OF key] own in \<open>simp_all add: content'\<close>)
  have ct: "content' c k = content c k" if "bucket_of k \<noteq> b" for c k
    using that by (auto simp: content' op_content_def upd_content_def b)
  have pk: "peek w' a c k = peek w a c k" if "bucket_of k \<noteq> b" for a c k
    using that eff [OF key] b by metis
  have "bucket_in addr peek cl content' w' b' lo hi"
    if "b' \<noteq> b" "bucket_in addr peek cl content w b' lo hi" for b' lo hi
    by (rule bucket_in_frame [OF that(2)]) (use that(1) ct pk in simp_all)
  with \<open>held cl content' w' b X\<close> eff [OF key] show ?thesis by simp
qed

lemma data_op_underway:
  assumes u: "underway old new acts F s M cur frz rest" and ok: "wok (mg_w s)" "alive (mg_w s) = al"
    and b: "bucket_of (op_key oper) \<notin> frz" and free: "bucket_of (op_key oper) \<in> mg_done s \<or> bucket_of (op_key oper) \<notin> F"
    and coll: "op_coll oper \<in> set (cl_colls (mg_cl s))"
    and w': "w' = op_run C J (mg_cl s) oper (mg_w s)" and content': "content' = op_content J al (mg_cl s) oper (mg_content s)"
  shows "wok w' \<and> alive w' = al \<and> underway old new acts F (s\<lparr>mg_w := w', mg_content := content'\<rparr>) M cur frz rest \<and>
    (\<forall>b \<in> frz. \<forall>lo hi. bucket_in addr peek (mg_cl s) (mg_content s) (mg_w s) b lo hi \<longrightarrow>
      bucket_in addr peek (mg_cl s) content' w' b lo hi)"
proof -
  let ?cl = "mg_cl s" and ?w = "mg_w s" and ?ct = "mg_content s" and ?b = "bucket_of (op_key oper)"
  let ?oo = "ring_owners old ?cl" and ?no = "ring_owners new ?cl"
  let ?X = "if ?b \<in> M then set (?no ?b) else set (?oo ?b)"
  have stat: "change_ok addr old new ?cl" "cl_overlay ?cl = Some (mig_overlay old new ?cl M)"
    "mg_done s \<subseteq> M" "M \<subseteq> mg_done s \<union> cur" using u by (simp_all add: underway_def Let_def)
  have st: "bucket_state (set (?oo b)) (set (?no b)) (b \<in> M) (b \<in> F) ?cl ?ct ?w b" if "b < NUM_BUCKETS" "b \<notin> frz" for b
    using u that by (simp add: underway_def Let_def)
  have held: "held ?cl ?ct ?w ?b ?X"
    using st [OF bucket_of_less b] free stat(3) by (auto simp: bucket_state_def)
  have own: "\<forall>k. bucket_of k = ?b \<longrightarrow> set (owners ?cl k) = ?X"
    by (simp add: owners_overlay [OF stat(2)])
  have inj: "addr_inj addr ?cl" using stat(1) by (simp add: change_ok_def)
  note op = data_op_bucket [OF inj ok(1) routing_ok_overlay [OF stat(1,2)] coll refl own held w' refl, unfolded ok(2), folded content']
  have out: "bucket_in addr peek ?cl content' w' b' lo hi"
    if "b' \<noteq> ?b" "bucket_in addr peek ?cl ?ct ?w b' lo hi" for b' lo hi
    using op that by simp
  have "bucket_state (set (?oo b)) (set (?no b)) (b \<in> M) (b \<in> F) ?cl content' w' b" if "b < NUM_BUCKETS" "b \<notin> frz" for b
  proof (cases "b = ?b")
    case True
    then show ?thesis using op free stat(3) by (auto simp: bucket_state_def)
  next
    case False
    show ?thesis by (rule bucket_state_frame [OF st [OF that] out [OF False]])
  qed
  then have "underway old new acts F (s\<lparr>mg_w := w', mg_content := content'\<rparr>) M cur frz rest"
    using u by (simp add: underway_def Let_def)
  moreover have "bucket_in addr peek ?cl content' w' b' lo hi"
    if "b' \<in> frz" "bucket_in addr peek ?cl ?ct ?w b' lo hi" for b' lo hi
    by (rule out [OF _ that(2)]) (use that(1) b in blast)
  ultimately show ?thesis using op by simp
qed

lemma copying_frame:
  assumes "copying todo X Y cl content w b"
    and "\<And>lo hi. bucket_in addr peek cl content w b lo hi \<Longrightarrow> bucket_in addr peek cl content' w' b lo hi"
  shows "copying todo X Y cl content' w' b"
proof -
  let ?colls = "set (cl_colls cl)"
  let ?P = "\<lambda>lo. (\<forall>n \<in> set X. \<forall>c \<in> ?colls. lo n c) \<and> (\<forall>n \<in> Y - set X. \<forall>c \<in> ?colls.
      (\<forall>bs. b \<in> set bs \<longrightarrow> ((hd X, n), bs, c) \<notin> set todo) \<longrightarrow> lo n c) \<or> (\<forall>n \<in> Y. \<forall>c \<in> ?colls. lo n c)"
  obtain lo where "bucket_in addr peek cl content w b lo (\<lambda>n c. n \<in> set X \<union> Y)" "?P lo"
    using assms(1) unfolding copying_def by (elim exE conjE)
  with assms(2) [of lo] show ?thesis unfolding copying_def by (intro exI [of _ lo] conjI)
qed

lemma dropping_frame:
  assumes "dropping todo Y cl content w b"
    and "\<And>lo hi. bucket_in addr peek cl content w b lo hi \<Longrightarrow> bucket_in addr peek cl content' w' b lo hi"
  shows "dropping todo Y cl content' w' b"
proof -
  let ?P = "\<lambda>hi. \<forall>n. \<forall>c \<in> set (cl_colls cl). hi n c \<longrightarrow> n \<in> Y \<or> (\<exists>bs. b \<in> set bs \<and> (n, bs, c) \<in> set todo)"
  obtain hi where "bucket_in addr peek cl content w b (\<lambda>n c. n \<in> Y) hi" "?P hi"
    using assms(1) unfolding dropping_def by (elim exE conjE)
  with assms(2) show ?thesis unfolding dropping_def by (intro exI [of _ hi] conjI)
qed

lemma data_op_inv:
  assumes inv: "mig_inv al old new acts F s" and b: "bucket_of (op_key oper) \<notin> frozen (mg_phase s)"
    and free: "bucket_of (op_key oper) \<in> mg_done s \<or> bucket_of (op_key oper) \<notin> F"
    and coll: "op_coll oper \<in> set (cl_colls (mg_cl s))"
  shows "mig_inv al old new acts F
    (s\<lparr>mg_w := op_run C J (mg_cl s) oper (mg_w s), mg_content := op_content J al (mg_cl s) oper (mg_content s)\<rparr>)"
proof -
  have ok: "wok (mg_w s)" "alive (mg_w s) = al" using inv by (simp_all add: mig_inv_def Let_def)
  note und = data_op_underway [OF _ ok _ free coll refl refl]
  show ?thesis
  proof (cases "mg_phase s")
    case (Chunks rest)
    with inv und [of old new acts "mg_done s" "{}" "{}" rest] show ?thesis by (simp add: mig_inv_def Let_def)
  next
    case (Saving chunk rest)
    with inv und [of old new acts "mg_done s \<union> set chunk" "set chunk" "{}" rest] show ?thesis
      by (simp add: mig_inv_def Let_def)
  next
    case (Copying chunk todo rest)
    with inv b have u: "underway old new acts F s (mg_done s) (set chunk) (set chunk) rest" "bucket_of (op_key oper) \<notin> set chunk"
      by (simp_all add: mig_inv_def Let_def)
    with und [OF u] inv Copying copying_frame show ?thesis by (simp add: mig_inv_def Let_def) metis
  next
    case (Dropping chunk todo rest)
    with inv b have u: "underway old new acts F s (mg_done s \<union> set chunk) (set chunk) (set chunk) rest" "bucket_of (op_key oper) \<notin> set chunk"
      by (simp_all add: mig_inv_def Let_def)
    with und [OF u] inv Dropping dropping_frame show ?thesis by (simp add: mig_inv_def Let_def) metis
  next
    case Committing
    with inv have "settled new s" by (simp add: mig_inv_def Let_def)
    with op_placed [of "mg_cl s" "mg_w s" UNIV "mg_content s" oper, OF _ ok(1) _ _ coll _ refl] ok inv Committing
    show ?thesis by (simp add: mig_inv_def Let_def settled_def)
  next
    case Committed
    with inv have "settled new s" by (simp add: mig_inv_def Let_def)
    with op_placed [of "mg_cl s" "mg_w s" UNIV "mg_content s" oper, OF _ ok(1) _ _ coll _ refl] ok inv Committed
    show ?thesis by (simp add: mig_inv_def Let_def settled_def)
  qed
qed

text \<open>The invariant of every interleaving.\<close>

lemma mig_step_inv:
  assumes "mig_step C J al old new acts F s s'" and "mig_inv al old new acts F s"
  shows "mig_inv al old new acts F s'"
  using assms
proof (induction rule: mig_step.induct)
  case (freeze s chunk rest) then show ?case by (intro freeze_inv)
next
  case (copy s chunk task todo rest) then show ?case by (intro copy_inv)
next
  case (cut s chunk rest) then show ?case by (intro cut_inv)
next
  case (drop s chunk task todo rest) then show ?case by (intro drop_inv)
next
  case (unfreeze s chunk rest) then show ?case by (intro unfreeze_inv)
next
  case (save s chunk rest) then show ?case by (intro save_inv)
next
  case (commit s) then show ?case by (intro commit_inv)
next
  case (finish s) then show ?case by (intro finish_inv)
next
  case (data_op oper s) then show ?case by (intro data_op_inv)
qed

lemma mig_steps_inv:
  assumes "(mig_step C J al old new acts F)\<^sup>*\<^sup>* s s'" and "mig_inv al old new acts F s"
  shows "mig_inv al old new acts F s'"
  using assms by (induction rule: rtranclp_induct) (auto intro: mig_step_inv)

lemma start_inv:
  assumes co: "change_ok addr old new cl" and up: "sources_up old new cl" and ok: "wok w" "alive w = al"
    and fin: "finite done"
    and acts: "acts = migration_actions (plan_reshard old new (cl_replication_target cl) (cl_topology cl)) done"
    and st: "\<And>b. b < NUM_BUCKETS \<Longrightarrow> bucket_state (set (ring_owners old cl b)) (set (ring_owners new cl b))
      (b \<in> done) (b \<in> F) cl content w b"
  shows "mig_inv al old new acts F (mig_start old new acts done cl w content)"
proof -
  let ?cl = "save_record old new done (start_overlay old new done cl)"
  have view: "cl_clients ?cl = cl_clients cl" "cl_down ?cl = cl_down cl" "cl_colls ?cl = cl_colls cl"
    "cl_replication_target ?cl = cl_replication_target cl" "cl_topology ?cl = cl_topology cl"
    "cl_partitioner ?cl = cl_partitioner cl" "cl_chunk ?cl = cl_chunk cl"
    by (simp_all add: save_record_def start_overlay_def Let_def)
  note same = same_view [OF view]
  have ov: "cl_overlay ?cl = Some (mig_overlay old new cl done)"
    by (simp add: save_record_simps) (simp add: start_overlay_def mig_overlay_def Let_def)
  have "distinct old" "old \<noteq> []" "1 \<le> cl_chunk cl" using co by (simp_all add: change_ok_def)
  note af = migration_actions_facts [OF this(1,2) acts]
  have todo: "concat (chunks_of (cl_chunk cl) (sort (hm_keys acts))) = sort (hm_keys acts)"
    by (rule concat_chunks_of) fact
  have oo: "ring_owners ms cl = plan_owners ms (cl_replication_target cl) (cl_topology cl)" for ms
    by (simp add: ring_owners_def fun_eq_iff)
  have jr: "cl_journal ?cl = Some \<lparr>mr_old_nodes = old, mr_new_nodes = new,
      mr_replication = cl_replication_target cl, mr_done = sorted_list_of_set done\<rparr>"
    by (simp add: save_record_simps) (simp add: start_overlay_def Let_def)
  have "underway old new acts F (mig_start old new acts done cl w content) done {} {}
      (chunks_of (cl_chunk cl) (sort (hm_keys acts)))"
    unfolding underway_def Let_def mig_start_def mig_state.simps same todo view ov jr
    using co up fin st af by (simp add: oo) auto
  then show ?thesis using ok by (simp add: mig_inv_def Let_def mig_start_def)
qed

text \<open>What the invariant says of reads, of the end, and of the state a crash leaves.\<close>

lemma inv_reads:
  assumes inv: "mig_inv al old new acts F s" and b: "bucket_of key \<notin> frozen (mg_phase s)"
    and free: "bucket_of key \<in> mg_done s \<or> bucket_of key \<notin> F"
    and coll: "coll \<in> set (cl_colls (mg_cl s))" and served: "served (mg_cl s) key"
  shows "cluster_get C (mg_cl s) coll key (mg_w s) = (mg_w s, mg_content s coll key)"
proof -
  let ?cl = "mg_cl s" and ?b = "bucket_of key"
  have ok: "wok (mg_w s)" using inv by (simp add: mig_inv_def Let_def)
  have und: "plc {key} ?cl (mg_content s) (mg_w s)"
    if u: "underway old new acts F s M cur frz rest" and "?b \<notin> frz" for M cur frz rest
  proof (rule placed_held)
    fix k assume "k \<in> {key}"
    then have k: "k = key" by simp
    have ov: "cl_overlay ?cl = Some (mig_overlay old new ?cl M)" and "mg_done s \<subseteq> M"
      and st: "bucket_state (set (ring_owners old ?cl ?b)) (set (ring_owners new ?cl ?b)) (?b \<in> M) (?b \<in> F)
        ?cl (mg_content s) (mg_w s) ?b"
      using u that(2) by (simp_all add: underway_def Let_def)
    with free show "held ?cl (mg_content s) (mg_w s) (bucket_of k) (set (owners ?cl k))"
      unfolding k by (auto simp: owners_overlay [OF ov] bucket_state_def)
  qed
  have "plc {key} ?cl (mg_content s) (mg_w s)"
  proof (cases "mg_phase s")
    case (Chunks rest)
    with inv have "underway old new acts F s (mg_done s) {} {} rest" by (simp add: mig_inv_def Let_def)
    from und [OF this] show ?thesis by simp
  next
    case (Copying chunk todo rest)
    with inv have "underway old new acts F s (mg_done s) (set chunk) (set chunk) rest" by (simp add: mig_inv_def Let_def)
    from und [OF this] b Copying show ?thesis by simp
  next
    case (Dropping chunk todo rest)
    with inv have "underway old new acts F s (mg_done s \<union> set chunk) (set chunk) (set chunk) rest" by (simp add: mig_inv_def Let_def)
    from und [OF this] b Dropping show ?thesis by simp
  next
    case (Saving chunk rest)
    with inv have "underway old new acts F s (mg_done s \<union> set chunk) (set chunk) {} rest" by (simp add: mig_inv_def Let_def)
    from und [OF this] show ?thesis by simp
  qed (use inv in \<open>simp_all add: mig_inv_def Let_def settled_def placed_def\<close>)
  from get_placed [OF ok this coll _ served] show ?thesis by simp
qed

lemma inv_crash:
  assumes inv: "mig_inv al old new acts F s" and ph: "before_commit (mg_phase s)" and "F = {}"
  shows "\<exists>M cur frz rest. underway old new acts F s M cur frz rest"
    and "b < NUM_BUCKETS \<Longrightarrow> bucket_state (set (ring_owners old (mg_cl s) b)) (set (ring_owners new (mg_cl s) b))
      (b \<in> mg_done s) True (mg_cl s) (mg_content s) (mg_w s) b"
proof -
  let ?cl = "mg_cl s" and ?w = "mg_w s" and ?ct = "mg_content s"
  let ?oo = "ring_owners old ?cl" and ?no = "ring_owners new ?cl"
  have held_loose: "loose (set (?oo b)) (set (?no b)) ?cl ?ct ?w b"
    if "held ?cl ?ct ?w b (set (?oo b))" for b
  proof -
    have "bucket_in addr peek ?cl ?ct ?w b (\<lambda>n c. n \<in> set (?oo b)) (\<lambda>n c. n \<in> set (?oo b) \<union> set (?no b))"
      by (rule bucket_in_mono [OF that]) simp_all
    then show ?thesis unfolding loose_def by (intro exI conjI) (assumption, simp)
  qed
  have held_loose': "loose (set (?oo b)) (set (?no b)) ?cl ?ct ?w b"
    if "held ?cl ?ct ?w b (set (?no b))" for b
  proof -
    have "bucket_in addr peek ?cl ?ct ?w b (\<lambda>n c. n \<in> set (?no b)) (\<lambda>n c. n \<in> set (?oo b) \<union> set (?no b))"
      by (rule bucket_in_mono [OF that]) simp_all
    then show ?thesis unfolding loose_def by (intro exI conjI) (assumption, simp)
  qed
  have out: "bucket_state (set (?oo b)) (set (?no b)) (b \<in> mg_done s) True ?cl ?ct ?w b"
    if u: "underway old new acts F s M cur frz rest" and "b < NUM_BUCKETS" "b \<notin> frz" for M cur frz rest b
  proof -
    have "b \<in> mg_done s \<longrightarrow> b \<in> M" "bucket_state (set (?oo b)) (set (?no b)) (b \<in> M) (b \<in> F) ?cl ?ct ?w b"
      using that by (auto simp: underway_def Let_def)
    then show ?thesis using held_loose held_loose' \<open>F = {}\<close> by (auto simp: bucket_state_def split: if_splits)
  qed
  have cur: "bucket_state (set (?oo b)) (set (?no b)) (b \<in> mg_done s) True ?cl ?ct ?w b"
    if u: "underway old new acts F s M cur frz rest" and "b \<in> cur" and l: "loose (set (?oo b)) (set (?no b)) ?cl ?ct ?w b"
    for M cur frz rest b
  proof -
    have "b \<notin> mg_done s" using that(1,2) by (auto simp: underway_def Let_def)
    with l show ?thesis by (simp add: bucket_state_def)
  qed
  have copy_loose: "loose (set (?oo b)) (set (?no b)) ?cl ?ct ?w b"
    if cp: "copying todo (?oo b) (set (?no b)) ?cl ?ct ?w b" for todo b
  proof -
    obtain lo where "bucket_in addr peek ?cl ?ct ?w b lo (\<lambda>n c. n \<in> set (?oo b) \<union> set (?no b))"
      "(\<forall>n \<in> set (?oo b). \<forall>c \<in> set (cl_colls ?cl). lo n c) \<or> (\<forall>n \<in> set (?no b). \<forall>c \<in> set (cl_colls ?cl). lo n c)"
      using cp unfolding copying_def by (elim exE conjE disjE) simp_all
    then show ?thesis unfolding loose_def by (intro exI [of _ lo] conjI)
  qed
  have drop_loose: "loose (set (?oo b)) (set (?no b)) ?cl ?ct ?w b"
    if d: "dropping todo (set (?no b)) ?cl ?ct ?w b" and t: "drop_todo_ok ?oo ?no ?cl chunk todo" for todo b chunk
  proof -
    obtain hi where hi: "bucket_in addr peek ?cl ?ct ?w b (\<lambda>n c. n \<in> set (?no b)) hi"
      and left: "\<forall>n. \<forall>c \<in> set (cl_colls ?cl). hi n c \<longrightarrow> n \<in> set (?no b) \<or> (\<exists>bs. b \<in> set bs \<and> (n, bs, c) \<in> set todo)"
      using d unfolding dropping_def by (elim exE conjE)
    have "bucket_in addr peek ?cl ?ct ?w b (\<lambda>n c. n \<in> set (?no b)) (\<lambda>n c. n \<in> set (?oo b) \<union> set (?no b))"
    proof (rule bucket_in_mono [OF hi])
      fix n c assume "c \<in> set (cl_colls ?cl)" "hi n c"
      with left t show "n \<in> set (?oo b) \<union> set (?no b)" unfolding drop_todo_ok_def by blast
    qed
    then show ?thesis unfolding loose_def by (intro exI conjI) (assumption, simp)
  qed
  have "(\<exists>M cur frz rest. underway old new acts F s M cur frz rest) \<and> (b < NUM_BUCKETS \<longrightarrow>
      bucket_state (set (?oo b)) (set (?no b)) (b \<in> mg_done s) True ?cl ?ct ?w b)" for b
  proof (cases "mg_phase s")
    case (Chunks rest)
    with inv have u: "underway old new acts F s (mg_done s) {} {} rest" by (simp add: mig_inv_def Let_def)
    then show ?thesis using out [OF u] by auto
  next
    case (Copying chunk todo rest)
    with inv have u: "underway old new acts F s (mg_done s) (set chunk) (set chunk) rest"
      and c: "\<forall>b \<in> set chunk. copying todo (?oo b) (set (?no b)) ?cl ?ct ?w b" by (simp_all add: mig_inv_def Let_def)
    show ?thesis
    proof (cases "b \<in> set chunk")
      case True
      then show ?thesis using cur [OF u True] copy_loose c u by blast
    qed (use out [OF u] u in blast)
  next
    case (Dropping chunk todo rest)
    with inv have u: "underway old new acts F s (mg_done s \<union> set chunk) (set chunk) (set chunk) rest"
      and t: "drop_todo_ok ?oo ?no ?cl chunk todo"
      and d: "\<forall>b \<in> set chunk. dropping todo (set (?no b)) ?cl ?ct ?w b" by (simp_all add: mig_inv_def Let_def)
    show ?thesis
    proof (cases "b \<in> set chunk")
      case True
      then show ?thesis using cur [OF u True] drop_loose [OF _ t] d u by blast
    qed (use out [OF u] u in blast)
  next
    case (Saving chunk rest)
    with inv have u: "underway old new acts F s (mg_done s \<union> set chunk) (set chunk) {} rest" by (simp add: mig_inv_def Let_def)
    then show ?thesis using out [OF u] by auto
  qed (use ph in \<open>simp_all add: before_commit_def\<close>)
  then show "\<exists>M cur frz rest. underway old new acts F s M cur frz rest"
    and "b < NUM_BUCKETS \<Longrightarrow> bucket_state (set (?oo b)) (set (?no b)) (b \<in> mg_done s) True ?cl ?ct ?w b" by blast+
qed

lemma run_migration_settled:
  assumes co: "change_ok addr old new cl" and up: "sources_up old new cl" and ok: "wok w"
    and fin: "finite done" and diff: "\<not> same_members old new"
    and st: "\<And>b. b < NUM_BUCKETS \<Longrightarrow> bucket_state (set (ring_owners old cl b)) (set (ring_owners new cl b))
      (b \<in> done) True cl content w b"
    and run: "run_migration C old new done None cl w = (cl', w', summary)"
  shows "wok w' \<and> cluster_ok cl' \<and> addr_inj addr cl' \<and> pt_nodes (cl_partitioner cl') = new \<and>
    cl_journal cl' = None \<and> cl_overlay cl' = None \<and> plc UNIV cl' content w'"
proof -
  define acts where "acts = migration_actions (plan_reshard old new (cl_replication_target cl) (cl_topology cl)) done"
  let ?s = "mig_start old new acts done cl w content :: ('c, 'w, 'v) mig_state"
  obtain s' where path: "(mig_step C J (alive w) old new acts UNIV)\<^sup>*\<^sup>* ?s s'"
    and s': "mg_phase s' = Committed" "mg_cl s' = cl'" "mg_w s' = w'" "mg_content s' = content"
    using run_migration_path [OF diff acts_def run, where J = J and al = "alive w" and F = UNIV and content = content] by blast
  have "mig_inv (alive w) old new acts UNIV ?s"
    by (rule start_inv [OF co up ok refl fin acts_def]) (use st in simp)
  from mig_steps_inv [OF path this] s' show ?thesis
    by (simp add: mig_inv_def Let_def settled_def)
qed

lemma resume_settled:
  assumes inv: "mig_inv al old new acts {} s" and ph: "before_commit (mg_phase s)"
    and re: "restarted (mg_cl s) cl2" and rt: "1 \<le> cl_replication_target (mg_cl s)"
    and diff: "\<not> same_members old new"
    and run: "resume_migration C cl2 (mg_w s) = Some (cl', w', summary)"
  shows "wok w' \<and> cluster_ok cl' \<and> addr_inj addr cl' \<and> pt_nodes (cl_partitioner cl') = new \<and>
    cl_journal cl' = None \<and> cl_overlay cl' = None \<and> plc UNIV cl' (mg_content s) w'"
proof -
  let ?cl = "mg_cl s" and ?w = "mg_w s" and ?rt = "cl_replication_target (mg_cl s)"
  obtain M cur frz rest where u: "underway old new acts {} s M cur frz rest" using inv_crash(1) [OF inv ph refl] by blast
  define cl3 where "cl3 = cl2\<lparr>cl_replication_target := ?rt\<rparr>"
  have ok: "wok ?w" using inv by (simp add: mig_inv_def Let_def)
  have co: "change_ok addr old new ?cl" "sources_up old new ?cl" "finite (mg_done s)"
    and jr: "cl_journal ?cl = Some \<lparr>mr_old_nodes = old, mr_new_nodes = new, mr_replication = ?rt,
      mr_done = sorted_list_of_set (mg_done s)\<rparr>"
    using u by (simp_all add: underway_def Let_def)
  note re' = re [unfolded restarted_def cluster_ok_def]
  have view: "bucket_in addr peek cl3 = bucket_in addr peek ?cl" "ring_owners ms cl3 = ring_owners ms ?cl"
    "change_ok addr old new cl3" "sources_up old new cl3" "bucket_state X Y m h cl3 = bucket_state X Y m h ?cl" for ms X Y m h
    using re' co(1,2)
    by (simp_all add: cl3_def bucket_in_def ring_owners_def change_ok_def sources_up_def loose_def bucket_state_def
        client_of_def addr_inj_def fun_eq_iff)
  have "run_migration C old new (mg_done s) None cl3 ?w = (cl', w', summary)"
    using run rt jr re' co(3) by (simp add: resume_migration_def journal_load_def Let_def cl3_def max_absorb1)
  from run_migration_settled [OF view(3,4) ok co(3) diff _ this, where content = "mg_content s"]
    inv_crash(2) [OF inv ph refl]
  show ?thesis by (simp add: view)
qed

text \<open>A stable, placed cluster is ready to start.\<close>

lemma ready_held:
  assumes "ready_to_change new cl" and "plc UNIV cl content w"
  shows "held cl content w b (set (ring_owners (member_ids cl) cl b))"
proof (rule held_placed [OF assms(2)])
  let ?p = "cl_partitioner cl"
  let ?q = "plan_partitioner (member_ids cl) (cl_topology cl)"
  note rd = assms(1) [unfolded ready_to_change_def cluster_ok_def list_nodes_def]
  fix k assume k: "bucket_of k = b"
  have mem: "set (member_ids cl) = set (pt_nodes ?p)" "distinct (member_ids cl)" "length (member_ids cl) = length (pt_nodes ?p)"
    using rd by (simp_all add: member_ids_def list_nodes_def partitioner_ok_def)
  have "owners cl k = owners_of_bucket ?p b (cl_replication cl)"
    using rd k by (simp add: owners_def replica_set_owners)
  also have "\<dots> = owners_of_bucket ?q b (cl_replication cl)"
    by (rule owners_order_independent)
      (use rd mem k bucket_of_less [of k] partitioner_oks in \<open>simp_all add: plan_partitioner_eq\<close>)
  finally show "k \<in> UNIV \<and> set (owners cl k) = set (ring_owners (member_ids cl) cl b)"
    using rd mem(3) by (simp add: ring_owners_def plan_owners_def clamp_plan [symmetric])
qed

lemma ready_change_ok:
  assumes "ready_to_change new cl" and "addr_inj addr cl"
  shows "change_ok addr (member_ids cl) new cl" and "sources_up (member_ids cl) new cl"
  using assms
  by (auto simp: ready_to_change_def change_ok_def cluster_ok_def member_ids_def list_nodes_def partitioner_ok_def
      simp flip: set_empty)

lemma same_members_set:
  assumes "same_members old new" and "distinct old"
  shows "set old = set new"
proof (rule card_subset_eq)
  show "set old \<subseteq> set new" using assms(1) by (auto simp: same_members_def list_all_iff)
  have "card (set new) \<le> length new" by (rule card_length)
  also have "\<dots> = card (set old)" using assms by (simp add: same_members_def distinct_card)
  finally show "card (set old) = card (set new)"
    using card_mono [OF _ \<open>set old \<subseteq> set new\<close>] by simp
qed simp

lemma same_commit_placed:
  assumes rd: "ready_to_change new cl" and inj: "addr_inj addr cl" and pl: "plc UNIV cl content w"
    and same: "same_members (member_ids cl) new"
    and cl': "cl' = commit_membership new (cl\<lparr>cl_journal := journal_clear (cl_journal cl)\<rparr>)"
  shows "cluster_ok cl' \<and> addr_inj addr cl' \<and> pt_nodes (cl_partitioner cl') = new \<and>
    cl_journal cl' = None \<and> cl_overlay cl' = None \<and> plc UNIV cl' content w"
    and "b < NUM_BUCKETS \<Longrightarrow> ring_owners new cl b = ring_owners (member_ids cl) cl b"
proof -
  let ?p = "cl_partitioner cl"
  note cs = commit_simps [OF cl']
  note rd' = rd [unfolded ready_to_change_def cluster_ok_def list_nodes_def]
  have mem: "set (member_ids cl) = set (pt_nodes ?p)" "distinct (member_ids cl)" "length (member_ids cl) = length new"
    using rd' same by (simp_all add: member_ids_def list_nodes_def partitioner_ok_def same_members_def)
  have set_new: "set new = set (pt_nodes ?p)" using same_members_set [OF same mem(2)] mem(1) by simp
  have keys: "n \<in> set (hm_keys (cl_clients cl'))" if "n \<in> set new" for n
  proof -
    have "n \<in> fst ` set (cl_clients cl)" using rd' that by auto
    then have "client_of cl' n \<noteq> None" using client_of_keys [of cl n] that by (simp add: cs(1))
    then show ?thesis unfolding client_of_keys by simp
  qed
  then have okc: "cluster_ok cl'"
    using rd' cs(6-11) by (auto simp: cluster_ok_def partitioner_ok_set_nodes)
  show ring: "ring_owners new cl b = ring_owners (member_ids cl) cl b" if "b < NUM_BUCKETS" for b
  proof -
    have "owners_of_bucket (plan_partitioner new (cl_topology cl)) b r =
        owners_of_bucket (plan_partitioner (member_ids cl) (cl_topology cl)) b r" for r
      by (rule owners_order_independent)
        (use rd' mem set_new that partitioner_oks in \<open>simp_all add: plan_partitioner_eq\<close>)
    then show ?thesis using mem(3) by (simp add: ring_owners_def plan_owners_def plan_replication_def)
  qed
  have ov: "cl_overlay cl' = None" using rd' by (simp add: cs)
  have own: "owners cl' k = ring_owners new cl' (bucket_of k)" for k
    using owners_committed [of cl' k] okc ov by (simp add: cluster_ok_def cs)
  have "plc UNIV cl' content w"
  proof (rule placed_held)
    fix k :: string
    have "held cl content w (bucket_of k) (set (ring_owners (member_ids cl) cl (bucket_of k)))"
      by (rule ready_held [OF rd pl])
    then have "held cl' content w (bucket_of k) (set (ring_owners (member_ids cl) cl (bucket_of k)))"
      by (rule bucket_in_cluster) (auto simp: cs split: if_splits)
    moreover have "ring_owners new cl' b = ring_owners new cl b" for b by (simp add: ring_owners_def cs)
    ultimately show "held cl' content w (bucket_of k) (set (owners cl' k))"
      using ring [OF bucket_of_less] by (simp add: own)
  qed
  moreover have "addr_inj addr cl'"
    using inj unfolding addr_inj_def cs(1) by (metis option.distinct(1))
  ultimately show "cluster_ok cl' \<and> addr_inj addr cl' \<and> pt_nodes (cl_partitioner cl') = new \<and>
      cl_journal cl' = None \<and> cl_overlay cl' = None \<and> plc UNIV cl' content w"
    using okc ov by (simp add: cs)
qed

lemma rebalance_settled:
  assumes rd: "ready_to_change new cl" and inj: "addr_inj addr cl" and ok: "wok w" and pl: "plc UNIV cl content w"
    and run: "rebalance C new cl w = (cl', w', summary)"
  shows "wok w' \<and> cluster_ok cl' \<and> addr_inj addr cl' \<and> pt_nodes (cl_partitioner cl') = new \<and>
    cl_journal cl' = None \<and> cl_overlay cl' = None \<and> plc UNIV cl' content w'"
    and "ms_moved_buckets summary = card {b. b < NUM_BUCKETS \<and>
      set (ring_owners (member_ids cl) cl b) \<noteq> set (ring_owners new cl b)}"
proof -
  note co = ready_change_ok [OF rd inj]
  have "(wok w' \<and> cluster_ok cl' \<and> addr_inj addr cl' \<and> pt_nodes (cl_partitioner cl') = new \<and>
      cl_journal cl' = None \<and> cl_overlay cl' = None \<and> plc UNIV cl' content w') \<and>
    ms_moved_buckets summary = card {b. b < NUM_BUCKETS \<and>
      set (ring_owners (member_ids cl) cl b) \<noteq> set (ring_owners new cl b)}"
  proof (cases "same_members (member_ids cl) new")
    case True
    define cl1 where "cl1 = commit_membership new (cl\<lparr>cl_journal := journal_clear (cl_journal cl)\<rparr>)"
    have "cl' = cl1" "w' = w" "ms_moved_buckets summary = 0"
      using run True by (auto simp: rebalance_def run_migration_def Let_def cl1_def)
    moreover have "{b. b < NUM_BUCKETS \<and> set (ring_owners (member_ids cl) cl b) \<noteq> set (ring_owners new cl b)} = {}"
      using same_commit_placed(2) [OF rd inj pl True cl1_def] by auto
    ultimately show ?thesis using same_commit_placed(1) [OF rd inj pl True cl1_def] ok by (simp only: card.empty)
  next
    case False
    have st: "bucket_state (set (ring_owners (member_ids cl) cl b)) (set (ring_owners new cl b)) (b \<in> {}) True cl content w b" for b
    proof -
      have "bucket_in addr peek cl content w b (\<lambda>n c. n \<in> set (ring_owners (member_ids cl) cl b))
          (\<lambda>n c. n \<in> set (ring_owners (member_ids cl) cl b) \<union> set (ring_owners new cl b))"
        by (rule bucket_in_mono [OF ready_held [OF rd pl]]) simp_all
      then show ?thesis unfolding bucket_state_def loose_def by simp (intro exI conjI, assumption, simp)
    qed
    have run': "run_migration C (member_ids cl) new {} None cl w = (cl', w', summary)"
      using run by (simp add: rebalance_def)
    have old: "member_ids cl \<noteq> []" "distinct (member_ids cl)" using co(1) by (simp_all add: change_ok_def)
    have "ms_moved_buckets summary =
        rp_moved_buckets (plan_reshard (member_ids cl) new (cl_replication_target cl) (cl_topology cl))"
      using run' False by (auto simp: run_migration_def Let_def split: prod.splits if_splits)
    also have "\<dots> = card {b. b < NUM_BUCKETS \<and>
        set (ring_owners (member_ids cl) cl b) \<noteq> set (ring_owners new cl b)}"
      unfolding plan_reshard_eq ring_owners_def
      by (intro arg_cong [of _ _ card] Collect_cong conj_cong refl)
        (use plan_owners_facts(3) [OF old(2) _ old(1)] old in \<open>simp add: bucket_moves_iff old_plan_owners_def\<close>)
    finally show ?thesis
      using run_migration_settled [OF co ok _ False st run'] by simp
  qed
  then show "wok w' \<and> cluster_ok cl' \<and> addr_inj addr cl' \<and> pt_nodes (cl_partitioner cl') = new \<and>
      cl_journal cl' = None \<and> cl_overlay cl' = None \<and> plc UNIV cl' content w'"
    and "ms_moved_buckets summary = card {b. b < NUM_BUCKETS \<and>
      set (ring_owners (member_ids cl) cl b) \<noteq> set (ring_owners new cl b)}" by blast+
qed

lemma ready_start_inv:
  assumes rd: "ready_to_change new cl" and inj: "addr_inj addr cl" and ok: "wok w" and pl: "plc UNIV cl content w"
    and acts: "acts = migration_actions (plan_reshard (member_ids cl) new (cl_replication_target cl) (cl_topology cl)) {}"
  shows "mig_inv (alive w) (member_ids cl) new acts {} (mig_start (member_ids cl) new acts {} cl w content)"
  using ready_held [OF rd pl]
  by (intro start_inv [OF ready_change_ok [OF rd inj] ok refl _ acts]) (simp_all add: bucket_state_def)

end

subsection \<open>Over in-memory shards\<close>

lemma mig_steps_target:
  assumes "(mig_step C J al old new acts F)\<^sup>*\<^sup>* s s'"
  shows "cl_replication_target (mg_cl s') = cl_replication_target (mg_cl s)"
  using assms
proof (induction rule: rtranclp_induct)
  case (step y z)
  from step(2) have "cl_replication_target (mg_cl z) = cl_replication_target (mg_cl y)"
    by (induction rule: mig_step.induct)
      (simp_all add: cutover_def save_record_def commit_membership_def Let_def)
  with step.IH show ?case by simp
qed simp

lemma run_chunks_clients:
  "run_chunks C old new acts stop i chunks (cl, w, d, cp, dr) = (fin, cl', rest) \<Longrightarrow> cl_clients cl' = cl_clients cl"
proof (induction chunks arbitrary: i cl w d cp dr)
  case (Cons chunk chunks)
  obtain cl1 w1 d1 cp1 dr1 where mid: "migrate_chunk C old new acts chunk (cl, w, d, cp, dr) = (cl1, w1, d1, cp1, dr1)"
    by (metis prod.exhaust)
  then have "cl_clients cl1 = cl_clients cl"
    by (auto simp: migrate_chunk_def cutover_def save_record_def Let_def split: prod.splits)
  with Cons mid show ?case by (auto split: if_splits)
qed simp

lemma run_migration_clients:
  assumes "run_migration C old new d None cl w = (cl', w', summary)"
  shows "set (cl_clients cl') \<subseteq> set (cl_clients cl)"
proof -
  have sub: "set (fold hm_remove ks m) \<subseteq> set m" for ks and m :: "(node_id, 'a) hashmap"
  proof (induction ks arbitrary: m)
    case (Cons k ks)
    have "set (hm_remove k m) \<subseteq> set m" by (auto simp: AList.delete_eq)
    with Cons [of "hm_remove k m"] show ?case by auto
  qed simp
  then have com: "set (cl_clients (commit_membership new c)) \<subseteq> set (cl_clients c)" for c :: "'a cluster"
    by (simp add: commit_membership_def Let_def)
  show ?thesis
  proof (cases "same_members old new")
    case True
    then show ?thesis
      using assms com [of "cl\<lparr>cl_journal := journal_clear (cl_journal cl)\<rparr>"] by (auto simp: run_migration_def Let_def)
  next
    case False
    let ?acts = "migration_actions (plan_reshard old new (cl_replication_target cl) (cl_topology cl)) d"
    let ?cl = "save_record old new d (start_overlay old new d cl)"
    obtain fin cl1 w1 d1 cp dr where loop: "run_chunks C old new ?acts None 0
        (chunks_of (cl_chunk ?cl) (sort (hm_keys ?acts))) (?cl, w, d, 0, 0) = (fin, cl1, w1, d1, cp, dr)"
      by (metis prod.exhaust)
    have "cl_clients cl1 = cl_clients ?cl" by (rule run_chunks_clients [OF loop])
    also have "\<dots> = cl_clients cl" by (simp add: save_record_def start_overlay_def Let_def)
    finally show ?thesis
      using assms False loop com [of "cl1\<lparr>cl_journal := journal_clear (cl_journal cl1)\<rparr>"]
      by (auto simp: run_migration_def Let_def split: if_splits)
  qed
qed

lemma mcluster_okI:
  assumes "cluster_ok cl'" and "cl_overlay cl' = None" and "addr_inj ic_shard cl'" and "inproc_ok mem_ok w'"
    and "set (cl_clients cl') \<subseteq> set (cl_clients cl)" and "mcluster_ok cl w"
  shows "mcluster_ok cl' w'"
  using assms routing_ok_stable [OF assms(1,2)]
  by (auto simp: mcluster_ok_def cluster_ok_def list_all_iff)

text \<open>Two members with a third one known, but not yet a member.\<close>

definition three_clients :: "inproc_client cluster" where
  "three_clients = add_node ''n2'' (inproc_new ''n2'' 2) two_nodes"

lemma three_clients_simps:
  "cl_clients three_clients = [(''n0'', inproc_new ''n0'' 0), (''n1'', inproc_new ''n1'' 1), (''n2'', inproc_new ''n2'' 2)]"
  "cl_overlay three_clients = None" "cl_down three_clients = {}" "cl_colls three_clients = [''kv'']"
  "cl_partitioner three_clients = cl_partitioner two_nodes"
  "member_ids three_clients = [''n0'', ''n1'']"
  "cl_replication_target three_clients = 2" "cl_topology three_clients = []"
  "owners three_clients = owners two_nodes"
  by (simp_all add: three_clients_def add_node_def member_ids_def list_nodes_def two_nodes_def cluster_new_def
      owners_def fun_eq_iff less_eq_list_code)

lemma three_clients_start:
  "ready_to_change [''n1'', ''n2''] three_clients" "mcluster_ok three_clients empty_world"
  "mplaced three_clients (\<lambda>c k. None) empty_world" "served three_clients k"
proof -
  have ok: "cluster_ok three_clients"
    using two_nodes_ok by (auto simp: three_clients_def add_node_def cluster_ok_def)
  show "ready_to_change [''n1'', ''n2''] three_clients"
    using ok by (simp add: ready_to_change_def three_clients_simps sources_up_def)
      (simp add: two_nodes_def cluster_new_def list_nodes_def fnv_eval)
  show "mcluster_ok three_clients empty_world"
    using routing_ok_stable [OF ok] mem_ok_new [unfolded mem_new_def]
    by (simp add: mcluster_ok_def three_clients_simps addr_inj_def client_of_def inproc_ok_def empty_world_def
        shard_new_def inproc_new_def)
  show "mplaced three_clients (\<lambda>c k. None) empty_world"
    by (simp add: placed_def inproc_peek_def empty_world_def shard_new_def mem_eval)
  show "served three_clients k"
    by (simp add: served_def three_clients_simps list_ex_iff owners_two_nodes client_of_def)
qed

text \<open>The same cluster with one object.\<close>

definition loaded_world :: "jv memory_store world" where
  "loaded_world = cluster_put (mclient jv_json) three_clients ''kv'' ''k'' (JInt 7) empty_world"

abbreviation loaded :: "string \<Rightarrow> string \<Rightarrow> jv option" where
  "loaded \<equiv> upd_content (\<lambda>c k. None) ''kv'' ''k'' (Some (JInt 7))"

lemma three_clients_loaded: "mcluster_ok three_clients loaded_world" "mplaced three_clients loaded loaded_world"
proof -
  note f = mcluster_facts [OF three_clients_start(2)]
  show "mcluster_ok three_clients loaded_world" "mplaced three_clients loaded loaded_world"
    using mem.ip.data_ops_placed(1) [OF f(3,4,2) three_clients_start(3), where J = jv_json] three_clients_start(2)
    by (simp_all add: mcluster_ok_def loaded_world_def)
qed

lemma three_clients_differ: "\<not> same_members (member_ids three_clients) [''n1'', ''n2'']"
  by (simp add: three_clients_simps same_members_def)

subsection \<open>Properties\<close>

text \<open>
  C3. A rebalance to a new membership keeps the content: it ends with a stable, well-formed
  cluster of exactly the new members in which every member that is up holds precisely the content
  of the keys it now owns, with the journal empty, and it reports as moved the buckets whose set
  of owners changes. The cluster must be \<open>ready_to_change\<close>: stable, with clients for all new members, no two current members
  that collide under FNV-1a, and a source that is up for every copy.
\<close>

theorem rebalance_correct:
  assumes "ready_to_change new cl" and "mcluster_ok cl w" and "mplaced cl content w"
    and "rebalance (mclient J) new cl w = (cl', w', summary)"
  shows "cluster_ok cl' \<and> list_nodes (cl_partitioner cl') = new \<and> \<not> is_migrating cl' \<and>
    journal_load (cl_journal cl') = None \<and> mcluster_ok cl' w' \<and> mplaced cl' content w' \<and>
    ms_moved_buckets summary = card {b. b < NUM_BUCKETS \<and>
      set (ring_owners (member_ids cl) cl b) \<noteq> set (ring_owners new cl b)}"
proof -
  note f = mcluster_facts [OF assms(2)]
  note r = mem.ip.rebalance_settled [OF assms(1) f(3,4) assms(3,4)]
  have "set (cl_clients cl') \<subseteq> set (cl_clients cl)"
    using run_migration_clients assms(4) by (simp add: rebalance_def)
  with r mcluster_okI [of cl' w', OF _ _ _ _ this assms(2)] show ?thesis
    by (simp add: is_migrating_def list_nodes_def journal_load_def)
qed

theorem rebalance_correct_witness:
  "mplaced (fst (rebalance (mclient jv_json) [''n1'', ''n2''] three_clients loaded_world)) loaded
     (fst (snd (rebalance (mclient jv_json) [''n1'', ''n2''] three_clients loaded_world)))"
proof -
  obtain cl' w' summary where run: "rebalance (mclient jv_json) [''n1'', ''n2''] three_clients loaded_world = (cl', w', summary)"
    by (metis prod.exhaust)
  from rebalance_correct [OF three_clients_start(1) three_clients_loaded run] show ?thesis by (simp add: run)
qed

text \<open>
  C1. The migration is online. Data operations may run between any two of its steps, on every key
  whose bucket is not frozen for the chunk in transit; at every moment a read of such a key with a
  live owner returns what the data operations wrote last, and once the migration has committed the
  members hold exactly the content of the keys they own. The cluster starts \<open>ready_to_change\<close>, as in the
  property of \<^verbatim>\<open>rebalance\<close>, and the clock stands still, so no object expires on the way.
\<close>

theorem migration_online:
  assumes "ready_to_change new cl" and "mcluster_ok cl w" and "mplaced cl content w"
    and "acts = migration_actions (plan_reshard (member_ids cl) new (cl_replication_target cl) (cl_topology cl)) {}"
    and "(mig_step (mclient J) J (inproc_alive w) (member_ids cl) new acts {})\<^sup>*\<^sup>*
      (mig_start (member_ids cl) new acts {} cl w content) s"
  shows "(bucket_of key \<notin> frozen (mg_phase s) \<longrightarrow> coll \<in> set (cl_colls (mg_cl s)) \<longrightarrow> served (mg_cl s) key \<longrightarrow>
      cluster_get (mclient J) (mg_cl s) coll key (mg_w s) = (mg_w s, mg_content s coll key))
    \<and> (mg_phase s = Committed \<longrightarrow> mplaced (mg_cl s) (mg_content s) (mg_w s) \<and>
      list_nodes (cl_partitioner (mg_cl s)) = new \<and> cluster_ok (mg_cl s))"
proof -
  note f = mcluster_facts [OF assms(2)]
  have inv: "mem.ip.mig_inv (inproc_alive w) (member_ids cl) new acts {} s"
    by (rule mem.ip.mig_steps_inv [OF assms(5) mem.ip.ready_start_inv [OF assms(1) f(3,4) assms(3,4)]])
  show ?thesis
    using mem.ip.inv_reads [OF inv, of key coll J] inv
    by (auto simp: mem.ip.mig_inv_def mem.ip.settled_def Let_def list_nodes_def)
qed

theorem migration_online_witness:
  "\<exists>acts s. (mig_step (mclient jv_json) jv_json (inproc_alive loaded_world) (member_ids three_clients) [''n1'', ''n2''] acts {})\<^sup>*\<^sup>*
       (mig_start (member_ids three_clients) [''n1'', ''n2''] acts {} three_clients loaded_world loaded) s \<and>
     mg_phase s = Committed \<and> mplaced (mg_cl s) loaded (mg_w s) \<and> list_nodes (cl_partitioner (mg_cl s)) = [''n1'', ''n2'']"
proof -
  let ?acts = "migration_actions (plan_reshard (member_ids three_clients) [''n1'', ''n2'']
      (cl_replication_target three_clients) (cl_topology three_clients)) {}"
  obtain cl' w' summary where run: "run_migration (mclient jv_json) (member_ids three_clients) [''n1'', ''n2''] {} None
      three_clients loaded_world = (cl', w', summary)"
    by (metis prod.exhaust)
  obtain s where s: "(mig_step (mclient jv_json) jv_json (inproc_alive loaded_world) (member_ids three_clients) [''n1'', ''n2''] ?acts {})\<^sup>*\<^sup>*
      (mig_start (member_ids three_clients) [''n1'', ''n2''] ?acts {} three_clients loaded_world loaded) s"
    "mg_phase s = Committed" "mg_content s = loaded"
    using run_migration_path [OF three_clients_differ refl run, where J = jv_json and al = "inproc_alive loaded_world"
        and F = "{}" and content = loaded] by blast
  then show ?thesis
    using migration_online [OF three_clients_start(1) three_clients_loaded refl s(1)]
    by (intro exI [of _ ?acts] exI [of _ s]) simp
qed

text \<open>
  C2. A migration survives a crash of the coordinator at any step before the commit. The journal
  then holds a record from which a restarted coordinator resumes, and the resumed migration ends
  with the new members holding exactly the content that the data operations had written by the
  time of the crash, including the buckets that were half copied or half dropped. The journal is taken to survive the
  crash, which the in-memory journal of the repository does only when the process does; the
  cluster starts \<open>ready_to_change\<close>, and the clock stands still.
\<close>

theorem crash_resume_correct:
  assumes "ready_to_change new cl" and "mcluster_ok cl w" and "mplaced cl content w"
    and "1 \<le> cl_replication_target cl" and "\<not> same_members (member_ids cl) new"
    and "acts = migration_actions (plan_reshard (member_ids cl) new (cl_replication_target cl) (cl_topology cl)) {}"
    and "(mig_step (mclient J) J (inproc_alive w) (member_ids cl) new acts {})\<^sup>*\<^sup>*
      (mig_start (member_ids cl) new acts {} cl w content) s"
    and "before_commit (mg_phase s)" and "restarted (mg_cl s) cl2"
  shows "\<exists>cl' w' summary. resume_migration (mclient J) cl2 (mg_w s) = Some (cl', w', summary) \<and>
    cluster_ok cl' \<and> list_nodes (cl_partitioner cl') = new \<and> mplaced cl' (mg_content s) w' \<and>
    journal_load (cl_journal cl') = None"
proof -
  note f = mcluster_facts [OF assms(2)]
  have inv: "mem.ip.mig_inv (inproc_alive w) (member_ids cl) new acts {} s"
    by (rule mem.ip.mig_steps_inv [OF assms(7) mem.ip.ready_start_inv [OF assms(1) f(3,4) assms(3,6)]])
  have rt: "cl_replication_target (mg_cl s) = cl_replication_target cl"
    using mig_steps_target [OF assms(7)] by (simp add: mig_start_def save_record_def start_overlay_def Let_def)
  have "cl_journal cl2 \<noteq> None"
    using mem.ip.inv_crash(1) [OF inv assms(8) refl] assms(9)
    by (auto simp: restarted_def mem.ip.underway_def Let_def)
  then have "resume_migration (mclient J) cl2 (mg_w s) \<noteq> None"
    by (simp add: resume_migration_def journal_load_def Let_def del: not_None_eq split: option.split)
  then obtain r where r: "resume_migration (mclient J) cl2 (mg_w s) = Some r" by blast
  obtain cl' w' summary where "r = (cl', w', summary)" by (metis prod.exhaust)
  with r mem.ip.resume_settled [OF inv assms(8,9) _ assms(5), of J cl' w' summary] rt assms(4)
  show ?thesis by (auto simp: list_nodes_def journal_load_def)
qed

theorem crash_resume_correct_witness:
  "\<exists>cl' w' summary. resume_migration (mclient jv_json)
      (save_record (member_ids three_clients) [''n1'', ''n2''] {} three_clients) loaded_world = Some (cl', w', summary) \<and>
    mplaced cl' loaded w'"
proof -
  let ?acts = "migration_actions (plan_reshard (member_ids three_clients) [''n1'', ''n2'']
      (cl_replication_target three_clients) (cl_topology three_clients)) {}"
  let ?s = "mig_start (member_ids three_clients) [''n1'', ''n2''] ?acts {} three_clients loaded_world loaded"
  let ?cl2 = "save_record (member_ids three_clients) [''n1'', ''n2''] {} three_clients"
  have ok: "cluster_ok three_clients" using three_clients_start(1) by (simp add: ready_to_change_def)
  have re: "restarted (mg_cl ?s) ?cl2"
    using ok by (simp add: restarted_def cluster_ok_def mig_start_def save_record_def start_overlay_def Let_def journal_save_def)
  have ph: "before_commit (mg_phase ?s)" by (simp add: before_commit_def mig_start_def)
  have rt: "1 \<le> cl_replication_target three_clients" by (simp add: three_clients_simps)
  show ?thesis
    using crash_resume_correct [OF three_clients_start(1) three_clients_loaded rt three_clients_differ refl rtranclp.rtrancl_refl ph re, of jv_json]
    by (auto simp: mig_start_def)
qed

end
