(* ===== verification/Decimal.thy ===== *)
theory Decimal
  imports Stplr_Prelude
begin

text \<open>
  Decimal text: \<^verbatim>\<open>to_string\<close> and \<^verbatim>\<open>format!("{seq:020}")\<close> of the standard library on unsigned
  integers, and what the durable logs rely on. Printing and parsing are inverse to each other, and
  on digit strings of one length the order of the text is the order of the numbers.
\<close>

definition digit_char :: "nat \<Rightarrow> char" where
  "digit_char d = char_of (48 + d)"

fun show_nat :: "nat \<Rightarrow> string" where
  "show_nat n = (if n < 10 then [digit_char n] else show_nat (n div 10) @ [digit_char (n mod 10)])"

declare show_nat.simps [simp del]

definition show_u64 :: "u64 \<Rightarrow> string" where
  "show_u64 w = show_nat (unat w)"

definition show_i64 :: "i64 \<Rightarrow> string" where
  "show_i64 w = (if sint w < 0 then CHR ''-'' # show_nat (nat (- sint w)) else show_nat (nat (sint w)))"

definition pad_zeros :: "nat \<Rightarrow> string \<Rightarrow> string" where
  "pad_zeros w s = replicate (w - length s) (CHR ''0'') @ s"

text \<open>\<^verbatim>\<open>u64::saturating_sub\<close>.\<close>

definition saturating_sub :: "u64 \<Rightarrow> u64 \<Rightarrow> u64" where
  "saturating_sub a b = (if b \<le> a then a - b else 0)"

subsection \<open>Digits\<close>

definition digit_val :: "char \<Rightarrow> nat" where
  "digit_val c = of_char c - 48"

fun digits_val :: "string \<Rightarrow> nat" where
  "digits_val [] = 0"
| "digits_val (c # cs) = digit_val c * 10 ^ length cs + digits_val cs"

definition all_digits :: "string \<Rightarrow> bool" where
  "all_digits s \<longleftrightarrow> list_all is_digit s"

lemma all_digits_simps [simp]:
  "all_digits []" "all_digits (c # cs) \<longleftrightarrow> is_digit c \<and> all_digits cs"
  "all_digits (s @ t) \<longleftrightarrow> all_digits s \<and> all_digits t"
  "all_digits (replicate n c) \<longleftrightarrow> n = 0 \<or> is_digit c"
  by (auto simp: all_digits_def list_all_iff)

lemma of_char_digit: "d < 10 \<Longrightarrow> (of_char (digit_char d) :: nat) = 48 + d"
  by (simp add: digit_char_def)

lemma is_digit_digit [simp]: "d < 10 \<Longrightarrow> is_digit (digit_char d)"
  by (simp add: is_digit_def of_char_digit)

lemma digit_val_digit [simp]: "d < 10 \<Longrightarrow> digit_val (digit_char d) = d"
  by (simp add: digit_val_def of_char_digit)

lemma is_digit_zero [simp]: "is_digit (CHR ''0'')" and digit_val_zero [simp]: "digit_val (CHR ''0'') = 0"
  by (simp_all add: is_digit_def digit_val_def)

lemma digit_val_less: "is_digit c \<Longrightarrow> digit_val c < 10"
  by (auto simp: is_digit_def digit_val_def)

lemma digits_val_append: "digits_val (s @ t) = digits_val s * 10 ^ length t + digits_val t"
  by (induction s) (simp_all add: power_add algebra_simps)

lemma digits_val_less: "all_digits s \<Longrightarrow> digits_val s < 10 ^ length s"
proof (induction s)
  case (Cons c cs)
  then have "digit_val c < 10" "digits_val cs < 10 ^ length cs" by (simp_all add: digit_val_less)
  then have "digit_val c * 10 ^ length cs + digits_val cs < (digit_val c + 1) * 10 ^ length cs" by simp
  also have "\<dots> \<le> 10 * 10 ^ length cs" using \<open>digit_val c < 10\<close> by (intro mult_right_mono) simp_all
  finally show ?case by simp
qed simp

lemma digits_val_zeros [simp]: "digits_val (replicate n (CHR ''0'') @ s) = digits_val s"
  by (induction n) simp_all

lemma parse_digits_val:
  "all_digits s \<Longrightarrow> parse_digits a s = Some (a * 10 ^ length s + digits_val s)"
  by (induction s arbitrary: a) (simp_all add: digit_val_def algebra_simps)

lemma parse_nat_digits: "all_digits s \<Longrightarrow> s \<noteq> [] \<Longrightarrow> parse_nat s = Some (digits_val s)"
  by (simp add: parse_nat_def parse_digits_val)

subsection \<open>Printing\<close>

lemma all_digits_show [simp]: "all_digits (show_nat n)"
proof (induction n rule: show_nat.induct)
  case (1 n)
  then show ?case by (subst show_nat.simps) simp
qed

lemma digits_val_show [simp]: "digits_val (show_nat n) = n"
proof (induction n rule: show_nat.induct)
  case (1 n)
  then show ?case by (subst show_nat.simps) (simp add: digits_val_append)
qed

lemma show_nat_not_Nil [simp]: "show_nat n \<noteq> []"
  by (subst show_nat.simps) simp

lemma show_nat_length: "n < 10 ^ Suc w \<Longrightarrow> length (show_nat n) \<le> Suc w"
proof (induction w arbitrary: n)
  case 0
  then show ?case by (subst show_nat.simps) simp
next
  case (Suc w)
  show ?case
  proof (cases "n < 10")
    case False
    moreover have "n div 10 < 10 ^ Suc w" using Suc.prems by (simp add: less_mult_imp_div_less)
    ultimately show ?thesis using Suc.IH by (subst show_nat.simps) simp
  qed (subst show_nat.simps, simp)
qed

lemma not_digit_signs [simp]: "\<not> is_digit (CHR ''+'')" "\<not> is_digit (CHR ''-'')"
  by (simp_all add: is_digit_def)

lemma parse_u64_digits:
  assumes "all_digits s" and "s \<noteq> []"
  shows "parse_u64 s = (if digits_val s < 2 ^ 64 then Some (of_nat (digits_val s)) else None)"
proof -
  have "(case s of c # cs \<Rightarrow> if c = CHR ''+'' then cs else s | [] \<Rightarrow> []) = s"
    using assms by (cases s) auto
  then show ?thesis using assms by (simp add: parse_u64_def parse_nat_digits)
qed

lemma unat_less_64 [simp]: "unat (w :: u64) < 18446744073709551616"
  using unsigned_less [of w] by simp

lemma unat_u64_Suc: "(n :: u64) < - 1 \<Longrightarrow> unat (n + 1) = Suc (unat n)"
proof -
  assume "n < - 1"
  then have "1 + n \<noteq> 0" by (metis add.commute add_eq_0_iff order_less_irrefl)
  from unatSuc [OF this] show ?thesis by (simp add: add.commute)
qed

lemma u64_less_Suc: "(n :: u64) < - 1 \<Longrightarrow> n < n + 1"
  by (simp add: word_less_nat_alt [of n "n + 1"] unat_u64_Suc)

lemma u64_less_max: "(n :: u64) < - 1 \<longleftrightarrow> unat n + 1 < 2 ^ 64"
  by (simp add: word_less_nat_alt unsigned_minus_1_eq_mask mask_eq_exp_minus_1)

lemma parse_show_u64 [simp]: "parse_u64 (show_u64 w) = Some w"
  by (simp add: show_u64_def parse_u64_digits)

lemma parse_pad_u64 [simp]: "parse_u64 (pad_zeros n (show_u64 w)) = Some w"
  by (simp add: pad_zeros_def show_u64_def parse_u64_digits)

lemma length_pad_u64 [simp]: "length (pad_zeros 20 (show_u64 w)) = 20"
proof -
  have "unat w < 10 ^ Suc 19" by (rule order_less_trans [OF unat_less_64]) simp
  from show_nat_length [OF this] show ?thesis by (simp add: pad_zeros_def show_u64_def)
qed

subsection \<open>Order\<close>

lemma digit_less_iff: "is_digit c \<Longrightarrow> is_digit d \<Longrightarrow> c < d \<longleftrightarrow> digit_val c < digit_val d"
  by (auto simp: less_char_def is_digit_def digit_val_def)

lemma digit_val_inj: "is_digit c \<Longrightarrow> is_digit d \<Longrightarrow> digit_val c = digit_val d \<Longrightarrow> c = d"
  by (metis digit_less_iff less_irrefl linorder_neqE)

lemma digits_less_iff:
  "all_digits s \<Longrightarrow> all_digits t \<Longrightarrow> length s = length t \<Longrightarrow> s < t \<longleftrightarrow> digits_val s < digits_val t"
proof (induction s arbitrary: t)
  case (Cons c cs)
  then obtain d ds where t: "t = d # ds" "length cs = length ds" by (cases t) auto
  have dig: "is_digit c" "is_digit d" "all_digits cs" "all_digits ds" using Cons.prems t by auto
  have low: "digits_val cs < 10 ^ length ds" "digits_val ds < 10 ^ length ds"
    using digits_val_less [OF dig(3)] digits_val_less [OF dig(4)] t by simp_all
  consider "digit_val c < digit_val d" | "digit_val d < digit_val c" | "c = d"
    using digit_val_inj [OF dig(1,2)] by (metis linorder_neqE_nat)
  then show ?case
  proof cases
    case 1
    then have "(digit_val c + 1) * 10 ^ length ds \<le> digit_val d * 10 ^ length ds"
      by (intro mult_right_mono) simp_all
    then have "digits_val (c # cs) < digits_val t" using low t by (simp add: algebra_simps)
    with 1 t show ?thesis by (simp add: digit_less_iff dig)
  next
    case 2
    then have "(digit_val d + 1) * 10 ^ length ds \<le> digit_val c * 10 ^ length ds"
      by (intro mult_right_mono) simp_all
    then have "digits_val t < digits_val (c # cs)" using low t by (simp add: algebra_simps)
    moreover have "\<not> c # cs < t" using 2 t dig digit_less_iff [of c d] by auto
    ultimately show ?thesis by simp
  next
    case 3
    then show ?thesis using Cons.IH [OF dig(3,4) t(2)] t by simp
  qed
qed simp

lemma pad_u64_less_iff: "pad_zeros 20 (show_u64 v) < pad_zeros 20 (show_u64 w) \<longleftrightarrow> v < w"
proof -
  have "pad_zeros 20 (show_u64 v) < pad_zeros 20 (show_u64 w) \<longleftrightarrow>
      digits_val (pad_zeros 20 (show_u64 v)) < digits_val (pad_zeros 20 (show_u64 w))"
    by (rule digits_less_iff) (simp_all, simp_all add: pad_zeros_def show_u64_def)
  then show ?thesis by (simp add: pad_zeros_def show_u64_def word_less_nat_alt)
qed

subsection \<open>Signed numbers\<close>

lemma digit_show_hd: "\<exists>c cs. show_nat n = c # cs \<and> is_digit c"
  using all_digits_show [of n] show_nat_not_Nil [of n] by (cases "show_nat n") (auto simp: all_digits_def)

lemma i64_bounds: "- 9223372036854775808 \<le> sint (d :: i64)" "sint (d :: i64) < 9223372036854775808"
  using sint_greater_eq [of d] sint_less [of d] by simp_all

lemma neg_nat: "sint (d :: i64) < 0 \<Longrightarrow> (- word_of_nat (nat (- sint d)) :: i64) = d"
proof -
  assume "sint d < 0"
  then have "(word_of_nat (nat (- sint d)) :: i64) = word_of_int (- sint d)" by (simp add: of_nat_nat)
  also have "\<dots> = - word_of_int (sint d)" by (simp only: of_int_minus)
  also have "\<dots> = - d" by simp
  finally show ?thesis by simp
qed

lemma pos_nat: "\<not> sint (d :: i64) < 0 \<Longrightarrow> (word_of_nat (nat (sint d)) :: i64) = d"
  by (simp add: of_nat_nat)

lemma parse_show_nat: "parse_nat (show_nat n) = Some n"
  by (simp add: parse_nat_digits)

lemma parse_show_i64 [simp]: "parse_i64 (show_i64 d) = Some d"
proof (cases "sint d < 0")
  case True
  with i64_bounds [of d] have "nat (- sint d) \<le> 2 ^ 63" by (simp add: nat_le_iff)
  with True neg_nat [OF True] show ?thesis by (simp only: show_i64_def if_True parse_i64_def list.case refl parse_show_nat option.case)
next
  case False
  obtain c cs where c: "show_nat (nat (sint d)) = c # cs" "is_digit c" using digit_show_hd by blast
  have "c \<noteq> CHR ''-''" "c \<noteq> CHR ''+''" using c(2) not_digit_signs by auto
  moreover have "nat (sint d) < 2 ^ 63" using i64_bounds [of d] by (simp add: nat_less_iff)
  ultimately show ?thesis using pos_nat [OF False] parse_show_nat [of "nat (sint d)"] c(1) False
    by (simp only: show_i64_def if_False if_True parse_i64_def list.case option.case)
qed

end
