(* ===== verification/Heed.thy ===== *)
theory Heed
  imports Decimal "HOL-Library.Countable"
begin

text \<open>
  The embedded database. \<^verbatim>\<open>heed\<close> (LMDB) is a library the sources only call, so a
  \<^verbatim>\<open>Database<Str, Str>\<close> of an environment is a type variable \<open>'d\<close> and the calls the sources make
  on it are a parameter, the record \<open>heed\<close>. Every call may fail. A write transaction is a
  sequence of \<open>hd_put\<close>, \<open>hd_delete\<close> and \<open>hd_clear\<close> on the database's content, which replaces the
  committed content when \<open>hd_commit\<close> succeeds.

  \<open>heed_laws\<close> states LMDB's documented behaviour in an environment with room left: transactions
  open and commit, a database is a map from keys of 1 to 511 bytes to values (a put of another key
  fails, a get finds nothing), and iteration is in the lexicographic order of the keys.

  \<open>serde\<close> is the pair of \<^verbatim>\<open>serde_json::to_string\<close> and \<^verbatim>\<open>serde_json::from_str\<close> at one type. \<open>serde_laws\<close> says that a
  text that was written reads back. With the default features, which the sources use, \<^verbatim>\<open>serde_json\<close> does this for all values
  except those nested more than 128 deep, which the reader refuses, and some floating-point numbers, which come back
  with another last digit. The type of values stands for the values without these: the theorems about logs and stores
  that assume \<open>serde_laws\<close> say nothing of the excepted ones.
\<close>

record 'd heed =
  hd_read_txn :: "'d \<Rightarrow> bool"
  hd_write_txn :: "'d \<Rightarrow> bool"
  hd_commit :: "'d \<Rightarrow> bool"
  hd_get :: "'d \<Rightarrow> string \<Rightarrow> string option option"
  hd_iter :: "'d \<Rightarrow> (string \<times> string) list option"
  hd_last :: "'d \<Rightarrow> (string \<times> string) option option"
  hd_put :: "string \<Rightarrow> string \<Rightarrow> 'd \<Rightarrow> 'd option"
  hd_delete :: "string \<Rightarrow> 'd \<Rightarrow> ('d \<times> bool) option"
  hd_clear :: "'d \<Rightarrow> 'd option"

definition hd_entries :: "'d heed \<Rightarrow> 'd \<Rightarrow> (string \<times> string) list" where
  "hd_entries D d = (case hd_iter D d of None \<Rightarrow> [] | Some es \<Rightarrow> es)"

definition lmdb_key :: "string \<Rightarrow> bool" where
  "lmdb_key k \<longleftrightarrow> 1 \<le> length k \<and> length k \<le> 511"

definition heed_laws :: "'d heed \<Rightarrow> bool" where
  "heed_laws D \<longleftrightarrow>
     (\<forall>d. hd_read_txn D d \<and> hd_write_txn D d \<and> hd_commit D d) \<and>
     (\<forall>d. hd_iter D d \<noteq> None \<and> sorted_wrt (<) (map fst (hd_entries D d))) \<and>
     (\<forall>d. hd_last D d = Some (if hd_entries D d = [] then None else Some (last (hd_entries D d)))) \<and>
     (\<forall>d k. lmdb_key k \<longrightarrow> hd_get D d k = Some (map_of (hd_entries D d) k)) \<and>
     (\<forall>d k v. lmdb_key k \<longrightarrow> (\<exists>d'. hd_put D k v d = Some d' \<and>
        map_of (hd_entries D d') = (map_of (hd_entries D d))(k \<mapsto> v))) \<and>
     (\<forall>d k. lmdb_key k \<longrightarrow> (\<exists>d'. hd_delete D k d = Some (d', map_of (hd_entries D d) k \<noteq> None) \<and>
        map_of (hd_entries D d') = (map_of (hd_entries D d))(k := None))) \<and>
     (\<forall>d k v. \<not> lmdb_key k \<longrightarrow> hd_put D k v d = None \<and> (hd_get D d k = None \<or> hd_get D d k = Some None)) \<and>
     (\<forall>d. \<exists>d'. hd_clear D d = Some d' \<and> hd_entries D d' = [])"

record 'a serde =
  sd_to_string :: "'a \<Rightarrow> string"
  sd_from_str :: "string \<Rightarrow> 'a option"

definition serde_laws :: "'a serde \<Rightarrow> bool" where
  "serde_laws S \<longleftrightarrow> (\<forall>x. sd_from_str S (sd_to_string S x) = Some x)"

subsection \<open>Consequences of the laws\<close>

lemma heed_txns: "heed_laws D \<Longrightarrow> hd_read_txn D d \<and> hd_write_txn D d \<and> hd_commit D d"
  by (simp add: heed_laws_def)

lemma heed_iter: "heed_laws D \<Longrightarrow> hd_iter D d = Some (hd_entries D d)"
  unfolding heed_laws_def hd_entries_def by (elim conjE) (metis option.case_eq_if option.collapse)

lemma heed_sorted: "heed_laws D \<Longrightarrow> sorted_wrt (<) (map fst (hd_entries D d))"
  by (simp add: heed_laws_def)

lemma heed_distinct: "heed_laws D \<Longrightarrow> distinct (map fst (hd_entries D d))"
  using heed_sorted [of D d] by (simp add: strict_sorted_iff)

lemma heed_last:
  "heed_laws D \<Longrightarrow> hd_last D d = Some (if hd_entries D d = [] then None else Some (last (hd_entries D d)))"
  unfolding heed_laws_def by (elim conjE) (erule spec)

lemma heed_get: "heed_laws D \<Longrightarrow> lmdb_key k \<Longrightarrow> hd_get D d k = Some (map_of (hd_entries D d) k)"
  by (simp add: heed_laws_def)

lemma heed_bad_key:
  "heed_laws D \<Longrightarrow> \<not> lmdb_key k \<Longrightarrow> hd_put D k v d = None \<and> (hd_get D d k = None \<or> hd_get D d k = Some None)"
  unfolding heed_laws_def by blast

lemma heed_put:
  assumes "heed_laws D" and "lmdb_key k"
  obtains d' where "hd_put D k v d = Some d'"
    and "map_of (hd_entries D d') = (map_of (hd_entries D d))(k \<mapsto> v)"
  using assms unfolding heed_laws_def by blast

lemma heed_delete:
  assumes "heed_laws D" and "lmdb_key k"
  obtains d' where "hd_delete D k d = Some (d', map_of (hd_entries D d) k \<noteq> None)"
    and "map_of (hd_entries D d') = (map_of (hd_entries D d))(k := None)"
  using assms unfolding heed_laws_def by blast

lemma heed_clear:
  assumes "heed_laws D"
  obtains d' where "hd_clear D d = Some d'" and "hd_entries D d' = []"
  using assms unfolding heed_laws_def by blast

text \<open>Two databases with the same map iterate over the same entries.\<close>

lemma sorted_entries_unique:
  fixes xs ys :: "('k::linorder \<times> 'v) list"
  assumes "sorted_wrt (<) (map fst xs)" and "sorted_wrt (<) (map fst ys)" and m: "map_of xs = map_of ys"
  shows "xs = ys"
proof -
  have dist: "distinct (map fst xs)" "distinct (map fst ys)"
    using assms(1,2) strict_sorted_iff by blast+
  have "set xs = set ys"
    using m dist by (metis graph_map_of_if_distinct_dom)
  then have "map fst xs = map fst ys"
    using assms(1,2) dist by (intro sorted_distinct_set_unique) (auto simp: strict_sorted_iff)
  moreover have "v = w" if "(k, v) \<in> set xs" "(k, w) \<in> set ys" for k v w
    using that m dist by (metis map_of_is_SomeI option.inject)
  ultimately show ?thesis
  proof (intro nth_equalityI)
    fix i assume k: "map fst xs = map fst ys" and i: "i < length xs"
      and same: "\<And>k v w. (k, v) \<in> set xs \<Longrightarrow> (k, w) \<in> set ys \<Longrightarrow> v = w"
    from k i have "length ys = length xs" by (metis length_map)
    with k i have "fst (xs ! i) = fst (ys ! i)" by (metis nth_map)
    moreover have "(fst (xs ! i), snd (xs ! i)) \<in> set xs" "(fst (ys ! i), snd (ys ! i)) \<in> set ys"
      using i \<open>length ys = length xs\<close> by simp_all
    ultimately show "xs ! i = ys ! i" using same by (metis prod.collapse)
  qed (metis length_map)
qed

lemma heed_entries_eqI:
  assumes "heed_laws D" and "sorted_wrt (<) (map fst es)" and "map_of (hd_entries D d) = map_of es"
  shows "hd_entries D d = es"
  using sorted_entries_unique [OF heed_sorted [OF assms(1)] assms(2,3)] .

text \<open>A new last key is appended to the iteration.\<close>

lemma heed_put_last:
  assumes D: "heed_laws D" and k: "lmdb_key k" and top: "\<And>k'. k' \<in> fst ` set (hd_entries D d) \<Longrightarrow> k' < k"
  obtains d' where "hd_put D k v d = Some d'" and "hd_entries D d' = hd_entries D d @ [(k, v)]"
proof -
  obtain d' where d': "hd_put D k v d = Some d'"
    "map_of (hd_entries D d') = (map_of (hd_entries D d))(k \<mapsto> v)" using heed_put [OF D k] .
  have new: "map_of (hd_entries D d) k = None" using top by (auto simp: map_of_eq_None_iff)
  have "hd_entries D d' = hd_entries D d @ [(k, v)]"
  proof (rule heed_entries_eqI [OF D])
    show "sorted_wrt (<) (map fst (hd_entries D d @ [(k, v)]))"
      using heed_sorted [OF D] top by (auto simp: sorted_wrt_append)
    show "map_of (hd_entries D d') = map_of (hd_entries D d @ [(k, v)])"
      using d'(2) new by (auto simp: fun_eq_iff map_add_def split: option.split)
  qed
  with d'(1) show thesis by (rule that)
qed

text \<open>Deleting keys filters the iteration, and the flags count the keys that were there.\<close>

fun delete_all :: "'d heed \<Rightarrow> string list \<Rightarrow> 'd \<Rightarrow> nat \<Rightarrow> 'd \<times> nat" where
  "delete_all D [] d removed = (d, removed)"
| "delete_all D (k # ks) d removed = (case hd_delete D k d of
       None \<Rightarrow> delete_all D ks d removed
     | Some (d', found) \<Rightarrow> delete_all D ks d' (if found then removed + 1 else removed))"

lemma heed_delete_entries:
  assumes D: "heed_laws D" and "lmdb_key k"
  obtains d' where "hd_delete D k d = Some (d', k \<in> fst ` set (hd_entries D d))"
    and "hd_entries D d' = filter (\<lambda>e. fst e \<noteq> k) (hd_entries D d)"
proof -
  obtain d' where d': "hd_delete D k d = Some (d', map_of (hd_entries D d) k \<noteq> None)"
    "map_of (hd_entries D d') = (map_of (hd_entries D d))(k := None)" using heed_delete [OF assms] .
  have "hd_entries D d' = filter (\<lambda>e. fst e \<noteq> k) (hd_entries D d)"
  proof (rule heed_entries_eqI [OF D])
    show "sorted_wrt (<) (map fst (filter (\<lambda>e. fst e \<noteq> k) (hd_entries D d)))"
      using heed_sorted [OF D, of d] by (simp add: sorted_wrt_map sorted_wrt_filter)
    have "map_of (filter (\<lambda>e. fst e \<noteq> k) es) = (map_of es)(k := None)" for es :: "(string \<times> string) list"
      by (induction es) auto
    then show "map_of (hd_entries D d') = map_of (filter (\<lambda>e. fst e \<noteq> k) (hd_entries D d))"
      using d'(2) by simp
  qed
  with d'(1) show thesis by (intro that) (simp_all add: map_of_eq_None_iff)
qed

lemma delete_all_entries:
  assumes "heed_laws D" and "list_all lmdb_key ks" and "distinct ks"
    and "set ks \<subseteq> fst ` set (hd_entries D d)"
  shows "hd_entries D (fst (delete_all D ks d n)) = filter (\<lambda>e. fst e \<notin> set ks) (hd_entries D d) \<and>
    snd (delete_all D ks d n) = n + length ks"
  using assms(2-)
proof (induction ks arbitrary: d n)
  case (Cons k ks)
  have k: "lmdb_key k" using Cons.prems(1) by simp
  obtain d' where d': "hd_delete D k d = Some (d', k \<in> fst ` set (hd_entries D d))"
    "hd_entries D d' = filter (\<lambda>e. fst e \<noteq> k) (hd_entries D d)"
    using heed_delete_entries [OF assms(1) k] .
  have "set ks \<subseteq> fst ` set (hd_entries D d')"
  proof
    fix x assume x: "x \<in> set ks"
    then have "x \<in> fst ` set (hd_entries D d)" "x \<noteq> k" using Cons.prems by auto
    then show "x \<in> fst ` set (hd_entries D d')" using d'(2) by force
  qed
  from Cons.IH [OF _ _ this, of "n + 1"] Cons.prems d' show ?case
    by (auto simp: conj_commute intro: filter_cong)
qed simp

subsection \<open>A concrete instance, for evaluation\<close>

text \<open>A database as its sorted association list.\<close>

fun ins_entry :: "string \<Rightarrow> string \<Rightarrow> (string \<times> string) list \<Rightarrow> (string \<times> string) list" where
  "ins_entry k v [] = [(k, v)]"
| "ins_entry k v ((k', v') # es) =
     (if k < k' then (k, v) # (k', v') # es
      else if k = k' then (k, v) # es
      else (k', v') # ins_entry k v es)"

typedef sorted_db = "{es :: (string \<times> string) list. sorted_wrt (<) (map fst es)}"
  by (rule exI [of _ "[]"]) simp

setup_lifting type_definition_sorted_db

lemma ins_entry_keys: "fst ` set (ins_entry k v es) = insert k (fst ` set es)"
proof (induction es)
  case (Cons e es)
  then show ?case by (cases e) (simp add: insert_commute)
qed simp

lemma ins_entry_sorted: "sorted_wrt (<) (map fst es) \<Longrightarrow> sorted_wrt (<) (map fst (ins_entry k v es))"
proof (induction es)
  case (Cons e es)
  obtain k' v' where e: "e = (k', v')" by (cases e)
  have "\<forall>x \<in> fst ` set (ins_entry k v es). k' < x" if "\<not> k < k'" "k \<noteq> k'"
    using that Cons.prems e by (auto simp: ins_entry_keys)
  then show ?case using Cons e by (auto dest: order_less_trans)
qed simp

lemma map_of_ins_entry: "map_of (ins_entry k v es) = (map_of es)(k \<mapsto> v)"
  by (induction es) auto

lift_definition sdb_entries :: "sorted_db \<Rightarrow> (string \<times> string) list" is "\<lambda>es. es" .

lift_definition sdb_empty :: sorted_db is "[]" by simp

lift_definition sdb_put :: "string \<Rightarrow> string \<Rightarrow> sorted_db \<Rightarrow> sorted_db" is ins_entry
  by (rule ins_entry_sorted)

lift_definition sdb_delete :: "string \<Rightarrow> sorted_db \<Rightarrow> sorted_db" is
  "\<lambda>k es. filter (\<lambda>e. fst e \<noteq> k) es"
  by (simp add: sorted_wrt_map sorted_wrt_filter)

definition sorted_heed :: "sorted_db heed" where
  "sorted_heed = \<lparr>hd_read_txn = (\<lambda>d. True), hd_write_txn = (\<lambda>d. True), hd_commit = (\<lambda>d. True),
     hd_get = (\<lambda>d k. if lmdb_key k then Some (map_of (sdb_entries d) k) else None),
     hd_iter = (\<lambda>d. Some (sdb_entries d)),
     hd_last = (\<lambda>d. Some (if sdb_entries d = [] then None else Some (last (sdb_entries d)))),
     hd_put = (\<lambda>k v d. if lmdb_key k then Some (sdb_put k v d) else None),
     hd_delete = (\<lambda>k d. if lmdb_key k then Some (sdb_delete k d, map_of (sdb_entries d) k \<noteq> None) else None),
     hd_clear = (\<lambda>d. Some sdb_empty)\<rparr>"

lemma sdb_simps [simp]:
  "sdb_entries sdb_empty = []"
  "sdb_entries (sdb_put k v d) = ins_entry k v (sdb_entries d)"
  "sdb_entries (sdb_delete k d) = filter (\<lambda>e. fst e \<noteq> k) (sdb_entries d)"
  by (transfer, simp)+

lemma sorted_heed_laws [simp]: "heed_laws sorted_heed"
proof -
  have sorted: "sorted_wrt (<) (map fst (sdb_entries d))" for d by transfer
  have del: "map_of (filter (\<lambda>e. fst e \<noteq> k) es) = (map_of es)(k := None)"
    for k and es :: "(string \<times> string) list"
    by (induction es) auto
  show ?thesis
    by (simp add: heed_laws_def sorted_heed_def hd_entries_def sorted map_of_ins_entry del)
qed

lemma sorted_heed_entries [simp]: "hd_entries sorted_heed = sdb_entries"
  by (simp add: fun_eq_iff hd_entries_def sorted_heed_def)

text \<open>An encoding of any countable type, for evaluation: the number of the value in decimal.\<close>

definition nat_serde :: "'a::countable serde" where
  "nat_serde = \<lparr>sd_to_string = (\<lambda>x. show_nat (to_nat x)),
     sd_from_str = (\<lambda>s. map_option from_nat (parse_nat s))\<rparr>"

lemma nat_serde_laws [simp]: "serde_laws nat_serde"
  by (simp add: serde_laws_def nat_serde_def parse_nat_digits)

lemma nat_serde_inverse [simp]: "sd_from_str nat_serde (sd_to_string nat_serde x) = Some x"
  by (simp add: nat_serde_def parse_nat_digits)

end
