(* ===== verification/Ingest.thy ===== *)
theory Ingest
  imports Heed Migration "HOL-Library.Sublist"
begin

text \<open>
  The durable ingest queue, \<^verbatim>\<open>src/ingest.rs\<close>: a write-ahead log on two LMDB databases, \<^verbatim>\<open>queue\<close>
  (sequence number to operation) and \<^verbatim>\<open>meta\<close> (the committed cursor), drained into a \<^verbatim>\<open>WriteSink\<close>.

  The databases are values of the parameter \<open>D\<close>, operations are encoded by the parameter \<open>S\<close>. A
  failing write transaction panics (\<^verbatim>\<open>expect\<close>), which is the result \<open>None\<close>. A sink is its method
  \<^verbatim>\<open>apply\<close>, a function on the sink's state that may report an error. A crash loses the record
  \<open>ingest_queue\<close> and keeps the two databases; \<open>ingest_open\<close> rebuilds the record from them.
\<close>

subsection \<open>The queue\<close>

datatype 'v ingest_op =
  IngestPut string string 'v | IngestSetAdd string string string
| IngestSetRemove string string string | IngestDelete string string

type_synonym ('w, 'v) sink = "'v ingest_op \<Rightarrow> 'w \<Rightarrow> 'w \<times> (string + unit)"

definition COMMITTED :: string where
  "COMMITTED = ''committed''"

definition ingest_key :: "u64 \<Rightarrow> string" where
  "ingest_key seq = pad_zeros 20 (show_u64 seq)"

record 'd ingest_queue =
  iq_queue :: 'd
  iq_meta :: 'd
  iq_next :: u64
  iq_committed :: u64

text \<open>\<open>None\<close> is the error result: a transaction does not open, or a read in it fails. The
  databases are those that \<^verbatim>\<open>create_database\<close> returns for the two names.\<close>

definition ingest_open :: "'d heed \<Rightarrow> 'd \<Rightarrow> 'd \<Rightarrow> 'd ingest_queue option" where
  "ingest_open D queue meta =
     (if hd_write_txn D queue \<and> hd_commit D queue \<and> hd_read_txn D queue then
        (case (hd_last D queue, hd_get D meta COMMITTED) of
           (Some lst, Some com) \<Rightarrow>
             Some \<lparr>iq_queue = queue, iq_meta = meta,
               iq_next = (case lst of None \<Rightarrow> 0
                 | Some (k, _) \<Rightarrow> (case parse_u64 k of None \<Rightarrow> 0 | Some n \<Rightarrow> n)) + 1,
               iq_committed = (case com of None \<Rightarrow> 0
                 | Some v \<Rightarrow> (case parse_u64 v of None \<Rightarrow> 0 | Some n \<Rightarrow> n))\<rparr>
         | _ \<Rightarrow> None)
      else None)"

definition enqueue :: "'d heed \<Rightarrow> 'v ingest_op serde \<Rightarrow> 'v ingest_op \<Rightarrow> 'd ingest_queue
    \<Rightarrow> ('d ingest_queue \<times> u64) option" where
  "enqueue D S op q =
     (let seq = iq_next q in
      if \<not> hd_write_txn D (iq_queue q) then None
      else case hd_put D (ingest_key seq) (sd_to_string S op) (iq_queue q) of
        None \<Rightarrow> None
      | Some d \<Rightarrow>
          if hd_commit D d then Some (q\<lparr>iq_queue := d, iq_next := seq + 1\<rparr>, seq) else None)"

definition ingest_latest_seq :: "'d ingest_queue \<Rightarrow> u64" where
  "ingest_latest_seq q = saturating_sub (iq_next q) 1"

definition committed :: "'d ingest_queue \<Rightarrow> u64" where
  "committed q = iq_committed q"

definition pending :: "'d ingest_queue \<Rightarrow> u64" where
  "pending q = saturating_sub (ingest_latest_seq q) (committed q)"

fun collect_ops :: "'v ingest_op serde \<Rightarrow> u64 \<Rightarrow> nat \<Rightarrow> (string \<times> string) list
    \<Rightarrow> (u64 \<times> 'v ingest_op) list \<Rightarrow> (u64 \<times> 'v ingest_op) list" where
  "collect_ops S from limit [] out = out"
| "collect_ops S from limit ((k, v) # items) out =
     (case parse_u64 k of
        None \<Rightarrow> collect_ops S from limit items out
      | Some seq \<Rightarrow>
          if seq > from then
            (case sd_from_str S v of
               None \<Rightarrow> collect_ops S from limit items out
             | Some op \<Rightarrow>
                 (let out = out @ [(seq, op)] in
                  if length out \<ge> limit then out else collect_ops S from limit items out))
          else collect_ops S from limit items out)"

definition read_uncommitted :: "'d heed \<Rightarrow> 'v ingest_op serde \<Rightarrow> 'd ingest_queue \<Rightarrow> u64 \<Rightarrow> nat
    \<Rightarrow> (u64 \<times> 'v ingest_op) list" where
  "read_uncommitted D S q from limit =
     (if \<not> hd_read_txn D (iq_queue q) then []
      else case hd_iter D (iq_queue q) of
        None \<Rightarrow> []
      | Some items \<Rightarrow> collect_ops S from limit items [])"

definition persist_committed :: "'d heed \<Rightarrow> u64 \<Rightarrow> 'd ingest_queue \<Rightarrow> 'd ingest_queue option" where
  "persist_committed D seq q =
     (if \<not> hd_write_txn D (iq_meta q) then None
      else case hd_put D COMMITTED (show_u64 seq) (iq_meta q) of
        None \<Rightarrow> None
      | Some d \<Rightarrow> if hd_commit D d then Some (q\<lparr>iq_meta := d, iq_committed := seq\<rparr>) else None)"

fun applied_keys :: "u64 \<Rightarrow> (string \<times> string) list \<Rightarrow> string list" where
  "applied_keys com [] = []"
| "applied_keys com ((k, v) # items) =
     (case parse_u64 k of
        Some seq \<Rightarrow> if seq \<le> com then k # applied_keys com items else []
      | None \<Rightarrow> applied_keys com items)"

definition ingest_compact :: "'d heed \<Rightarrow> 'd ingest_queue \<Rightarrow> 'd ingest_queue \<times> nat" where
  "ingest_compact D q =
     (if committed q = 0 then (q, 0)
      else if \<not> hd_read_txn D (iq_queue q) then (q, 0)
      else case hd_iter D (iq_queue q) of
        None \<Rightarrow> (q, 0)
      | Some items \<Rightarrow>
          (let to_delete = applied_keys (committed q) items in
           if to_delete = [] then (q, 0)
           else if \<not> hd_write_txn D (iq_queue q) then (q, 0)
           else let (d, removed) = delete_all D to_delete (iq_queue q) 0 in
             if hd_commit D d then (q\<lparr>iq_queue := d\<rparr>, removed) else (q, 0)))"

fun drain_loop :: "('w, 'v) sink \<Rightarrow> (u64 \<times> 'v ingest_op) list \<Rightarrow> u64 \<Rightarrow> nat \<Rightarrow> 'w \<Rightarrow> 'w \<times> u64 \<times> nat" where
  "drain_loop sink [] last_ok applied w = (w, last_ok, applied)"
| "drain_loop sink ((seq, op) # ops) last_ok applied w =
     (case sink op w of
        (w, Inr _) \<Rightarrow> drain_loop sink ops seq (applied + 1) w
      | (w, Inl _) \<Rightarrow> (w, last_ok, applied))"

definition drain :: "'d heed \<Rightarrow> 'v ingest_op serde \<Rightarrow> ('w, 'v) sink \<Rightarrow> nat \<Rightarrow> 'd ingest_queue \<Rightarrow> 'w
    \<Rightarrow> ('d ingest_queue \<times> 'w \<times> nat) option" where
  "drain D S sink limit q w =
     (let from = committed q;
          ops = read_uncommitted D S q from limit;
          (w, last_ok, applied) = drain_loop sink ops from 0 w in
      if last_ok > from then
        (case persist_committed D last_ok q of
           None \<Rightarrow> None
         | Some q \<Rightarrow> Some (fst (ingest_compact D q), w, applied))
      else Some (q, w, applied))"

text \<open>The cluster as a sink; and one round of the background drainer.\<close>

definition cluster_sink :: "('c, 'w, 'v) shard_client \<Rightarrow> 'c cluster \<Rightarrow> ('w, 'v) sink" where
  "cluster_sink C cl op w = (case op of
       IngestPut coll key value \<Rightarrow> (cluster_put C cl coll key value w, Inr ())
     | IngestSetAdd coll key member \<Rightarrow> (cluster_set_add C cl coll key member w, Inr ())
     | IngestSetRemove coll key member \<Rightarrow> (cluster_set_remove C cl coll key member w, Inr ())
     | IngestDelete coll key \<Rightarrow> (cluster_delete C cl coll key w, Inr ()))"

definition drainer_round :: "'d heed \<Rightarrow> 'v ingest_op serde \<Rightarrow> ('w, 'v) sink \<Rightarrow> 'd ingest_queue \<Rightarrow> 'w
    \<Rightarrow> ('d ingest_queue \<times> 'w \<times> nat) option" where
  "drainer_round D S sink = drain D S sink 1024"

subsection \<open>The abstract queue\<close>

text \<open>The accepted operations still to be applied, in order.\<close>

fun queued :: "'v ingest_op serde \<Rightarrow> (string \<times> string) list \<Rightarrow> (u64 \<times> 'v ingest_op) list" where
  "queued S [] = []"
| "queued S ((k, v) # items) = (case (parse_u64 k, sd_from_str S v) of
       (Some seq, Some op) \<Rightarrow> (seq, op) # queued S items | _ \<Rightarrow> queued S items)"

definition backlog :: "'d heed \<Rightarrow> 'v ingest_op serde \<Rightarrow> 'd ingest_queue \<Rightarrow> (u64 \<times> 'v ingest_op) list" where
  "backlog D S q = filter (\<lambda>(seq, op). iq_committed q < seq) (queued S (hd_entries D (iq_queue q)))"

definition pending_ops :: "'d heed \<Rightarrow> 'v ingest_op serde \<Rightarrow> 'd ingest_queue \<Rightarrow> 'v ingest_op list" where
  "pending_ops D S q = map snd (backlog D S q)"

text \<open>Applying a list of operations up to the first failure: the sink and the number applied.\<close>

fun apply_ops :: "('w, 'v) sink \<Rightarrow> 'v ingest_op list \<Rightarrow> 'w \<Rightarrow> 'w \<times> nat" where
  "apply_ops sink [] w = (w, 0)"
| "apply_ops sink (op # ops) w = (case sink op w of
       (w, Inr _) \<Rightarrow> (let (w, n) = apply_ops sink ops w in (w, Suc n))
     | (w, Inl _) \<Rightarrow> (w, 0))"

definition entry_ok :: "'v ingest_op serde \<Rightarrow> u64 \<Rightarrow> string \<times> string \<Rightarrow> bool" where
  "entry_ok S nxt = (\<lambda>(k, v). (case parse_u64 k of None \<Rightarrow> False
     | Some seq \<Rightarrow> k = ingest_key seq \<and> 0 < seq \<and> seq < nxt) \<and> sd_from_str S v \<noteq> None)"

fun cursor_ok :: "string option \<Rightarrow> u64 \<Rightarrow> bool" where
  "cursor_ok None com \<longleftrightarrow> com = 0"
| "cursor_ok (Some v) com \<longleftrightarrow> parse_u64 v = Some com"

definition iq_ok :: "'d heed \<Rightarrow> 'v ingest_op serde \<Rightarrow> 'd ingest_queue \<Rightarrow> bool" where
  "iq_ok D S q \<longleftrightarrow> list_all (entry_ok S (iq_next q)) (hd_entries D (iq_queue q)) \<and>
     iq_committed q < iq_next q \<and>
     (hd_entries D (iq_queue q) \<noteq> [] \<longrightarrow> fst (last (hd_entries D (iq_queue q))) = ingest_key (iq_next q - 1)) \<and>
     cursor_ok (map_of (hd_entries D (iq_meta q)) COMMITTED) (iq_committed q)"

lemma ingest_key_parse [simp]: "parse_u64 (ingest_key s) = Some s"
  by (simp add: ingest_key_def)

lemma ingest_key_less [simp]: "ingest_key s < ingest_key t \<longleftrightarrow> s < t"
  by (simp add: ingest_key_def pad_u64_less_iff)

lemma ingest_key_valid [simp]: "lmdb_key (ingest_key s)" "lmdb_key COMMITTED"
  by (simp_all add: lmdb_key_def ingest_key_def COMMITTED_def)

lemma entry_okE:
  assumes "entry_ok S nxt e"
  obtains seq op v where "e = (ingest_key seq, v)" and "0 < seq" and "seq < nxt"
    and "sd_from_str S v = Some op"
  using assms by (auto simp: entry_ok_def split: option.splits prod.splits)

lemma queued_append: "queued S (xs @ ys) = queued S xs @ queued S ys"
  by (induction xs rule: queued.induct) (auto split: option.splits)

lemma queued_bounds:
  assumes "list_all (entry_ok S nxt) es" and "(seq, op) \<in> set (queued S es)"
  shows "0 < seq \<and> seq < nxt \<and> ingest_key seq \<in> fst ` set es"
  using assms
proof (induction es)
  case (Cons e es)
  from Cons.prems(1) obtain s op' v where e: "e = (ingest_key s, v)" "0 < s" "s < nxt"
    "sd_from_str S v = Some op'" by (auto elim: entry_okE)
  with Cons show ?case by auto
qed simp

lemma queued_sorted:
  assumes "list_all (entry_ok S nxt) es" and "sorted_wrt (<) (map fst es)"
  shows "sorted_wrt (<) (map fst (queued S es))"
  using assms
proof (induction es)
  case (Cons e es)
  from Cons.prems(1) obtain s op' v where e: "e = (ingest_key s, v)" "0 < s" "s < nxt"
    "sd_from_str S v = Some op'" by (auto elim: entry_okE)
  have "s < t" if "(t, op) \<in> set (queued S es)" for t op
  proof -
    have "ingest_key t \<in> fst ` set es" using queued_bounds that Cons.prems(1) by (metis list.pred_inject(2))
    with Cons.prems(2) e have "ingest_key s < ingest_key t" by (fastforce simp del: ingest_key_less)
    then show ?thesis by simp
  qed
  with Cons e show ?case by auto
qed simp

lemma last_filter_above:
  fixes es :: "('k::linorder \<times> 'a) list"
  assumes "sorted_wrt (<) (map fst es)" and "filter (\<lambda>e. k < fst e) es \<noteq> []"
  shows "last (filter (\<lambda>e. k < fst e) es) = last es"
  using assms
proof (induction es rule: rev_induct)
  case (snoc e es)
  then have "\<forall>x \<in> set es. fst x < fst e" by (simp add: sorted_wrt_append)
  moreover from snoc.prems(2) obtain x where "x \<in> set (es @ [e])" "k < fst x"
    unfolding filter_empty_conv by blast
  ultimately have "k < fst e" by auto
  then show ?case by simp
qed simp

subsection \<open>The loops\<close>

lemma collect_ops_eq:
  assumes "list_all (entry_ok S nxt) es" and "length out < max 1 limit"
  shows "collect_ops S from limit es out =
    out @ take (max 1 limit - length out) (filter (\<lambda>(seq, op). from < seq) (queued S es))"
  using assms
proof (induction es arbitrary: out)
  case (Cons e es)
  from Cons.prems(1) obtain s op v where e: "e = (ingest_key s, v)" "0 < s" "s < nxt"
    "sd_from_str S v = Some op" by (auto elim: entry_okE)
  show ?case
  proof (cases "from < s")
    case True
    show ?thesis
    proof (cases "limit \<le> Suc (length out)")
      case full: True
      then have "max 1 limit - length out = 1" using Cons.prems(2) by linarith
      with True full e show ?thesis by (simp add: Let_def)
    next
      case False
      then have "max 1 limit - length out = Suc (max 1 limit - Suc (length out))"
        using Cons.prems(2) by linarith
      with True False e Cons show ?thesis by (simp add: Let_def)
    qed
  qed (use Cons e in simp)
qed simp

lemma applied_keys_eq:
  assumes "list_all (entry_ok S nxt) es" and "sorted_wrt (<) (map fst es)"
  shows "applied_keys com es = map fst (filter (\<lambda>e. fst e \<le> ingest_key com) es)"
  using assms
proof (induction es)
  case (Cons e es)
  from Cons.prems(1) obtain s op v where e: "e = (ingest_key s, v)" by (auto elim: entry_okE)
  have le: "ingest_key s \<le> ingest_key com \<longleftrightarrow> s \<le> com"
    using ingest_key_less [of com s] by (metis linorder_not_less)
  show ?case
  proof (cases "s \<le> com")
    case False
    have "filter (\<lambda>e. fst e \<le> ingest_key com) es = []"
      using Cons.prems(2) e le False by (fastforce simp: filter_empty_conv)
    with False le e show ?thesis by simp
  qed (use Cons e le in simp)
qed simp

lemma drain_loop_eq:
  assumes "apply_ops sink (map snd ops) w = (w', n)"
  shows "drain_loop sink ops last_ok k w =
    (w', (if n = 0 then last_ok else fst (ops ! (n - 1))), k + n)"
  using assms
proof (induction ops arbitrary: last_ok k w n)
  case (Cons p ops)
  obtain s op where p: "p = (s, op)" by (cases p)
  show ?case
  proof (cases "sink op w")
    case (Pair w1 r)
    show ?thesis
    proof (cases r)
      case (Inr u)
      then obtain m where m: "apply_ops sink (map snd ops) w1 = (w', m)" "n = Suc m"
        using Cons.prems p Pair by (auto split: prod.splits)
      with Cons.IH [OF m(1)] p Pair Inr show ?thesis by (cases m) simp_all
    qed (use Cons.prems p Pair in auto)
  qed
qed simp

lemma apply_ops_bound: "snd (apply_ops sink ops w) \<le> length ops"
  by (induction ops arbitrary: w) (auto split: sum.splits prod.splits, metis snd_conv)

subsection \<open>Each operation on the abstract queue\<close>

lemma backlog_sorted:
  assumes "heed_laws D" and "iq_ok D S q"
  shows "sorted_wrt (<) (map fst (backlog D S q))"
  using queued_sorted heed_sorted [OF assms(1)] assms(2)
  by (auto simp: backlog_def iq_ok_def sorted_wrt_map intro!: sorted_wrt_filter)

definition log_ok :: "'d heed \<Rightarrow> 'v ingest_op serde \<Rightarrow> 'd ingest_queue \<Rightarrow> bool" where
  "log_ok D S q \<longleftrightarrow> 0 < iq_next q \<and> list_all (entry_ok S (iq_next q)) (hd_entries D (iq_queue q))"

lemma enqueue_log:
  assumes D: "heed_laws D" and S: "serde_laws S" and log: "log_ok D S q" and room: "iq_next q < - 1"
  obtains d where
    "enqueue D S op q = Some (q\<lparr>iq_queue := d, iq_next := iq_next q + 1\<rparr>, iq_next q)"
    and "log_ok D S (q\<lparr>iq_queue := d, iq_next := iq_next q + 1\<rparr>)"
    and "hd_entries D d = hd_entries D (iq_queue q) @ [(ingest_key (iq_next q), sd_to_string S op)]"
proof -
  let ?n = "iq_next q" and ?es = "hd_entries D (iq_queue q)"
  have es: "list_all (entry_ok S ?n) ?es" "0 < ?n" using log by (simp_all add: log_ok_def)
  have grow: "?n < ?n + 1" using room by (rule u64_less_Suc)
  have "k < ingest_key ?n" if k: "k \<in> fst ` set ?es" for k
  proof -
    from k obtain e where "e \<in> set ?es" "k = fst e" by blast
    with es obtain s op v where "e = (ingest_key s, v)" "s < ?n"
      by (metis entry_okE list_all_iff)
    with \<open>k = fst e\<close> show ?thesis by simp
  qed
  then obtain d where d: "hd_put D (ingest_key ?n) (sd_to_string S op) (iq_queue q) = Some d"
    "hd_entries D d = ?es @ [(ingest_key ?n, sd_to_string S op)]"
    using heed_put_last [OF D] by (metis ingest_key_valid(1))
  have "entry_ok S (?n + 1) e" if "entry_ok S ?n e" for e
    using that grow by (auto simp: entry_ok_def split: option.splits)
  then have "log_ok D S (q\<lparr>iq_queue := d, iq_next := ?n + 1\<rparr>)"
    using d es grow S by (auto simp: log_ok_def list_all_iff entry_ok_def serde_laws_def)
  moreover have "enqueue D S op q = Some (q\<lparr>iq_queue := d, iq_next := ?n + 1\<rparr>, ?n)"
    using d heed_txns [OF D] by (simp add: enqueue_def Let_def)
  ultimately show thesis using d(2) by (intro that)
qed

lemma enqueue_refines:
  assumes D: "heed_laws D" and S: "serde_laws S" and ok: "iq_ok D S q" and room: "iq_next q < - 1"
  obtains q' where "enqueue D S op q = Some (q', iq_next q)" and "iq_ok D S q'"
    and "pending_ops D S q' = pending_ops D S q @ [op]"
    and "hd_entries D (iq_queue q') \<noteq> []" and "iq_committed q' = iq_committed q"
    and "iq_next q' = iq_next q + 1"
proof -
  let ?n = "iq_next q"
  have com: "iq_committed q < ?n" using ok by (simp add: iq_ok_def)
  then have "0 < ?n" by (metis word_neq_0_conv word_not_simps(1))
  then have "log_ok D S q" using ok by (simp add: iq_ok_def log_ok_def)
  then obtain d where d: "enqueue D S op q = Some (q\<lparr>iq_queue := d, iq_next := ?n + 1\<rparr>, ?n)"
    "log_ok D S (q\<lparr>iq_queue := d, iq_next := ?n + 1\<rparr>)"
    "hd_entries D d = hd_entries D (iq_queue q) @ [(ingest_key ?n, sd_to_string S op)]"
    using enqueue_log [OF D S _ room] by metis
  let ?q = "q\<lparr>iq_queue := d, iq_next := ?n + 1\<rparr>"
  have "iq_ok D S ?q"
    using ok d(2,3) com u64_less_Suc [OF room] by (auto simp: iq_ok_def log_ok_def)
  moreover have "pending_ops D S ?q = pending_ops D S q @ [op]"
    using d(3) com S by (simp add: pending_ops_def backlog_def queued_append serde_laws_def)
  ultimately show thesis using d by (intro that [of ?q]) simp_all
qed

lemma compact_refines:
  assumes D: "heed_laws D" and ok: "iq_ok D S q"
  shows "iq_ok D S (fst (ingest_compact D q)) \<and> backlog D S (fst (ingest_compact D q)) = backlog D S q \<and>
    iq_meta (fst (ingest_compact D q)) = iq_meta q \<and> iq_next (fst (ingest_compact D q)) = iq_next q \<and>
    iq_committed (fst (ingest_compact D q)) = iq_committed q"
proof -
  let ?es = "hd_entries D (iq_queue q)" and ?com = "iq_committed q"
  let ?ks = "applied_keys ?com ?es"
  have es: "list_all (entry_ok S (iq_next q)) ?es" using ok by (simp add: iq_ok_def)
  note srt = heed_sorted [OF D, of "iq_queue q"]
  have ks: "?ks = map fst (filter (\<lambda>e. fst e \<le> ingest_key ?com) ?es)" by (rule applied_keys_eq [OF es srt])
  have good: "list_all lmdb_key ?ks"
    using es unfolding ks by (auto simp: list_all_iff) (metis entry_okE fst_conv ingest_key_valid(1))
  have dist: "distinct ?ks" unfolding ks using heed_distinct [OF D] by (rule distinct_map_filter)
  have sub: "set ?ks \<subseteq> fst ` set ?es" unfolding ks by auto
  obtain d n where dn: "delete_all D ?ks (iq_queue q) 0 = (d, n)" by (cases "delete_all D ?ks (iq_queue q) 0")
  with delete_all_entries [OF D good dist sub, of 0] have "hd_entries D d = filter (\<lambda>e. fst e \<notin> set ?ks) ?es"
    by simp
  also have "\<dots> = filter (\<lambda>e. ingest_key ?com < fst e) ?es"
    unfolding ks by (rule filter_cong) (auto simp: not_le)
  finally have ents: "hd_entries D d = filter (\<lambda>e. ingest_key ?com < fst e) ?es" .
  have q: "filter (\<lambda>(seq, op). ?com < seq) (queued S (filter (\<lambda>e. ingest_key ?com < fst e) es)) =
      filter (\<lambda>(seq, op). ?com < seq) (queued S es)" if "list_all (entry_ok S (iq_next q)) es" for es
    using that
  proof (induction es)
    case (Cons e es)
    then obtain s op v where "e = (ingest_key s, v)" "sd_from_str S v = Some op" by (auto elim: entry_okE)
    with Cons show ?case by simp
  qed simp
  let ?q = "q\<lparr>iq_queue := d\<rparr>"
  have "last (filter (\<lambda>e. ingest_key ?com < fst e) ?es) = last ?es"
    if "filter (\<lambda>e. ingest_key ?com < fst e) ?es \<noteq> []"
    using srt that by (rule last_filter_above)
  then have "iq_ok D S ?q" using ok ents by (auto simp: iq_ok_def list_all_iff simp del: ingest_key_less)
  moreover have "backlog D S ?q = backlog D S q" using q [OF es] ents by (simp add: backlog_def)
  ultimately show ?thesis
    using ok dn heed_txns [OF D] heed_iter [OF D]
    by (simp add: ingest_compact_def Let_def committed_def)
qed

lemma persist_refines:
  assumes D: "heed_laws D" and ok: "iq_ok D S q" and "iq_committed q \<le> seq" and "seq < iq_next q"
  obtains q' where "persist_committed D seq q = Some q'" and "iq_ok D S q'"
    and "backlog D S q' = filter (\<lambda>(s, op). seq < s) (backlog D S q)"
    and "iq_queue q' = iq_queue q" and "iq_committed q' = seq" and "iq_next q' = iq_next q"
proof -
  obtain d where d: "hd_put D COMMITTED (show_u64 seq) (iq_meta q) = Some d"
    "map_of (hd_entries D d) = (map_of (hd_entries D (iq_meta q)))(COMMITTED \<mapsto> show_u64 seq)"
    using heed_put [OF D ingest_key_valid(2)] .
  let ?q = "q\<lparr>iq_meta := d, iq_committed := seq\<rparr>"
  have "iq_ok D S ?q" using ok d assms(4) by (simp add: iq_ok_def)
  moreover have "backlog D S ?q = filter (\<lambda>(s, op). seq < s) (backlog D S q)"
    using assms(3) by (auto simp: backlog_def intro!: filter_cong)
  moreover have "persist_committed D seq q = Some ?q"
    using d heed_txns [OF D] by (simp add: persist_committed_def)
  ultimately show thesis by (intro that [of ?q]) simp_all
qed

lemma sorted_filter_drop:
  fixes xs :: "('k::linorder \<times> 'a) list"
  assumes "sorted_wrt (<) (map fst xs)" and "n < length xs"
  shows "filter (\<lambda>(s, a). fst (xs ! n) < s) xs = drop (Suc n) xs"
  using assms
proof (induction xs arbitrary: n)
  case (Cons x xs)
  show ?case
  proof (cases n)
    case 0
    with Cons.prems show ?thesis by (auto simp: filter_id_conv split: prod.splits)
  next
    case (Suc m)
    then have "fst x < fst (xs ! m)" using Cons.prems by simp
    then have "\<not> fst (xs ! m) < fst x" by simp
    with Suc Cons show ?thesis by (cases x) simp
  qed
qed simp

lemma read_uncommitted_eq:
  assumes "heed_laws D" and "iq_ok D S q"
  shows "read_uncommitted D S q (iq_committed q) limit = take (max 1 limit) (backlog D S q)"
  using collect_ops_eq [of S "iq_next q" "hd_entries D (iq_queue q)" "[]" limit "iq_committed q"]
    heed_txns [OF assms(1)] heed_iter [OF assms(1)] assms(2)
  by (simp add: read_uncommitted_def backlog_def iq_ok_def)

lemma persist_drop:
  assumes D: "heed_laws D" and ok: "iq_ok D S q" and m: "m < length (backlog D S q)"
  obtains q' where "persist_committed D (fst (backlog D S q ! m)) q = Some q'" and "iq_ok D S q'"
    and "backlog D S q' = drop (Suc m) (backlog D S q)" and "iq_queue q' = iq_queue q"
    and "iq_next q' = iq_next q" and "iq_committed q < fst (backlog D S q ! m)"
proof -
  let ?s = "fst (backlog D S q ! m)"
  have es: "list_all (entry_ok S (iq_next q)) (hd_entries D (iq_queue q))" using ok by (simp add: iq_ok_def)
  have "backlog D S q ! m \<in> set (backlog D S q)" using m by simp
  then have s: "iq_committed q < ?s" "?s < iq_next q"
    using queued_bounds [OF es, of ?s "snd (backlog D S q ! m)"]
    by (auto simp: backlog_def split: prod.splits)
  obtain q' where "persist_committed D ?s q = Some q'" "iq_ok D S q'"
      "backlog D S q' = filter (\<lambda>(t, op). ?s < t) (backlog D S q)"
      "iq_queue q' = iq_queue q" "iq_next q' = iq_next q"
    using persist_refines [OF D ok less_imp_le [OF s(1)] s(2)] by blast
  then show thesis
    using that [of q'] sorted_filter_drop [OF backlog_sorted [OF D ok] m] s(1) by simp
qed

lemma drain_refines:
  assumes D: "heed_laws D" and ok: "iq_ok D S q"
  obtains q' w' n where "drain D S sink limit q w = Some (q', w', n)" and "iq_ok D S q'"
    and "(w', n) = apply_ops sink (take (max 1 limit) (pending_ops D S q)) w"
    and "pending_ops D S q' = drop n (pending_ops D S q)" and "iq_next q' = iq_next q"
proof -
  let ?b = "backlog D S q" and ?com = "iq_committed q"
  note rd = read_uncommitted_eq [OF D ok, of limit]
  obtain w' n where app: "apply_ops sink (map snd (take (max 1 limit) ?b)) w = (w', n)"
    by (cases "apply_ops sink (map snd (take (max 1 limit) ?b)) w")
  have n: "n \<le> length ?b" "n \<le> max 1 limit"
    using apply_ops_bound [of sink "map snd (take (max 1 limit) ?b)" w] app by simp_all
  note loop = drain_loop_eq [OF app, of ?com 0]
  show thesis
  proof (cases n)
    case 0
    show thesis
    proof (rule that [of q w' n])
      show "drain D S sink limit q w = Some (q, w', n)"
        using 0 loop rd by (simp add: drain_def committed_def Let_def)
      show "(w', n) = apply_ops sink (take (max 1 limit) (pending_ops D S q)) w"
        using app by (simp add: pending_ops_def take_map)
    qed (use ok 0 in simp_all)
  next
    case (Suc m)
    let ?s = "fst (?b ! m)"
    have at: "take (max 1 limit) ?b ! m = ?b ! m" "m < length ?b" using n Suc by simp_all
    obtain q1 where q1: "persist_committed D ?s q = Some q1" "iq_ok D S q1"
      "backlog D S q1 = drop (Suc m) ?b" "iq_next q1 = iq_next q" and s: "?com < ?s"
      using persist_drop [OF D ok at(2)] by blast
    have b: "backlog D S q1 = drop n ?b" using q1(3) Suc by simp
    note c = compact_refines [OF D q1(2)]
    show thesis
    proof (rule that [of "fst (ingest_compact D q1)" w' n])
      show "drain D S sink limit q w = Some (fst (ingest_compact D q1), w', n)"
        using Suc loop rd s at q1(1) by (simp add: drain_def committed_def Let_def)
      show "pending_ops D S (fst (ingest_compact D q1)) = drop n (pending_ops D S q)"
        using b c by (simp add: pending_ops_def drop_map)
      show "(w', n) = apply_ops sink (take (max 1 limit) (pending_ops D S q)) w"
        using app by (simp add: pending_ops_def take_map)
    qed (use c q1 in simp_all)
  qed
qed

text \<open>Reopening after a crash finds the same operations, if the log is not empty.\<close>

lemma reopen_refines:
  assumes D: "heed_laws D" and ok: "iq_ok D S q"
    and log: "hd_entries D (iq_queue q) \<noteq> [] \<or> iq_committed q = 0"
  obtains q' where "ingest_open D (iq_queue q) (iq_meta q) = Some q'" and "iq_ok D S q'"
    and "pending_ops D S q' = pending_ops D S q"
proof -
  let ?es = "hd_entries D (iq_queue q)"
  let ?nxt = "(if ?es = [] then 0 else iq_next q - 1) + 1"
  let ?q = "\<lparr>iq_queue = iq_queue q, iq_meta = iq_meta q, iq_next = ?nxt, iq_committed = iq_committed q\<rparr>"
  have com: "(case map_of (hd_entries D (iq_meta q)) COMMITTED of None \<Rightarrow> 0
      | Some v \<Rightarrow> (case parse_u64 v of None \<Rightarrow> 0 | Some n \<Rightarrow> n)) = iq_committed q"
    using ok by (cases "map_of (hd_entries D (iq_meta q)) COMMITTED") (auto simp: iq_ok_def)
  have nxt: "(case (if ?es = [] then None else Some (last ?es)) of None \<Rightarrow> 0
      | Some (k, _) \<Rightarrow> (case parse_u64 k of None \<Rightarrow> 0 | Some n \<Rightarrow> n)) + 1 = ?nxt"
    using ok by (auto simp: iq_ok_def case_prod_unfold)
  have "ingest_open D (iq_queue q) (iq_meta q) = Some ?q"
    unfolding ingest_open_def using heed_txns [OF D] heed_last [OF D] heed_get [OF D ingest_key_valid(2)]
    by (simp only: com nxt simp_thms if_True option.case prod.case)
  moreover have "iq_ok D S ?q" using ok log by (auto simp: iq_ok_def)
  moreover have "pending_ops D S ?q = pending_ops D S q" by (simp add: pending_ops_def backlog_def)
  ultimately show thesis by (rule that)
qed

subsection \<open>Runs with crashes\<close>

text \<open>A sink that also records the operations it accepted.\<close>

definition recording :: "('w, 'v) sink \<Rightarrow> ('w \<times> 'v ingest_op list, 'v) sink" where
  "recording sink op = (\<lambda>(w, del). case sink op w of
       (w, Inr u) \<Rightarrow> ((w, del @ [op]), Inr u) | (w, Inl e) \<Rightarrow> ((w, del), Inl e))"

lemma apply_recording:
  "apply_ops (recording sink) ops (w, del) =
     (let (w', n) = apply_ops sink ops w in ((w', del @ take n ops), n))"
  by (induction ops arbitrary: w del) (auto simp: recording_def Let_def split: sum.splits prod.splits)

text \<open>
  A run: the queue, the sink's state with what it was given, and the operations accepted so far.
  A crash may hit between two operations of a drain, or after the cursor is persisted and before
  the log is trimmed; the process then opens the databases again. The premise of the crash steps
  is that the log is not empty, or that nothing has been committed yet.
\<close>

record ('d, 'w, 'v) ingest_run =
  ir_queue :: "'d ingest_queue"
  ir_sink :: "'w \<times> 'v ingest_op list"
  ir_accepted :: "'v ingest_op list"

inductive ingest_step :: "'d heed \<Rightarrow> 'v ingest_op serde \<Rightarrow> ('w, 'v) sink \<Rightarrow> ('d, 'w, 'v) ingest_run
    \<Rightarrow> ('d, 'w, 'v) ingest_run \<Rightarrow> bool" for D S sink where
  accept: "iq_next (ir_queue r) < - 1 \<Longrightarrow> enqueue D S op (ir_queue r) = Some (q, seq) \<Longrightarrow>
    ingest_step D S sink r (r\<lparr>ir_queue := q, ir_accepted := ir_accepted r @ [op]\<rparr>)"
| drain: "drain D S (recording sink) limit (ir_queue r) (ir_sink r) = Some (q, w, n) \<Longrightarrow>
    ingest_step D S sink r (r\<lparr>ir_queue := q, ir_sink := w\<rparr>)"
| crash: "hd_entries D (iq_queue (ir_queue r)) \<noteq> [] \<or> committed (ir_queue r) = 0 \<Longrightarrow>
    drain_loop (recording sink) (take k (read_uncommitted D S (ir_queue r) (committed (ir_queue r)) limit))
      (committed (ir_queue r)) 0 (ir_sink r) = (w, last_ok, n) \<Longrightarrow>
    ingest_open D (iq_queue (ir_queue r)) (iq_meta (ir_queue r)) = Some q \<Longrightarrow>
    ingest_step D S sink r (r\<lparr>ir_queue := q, ir_sink := w\<rparr>)"
| crash_persisted: "hd_entries D (iq_queue (ir_queue r)) \<noteq> [] \<Longrightarrow>
    drain_loop (recording sink) (read_uncommitted D S (ir_queue r) (committed (ir_queue r)) limit)
      (committed (ir_queue r)) 0 (ir_sink r) = (w, last_ok, n) \<Longrightarrow>
    last_ok > committed (ir_queue r) \<Longrightarrow>
    persist_committed D last_ok (ir_queue r) = Some q1 \<Longrightarrow>
    ingest_open D (iq_queue q1) (iq_meta q1) = Some q \<Longrightarrow>
    ingest_step D S sink r (r\<lparr>ir_queue := q, ir_sink := w\<rparr>)"

text \<open>The accepted operations are those given to the sink, in order, followed by the pending ones;
  the sink may have seen some more than once.\<close>

definition at_least_once :: "'d heed \<Rightarrow> 'v ingest_op serde \<Rightarrow> ('d, 'w, 'v) ingest_run \<Rightarrow> bool" where
  "at_least_once D S r \<longleftrightarrow> (\<exists>applied. ir_accepted r = applied @ pending_ops D S (ir_queue r) \<and>
     subseq applied (snd (ir_sink r)))"

lemma subseq_more: "subseq a b \<Longrightarrow> subseq a (b @ c)"
  by (metis append.right_neutral list_emb_Nil list_emb_append_mono)

lemma subseq_take_again: "subseq (a @ take m b) (a' @ take n b)" if "subseq a a'" and "m \<le> n"
proof -
  have "take n b = take m b @ take (n - m) (drop m b)"
    by (metis le_add_diff_inverse take_add that(2))
  then have "subseq (take m b) (take n b)" using subseq_more [OF subseq_order.refl] by metis
  with that(1) show ?thesis by (rule list_emb_append_mono)
qed

text \<open>What the recording sink has seen after part of a drain.\<close>

lemma loop_recording:
  assumes "heed_laws D" and "iq_ok D S q"
    and "drain_loop (recording sink) (take k (read_uncommitted D S q (committed q) limit)) (committed q) 0 (w, del)
      = (wd, last_ok, n)"
  shows "n \<le> length (backlog D S q) \<and> snd wd = del @ take n (pending_ops D S q) \<and>
    last_ok = (if n = 0 then committed q else fst (backlog D S q ! (n - 1)))"
proof -
  define L where "L = min k (max 1 limit)"
  let ?ops = "take L (backlog D S q)"
  obtain w' m where app: "apply_ops sink (map snd ?ops) w = (w', m)" by fastforce
  then have rec: "apply_ops (recording sink) (map snd ?ops) (w, del) = ((w', del @ take m (map snd ?ops)), m)"
    by (simp add: apply_recording)
  have m: "m \<le> length (backlog D S q)" "m \<le> L"
    using apply_ops_bound [of sink "map snd ?ops" w] app by simp_all
  have seen: "take m (map snd ?ops) = take m (pending_ops D S q)"
    using m(2) by (simp add: pending_ops_def take_map min_absorb1)
  have at: "m \<noteq> 0 \<Longrightarrow> ?ops ! (m - 1) = backlog D S q ! (m - 1)" using m(2) by (intro nth_take) linarith
  have "take k (read_uncommitted D S q (committed q) limit) = ?ops"
    by (simp add: committed_def read_uncommitted_eq [OF assms(1,2)] L_def)
  with assms(3) drain_loop_eq [OF rec, of "committed q" 0]
  have "wd = (w', del @ take m (pending_ops D S q))" "n = m"
    "last_ok = (if m = 0 then committed q else fst (?ops ! (m - 1)))" by (auto simp: seen)
  with m(1) at show ?thesis by (cases "m = 0") simp_all
qed

lemma ingest_step_invariant:
  assumes D: "heed_laws D" and S: "serde_laws S" and step: "ingest_step D S sink r r'"
    and ok: "iq_ok D S (ir_queue r)" and del: "at_least_once D S r"
  shows "iq_ok D S (ir_queue r') \<and> at_least_once D S r'"
  using step
proof cases
  case (accept op q seq)
  obtain q' where "enqueue D S op (ir_queue r) = Some (q', iq_next (ir_queue r))" "iq_ok D S q'"
    "pending_ops D S q' = pending_ops D S (ir_queue r) @ [op]"
    using enqueue_refines [OF D S ok accept(2)] .
  moreover obtain applied where "ir_accepted r = applied @ pending_ops D S (ir_queue r)"
    "subseq applied (snd (ir_sink r))" using del unfolding at_least_once_def by blast
  ultimately show ?thesis using accept
    by (simp add: at_least_once_def)
next
  case (drain limit q w n)
  obtain w0 d0 where sink: "ir_sink r = (w0, d0)" by (cases "ir_sink r")
  obtain q' w' n' where q': "drain D S (recording sink) limit (ir_queue r) (ir_sink r) = Some (q', w', n')"
    "iq_ok D S q'" "(w', n') = apply_ops (recording sink) (take (max 1 limit) (pending_ops D S (ir_queue r))) (ir_sink r)"
    "pending_ops D S q' = drop n' (pending_ops D S (ir_queue r))"
    using drain_refines [OF D ok, of "recording sink" limit "ir_sink r"] by metis
  have "n' \<le> max 1 limit"
    using apply_ops_bound q'(3) by (metis length_take min.bounded_iff snd_conv)
  then have seen: "snd w' = d0 @ take n' (pending_ops D S (ir_queue r))"
    using q'(3) by (auto simp: sink apply_recording Let_def min_def split: prod.splits)
  obtain applied where ap: "ir_accepted r = applied @ pending_ops D S (ir_queue r)" "subseq applied d0"
    using del sink by (auto simp: at_least_once_def)
  have "at_least_once D S r'"
    unfolding at_least_once_def
  proof (intro exI [of _ "applied @ take n' (pending_ops D S (ir_queue r))"] conjI)
    show "subseq (applied @ take n' (pending_ops D S (ir_queue r))) (snd (ir_sink r'))"
      using subseq_take_again [OF ap(2) order_refl] seen drain q'(1) by simp
  qed (use drain q' ap(1) in simp)
  with drain q' show ?thesis by simp
next
  case (crash k limit w last_ok n q)
  obtain q' where "ingest_open D (iq_queue (ir_queue r)) (iq_meta (ir_queue r)) = Some q'" "iq_ok D S q'"
    "pending_ops D S q' = pending_ops D S (ir_queue r)"
    using reopen_refines [OF D ok] crash(2) by (auto simp: committed_def)
  moreover have "snd w = snd (ir_sink r) @ take n (pending_ops D S (ir_queue r))"
    using loop_recording [OF D ok] crash(3) by (metis prod.collapse)
  ultimately show ?thesis
    using crash del by (auto simp: at_least_once_def intro: subseq_more)
next
  case (crash_persisted limit w last_ok n q1 q)
  let ?q = "ir_queue r"
  have loop: "n \<le> length (backlog D S ?q)" "snd w = snd (ir_sink r) @ take n (pending_ops D S ?q)"
    "last_ok = (if n = 0 then committed ?q else fst (backlog D S ?q ! (n - 1)))"
    using loop_recording [OF D ok, of sink "length (read_uncommitted D S ?q (committed ?q) limit)" limit
        "fst (ir_sink r)" "snd (ir_sink r)" w last_ok n] crash_persisted(3) by simp_all
  with crash_persisted(4) obtain m where m: "n = Suc m" by (cases n) auto
  with loop crash_persisted(5) obtain ok1: "iq_ok D S q1" and b1: "backlog D S q1 = drop n (backlog D S ?q)"
    and "iq_queue q1 = iq_queue ?q"
    using persist_drop [OF D ok, of m] by auto
  with crash_persisted(2,6) obtain okq: "iq_ok D S q" "pending_ops D S q = pending_ops D S q1"
    using reopen_refines [OF D ok1] by auto
  obtain applied where ap: "ir_accepted r = applied @ pending_ops D S ?q" "subseq applied (snd (ir_sink r))"
    using del by (auto simp: at_least_once_def)
  have "at_least_once D S r'"
    unfolding at_least_once_def
  proof (intro exI [of _ "applied @ take n (pending_ops D S ?q)"] conjI)
    show "ir_accepted r' = (applied @ take n (pending_ops D S ?q)) @ pending_ops D S (ir_queue r')"
      using crash_persisted(1) ap(1) okq(2) b1 by (simp add: pending_ops_def drop_map [symmetric])
    show "subseq (applied @ take n (pending_ops D S ?q)) (snd (ir_sink r'))"
      using subseq_take_again [OF ap(2) order_refl] loop(2) crash_persisted(1) by simp
  qed
  with crash_persisted(1) okq show ?thesis by simp
qed

text \<open>Draining into a sink that never fails.\<close>

fun drain_rounds :: "'d heed \<Rightarrow> 'v ingest_op serde \<Rightarrow> ('w, 'v) sink \<Rightarrow> nat \<Rightarrow> 'd ingest_queue \<Rightarrow> 'w
    \<Rightarrow> ('d ingest_queue \<times> 'w) option" where
  "drain_rounds D S sink 0 q w = Some (q, w)"
| "drain_rounds D S sink (Suc k) q w = (case drainer_round D S sink q w of
       None \<Rightarrow> None | Some (q, w, n) \<Rightarrow> drain_rounds D S sink k q w)"

lemma apply_ops_all:
  assumes "\<And>op w. sink op w = (f op w, Inr ())"
  shows "apply_ops sink ops w = (fold f ops w, length ops)"
  using assms by (induction ops arbitrary: w) simp_all

lemma drain_rounds_all:
  assumes D: "heed_laws D" and sink: "\<And>op w. sink op w = (f op w, Inr ())"
  shows "iq_ok D S q \<Longrightarrow> length (pending_ops D S q) \<le> 1024 * k \<Longrightarrow>
    \<exists>q'. drain_rounds D S sink k q w = Some (q', fold f (pending_ops D S q) w) \<and>
      iq_ok D S q' \<and> pending_ops D S q' = []"
proof (induction k arbitrary: q w)
  case (Suc k)
  let ?p = "pending_ops D S q"
  obtain q1 w1 n where q1: "drain D S sink 1024 q w = Some (q1, w1, n)" "iq_ok D S q1"
    "(w1, n) = apply_ops sink (take (max 1 1024) ?p) w" "pending_ops D S q1 = drop n ?p"
    using drain_refines [OF D Suc.prems(1), of sink 1024 w] by metis
  have w1: "w1 = fold f (take 1024 ?p) w" "n = min (length ?p) 1024"
    using q1(3) by (simp_all add: apply_ops_all [OF sink])
  have rest: "drop n ?p = drop 1024 ?p" using w1(2) by (simp add: min_def)
  have "length (pending_ops D S q1) \<le> 1024 * k" using Suc.prems(2) q1(4) rest by simp
  from Suc.IH [OF q1(2) this, of w1] obtain q' where
    "drain_rounds D S sink k q1 w1 = Some (q', fold f (drop 1024 ?p) w1)" "iq_ok D S q'" "pending_ops D S q' = []"
    using q1(4) rest by auto
  moreover have "fold f (drop 1024 ?p) w1 = fold f ?p w"
    unfolding w1(1) by (metis append_take_drop_id fold_append comp_apply)
  ultimately show ?case using q1(1) by (simp add: drainer_round_def)
qed simp

subsection \<open>The cluster as the sink\<close>

fun ingest_data_op :: "'v ingest_op \<Rightarrow> 'v data_op" where
  "ingest_data_op (IngestPut coll key value) = OpPut coll key value"
| "ingest_data_op (IngestSetAdd coll key member) = OpSetAdd coll key member"
| "ingest_data_op (IngestSetRemove coll key member) = OpSetRemove coll key member"
| "ingest_data_op (IngestDelete coll key) = OpDelete coll key"

abbreviation ingest_content :: "'v json \<Rightarrow> 'c cluster \<Rightarrow> 'v ingest_op \<Rightarrow> (string \<Rightarrow> string \<Rightarrow> 'v option)
    \<Rightarrow> string \<Rightarrow> string \<Rightarrow> 'v option" where
  "ingest_content J cl op \<equiv> op_content J (\<lambda>ttl. True) cl (ingest_data_op op)"

lemma cluster_sink_run: "cluster_sink C cl op w = (op_run C J cl (ingest_data_op op) w, Inr ())"
  by (cases op) (simp_all add: cluster_sink_def)

lemma op_content_alive: "op_content J al cl (ingest_data_op op) = ingest_content J cl op"
  by (rule ext, cases op) (simp_all add: op_content_def)

lemma mcluster_fold_placed:
  fixes J :: "'v json"
  assumes "mcluster_ok cl w" and "mplaced cl content w"
    and "list_all (\<lambda>op. op_coll (ingest_data_op op) \<in> set (cl_colls cl)) ops"
  shows "mcluster_ok cl (fold (\<lambda>op. op_run (mclient J) J cl (ingest_data_op op)) ops w) \<and>
    mplaced cl (fold (ingest_content J cl) ops content) (fold (\<lambda>op. op_run (mclient J) J cl (ingest_data_op op)) ops w)"
  using assms
proof (induction ops arbitrary: w content)
  case (Cons op ops)
  note f = mcluster_facts [OF Cons.prems(1)]
  let ?w = "op_run (mclient J) J cl (ingest_data_op op) w"
  have "op_coll (ingest_data_op op) \<in> set (cl_colls cl)" using Cons.prems(3) by simp
  note step = mem.ip.op_placed [OF f(3,4,2) Cons.prems(2) this UNIV_I refl, where J = J]
  have "inproc_ok mem_ok ?w" using step by (elim conjE)
  moreover have "mplaced cl (ingest_content J cl op content) ?w" 
    using step by (elim conjE) (simp only: op_content_alive [of J "inproc_alive w"])
  moreover from calculation Cons.prems(1) have "mcluster_ok cl ?w" by (simp add: mcluster_ok_def)
  ultimately show ?case using Cons.IH [of ?w "ingest_content J cl op content"] Cons.prems(3) by simp
qed simp

subsection \<open>A restart after the log has been trimmed\<close>

fun enqueue_all :: "'d heed \<Rightarrow> 'v ingest_op serde \<Rightarrow> 'v ingest_op list \<Rightarrow> 'd ingest_queue
    \<Rightarrow> 'd ingest_queue option" where
  "enqueue_all D S [] q = Some q"
| "enqueue_all D S (op # ops) q = (case enqueue D S op q of
       None \<Rightarrow> None | Some (q, seq) \<Rightarrow> enqueue_all D S ops q)"

lemma enqueue_all_log:
  assumes D: "heed_laws D" and S: "serde_laws S"
  shows "log_ok D S q \<Longrightarrow> unat (iq_next q) + length ops < 2 ^ 64 \<Longrightarrow>
    \<exists>q'. enqueue_all D S ops q = Some q' \<and> log_ok D S q' \<and> unat (iq_next q') = unat (iq_next q) + length ops \<and>
      iq_committed q' = iq_committed q"
proof (induction ops arbitrary: q)
  case (Cons op ops)
  have room: "iq_next q < - 1" using Cons.prems(2) by (simp add: u64_less_max)
  obtain d where d: "enqueue D S op q = Some (q\<lparr>iq_queue := d, iq_next := iq_next q + 1\<rparr>, iq_next q)"
    "log_ok D S (q\<lparr>iq_queue := d, iq_next := iq_next q + 1\<rparr>)"
    by (rule enqueue_log [OF D S Cons.prems(1) room])
  define q1 where "q1 = q\<lparr>iq_queue := d, iq_next := iq_next q + 1\<rparr>"
  have q1: "enqueue D S op q = Some (q1, iq_next q)" "log_ok D S q1"
    "iq_next q1 = iq_next q + 1" "iq_committed q1 = iq_committed q" using d by (simp_all add: q1_def)
  have "unat (iq_next q1) = Suc (unat (iq_next q))"
    using unat_u64_Suc [OF room] q1(3) by simp
  with Cons.IH [OF q1(2)] Cons.prems(2) q1 show ?case by simp
qed simp

text \<open>A queue whose log was trimmed to nothing starts counting from 1 again.\<close>

lemma reopen_trimmed:
  assumes D: "heed_laws D" and ok: "iq_ok D S q" and "hd_entries D (iq_queue q) = []"
  shows "ingest_open D (iq_queue q) (iq_meta q) = Some (q\<lparr>iq_next := 1\<rparr>)"
proof -
  have "(case map_of (hd_entries D (iq_meta q)) COMMITTED of None \<Rightarrow> 0
      | Some v \<Rightarrow> (case parse_u64 v of None \<Rightarrow> 0 | Some n \<Rightarrow> n)) = iq_committed q"
    using ok by (cases "map_of (hd_entries D (iq_meta q)) COMMITTED") (auto simp: iq_ok_def)
  then show ?thesis
    using assms(3) heed_txns [OF D] heed_last [OF D] heed_get [OF D ingest_key_valid(2)]
    by (simp add: ingest_open_def)
qed

lemma drain_nothing:
  assumes D: "heed_laws D" and log: "log_ok D S q" and past: "iq_next q \<le> iq_committed q + 1"
    and "iq_committed q < - 1"
  shows "drain D S sink limit q w = Some (q, w, 0)"
proof -
  have es: "list_all (entry_ok S (iq_next q)) (hd_entries D (iq_queue q))" using log by (simp add: log_ok_def)
  have "\<not> iq_committed q < seq" if "(seq, op) \<in> set (queued S (hd_entries D (iq_queue q)))" for seq op
  proof -
    have "seq < iq_next q" using queued_bounds [OF es that] by blast
    with past show ?thesis using unat_u64_Suc [OF assms(4)] by (simp add: word_less_nat_alt word_le_nat_alt)
  qed
  then have none: "filter (\<lambda>(seq, op). iq_committed q < seq) (queued S (hd_entries D (iq_queue q))) = []"
    by (auto simp: filter_empty_conv)
  have "read_uncommitted D S q (iq_committed q) limit = []"
    using collect_ops_eq [OF es, of "[]" limit "iq_committed q"] none heed_iter [OF D] heed_txns [OF D]
    by (simp add: read_uncommitted_def)
  then show ?thesis by (simp add: drain_def committed_def Let_def)
qed

subsection \<open>Properties\<close>

instance lease_ext :: (countable) countable
  by (rule countable_classI [of "\<lambda>l. to_nat (ls_holder l, ls_expires_ms l, ls_token l, lease.more l)"])
    (simp add: lease.equality)

instance jv :: countable
  by countable_datatype

instance ingest_op :: (countable) countable
  by countable_datatype

text \<open>The queue of a fresh environment, and the same after one accepted write.\<close>

abbreviation fresh_queue :: "sorted_db ingest_queue" where
  "fresh_queue \<equiv> \<lparr>iq_queue = sdb_empty, iq_meta = sdb_empty, iq_next = 1, iq_committed = 0\<rparr>"

abbreviation jv_serde :: "jv ingest_op serde" where
  "jv_serde \<equiv> nat_serde"

abbreviation one_put :: "jv ingest_op" where
  "one_put \<equiv> IngestPut ''kv'' ''a'' (JInt 1)"

definition one_queued :: "sorted_db ingest_queue" where
  "one_queued = \<lparr>iq_queue = sdb_put (ingest_key 1) (sd_to_string jv_serde one_put) sdb_empty,
     iq_meta = sdb_empty, iq_next = 2, iq_committed = 0\<rparr>"

lemma fresh_open: "ingest_open sorted_heed sdb_empty sdb_empty = Some fresh_queue"
  by (simp add: ingest_open_def sorted_heed_def COMMITTED_def lmdb_key_def)

lemma one_enqueued: "enqueue sorted_heed jv_serde one_put fresh_queue = Some (one_queued, 1)"
  by (simp add: enqueue_def one_queued_def sorted_heed_def lmdb_key_def ingest_key_def Let_def)

lemma one_queued_ok: "iq_ok sorted_heed jv_serde one_queued"
  "pending_ops sorted_heed jv_serde one_queued = [one_put]"
  "hd_entries sorted_heed (iq_queue one_queued) \<noteq> []"
  by (simp_all add: iq_ok_def entry_ok_def one_queued_def pending_ops_def backlog_def)

lemma open_fresh:
  assumes D: "heed_laws D" and "hd_entries D queue = []" and "hd_entries D meta = []"
    and "ingest_open D queue meta = Some q"
  shows "iq_ok D S q" "pending_ops D S q = []"
  using assms(2-) heed_txns [OF D] heed_last [OF D] heed_get [OF D ingest_key_valid(2)]
  by (auto simp: ingest_open_def iq_ok_def pending_ops_def backlog_def)

text \<open>
  C4. No accepted write is lost, and the order is kept. Starting from an empty environment, after
  any sequence of accepted writes, drains into a sink that may fail at any operation, and crashes
  (before, between or after the operations of a drain, before or after the cursor is persisted)
  with restarts that find a log that is not empty, the accepted writes are a sequence that the sink
  has been given in this order (with repetitions in between) followed by the pending ones, which
  the next drains apply.
\<close>

theorem ingest_at_least_once:
  assumes "heed_laws D" and "serde_laws S" and "hd_entries D queue = []" and "hd_entries D meta = []"
    and "ingest_open D queue meta = Some q"
    and "(ingest_step D S sink)\<^sup>*\<^sup>* \<lparr>ir_queue = q, ir_sink = (w, []), ir_accepted = []\<rparr> r"
  shows "\<exists>applied. ir_accepted r = applied @ pending_ops D S (ir_queue r) \<and>
    subseq applied (snd (ir_sink r))"
proof -
  from assms(6) have "iq_ok D S (ir_queue r) \<and> at_least_once D S r"
  proof (induction rule: rtranclp_induct)
    case base
    then show ?case using open_fresh [OF assms(1,3,4,5), of S] by (simp add: at_least_once_def)
  next
    case (step r r')
    then show ?case using ingest_step_invariant [OF assms(1,2)] by blast
  qed
  then show ?thesis by (simp add: at_least_once_def)
qed

theorem ingest_at_least_once_witness:
  "\<exists>applied. [one_put] = applied @ pending_ops sorted_heed jv_serde one_queued \<and> subseq applied []"
proof -
  let ?sink = "\<lambda>op w. (Suc w, Inr ())"
  let ?r0 = "\<lparr>ir_queue = fresh_queue, ir_sink = (0, []), ir_accepted = []\<rparr> :: (sorted_db, nat, jv) ingest_run"
  let ?r1 = "\<lparr>ir_queue = one_queued, ir_sink = (0, []), ir_accepted = [one_put]\<rparr>"
  have "ingest_step sorted_heed jv_serde ?sink ?r0 ?r1"
    using ingest_step.accept [of ?r0 sorted_heed jv_serde one_put one_queued 1 ?sink] one_enqueued
    by (simp add: u64_less_max)
  then have "(ingest_step sorted_heed jv_serde ?sink)\<^sup>*\<^sup>* ?r0 ?r1" by (rule r_into_rtranclp)
  from ingest_at_least_once [OF sorted_heed_laws nat_serde_laws _ _ fresh_open this] show ?thesis by simp
qed

text \<open>
  C5. What the queue accepts reaches the cluster. With the cluster as the sink, enough rounds of
  the drainer (1024 operations each) empty the queue, and the content of the cluster is the content
  before with every pending operation applied in the order of acceptance, on every replica.
\<close>

theorem ingest_reaches_cluster:
  fixes J :: "'v json"
  assumes "heed_laws D" and "iq_ok D S q" and "mcluster_ok cl w" and "mplaced cl content w"
    and "list_all (\<lambda>op. op_coll (ingest_data_op op) \<in> set (cl_colls cl)) (pending_ops D S q)"
    and "length (pending_ops D S q) \<le> 1024 * k"
  shows "\<exists>q' w'. drain_rounds D S (cluster_sink (mclient J) cl) k q w = Some (q', w') \<and>
    pending_ops D S q' = [] \<and> iq_ok D S q' \<and> mcluster_ok cl w' \<and>
    mplaced cl (fold (ingest_content J cl) (pending_ops D S q) content) w'"
proof -
  let ?f = "\<lambda>op. op_run (mclient J) J cl (ingest_data_op op)"
  have "cluster_sink (mclient J) cl op w = (?f op w, Inr ())" for op w by (rule cluster_sink_run)
  from drain_rounds_all [where sink = "cluster_sink (mclient J) cl" and f = ?f, OF assms(1) this assms(2,6), where w = w]
  obtain q' where "drain_rounds D S (cluster_sink (mclient J) cl) k q w = Some (q', fold ?f (pending_ops D S q) w)"
    "iq_ok D S q'" "pending_ops D S q' = []" by blast
  with mcluster_fold_placed [OF assms(3-5), of J] show ?thesis
    by (intro exI [of _ q'] exI [of _ "fold ?f (pending_ops D S q) w"]) simp
qed

theorem ingest_reaches_cluster_witness:
  "\<exists>q' w'. drain_rounds sorted_heed jv_serde (cluster_sink (mclient jv_json) two_nodes) 1 one_queued empty_world
      = Some (q', w') \<and> pending_ops sorted_heed jv_serde q' = [] \<and> iq_ok sorted_heed jv_serde q' \<and>
    mcluster_ok two_nodes w' \<and>
    mplaced two_nodes (upd_content (\<lambda>c k. None) ''kv'' ''a'' (Some (JInt 1))) w'"
  using ingest_reaches_cluster [OF sorted_heed_laws one_queued_ok(1) two_nodes_start(1,2), of 1 jv_json]
  by (simp add: one_queued_ok op_content_def)

text \<open>
  A restart after the queue has been drained loses accepted writes. The drain trims the applied
  entries, so the log of a drained queue is empty while the committed cursor stays; a restart
  recovers the next sequence number from the last entry of the log only and numbers from 1 again.
  Writes accepted then get numbers at or below the cursor: as many as were committed before are
  acknowledged, are not counted as pending, and no drain ever gives one to the sink.
\<close>

theorem ingest_restart_loses_writes:
  assumes "heed_laws D" and "serde_laws S" and "iq_ok D S q" and "hd_entries D (iq_queue q) = []"
    and "ingest_open D (iq_queue q) (iq_meta q) = Some q0" and "length ops \<le> unat (iq_committed q)"
  shows "\<exists>q1. enqueue_all D S ops q0 = Some q1 \<and> pending q1 = 0 \<and>
    drain D S sink limit q1 w = Some (q1, w, 0)"
proof -
  have q0: "q0 = q\<lparr>iq_next := 1\<rparr>" using reopen_trimmed [OF assms(1,3,4)] assms(5) by simp
  have com: "iq_committed q < - 1"
    using assms(3) unfolding iq_ok_def by (metis order.strict_trans2 word_order.extremum)
  then have small: "unat (iq_committed q) + 1 < 2 ^ 64"
    by (simp add: u64_less_max)
  have "log_ok D S q0" using assms(4) by (simp add: q0 log_ok_def)
  then obtain q1 where q1: "enqueue_all D S ops q0 = Some q1" "log_ok D S q1"
    "unat (iq_next q1) = 1 + length ops" "iq_committed q1 = iq_committed q"
    using enqueue_all_log [OF assms(1,2), of q0 ops] assms(6) small by (auto simp: q0)
  have past: "iq_next q1 \<le> iq_committed q1 + 1"
    using unat_u64_Suc [OF com] q1(3,4) assms(6) by (simp add: word_le_nat_alt)
  have "iq_next q1 \<noteq> 0" using q1(2) by (auto simp: log_ok_def)
  then have "unat (iq_next q1 - 1) = length ops" using q1(3) by (simp add: unat_minus_one)
  then have "iq_next q1 - 1 \<le> iq_committed q1" using q1(4) assms(6) by (simp add: word_le_nat_alt)
  then have "pending q1 = 0"
    by (auto simp: pending_def saturating_sub_def ingest_latest_seq_def committed_def)
  then show ?thesis using q1(1) drain_nothing [OF assms(1) q1(2) past] com q1(4) by auto
qed

text \<open>One write has been applied and trimmed; the write accepted after the restart is lost.\<close>

definition drained_queue :: "sorted_db ingest_queue" where
  "drained_queue = \<lparr>iq_queue = sdb_empty, iq_meta = sdb_put COMMITTED (show_u64 1) sdb_empty,
     iq_next = 2, iq_committed = 1\<rparr>"

lemma drained_queue_ok: "iq_ok sorted_heed jv_serde drained_queue"
  "ingest_open sorted_heed (iq_queue drained_queue) (iq_meta drained_queue) = Some (drained_queue\<lparr>iq_next := 1\<rparr>)"
proof -
  show ok: "iq_ok sorted_heed jv_serde drained_queue" by (simp add: iq_ok_def drained_queue_def)
  show "ingest_open sorted_heed (iq_queue drained_queue) (iq_meta drained_queue) = Some (drained_queue\<lparr>iq_next := 1\<rparr>)"
    by (rule reopen_trimmed [OF sorted_heed_laws ok]) (simp add: drained_queue_def)
qed

end
