(* ===== verification/Changefeed.thy ===== *)
theory Changefeed
  imports Heed
begin

text \<open>
  The change feed, \<^verbatim>\<open>src/changefeed.rs\<close>: the trait \<^verbatim>\<open>ChangeLog\<close> with its provided methods, the
  in-memory log and the durable log on LMDB.

  A trait object is the record \<open>change_log\<close> over a state \<open>'s\<close>. What a log promises is the abstract
  \<open>feed\<close>: the retained events, numbered without gaps up to the latest number, and the consumer
  groups' offsets. The locale \<open>change_feed\<close> states that the operations of a log implement those of
  the feed; retention, consumer groups and whole runs are treated once, there, and both logs are
  shown to fulfil it.
\<close>

subsection \<open>The trait\<close>

record change_event =
  ev_seq :: u64
  ev_op :: string
  ev_value :: string
  ev_set :: string
  ev_doc_id :: string

record 's change_log =
  cf_append :: "string \<Rightarrow> string \<Rightarrow> string \<Rightarrow> string \<Rightarrow> 's \<Rightarrow> ('s \<times> u64) option"
  cf_read :: "'s \<Rightarrow> u64 \<Rightarrow> nat \<Rightarrow> change_event list"
  cf_latest_seq :: "'s \<Rightarrow> u64"
  cf_compact :: "u64 \<Rightarrow> 's \<Rightarrow> 's \<times> nat"
  cf_committed_offset :: "'s \<Rightarrow> string \<Rightarrow> u64"
  cf_commit_offset :: "string \<Rightarrow> u64 \<Rightarrow> 's \<Rightarrow> 's"

definition retain_latest :: "'s change_log \<Rightarrow> u64 \<Rightarrow> 's \<Rightarrow> 's \<times> nat" where
  "retain_latest L max_events s =
     (let latest = cf_latest_seq L s in
      if latest > max_events then cf_compact L (latest - max_events + 1) s else (s, 0))"

definition read_group :: "'s change_log \<Rightarrow> 's \<Rightarrow> string \<Rightarrow> nat \<Rightarrow> change_event list" where
  "read_group L s grp limit = cf_read L s (cf_committed_offset L s grp) limit"

definition feed_key :: "u64 \<Rightarrow> string" where
  "feed_key seq = pad_zeros 20 (show_u64 seq)"

subsection \<open>The in-memory log\<close>

record memory_change_log =
  mc_inner :: "change_event list"
  mc_next :: u64
  mc_offsets :: "(string, u64) hashmap"

definition mc_new :: memory_change_log where
  "mc_new = \<lparr>mc_inner = [], mc_next = 0, mc_offsets = []\<rparr>"

definition mc_append :: "string \<Rightarrow> string \<Rightarrow> string \<Rightarrow> string \<Rightarrow> memory_change_log
    \<Rightarrow> (memory_change_log \<times> u64) option" where
  "mc_append op value st doc_id s =
     (let seq = mc_next s + 1;
          ev = \<lparr>ev_seq = seq, ev_op = op, ev_value = value, ev_set = st, ev_doc_id = doc_id\<rparr> in
      Some (s\<lparr>mc_next := seq, mc_inner := mc_inner s @ [ev]\<rparr>, seq))"

definition mc_read :: "memory_change_log \<Rightarrow> u64 \<Rightarrow> nat \<Rightarrow> change_event list" where
  "mc_read s since limit = take limit (filter (\<lambda>e. ev_seq e > since) (mc_inner s))"

definition mc_latest_seq :: "memory_change_log \<Rightarrow> u64" where
  "mc_latest_seq s = mc_next s"

definition mc_compact :: "u64 \<Rightarrow> memory_change_log \<Rightarrow> memory_change_log \<times> nat" where
  "mc_compact before s =
     (let n = length (mc_inner s);
          v = filter (\<lambda>e. ev_seq e \<ge> before) (mc_inner s) in
      (s\<lparr>mc_inner := v\<rparr>, n - length v))"

definition mc_committed_offset :: "memory_change_log \<Rightarrow> string \<Rightarrow> u64" where
  "mc_committed_offset s grp = (case hm_get (mc_offsets s) grp of None \<Rightarrow> 0 | Some n \<Rightarrow> n)"

definition mc_commit_offset :: "string \<Rightarrow> u64 \<Rightarrow> memory_change_log \<Rightarrow> memory_change_log" where
  "mc_commit_offset grp seq s = s\<lparr>mc_offsets := hm_insert grp seq (mc_offsets s)\<rparr>"

definition memory_log :: "memory_change_log change_log" where
  "memory_log = \<lparr>cf_append = mc_append, cf_read = mc_read, cf_latest_seq = mc_latest_seq,
     cf_compact = mc_compact, cf_committed_offset = mc_committed_offset,
     cf_commit_offset = mc_commit_offset\<rparr>"

subsection \<open>The log on LMDB\<close>

record 'd lmdb_change_log =
  lc_db :: 'd
  lc_offsets :: 'd
  lc_next :: u64

definition lc_open :: "'d heed \<Rightarrow> 'd \<Rightarrow> 'd \<Rightarrow> 'd lmdb_change_log option" where
  "lc_open D db offsets =
     (if hd_write_txn D db \<and> hd_commit D db \<and> hd_read_txn D db then
        (case hd_last D db of
           None \<Rightarrow> None
         | Some lst \<Rightarrow>
             (let last = (case lst of None \<Rightarrow> 0
                | Some (k, _) \<Rightarrow> (case parse_u64 k of None \<Rightarrow> 0 | Some n \<Rightarrow> n)) in
              Some \<lparr>lc_db = db, lc_offsets = offsets, lc_next = last + 1\<rparr>))
      else None)"

definition lc_append :: "'d heed \<Rightarrow> change_event serde \<Rightarrow> string \<Rightarrow> string \<Rightarrow> string \<Rightarrow> string
    \<Rightarrow> 'd lmdb_change_log \<Rightarrow> ('d lmdb_change_log \<times> u64) option" where
  "lc_append D S op value st doc_id s =
     (let seq = lc_next s;
          ev = \<lparr>ev_seq = seq, ev_op = op, ev_value = value, ev_set = st, ev_doc_id = doc_id\<rparr> in
      if \<not> hd_write_txn D (lc_db s) then None
      else case hd_put D (feed_key seq) (sd_to_string S ev) (lc_db s) of
        None \<Rightarrow> None
      | Some d \<Rightarrow>
          if hd_commit D d then Some (s\<lparr>lc_db := d, lc_next := seq + 1\<rparr>, seq) else None)"

fun collect_events :: "change_event serde \<Rightarrow> u64 \<Rightarrow> nat \<Rightarrow> (string \<times> string) list
    \<Rightarrow> change_event list \<Rightarrow> change_event list" where
  "collect_events S since limit [] out = out"
| "collect_events S since limit ((k, v) # items) out =
     (case sd_from_str S v of
        None \<Rightarrow> collect_events S since limit items out
      | Some ev \<Rightarrow>
          if ev_seq ev > since then
            (let out = out @ [ev] in
             if length out \<ge> limit then out else collect_events S since limit items out)
          else collect_events S since limit items out)"

definition lc_read :: "'d heed \<Rightarrow> change_event serde \<Rightarrow> 'd lmdb_change_log \<Rightarrow> u64 \<Rightarrow> nat
    \<Rightarrow> change_event list" where
  "lc_read D S s since limit =
     (if \<not> hd_read_txn D (lc_db s) then []
      else case hd_iter D (lc_db s) of
        None \<Rightarrow> []
      | Some items \<Rightarrow> collect_events S since limit items [])"

definition lc_latest_seq :: "'d lmdb_change_log \<Rightarrow> u64" where
  "lc_latest_seq s = saturating_sub (lc_next s) 1"

fun stale_keys :: "u64 \<Rightarrow> (string \<times> string) list \<Rightarrow> string list" where
  "stale_keys before [] = []"
| "stale_keys before ((k, v) # items) =
     (case parse_u64 k of
        Some seq \<Rightarrow> if seq < before then k # stale_keys before items else []
      | None \<Rightarrow> stale_keys before items)"

definition lc_compact :: "'d heed \<Rightarrow> u64 \<Rightarrow> 'd lmdb_change_log \<Rightarrow> 'd lmdb_change_log \<times> nat" where
  "lc_compact D before s =
     (if before \<le> 1 then (s, 0)
      else if \<not> hd_read_txn D (lc_db s) then (s, 0)
      else case hd_iter D (lc_db s) of
        None \<Rightarrow> (s, 0)
      | Some items \<Rightarrow>
          (let to_delete = stale_keys before items in
           if to_delete = [] then (s, 0)
           else if \<not> hd_write_txn D (lc_db s) then (s, 0)
           else let (d, removed) = delete_all D to_delete (lc_db s) 0 in
             if hd_commit D d then (s\<lparr>lc_db := d\<rparr>, removed) else (s, 0)))"

definition lc_committed_offset :: "'d heed \<Rightarrow> 'd lmdb_change_log \<Rightarrow> string \<Rightarrow> u64" where
  "lc_committed_offset D s grp =
     (if \<not> hd_read_txn D (lc_offsets s) then 0
      else case hd_get D (lc_offsets s) grp of
        Some (Some v) \<Rightarrow> (case parse_u64 v of None \<Rightarrow> 0 | Some n \<Rightarrow> n)
      | _ \<Rightarrow> 0)"

definition lc_commit_offset :: "'d heed \<Rightarrow> string \<Rightarrow> u64 \<Rightarrow> 'd lmdb_change_log \<Rightarrow> 'd lmdb_change_log" where
  "lc_commit_offset D grp seq s =
     (if hd_write_txn D (lc_offsets s) then
        (case hd_put D grp (show_u64 seq) (lc_offsets s) of
           None \<Rightarrow> s
         | Some d \<Rightarrow> if hd_commit D d then s\<lparr>lc_offsets := d\<rparr> else s)
      else s)"

definition lmdb_log :: "'d heed \<Rightarrow> change_event serde \<Rightarrow> 'd lmdb_change_log change_log" where
  "lmdb_log D S = \<lparr>cf_append = lc_append D S, cf_read = lc_read D S, cf_latest_seq = lc_latest_seq,
     cf_compact = lc_compact D, cf_committed_offset = lc_committed_offset D,
     cf_commit_offset = lc_commit_offset D\<rparr>"

subsection \<open>The abstract feed\<close>

record feed =
  fd_events :: "change_event list"
  fd_latest :: u64
  fd_offsets :: "string \<Rightarrow> u64"

definition feed_ok :: "feed \<Rightarrow> bool" where
  "feed_ok f \<longleftrightarrow> length (fd_events f) \<le> unat (fd_latest f) \<and>
     map (\<lambda>e. unat (ev_seq e)) (fd_events f) =
       [Suc (unat (fd_latest f)) - length (fd_events f) ..< Suc (unat (fd_latest f))]"

definition feed_append :: "string \<Rightarrow> string \<Rightarrow> string \<Rightarrow> string \<Rightarrow> feed \<Rightarrow> feed" where
  "feed_append op value st doc_id f = f\<lparr>fd_latest := fd_latest f + 1,
     fd_events := fd_events f @ [\<lparr>ev_seq = fd_latest f + 1, ev_op = op, ev_value = value,
       ev_set = st, ev_doc_id = doc_id\<rparr>]\<rparr>"

definition feed_after :: "feed \<Rightarrow> u64 \<Rightarrow> change_event list" where
  "feed_after f since = filter (\<lambda>e. ev_seq e > since) (fd_events f)"

definition feed_compact :: "u64 \<Rightarrow> feed \<Rightarrow> feed" where
  "feed_compact before f = f\<lparr>fd_events := filter (\<lambda>e. ev_seq e \<ge> before) (fd_events f)\<rparr>"

definition feed_commit :: "string \<Rightarrow> u64 \<Rightarrow> feed \<Rightarrow> feed" where
  "feed_commit grp seq f = f\<lparr>fd_offsets := (fd_offsets f)(grp := seq)\<rparr>"

definition feed_room :: "feed \<Rightarrow> nat \<Rightarrow> bool" where
  "feed_room f n \<longleftrightarrow> unat (fd_latest f) + n + 1 < 2 ^ 64"

text \<open>The numbers of a well-formed feed increase by one, so a lower bound cuts off a prefix.\<close>

lemma feed_event_seq:
  assumes "feed_ok f" and "i < length (fd_events f)"
  shows "unat (ev_seq (fd_events f ! i)) = Suc (unat (fd_latest f)) - length (fd_events f) + i"
proof -
  let ?lo = "Suc (unat (fd_latest f)) - length (fd_events f)"
  have len: "length (fd_events f) \<le> unat (fd_latest f)" using assms(1) by (simp add: feed_ok_def)
  have "map (\<lambda>e. unat (ev_seq e)) (fd_events f) ! i = [?lo ..< Suc (unat (fd_latest f))] ! i"
    using assms(1) by (simp only: feed_ok_def)
  moreover have "[?lo ..< Suc (unat (fd_latest f))] ! i = ?lo + i" using len assms(2) by (intro nth_upt) linarith
  ultimately show ?thesis using assms(2) by simp
qed

lemma feed_seq_bounds:
  assumes "feed_ok f" and "e \<in> set (fd_events f)"
  shows "1 \<le> unat (ev_seq e) \<and> unat (ev_seq e) \<le> unat (fd_latest f)"
proof -
  obtain i where "i < length (fd_events f)" "e = fd_events f ! i" using assms(2) by (metis in_set_conv_nth)
  moreover have "length (fd_events f) \<le> unat (fd_latest f)" using assms(1) by (simp add: feed_ok_def)
  ultimately show ?thesis using feed_event_seq [OF assms(1), of i] by (auto simp: Suc_diff_le)
qed

lemma filter_upto_drop:
  fixes g :: "'a \<Rightarrow> nat"
  assumes "map g xs = [lo..<lo + length xs]"
  shows "filter (\<lambda>x. b \<le> g x) xs = drop (b - lo) xs"
  using assms
proof (induction xs arbitrary: lo)
  case (Cons x xs)
  then have x: "g x = lo" and xs: "map g xs = [Suc lo..<Suc lo + length xs]"
    by (simp_all add: upt_rec split: if_splits)
  show ?case
  proof (cases "b \<le> lo")
    case True
    then have "\<forall>y \<in> set xs. b \<le> g y"
      using xs by (metis atLeastLessThan_iff image_eqI image_set le_Suc_eq order_trans set_upt)
    with True x show ?thesis by simp
  next
    case False
    then have "b - lo = Suc (b - Suc lo)" by simp
    with False x Cons.IH [OF xs] show ?thesis by simp
  qed
qed simp

lemma feed_seqs: "feed_ok f \<Longrightarrow> map (\<lambda>e. unat (ev_seq e)) (fd_events f) =
  [Suc (unat (fd_latest f)) - length (fd_events f) ..<
   Suc (unat (fd_latest f)) - length (fd_events f) + length (fd_events f)]"
  by (simp add: feed_ok_def)

lemma feed_filter_ge:
  assumes "feed_ok f"
  shows "filter (\<lambda>e. b \<le> unat (ev_seq e)) (fd_events f) =
    drop (b - (Suc (unat (fd_latest f)) - length (fd_events f))) (fd_events f)"
  by (rule filter_upto_drop [OF feed_seqs [OF assms]])

lemma feed_ok_drop:
  assumes "feed_ok f"
  shows "feed_ok (f\<lparr>fd_events := drop n (fd_events f)\<rparr>)"
proof -
  have len: "length (fd_events f) \<le> unat (fd_latest f)"
    and seqs: "map (\<lambda>e. unat (ev_seq e)) (fd_events f) =
      [Suc (unat (fd_latest f)) - length (fd_events f) ..< Suc (unat (fd_latest f))]"
    using assms by (simp_all only: feed_ok_def)
  have "map (\<lambda>e. unat (ev_seq e)) (drop n (fd_events f)) =
      [Suc (unat (fd_latest f)) - length (fd_events f) + n ..< Suc (unat (fd_latest f))]"
    by (simp only: drop_map [symmetric] seqs drop_upt)
  with len show ?thesis by (cases "n \<le> length (fd_events f)") (simp_all add: feed_ok_def)
qed

lemma feed_compact_drop:
  assumes "feed_ok f"
  shows "feed_compact before f = f\<lparr>fd_events :=
    drop (unat before - (Suc (unat (fd_latest f)) - length (fd_events f))) (fd_events f)\<rparr>"
  using feed_filter_ge [OF assms, of "unat before"] by (simp add: feed_compact_def word_le_nat_alt)

lemma feed_ok_compact [simp]: "feed_ok f \<Longrightarrow> feed_ok (feed_compact before f)"
  by (simp add: feed_compact_drop feed_ok_drop)

lemma feed_ok_commit [simp]: "feed_ok f \<Longrightarrow> feed_ok (feed_commit grp seq f)"
  by (simp add: feed_ok_def feed_commit_def)

lemma feed_ok_append:
  assumes "feed_ok f" and "feed_room f 0"
  shows "feed_ok (feed_append op value st doc_id f)"
proof -
  have "fd_latest f < - 1" using assms(2) by (simp add: feed_room_def u64_less_max)
  from unat_u64_Suc [OF this] assms(1) show ?thesis
    by (simp add: feed_ok_def feed_append_def)
qed

lemma feed_after_drop:
  assumes "feed_ok f"
  shows "feed_after f since =
    drop (Suc (unat since) - (Suc (unat (fd_latest f)) - length (fd_events f))) (fd_events f)"
  using feed_filter_ge [OF assms, of "Suc (unat since)"]
  by (simp add: feed_after_def word_less_nat_alt Suc_le_eq)

subsection \<open>What a log promises\<close>

locale change_feed =
  fixes L :: "'s change_log" and ok :: "'s \<Rightarrow> bool" and abs :: "'s \<Rightarrow> feed"
  assumes feed_wf: "ok s \<Longrightarrow> feed_ok (abs s)"
    and append_law: "ok s \<Longrightarrow> feed_room (abs s) 1 \<Longrightarrow>
      \<exists>s'. cf_append L op value st doc_id s = Some (s', fd_latest (abs s) + 1) \<and> ok s' \<and>
        abs s' = feed_append op value st doc_id (abs s)"
    and read_law: "ok s \<Longrightarrow> 1 \<le> limit \<Longrightarrow> cf_read L s since limit = take limit (feed_after (abs s) since)"
    and latest_law: "ok s \<Longrightarrow> cf_latest_seq L s = fd_latest (abs s)"
    and compact_law: "ok s \<Longrightarrow> \<exists>s'. cf_compact L before s =
        (s', length (fd_events (abs s)) - length (fd_events (feed_compact before (abs s)))) \<and>
        ok s' \<and> abs s' = feed_compact before (abs s)"
    and offset_law: "ok s \<Longrightarrow> lmdb_key grp \<Longrightarrow> cf_committed_offset L s grp = fd_offsets (abs s) grp"
    and commit_law: "ok s \<Longrightarrow> lmdb_key grp \<Longrightarrow>
      ok (cf_commit_offset L grp seq s) \<and> abs (cf_commit_offset L grp seq s) = feed_commit grp seq (abs s)"

text \<open>The requests of the trait and their answers, for logs and for the feed.\<close>

datatype feed_op =
    FeedAppend string string string string | FeedRead u64 nat | FeedLatest | FeedCompact u64
  | FeedRetain u64 | FeedOffset string | FeedCommit string u64 | FeedReadGroup string nat

datatype feed_answer = AnsSeq u64 | AnsEvents "change_event list" | AnsCount nat | AnsDone

fun log_step :: "'s change_log \<Rightarrow> feed_op \<Rightarrow> 's \<Rightarrow> ('s \<times> feed_answer) option" where
  "log_step L (FeedAppend op value st doc_id) s = map_option (\<lambda>(s, seq). (s, AnsSeq seq)) (cf_append L op value st doc_id s)"
| "log_step L (FeedRead since limit) s = Some (s, AnsEvents (cf_read L s since limit))"
| "log_step L FeedLatest s = Some (s, AnsSeq (cf_latest_seq L s))"
| "log_step L (FeedCompact before) s = Some (let (s, n) = cf_compact L before s in (s, AnsCount n))"
| "log_step L (FeedRetain max_events) s = Some (let (s, n) = retain_latest L max_events s in (s, AnsCount n))"
| "log_step L (FeedOffset grp) s = Some (s, AnsSeq (cf_committed_offset L s grp))"
| "log_step L (FeedCommit grp seq) s = Some (cf_commit_offset L grp seq s, AnsDone)"
| "log_step L (FeedReadGroup grp limit) s = Some (s, AnsEvents (read_group L s grp limit))"

fun log_run :: "'s change_log \<Rightarrow> feed_op list \<Rightarrow> 's \<Rightarrow> ('s \<times> feed_answer list) option" where
  "log_run L [] s = Some (s, [])"
| "log_run L (oper # opers) s = (case log_step L oper s of
       None \<Rightarrow> None
     | Some (s, a) \<Rightarrow> map_option (\<lambda>(s, as). (s, a # as)) (log_run L opers s))"

text \<open>Requests on which the contract speaks: a positive limit, a group name that LMDB takes as a key.\<close>

fun feed_request :: "feed_op \<Rightarrow> bool" where
  "feed_request (FeedRead since limit) \<longleftrightarrow> 1 \<le> limit"
| "feed_request (FeedOffset grp) \<longleftrightarrow> lmdb_key grp"
| "feed_request (FeedCommit grp seq) \<longleftrightarrow> lmdb_key grp"
| "feed_request (FeedReadGroup grp limit) \<longleftrightarrow> lmdb_key grp \<and> 1 \<le> limit"
| "feed_request _ \<longleftrightarrow> True"

definition feed_removed :: "u64 \<Rightarrow> feed \<Rightarrow> nat" where
  "feed_removed before f = length (fd_events f) - length (fd_events (feed_compact before f))"

definition feed_retain :: "u64 \<Rightarrow> feed \<Rightarrow> feed" where
  "feed_retain max_events f = f\<lparr>fd_events := drop (length (fd_events f) - unat max_events) (fd_events f)\<rparr>"

fun feed_step :: "feed_op \<Rightarrow> feed \<Rightarrow> feed \<times> feed_answer" where
  "feed_step (FeedAppend op value st doc_id) f = (feed_append op value st doc_id f, AnsSeq (fd_latest f + 1))"
| "feed_step (FeedRead since limit) f = (f, AnsEvents (take limit (feed_after f since)))"
| "feed_step FeedLatest f = (f, AnsSeq (fd_latest f))"
| "feed_step (FeedCompact before) f = (feed_compact before f, AnsCount (feed_removed before f))"
| "feed_step (FeedRetain max_events) f =
     (feed_retain max_events f, AnsCount (length (fd_events f) - unat max_events))"
| "feed_step (FeedOffset grp) f = (f, AnsSeq (fd_offsets f grp))"
| "feed_step (FeedCommit grp seq) f = (feed_commit grp seq f, AnsDone)"
| "feed_step (FeedReadGroup grp limit) f = (f, AnsEvents (take limit (feed_after f (fd_offsets f grp))))"

fun feed_run :: "feed_op list \<Rightarrow> feed \<Rightarrow> feed \<times> feed_answer list" where
  "feed_run [] f = (f, [])"
| "feed_run (oper # opers) f =
     (let (f, a) = feed_step oper f; (f, as) = feed_run opers f in (f, a # as))"

text \<open>Retention keeps the most recent events: \<^verbatim>\<open>compact(latest - max + 1)\<close> drops the older ones.\<close>

lemma feed_retain_compact:
  assumes "feed_ok f" and "feed_room f 0"
  shows "feed_retain max_events f =
    (if fd_latest f > max_events then feed_compact (fd_latest f - max_events + 1) f else f)"
proof (cases "fd_latest f > max_events")
  case True
  have len: "length (fd_events f) \<le> unat (fd_latest f)" using assms by (simp add: feed_ok_def)
  have sub: "unat (fd_latest f - max_events) = unat (fd_latest f) - unat max_events"
    using True by (simp add: unat_sub)
  then have "fd_latest f - max_events < - 1" using assms(2) by (simp add: feed_room_def u64_less_max)
  from unat_u64_Suc [OF this] have "unat (fd_latest f - max_events + 1) = Suc (unat (fd_latest f) - unat max_events)"
    by (simp add: sub)
  moreover have "Suc (unat (fd_latest f) - unat max_events) - (Suc (unat (fd_latest f)) - length (fd_events f)) =
      length (fd_events f) - unat max_events"
    using True len by (simp add: word_less_nat_alt)
  ultimately show ?thesis using True by (simp add: feed_compact_drop [OF assms(1)] feed_retain_def)
next
  case False
  then have "length (fd_events f) \<le> unat max_events"
    using assms by (simp add: feed_ok_def word_less_nat_alt)
  with False show ?thesis by (simp add: feed_retain_def)
qed

lemma feed_step_room: "feed_room f (Suc n) \<Longrightarrow> feed_room (fst (feed_step oper f)) n"
proof (cases oper)
  case (FeedAppend op val st doc_id)
  assume room: "feed_room f (Suc n)"
  then have "fd_latest f < - 1" by (simp add: feed_room_def u64_less_max)
  from unat_u64_Suc [OF this] room FeedAppend show ?thesis by (simp add: feed_room_def feed_append_def)
qed (simp_all add: feed_room_def feed_compact_def feed_retain_def feed_commit_def)

text \<open>Consumers: a group that reads a batch and commits its last number, again and again.\<close>

fun consume :: "'s change_log \<Rightarrow> string \<Rightarrow> nat \<Rightarrow> nat \<Rightarrow> 's \<Rightarrow> 's \<times> change_event list" where
  "consume L grp limit 0 s = (s, [])"
| "consume L grp limit (Suc k) s =
     (let batch = read_group L s grp limit;
          s = (if batch = [] then s else cf_commit_offset L grp (ev_seq (last batch)) s);
          (s, rest) = consume L grp limit k s in
      (s, batch @ rest))"

lemma feed_after_next:
  assumes f: "feed_ok f" and batch: "take limit (feed_after f since) \<noteq> []"
  shows "feed_after f (ev_seq (last (take limit (feed_after f since)))) = drop limit (feed_after f since)"
proof -
  let ?es = "fd_events f" and ?lo = "Suc (unat (fd_latest f)) - length (fd_events f)"
  define n where "n = Suc (unat since) - ?lo"
  define m where "m = min limit (length (feed_after f since))"
  define l where "l = last (take limit (feed_after f since))"
  have after: "feed_after f since = drop n ?es" unfolding n_def by (rule feed_after_drop [OF f])
  have m: "m \<noteq> 0" "m \<le> limit" using batch by (auto simp: m_def)
  have len: "m \<le> length ?es - n" by (simp add: m_def after)
  have "l = take limit (feed_after f since) ! (m - 1)"
    unfolding l_def m_def last_conv_nth [OF batch] by (simp add: min.commute)
  also have "\<dots> = drop n ?es ! (m - 1)" using m unfolding after by (intro nth_take) linarith
  also have "\<dots> = ?es ! (n + (m - 1))" using m len by (intro nth_drop) linarith
  finally have "unat (ev_seq l) = ?lo + (n + (m - 1))"
    using feed_event_seq [OF f, of "n + (m - 1)"] m len by simp
  then have "Suc (unat (ev_seq l)) - ?lo = n + m" using m by linarith
  then have "feed_after f (ev_seq l) = drop (n + m) ?es" using feed_after_drop [OF f, of "ev_seq l"] by simp
  also have "\<dots> = drop m (feed_after f since)" by (simp add: after add.commute)
  also have "\<dots> = drop limit (feed_after f since)" by (simp add: m_def min_def)
  finally show ?thesis by (simp add: l_def)
qed

context change_feed
begin

lemma step_refines:
  assumes "ok s" and "feed_request oper" and room: "feed_room (abs s) 1"
  shows "\<exists>s'. log_step L oper s = Some (s', snd (feed_step oper (abs s))) \<and> ok s' \<and>
    abs s' = fst (feed_step oper (abs s))"
proof (cases oper)
  case (FeedAppend op val st doc_id)
  then show ?thesis using append_law [OF assms(1) room, of op val st doc_id] by auto
next
  case (FeedCompact before)
  then show ?thesis using compact_law [OF assms(1), of before] by (auto simp: feed_removed_def)
next
  case (FeedRetain max_events)
  have r0: "feed_room (abs s) 0" using room by (simp add: feed_room_def)
  note ret = feed_retain_compact [OF feed_wf [OF assms(1)] r0, of max_events]
  have "length (fd_events (feed_retain max_events (abs s))) = min (unat max_events) (length (fd_events (abs s)))"
    by (simp add: feed_retain_def min_def)
  then have count: "length (fd_events (abs s)) - length (fd_events (feed_retain max_events (abs s))) =
      length (fd_events (abs s)) - unat max_events" by simp
  show ?thesis
  proof (cases "fd_latest (abs s) > max_events")
    case True
    with FeedRetain ret count show ?thesis
      using compact_law [OF assms(1), of "fd_latest (abs s) - max_events + 1"] latest_law [OF assms(1)]
      by (auto simp: retain_latest_def)
  next
    case False
    with ret have "feed_retain max_events (abs s) = abs s" by simp
    with False FeedRetain count assms(1) show ?thesis
      using latest_law [OF assms(1)] by (simp add: retain_latest_def)
  qed
qed (use assms read_law latest_law offset_law commit_law in \<open>simp_all add: read_group_def\<close>)

lemma run_refines:
  "ok s \<Longrightarrow> list_all feed_request opers \<Longrightarrow> feed_room (abs s) (length opers) \<Longrightarrow>
   \<exists>s'. log_run L opers s = Some (s', snd (feed_run opers (abs s))) \<and> ok s' \<and> abs s' = fst (feed_run opers (abs s))"
proof (induction opers arbitrary: s)
  case (Cons oper opers)
  have room: "feed_room (abs s) 1" using Cons.prems(3) by (simp add: feed_room_def)
  obtain s1 where s1: "log_step L oper s = Some (s1, snd (feed_step oper (abs s)))" "ok s1"
    "abs s1 = fst (feed_step oper (abs s))"
    using step_refines [OF Cons.prems(1) _ room, of oper] Cons.prems(2) by auto
  have "feed_room (abs s1) (length opers)" using feed_step_room Cons.prems(3) s1(3) by simp
  from Cons.IH [OF s1(2) _ this] Cons.prems(2) s1 show ?case
    by (auto simp: case_prod_unfold Let_def)
qed simp

lemma consume_all:
  assumes "lmdb_key grp" and "1 \<le> limit"
  shows "ok s \<Longrightarrow> length (feed_after (abs s) (fd_offsets (abs s) grp)) \<le> k * limit \<Longrightarrow>
    snd (consume L grp limit k s) = feed_after (abs s) (fd_offsets (abs s) grp)"
proof (induction k arbitrary: s)
  case (Suc k)
  let ?rest = "feed_after (abs s) (fd_offsets (abs s) grp)"
  have batch: "read_group L s grp limit = take limit ?rest"
    using read_law offset_law assms Suc.prems(1) by (simp add: read_group_def)
  show ?case
  proof (cases "take limit ?rest = []")
    case True
    then have "?rest = []" using assms(2) by simp
    then show ?thesis using Suc.IH [OF Suc.prems(1)] batch by (simp add: case_prod_unfold Let_def)
  next
    case False
    let ?s = "cf_commit_offset L grp (ev_seq (last (take limit ?rest))) s"
    have s: "ok ?s" "abs ?s = feed_commit grp (ev_seq (last (take limit ?rest))) (abs s)"
      using commit_law Suc.prems(1) assms(1) by blast+
    have rest: "feed_after (abs ?s) (fd_offsets (abs ?s) grp) = drop limit ?rest"
    proof -
      have "feed_after (abs ?s) n = feed_after (abs s) n" for n
        unfolding s(2) by (simp add: feed_commit_def feed_after_def)
      moreover have "fd_offsets (abs ?s) grp = ev_seq (last (take limit ?rest))"
        unfolding s(2) by (simp add: feed_commit_def)
      ultimately show ?thesis using feed_after_next [OF feed_wf [OF Suc.prems(1)] False] by simp
    qed
    then have "length (feed_after (abs ?s) (fd_offsets (abs ?s) grp)) \<le> k * limit" using Suc.prems(2) by simp
    with Suc.IH [OF s(1)] rest have "snd (consume L grp limit k ?s) = drop limit ?rest" by simp
    with False batch show ?thesis by (simp add: case_prod_unfold Let_def)
  qed
qed simp

end

subsection \<open>The in-memory log fulfils the contract\<close>

definition mc_abs :: "memory_change_log \<Rightarrow> feed" where
  "mc_abs s = \<lparr>fd_events = mc_inner s, fd_latest = mc_next s, fd_offsets = mc_committed_offset s\<rparr>"

definition mc_ok :: "memory_change_log \<Rightarrow> bool" where
  "mc_ok s \<longleftrightarrow> feed_ok (mc_abs s)"

interpretation memlog: change_feed memory_log mc_ok mc_abs
proof
  fix s op val st doc_id
  assume "mc_ok s" and room: "feed_room (mc_abs s) 1"
  let ?s = "s\<lparr>mc_next := mc_next s + 1, mc_inner := mc_inner s @
    [\<lparr>ev_seq = mc_next s + 1, ev_op = op, ev_value = val, ev_set = st, ev_doc_id = doc_id\<rparr>]\<rparr>"
  have abs: "mc_abs ?s = feed_append op val st doc_id (mc_abs s)"
    by (simp add: mc_abs_def feed_append_def mc_committed_offset_def fun_eq_iff)
  have "feed_room (mc_abs s) 0" using room by (simp add: feed_room_def)
  with \<open>mc_ok s\<close> have "mc_ok ?s" unfolding mc_ok_def abs by (rule feed_ok_append)
  with abs show "\<exists>s'. cf_append memory_log op val st doc_id s = Some (s', fd_latest (mc_abs s) + 1) \<and> mc_ok s' \<and>
      mc_abs s' = feed_append op val st doc_id (mc_abs s)"
    by (simp add: memory_log_def mc_append_def Let_def) (simp add: mc_abs_def)
next
  fix s before
  assume "mc_ok s"
  let ?s = "s\<lparr>mc_inner := filter (\<lambda>e. ev_seq e \<ge> before) (mc_inner s)\<rparr>"
  have abs: "mc_abs ?s = feed_compact before (mc_abs s)"
    by (simp add: mc_abs_def feed_compact_def mc_committed_offset_def fun_eq_iff)
  have "mc_ok ?s" using \<open>mc_ok s\<close> unfolding mc_ok_def abs by simp
  with abs show "\<exists>s'. cf_compact memory_log before s =
        (s', length (fd_events (mc_abs s)) - length (fd_events (feed_compact before (mc_abs s)))) \<and>
      mc_ok s' \<and> mc_abs s' = feed_compact before (mc_abs s)"
    by (simp add: memory_log_def mc_compact_def Let_def) (simp add: mc_abs_def feed_compact_def)
next
  fix s grp seq
  assume "mc_ok s"
  have abs: "mc_abs (mc_commit_offset grp seq s) = feed_commit grp seq (mc_abs s)"
    by (auto simp: mc_abs_def mc_commit_offset_def feed_commit_def mc_committed_offset_def hm_simps fun_eq_iff)
  with \<open>mc_ok s\<close> show "mc_ok (cf_commit_offset memory_log grp seq s) \<and>
      mc_abs (cf_commit_offset memory_log grp seq s) = feed_commit grp seq (mc_abs s)"
    by (simp add: memory_log_def mc_ok_def)
qed (simp_all add: mc_ok_def memory_log_def mc_read_def mc_latest_seq_def mc_abs_def feed_after_def)

subsection \<open>The log on LMDB fulfils the contract\<close>

fun decode_events :: "change_event serde \<Rightarrow> (string \<times> string) list \<Rightarrow> change_event list" where
  "decode_events S [] = []"
| "decode_events S ((k, v) # items) = (case sd_from_str S v of
       None \<Rightarrow> decode_events S items | Some ev \<Rightarrow> ev # decode_events S items)"

fun parse_offset :: "string option \<Rightarrow> u64" where
  "parse_offset None = 0"
| "parse_offset (Some v) = (case parse_u64 v of None \<Rightarrow> 0 | Some n \<Rightarrow> n)"

definition event_ok :: "change_event serde \<Rightarrow> string \<times> string \<Rightarrow> bool" where
  "event_ok S = (\<lambda>(k, v). case sd_from_str S v of None \<Rightarrow> False | Some ev \<Rightarrow> k = feed_key (ev_seq ev))"

definition lc_abs :: "'d heed \<Rightarrow> change_event serde \<Rightarrow> 'd lmdb_change_log \<Rightarrow> feed" where
  "lc_abs D S s = \<lparr>fd_events = decode_events S (hd_entries D (lc_db s)), fd_latest = lc_next s - 1,
     fd_offsets = (\<lambda>grp. parse_offset (map_of (hd_entries D (lc_offsets s)) grp))\<rparr>"

definition lc_ok :: "'d heed \<Rightarrow> change_event serde \<Rightarrow> 'd lmdb_change_log \<Rightarrow> bool" where
  "lc_ok D S s \<longleftrightarrow> heed_laws D \<and> serde_laws S \<and> list_all (event_ok S) (hd_entries D (lc_db s)) \<and>
     0 < lc_next s \<and> feed_ok (lc_abs D S s)"

lemma feed_key_parse [simp]: "parse_u64 (feed_key s) = Some s"
  by (simp add: feed_key_def)

lemma feed_key_less [simp]: "feed_key s < feed_key t \<longleftrightarrow> s < t"
  by (simp add: feed_key_def pad_u64_less_iff)

lemma feed_key_valid [simp]: "lmdb_key (feed_key s)"
  by (simp add: lmdb_key_def feed_key_def)

lemma event_okE:
  assumes "event_ok S e"
  obtains ev v where "e = (feed_key (ev_seq ev), v)" and "sd_from_str S v = Some ev"
  using assms by (auto simp: event_ok_def split: option.splits prod.splits)

lemma decode_append: "decode_events S (xs @ ys) = decode_events S xs @ decode_events S ys"
  by (induction xs rule: decode_events.induct) (auto split: option.splits)

lemma decode_keys: "list_all (event_ok S) es \<Longrightarrow> map fst es = map (\<lambda>ev. feed_key (ev_seq ev)) (decode_events S es)"
proof (induction es)
  case (Cons e es)
  then obtain ev v where "e = (feed_key (ev_seq ev), v)" "sd_from_str S v = Some ev" by (auto elim: event_okE)
  with Cons show ?case by simp
qed simp

lemma decode_filter:
  "list_all (event_ok S) es \<Longrightarrow>
   decode_events S (filter (\<lambda>e. P (fst e)) es) = filter (\<lambda>ev. P (feed_key (ev_seq ev))) (decode_events S es)"
proof (induction es)
  case (Cons e es)
  then obtain ev v where "e = (feed_key (ev_seq ev), v)" "sd_from_str S v = Some ev" by (auto elim: event_okE)
  with Cons show ?case by simp
qed simp

lemma collect_events_eq:
  assumes "length out < limit"
  shows "collect_events S since limit es out =
    out @ take (limit - length out) (filter (\<lambda>ev. ev_seq ev > since) (decode_events S es))"
  using assms
proof (induction es arbitrary: out)
  case (Cons e es)
  obtain k v where e: "e = (k, v)" by (cases e)
  show ?case
  proof (cases "sd_from_str S v")
    case (Some ev)
    consider "\<not> ev_seq ev > since" | "ev_seq ev > since" "limit \<le> Suc (length out)"
      | "ev_seq ev > since" "Suc (length out) < limit" by linarith
    then show ?thesis
    proof cases
      case 2
      then have "limit - length out = 1" using Cons.prems by linarith
      with 2 Some e show ?thesis by (simp add: Let_def)
    next
      case 3
      then have "limit - length out = Suc (limit - Suc (length out))" by linarith
      with 3 Some e Cons.IH [of "out @ [ev]"] show ?thesis by (simp add: Let_def)
    qed (use Some e Cons in simp)
  qed (use e Cons in simp)
qed simp

lemma stale_keys_eq:
  assumes "list_all (event_ok S) es" and "sorted_wrt (<) (map fst es)"
  shows "stale_keys before es = map fst (filter (\<lambda>e. fst e < feed_key before) es)"
  using assms
proof (induction es)
  case (Cons e es)
  from Cons.prems(1) obtain ev v where e: "e = (feed_key (ev_seq ev), v)"
    "sd_from_str S v = Some ev" by (auto elim: event_okE)
  show ?case
  proof (cases "ev_seq ev < before")
    case False
    then have "feed_key before \<le> feed_key (ev_seq ev)" by (simp add: not_less [symmetric])
    then have "filter (\<lambda>e. fst e < feed_key before) es = []"
      using Cons.prems(2) e by (fastforce simp: filter_empty_conv)
    with False e show ?thesis by simp
  qed (use Cons e in simp)
qed simp

lemma lc_append_law:
  assumes ok: "lc_ok D S s" and room: "feed_room (lc_abs D S s) 1"
  shows "\<exists>s'. lc_append D S op val st doc_id s = Some (s', fd_latest (lc_abs D S s) + 1) \<and> lc_ok D S s' \<and>
    lc_abs D S s' = feed_append op val st doc_id (lc_abs D S s)"
proof -
  let ?ev = "\<lparr>ev_seq = lc_next s, ev_op = op, ev_value = val, ev_set = st, ev_doc_id = doc_id\<rparr>"
  have D: "heed_laws D" and S: "serde_laws S" and es: "list_all (event_ok S) (hd_entries D (lc_db s))"
    and pos: "0 < lc_next s" and f: "feed_ok (lc_abs D S s)" using ok by (simp_all add: lc_ok_def)
  have "k < feed_key (lc_next s)" if k: "k \<in> fst ` set (hd_entries D (lc_db s))" for k
  proof -
    from k decode_keys [OF es] obtain ev where
      ev: "ev \<in> set (decode_events S (hd_entries D (lc_db s)))" "k = feed_key (ev_seq ev)"
      by (metis (no_types, lifting) imageE list.set_map)
    with feed_seq_bounds [OF f, of ev] have "unat (ev_seq ev) \<le> unat (lc_next s - 1)" by (simp add: lc_abs_def)
    then have "unat (ev_seq ev) < unat (lc_next s)"
      using pos by (simp add: unat_minus_one word_less_nat_alt)
    with ev(2) show ?thesis by (simp add: word_less_nat_alt)
  qed
  then obtain d where d: "hd_put D (feed_key (lc_next s)) (sd_to_string S ?ev) (lc_db s) = Some d"
    "hd_entries D d = hd_entries D (lc_db s) @ [(feed_key (lc_next s), sd_to_string S ?ev)]"
    using heed_put_last [OF D feed_key_valid] by metis
  let ?s = "s\<lparr>lc_db := d, lc_next := lc_next s + 1\<rparr>"
  have abs: "lc_abs D S ?s = feed_append op val st doc_id (lc_abs D S s)"
    using d(2) S by (simp add: lc_abs_def feed_append_def decode_append serde_laws_def)
  have "unat (lc_next s - 1) + 2 < 2 ^ 64" using room by (simp add: feed_room_def lc_abs_def)
  moreover have "unat (lc_next s) = Suc (unat (lc_next s - 1))" using pos by (simp add: unat_minus_one unat_gt_0)
  ultimately have "lc_next s < - 1" unfolding u64_less_max by simp
  from pos u64_less_Suc [OF this] have "0 < lc_next s + 1" by (rule order.strict_trans)
  moreover have "feed_room (lc_abs D S s) 0" using room by (simp add: feed_room_def)
  from feed_ok_append [OF f this] have "feed_ok (lc_abs D S ?s)" unfolding abs .
  ultimately have "lc_ok D S ?s"
    using D S es d(2) by (simp add: lc_ok_def event_ok_def serde_laws_def)
  moreover have "lc_append D S op val st doc_id s = Some (?s, lc_next s)"
    using d(1) heed_txns [OF D] by (simp add: lc_append_def Let_def)
  ultimately show ?thesis using abs by (simp add: lc_abs_def)
qed

lemma lc_compact_law:
  assumes ok: "lc_ok D S s"
  shows "\<exists>s'. lc_compact D before s =
      (s', length (fd_events (lc_abs D S s)) - length (fd_events (feed_compact before (lc_abs D S s)))) \<and>
    lc_ok D S s' \<and> lc_abs D S s' = feed_compact before (lc_abs D S s)"
proof -
  have D: "heed_laws D" and S: "serde_laws S" and es: "list_all (event_ok S) (hd_entries D (lc_db s))"
    and pos: "0 < lc_next s" and f: "feed_ok (lc_abs D S s)" using ok by (simp_all add: lc_ok_def)
  let ?es = "hd_entries D (lc_db s)" and ?ks = "stale_keys before (hd_entries D (lc_db s))"
  note srt = heed_sorted [OF D, of "lc_db s"]
  have ks: "?ks = map fst (filter (\<lambda>e. fst e < feed_key before) ?es)" by (rule stale_keys_eq [OF es srt])
  have ev: "filter (\<lambda>ev. P (feed_key (ev_seq ev))) (decode_events S ?es) = decode_events S (filter (\<lambda>e. P (fst e)) ?es)"
    for P by (rule decode_filter [OF es, symmetric])
  have stale: "length ?ks = length (decode_events S ?es) - length (filter (\<lambda>ev. before \<le> ev_seq ev) (decode_events S ?es))"
  proof -
    have "?ks = map (\<lambda>ev. feed_key (ev_seq ev)) (filter (\<lambda>ev. ev_seq ev < before) (decode_events S ?es))"
      unfolding ks using decode_keys [of S "filter (\<lambda>e. fst e < feed_key before) ?es"] es
        ev [of "\<lambda>k. k < feed_key before"] by (simp add: list_all_iff)
    then have "length ?ks = length (filter (\<lambda>ev. \<not> before \<le> ev_seq ev) (decode_events S ?es))"
      by (simp add: not_le)
    then show ?thesis using sum_length_filter_compl [of "\<lambda>ev. before \<le> ev_seq ev" "decode_events S ?es"] by simp
  qed
  have good: "list_all lmdb_key ?ks"
    using es unfolding ks by (auto simp: list_all_iff) (metis event_okE fst_conv feed_key_valid)
  have dist: "distinct ?ks" unfolding ks using heed_distinct [OF D] by (rule distinct_map_filter)
  have sub: "set ?ks \<subseteq> fst ` set ?es" unfolding ks by auto
  obtain d n where dn: "delete_all D ?ks (lc_db s) 0 = (d, n)" by (cases "delete_all D ?ks (lc_db s) 0")
  with delete_all_entries [OF D good dist sub, of 0]
  have ents: "hd_entries D d = filter (\<lambda>e. fst e \<notin> set ?ks) ?es" and n: "n = length ?ks" by simp_all
  have "filter (\<lambda>e. fst e \<notin> set ?ks) ?es = filter (\<lambda>e. feed_key before \<le> fst e) ?es"
    unfolding ks by (rule filter_cong) (auto simp: not_le not_less)
  with ents have d: "hd_entries D d = filter (\<lambda>e. feed_key before \<le> fst e) ?es" by simp
  have le: "feed_key a \<le> feed_key b \<longleftrightarrow> a \<le> b" for a b by (simp add: not_less [symmetric])
  let ?s = "s\<lparr>lc_db := d\<rparr>"
  have abs: "lc_abs D S ?s = feed_compact before (lc_abs D S s)"
    using ev [of "\<lambda>k. feed_key before \<le> k"] by (simp add: lc_abs_def feed_compact_def d le)
  have "feed_ok (lc_abs D S ?s)" unfolding abs using f by simp
  then have ok': "lc_ok D S ?s" using D S es pos d by (simp add: lc_ok_def list_all_iff)
  have none: "?ks = []" if "before \<le> 1"
  proof -
    have "\<not> fst e < feed_key before" if e: "e \<in> set ?es" for e
    proof -
      from e decode_keys [OF es] obtain ev where "ev \<in> set (decode_events S ?es)" "fst e = feed_key (ev_seq ev)"
        by (metis (no_types, lifting) imageE imageI list.set_map)
      moreover from this(1) have "1 \<le> unat (ev_seq ev)" using feed_seq_bounds [OF f, of ev] by (simp add: lc_abs_def)
      ultimately show ?thesis using \<open>before \<le> 1\<close> by (auto simp: word_le_nat_alt word_less_nat_alt)
    qed
    then show ?thesis by (simp add: ks filter_empty_conv)
  qed
  have "lc_compact D before s = (?s, n)"
    using dn n none heed_txns [OF D] heed_iter [OF D] by (auto simp: lc_compact_def Let_def)
  moreover have "n = length (fd_events (lc_abs D S s)) - length (fd_events (feed_compact before (lc_abs D S s)))"
    using n stale by (simp add: lc_abs_def feed_compact_def)
  ultimately show ?thesis using ok' abs by auto
qed

lemma lc_commit_law:
  assumes ok: "lc_ok D S s" and "lmdb_key grp"
  shows "lc_ok D S (lc_commit_offset D grp seq s) \<and>
    lc_abs D S (lc_commit_offset D grp seq s) = feed_commit grp seq (lc_abs D S s)"
proof -
  have D: "heed_laws D" and f: "feed_ok (lc_abs D S s)" using ok by (simp_all add: lc_ok_def)
  obtain d where d: "hd_put D grp (show_u64 seq) (lc_offsets s) = Some d"
    "map_of (hd_entries D d) = (map_of (hd_entries D (lc_offsets s)))(grp \<mapsto> show_u64 seq)"
    using heed_put [OF D assms(2)] .
  have "lc_commit_offset D grp seq s = s\<lparr>lc_offsets := d\<rparr>"
    using d(1) heed_txns [OF D] by (simp add: lc_commit_offset_def)
  moreover have abs: "lc_abs D S (s\<lparr>lc_offsets := d\<rparr>) = feed_commit grp seq (lc_abs D S s)"
    by (auto simp: lc_abs_def feed_commit_def d(2) fun_eq_iff)
  moreover have "feed_ok (lc_abs D S (s\<lparr>lc_offsets := d\<rparr>))" unfolding abs using f by simp
  ultimately show ?thesis using ok by (simp add: lc_ok_def)
qed

lemma lc_read_laws:
  assumes ok: "lc_ok D S s"
  shows "1 \<le> limit \<Longrightarrow> lc_read D S s since limit = take limit (feed_after (lc_abs D S s) since)"
    and "lc_latest_seq s = fd_latest (lc_abs D S s)"
    and "lmdb_key grp \<Longrightarrow> lc_committed_offset D s grp = fd_offsets (lc_abs D S s) grp"
proof -
  have D: "heed_laws D" and pos: "0 < lc_next s" using ok by (simp_all add: lc_ok_def)
  show "lc_read D S s since limit = take limit (feed_after (lc_abs D S s) since)" if "1 \<le> limit"
    using that collect_events_eq [of "[]" limit S since] heed_txns [OF D] heed_iter [OF D]
    by (simp add: lc_read_def lc_abs_def feed_after_def)
  have "1 \<le> lc_next s" using pos by (simp add: word_le_nat_alt word_less_nat_alt)
  then show "lc_latest_seq s = fd_latest (lc_abs D S s)"
    by (simp add: lc_latest_seq_def saturating_sub_def lc_abs_def)
  show "lc_committed_offset D s grp = fd_offsets (lc_abs D S s) grp" if "lmdb_key grp"
    using heed_get [OF D that] heed_txns [OF D]
    by (simp add: lc_committed_offset_def lc_abs_def split: option.split)
qed

interpretation lmdblog: change_feed "lmdb_log D S" "lc_ok D S" "lc_abs D S" for D S
  by unfold_locales
    (simp_all add: lmdb_log_def lc_append_law lc_compact_law lc_commit_law lc_read_laws, simp add: lc_ok_def)

subsection \<open>Properties\<close>

lemma lc_open_eq:
  assumes D: "heed_laws D"
  shows "lc_open D db offsets = Some \<lparr>lc_db = db, lc_offsets = offsets, lc_next =
    (if hd_entries D db = [] then 0
     else case parse_u64 (fst (last (hd_entries D db))) of None \<Rightarrow> 0 | Some n \<Rightarrow> n) + 1\<rparr>"
  using heed_txns [OF D] heed_last [OF D] by (simp add: lc_open_def Let_def case_prod_unfold)

lemma lc_open_fresh:
  assumes "heed_laws D" and "serde_laws S" and "hd_entries D db = []" and "hd_entries D offsets = []"
    and "lc_open D db offsets = Some s"
  shows "lc_ok D S s" and "lc_abs D S s = \<lparr>fd_events = [], fd_latest = 0, fd_offsets = (\<lambda>grp. 0)\<rparr>"
  using assms by (auto simp: lc_open_eq lc_ok_def lc_abs_def feed_ok_def)

lemma mc_new_fresh: "mc_ok mc_new" "mc_abs mc_new = \<lparr>fd_events = [], fd_latest = 0, fd_offsets = (\<lambda>grp. 0)\<rparr>"
  by (simp_all add: mc_new_def mc_ok_def mc_abs_def feed_ok_def mc_committed_offset_def fun_eq_iff)

instance change_event_ext :: (countable) countable
  by (rule countable_classI [of "\<lambda>e. to_nat (ev_seq e, ev_op e, ev_value e, ev_set e, ev_doc_id e, change_event.more e)"])
    (simp add: change_event.equality)

abbreviation event_serde :: "change_event serde" where
  "event_serde \<equiv> nat_serde"

abbreviation fresh_log :: "sorted_db lmdb_change_log" where
  "fresh_log \<equiv> \<lparr>lc_db = sdb_empty, lc_offsets = sdb_empty, lc_next = 1\<rparr>"

lemma fresh_log_open: "lc_open sorted_heed sdb_empty sdb_empty = Some fresh_log"
  by (simp add: lc_open_eq)

lemma fresh_log_ok: "lc_ok sorted_heed event_serde fresh_log"
  by (rule lc_open_fresh [OF sorted_heed_laws nat_serde_laws _ _ fresh_log_open]) simp_all

text \<open>
  C29. The durable change log and the in-memory one are interchangeable: every sequence of requests
  (append, read, latest number, compaction, retention, group offsets, group reads) with positive
  limits and group names that LMDB accepts runs on both without a panic and gets the same answers.
\<close>

theorem change_logs_equivalent:
  assumes "heed_laws D" and "serde_laws S" and "hd_entries D db = []" and "hd_entries D offsets = []"
    and "lc_open D db offsets = Some s" and "list_all feed_request opers" and "length opers + 1 < 2 ^ 64"
  shows "\<exists>s' m' answers. log_run (lmdb_log D S) opers s = Some (s', answers) \<and>
    log_run memory_log opers mc_new = Some (m', answers)"
proof -
  note l = lc_open_fresh [OF assms(1-5)]
  have room: "feed_room (lc_abs D S s) (length opers)" "feed_room (mc_abs mc_new) (length opers)"
    using assms(7) by (simp_all add: feed_room_def l(2) mc_new_fresh(2))
  show ?thesis
    using lmdblog.run_refines [OF l(1) assms(6) room(1)] memlog.run_refines [OF mc_new_fresh(1) assms(6) room(2)]
    unfolding l(2) mc_new_fresh(2) by blast
qed

theorem change_logs_equivalent_witness:
  "\<exists>s' m' answers. log_run (lmdb_log sorted_heed event_serde)
      [FeedAppend ''add'' ''v'' ''s'' ''d'', FeedReadGroup ''g'' 10] fresh_log = Some (s', answers) \<and>
    log_run memory_log [FeedAppend ''add'' ''v'' ''s'' ''d'', FeedReadGroup ''g'' 10] mc_new = Some (m', answers)"
  by (rule change_logs_equivalent [OF sorted_heed_laws nat_serde_laws _ _ fresh_log_open])
    (simp_all add: lmdb_key_def)

text \<open>
  C30. A consumer group that reads batches and commits the last number of each gets every retained
  event after its offset exactly once, in the order of the numbers and without gaps.
\<close>

theorem feed_consumer_complete:
  assumes "lc_ok D S s" and "lmdb_key grp" and "1 \<le> limit"
    and "unat (lc_latest_seq s) \<le> k * limit"
  shows "let got = snd (consume (lmdb_log D S) grp limit k s) in
    got = filter (\<lambda>e. ev_seq e > lc_committed_offset D s grp) (fd_events (lc_abs D S s)) \<and>
    map (\<lambda>e. unat (ev_seq e)) got =
      [Suc (unat (lc_latest_seq s)) - length got ..< Suc (unat (lc_latest_seq s))]"
proof -
  let ?f = "lc_abs D S s"
  have f: "feed_ok ?f" using assms(1) by (simp add: lc_ok_def)
  note laws = lc_read_laws [OF assms(1)]
  have "length (feed_after ?f (fd_offsets ?f grp)) \<le> length (fd_events ?f)" by (simp add: feed_after_def)
  also have "\<dots> \<le> k * limit" using f assms(4) laws(2) by (simp add: feed_ok_def)
  finally have got: "snd (consume (lmdb_log D S) grp limit k s) = feed_after ?f (fd_offsets ?f grp)"
    by (rule lmdblog.consume_all [OF assms(2,3,1)])
  obtain n where n: "feed_after ?f (fd_offsets ?f grp) = drop n (fd_events ?f)"
    using feed_after_drop [OF f] by blast
  from feed_ok_drop [OF f, of n] show ?thesis
    using got laws(2,3) assms(2) by (simp add: Let_def feed_ok_def n [symmetric]) (simp add: feed_after_def)
qed

theorem feed_consumer_complete_witness:
  "\<exists>s. lc_append sorted_heed event_serde ''add'' ''v'' ''s'' ''d'' fresh_log = Some (s, 1) \<and>
     map ev_value (snd (consume (lmdb_log sorted_heed event_serde) ''g'' 2 1 s)) = [''v'']"
proof -
  have f: "lc_abs sorted_heed event_serde fresh_log = \<lparr>fd_events = [], fd_latest = 0, fd_offsets = (\<lambda>grp. 0)\<rparr>"
    by (simp add: lc_abs_def)
  then obtain s where s: "lc_append sorted_heed event_serde ''add'' ''v'' ''s'' ''d'' fresh_log = Some (s, 1)"
    "lc_ok sorted_heed event_serde s"
    "lc_abs sorted_heed event_serde s = feed_append ''add'' ''v'' ''s'' ''d'' \<lparr>fd_events = [], fd_latest = 0, fd_offsets = (\<lambda>grp. 0)\<rparr>"
    using lc_append_law [OF fresh_log_ok, of "''add''" "''v''" "''s''" "''d''"] by (auto simp: feed_room_def)
  have g: "lmdb_key ''g''" by (simp add: lmdb_key_def)
  show ?thesis
    using feed_consumer_complete [OF s(2) g, of 2 1] lc_read_laws [OF s(2)] s(1,3) g
    by (auto simp: Let_def feed_append_def simp del: consume.simps)
qed

lemma reopen_nonempty:
  assumes ok: "lc_ok D S s" and ne: "hd_entries D (lc_db s) \<noteq> []"
  shows "lc_open D (lc_db s) (lc_offsets s) = Some s"
proof -
  let ?es = "hd_entries D (lc_db s)" and ?f = "lc_abs D S s"
  have D: "heed_laws D" and es: "list_all (event_ok S) ?es" and pos: "0 < lc_next s" and f: "feed_ok ?f"
    using ok by (simp_all add: lc_ok_def)
  have evs: "fd_events ?f = decode_events S ?es" by (simp add: lc_abs_def)
  have keys: "map fst ?es = map (\<lambda>ev. feed_key (ev_seq ev)) (fd_events ?f)" unfolding evs by (rule decode_keys [OF es])
  then have ne': "fd_events ?f \<noteq> []" using ne by auto
  have "fst (last ?es) = last (map fst ?es)" by (simp add: last_map [OF ne])
  also have "\<dots> = feed_key (ev_seq (last (fd_events ?f)))" unfolding keys by (simp add: last_map [OF ne'])
  finally have key: "fst (last ?es) = feed_key (ev_seq (last (fd_events ?f)))" .
  have "unat (ev_seq (last (fd_events ?f))) = unat (fd_latest ?f)"
  proof -
    have "length (fd_events ?f) \<le> unat (fd_latest ?f)" using f by (simp only: feed_ok_def)
    moreover have "0 < length (fd_events ?f)" using ne' by simp
    ultimately have "Suc (unat (fd_latest ?f)) - length (fd_events ?f) + (length (fd_events ?f) - 1) = unat (fd_latest ?f)"
      by linarith
    then show ?thesis
      using feed_event_seq [OF f, of "length (fd_events ?f) - 1"] ne' by (simp add: last_conv_nth)
  qed
  then have "ev_seq (last (fd_events ?f)) = lc_next s - 1" by (simp add: lc_abs_def word_unat_eq_iff)
  with key show ?thesis by (simp add: lc_open_eq [OF D] ne)
qed

lemma reopen_compacted:
  assumes ok: "lc_ok D S s" and e: "hd_entries D (lc_db s) = []"
  shows "lc_open D (lc_db s) (lc_offsets s) = Some (s\<lparr>lc_next := 1\<rparr>)"
    and "lc_ok D S (s\<lparr>lc_next := 1\<rparr>)"
    and "lc_abs D S (s\<lparr>lc_next := 1\<rparr>) = \<lparr>fd_events = [], fd_latest = 0, fd_offsets = fd_offsets (lc_abs D S s)\<rparr>"
  using ok e by (auto simp: lc_open_eq lc_ok_def lc_abs_def feed_ok_def)

text \<open>
  C31. What a restart of the durable log recovers. With an event in the log, the log is the same
  as before. When compaction has dropped every event, the numbering starts again at 1 while the
  groups keep their offsets: a group that has read anything does not get the next event.
\<close>

theorem change_log_reopen:
  assumes "lc_ok D S s" and "lc_open D (lc_db s) (lc_offsets s) = Some s'"
  shows "(hd_entries D (lc_db s) \<noteq> [] \<longrightarrow> s' = s) \<and>
    (hd_entries D (lc_db s) = [] \<longrightarrow>
       lc_latest_seq s' = 0 \<and>
       (lmdb_key grp \<longrightarrow> 1 \<le> limit \<longrightarrow> 1 \<le> lc_committed_offset D s grp \<longrightarrow>
          (\<exists>s''. lc_append D S op val st doc_id s' = Some (s'', 1) \<and>
             read_group (lmdb_log D S) s'' grp limit = [])))"
proof (cases "hd_entries D (lc_db s) = []")
  case True
  note c = reopen_compacted [OF assms(1) True]
  have s': "s' = s\<lparr>lc_next := 1\<rparr>" using c(1) assms(2) by simp
  note ok' = c(2) [folded s'] and abs' = c(3) [folded s']
  have "lc_latest_seq s' = 0" using lc_read_laws(2) [OF ok'] by (simp add: abs')
  moreover have "\<exists>s''. lc_append D S op val st doc_id s' = Some (s'', 1) \<and> read_group (lmdb_log D S) s'' grp limit = []"
    if grp: "lmdb_key grp" "1 \<le> limit" "1 \<le> lc_committed_offset D s grp"
  proof -
    have "feed_room (lc_abs D S s') 1" by (simp add: abs' feed_room_def)
    then obtain s'' where s'': "lc_append D S op val st doc_id s' = Some (s'', 1)" "lc_ok D S s''"
      "lc_abs D S s'' = feed_append op val st doc_id (lc_abs D S s')"
      using lc_append_law [OF ok', of op val st doc_id] by (auto simp: abs')
    have "1 \<le> fd_offsets (lc_abs D S s) grp" using lc_read_laws(3) [OF assms(1) grp(1)] grp(3) by simp
    then have "feed_after (lc_abs D S s'') (fd_offsets (lc_abs D S s'') grp) = []"
      by (auto simp: s''(3) abs' feed_append_def feed_after_def not_less)
    then have "read_group (lmdb_log D S) s'' grp limit = []"
      using lc_read_laws [OF s''(2)] grp by (simp add: read_group_def lmdb_log_def)
    with s''(1) show ?thesis by blast
  qed
  ultimately show ?thesis using True by blast
next
  case False
  then show ?thesis using reopen_nonempty [OF assms(1)] assms(2) by simp
qed

text \<open>Three events were read by a group and dropped; the event after the restart does not reach it.\<close>

abbreviation compacted_log :: "sorted_db lmdb_change_log" where
  "compacted_log \<equiv> \<lparr>lc_db = sdb_empty, lc_offsets = sdb_put ''g'' (show_u64 3) sdb_empty, lc_next = 4\<rparr>"

lemma compacted_log_ok: "lc_ok sorted_heed event_serde compacted_log"
  by (simp add: lc_ok_def lc_abs_def feed_ok_def)

theorem change_log_reopen_witness:
  "\<exists>s''. lc_append sorted_heed event_serde ''add'' ''v'' ''s'' ''d'' (compacted_log\<lparr>lc_next := 1\<rparr>) = Some (s'', 1) \<and>
    read_group (lmdb_log sorted_heed event_serde) s'' ''g'' 10 = []"
proof -
  have e: "hd_entries sorted_heed (lc_db compacted_log) = []" by simp
  have g: "lmdb_key ''g''" by (simp add: lmdb_key_def)
  have "lc_committed_offset sorted_heed compacted_log ''g'' = 3"
    using lc_read_laws(3) [OF compacted_log_ok g] by (simp add: lc_abs_def)
  then show ?thesis
    using change_log_reopen [OF compacted_log_ok reopen_compacted(1) [OF compacted_log_ok e],
        of "''g''" 10 "''add''" "''v''" "''s''" "''d''"] e g by simp
qed

end
