(* ===== verification/Utf8.thy ===== *)
theory Utf8
  imports Stplr_Prelude
begin

text \<open>
  Bytes and text: \<^verbatim>\<open>str::from_utf8\<close> and \<^verbatim>\<open>String::from_utf8_lossy\<close> of the standard library. A byte
  sequence is cut into well-formed sequences (Table 3-7 of the Unicode standard) and maximal
  ill-formed pieces; the lossy conversion replaces each piece by U+FFFD.
\<close>

abbreviation byte :: "char \<Rightarrow> nat" where
  "byte c \<equiv> of_char c"

definition cont_byte :: "char \<Rightarrow> bool" where
  "cont_byte c \<longleftrightarrow> 0x80 \<le> byte c \<and> byte c \<le> 0xBF"

text \<open>The bytes that may follow a leading byte, and how many continuation bytes it asks for.\<close>

definition second_ok :: "char \<Rightarrow> char \<Rightarrow> bool" where
  "second_ok a b \<longleftrightarrow>
     (if byte a = 0xE0 then 0xA0 \<le> byte b \<and> byte b \<le> 0xBF
      else if byte a = 0xED then 0x80 \<le> byte b \<and> byte b \<le> 0x9F
      else if byte a = 0xF0 then 0x90 \<le> byte b \<and> byte b \<le> 0xBF
      else if byte a = 0xF4 then 0x80 \<le> byte b \<and> byte b \<le> 0x8F
      else cont_byte b)"

definition follow_count :: "char \<Rightarrow> nat option" where
  "follow_count a = (let b = byte a in
     if b < 0x80 then Some 0
     else if 0xC2 \<le> b \<and> b \<le> 0xDF then Some 1
     else if 0xE0 \<le> b \<and> b \<le> 0xEF then Some 2
     else if 0xF0 \<le> b \<and> b \<le> 0xF4 then Some 3
     else None)"

text \<open>The length of the first piece and whether it is well formed.\<close>

definition good_follow :: "char \<Rightarrow> string \<Rightarrow> nat" where
  "good_follow a bs = (case bs of [] \<Rightarrow> 0
     | b # cs \<Rightarrow> if second_ok a b then Suc (length (takeWhile cont_byte cs)) else 0)"

definition first_piece :: "char \<Rightarrow> string \<Rightarrow> nat \<times> bool" where
  "first_piece a bs = (case follow_count a of
       None \<Rightarrow> (1, False)
     | Some n \<Rightarrow> (let m = good_follow a (take n bs) in (Suc m, m = n)))"

function from_utf8_lossy :: "string \<Rightarrow> string" where
  "from_utf8_lossy [] = []"
| "from_utf8_lossy (a # bs) =
     (let (n, ok) = first_piece a bs in
      (if ok then a # take (n - 1) bs else [CHR 0xEF, CHR 0xBF, CHR 0xBD]) @ from_utf8_lossy (drop (n - 1) bs))"
  by pat_completeness auto

termination
  by (relation "measure length") auto

function utf8_valid :: "string \<Rightarrow> bool" where
  "utf8_valid [] = True"
| "utf8_valid (a # bs) =
     (let (n, ok) = first_piece a bs in ok \<and> utf8_valid (drop (n - 1) bs))"
  by pat_completeness auto

termination
  by (relation "measure length") auto

text \<open>\<^verbatim>\<open>str::from_utf8\<close>: the text, when the bytes are one.\<close>

definition from_utf8 :: "string \<Rightarrow> string option" where
  "from_utf8 bs = (if utf8_valid bs then Some bs else None)"

definition ascii :: "string \<Rightarrow> bool" where
  "ascii s \<longleftrightarrow> list_all (\<lambda>c. byte c < 0x80) s"

lemma ascii_simps [simp]: "ascii []" "ascii (c # s) \<longleftrightarrow> byte c < 0x80 \<and> ascii s"
  "ascii (s @ t) \<longleftrightarrow> ascii s \<and> ascii t"
  by (simp_all add: ascii_def)

lemma first_piece_ascii: "byte a < 0x80 \<Longrightarrow> first_piece a bs = (1, True)"
  by (simp add: first_piece_def follow_count_def good_follow_def)

lemma lossy_valid: "utf8_valid s \<Longrightarrow> from_utf8_lossy s = s"
  by (induction s rule: utf8_valid.induct) (auto simp: Let_def split: prod.splits)

lemma utf8_valid_ascii: "ascii s \<Longrightarrow> utf8_valid s"
  by (induction s) (simp_all add: first_piece_ascii)

declare from_utf8_lossy.simps(2) [simp del] utf8_valid.simps(2) [simp del]

lemma lossy_ascii [simp]: "ascii s \<Longrightarrow> from_utf8_lossy s = s"
  by (simp add: lossy_valid utf8_valid_ascii)

lemma from_utf8_ascii [simp]: "ascii s \<Longrightarrow> from_utf8 s = Some s"
  by (simp add: from_utf8_def utf8_valid_ascii)

text \<open>ASCII text is one character per byte, so its chunks are its bytes.\<close>

lemma utf8_chunks_ascii: "ascii s \<Longrightarrow> utf8_chunks s = map (\<lambda>c. [c]) s"
  by (induction s) (simp_all add: seq_len_def)

end
