(* ===== verification/Access.thy ===== *)
theory Access
  imports Utf8
begin

text \<open>
  Authentication and authorization: \<^verbatim>\<open>src/rbac.rs\<close> (policies, grants and their configuration string)
  and the middleware of \<^verbatim>\<open>src/net.rs\<close> that applies them to HTTP requests.

  A request is what \<^verbatim>\<open>axum\<close> hands to the middleware, the record \<open>request\<close>; the value of the
  \<^verbatim>\<open>Authorization\<close> header is there when it is text. A layer answers with an error status or passes a
  request on, and \<open>None\<close> is a panic of the request's task. Reading a body up to a limit and reading
  JSON are the parameters \<open>to_bytes\<close> and \<open>J\<close>.
\<close>

subsection \<open>Grants and policies\<close>

datatype access_op = OpRead | OpWrite | OpDelete | OpAdmin

record grant =
  gr_coll :: string
  gr_read :: bool
  gr_write :: bool
  gr_delete :: bool
  gr_admin :: bool

definition grant_allows :: "grant \<Rightarrow> string option \<Rightarrow> access_op \<Rightarrow> bool" where
  "grant_allows g coll op \<longleftrightarrow>
     (if gr_coll g = ''*'' then True
      else case coll of Some c \<Rightarrow> gr_coll g = c | None \<Rightarrow> False) \<and>
     (case op of
        OpRead \<Rightarrow> gr_read g \<or> gr_admin g
      | OpWrite \<Rightarrow> gr_write g \<or> gr_admin g
      | OpDelete \<Rightarrow> gr_delete g \<or> gr_admin g
      | OpAdmin \<Rightarrow> gr_admin g)"

record principal =
  pr_name :: string
  pr_grants :: "grant list"

definition principal_allows :: "principal \<Rightarrow> string option \<Rightarrow> access_op \<Rightarrow> bool" where
  "principal_allows p coll op \<longleftrightarrow> list_ex (\<lambda>g. grant_allows g coll op) (pr_grants p)"

type_synonym policy = "(string, principal) hashmap"

datatype policy_error = BadEntry string | EmptyField string | BadPermission string string | EmptyPolicy

fun parse_perms :: "string \<Rightarrow> string list \<Rightarrow> grant \<Rightarrow> policy_error + grant" where
  "parse_perms entry [] g = Inr g"
| "parse_perms entry (ch # chs) g =
     (if ch = ''r'' then parse_perms entry chs (g\<lparr>gr_read := True\<rparr>)
      else if ch = ''w'' then parse_perms entry chs (g\<lparr>gr_write := True\<rparr>)
      else if ch = ''d'' then parse_perms entry chs (g\<lparr>gr_delete := True\<rparr>)
      else if ch = ''a'' then parse_perms entry chs (g\<lparr>gr_admin := True\<rparr>)
      else Inl (BadPermission ch entry))"

definition parse_entry :: "string \<Rightarrow> policy_error + string \<times> grant" where
  "parse_entry entry =
     (case split_on (CHR '':'') entry of
        [t, c, p] \<Rightarrow>
          (let token = trim_str t; coll = trim_str c; perms = trim_str p in
           if token = [] \<or> coll = [] then Inl (EmptyField entry)
           else case parse_perms entry (utf8_chunks perms)
               \<lparr>gr_coll = coll, gr_read = False, gr_write = False, gr_delete = False, gr_admin = False\<rparr> of
             Inl e \<Rightarrow> Inl e
           | Inr g \<Rightarrow> Inr (token, g))
      | _ \<Rightarrow> Inl (BadEntry entry))"

definition add_grant :: "string \<Rightarrow> grant \<Rightarrow> policy \<Rightarrow> policy" where
  "add_grant token g tokens =
     (let p = hm_or_default \<lparr>pr_name = token, pr_grants = []\<rparr> tokens token in
      hm_insert token (p\<lparr>pr_grants := pr_grants p @ [g]\<rparr>) tokens)"

fun parse_entries :: "string list \<Rightarrow> policy \<Rightarrow> policy_error + policy" where
  "parse_entries [] tokens = Inr tokens"
| "parse_entries (entry # es) tokens =
     (case parse_entry entry of
        Inl e \<Rightarrow> Inl e
      | Inr (token, g) \<Rightarrow> parse_entries es (add_grant token g tokens))"

definition policy_entries :: "string \<Rightarrow> string list" where
  "policy_entries spec = filter (\<lambda>s. s \<noteq> []) (map trim_str (split_on (CHR '';'') spec))"

definition policy_parse :: "string \<Rightarrow> policy_error + policy" where
  "policy_parse spec =
     (case parse_entries (policy_entries spec) [] of
        Inl e \<Rightarrow> Inl e
      | Inr tokens \<Rightarrow> if tokens = [] then Inl EmptyPolicy else Inr tokens)"

definition policy_principal :: "policy \<Rightarrow> string \<Rightarrow> principal option" where
  "policy_principal P token = hm_get P token"

subsection \<open>The middleware\<close>

record request =
  rq_path :: string
  rq_query :: "string option"
  rq_is_post :: bool
  rq_authorization :: "string option"
  rq_body :: string

datatype status = UNAUTHORIZED | FORBIDDEN

definition presented_token :: "request \<Rightarrow> string option" where
  "presented_token req = (case rq_authorization req of None \<Rightarrow> None | Some h \<Rightarrow> strip_prefix ''Bearer '' h)"

definition open_path :: "string \<Rightarrow> bool" where
  "open_path path \<longleftrightarrow> path = ''/health'' \<or> path = ''/metrics''"

definition bearer_layer :: "string \<Rightarrow> request \<Rightarrow> status + request" where
  "bearer_layer token req =
     (if open_path (rq_path req) then Inr req
      else case presented_token req of
        Some v \<Rightarrow> if v = token then Inr req else Inl UNAUTHORIZED
      | None \<Rightarrow> Inl UNAUTHORIZED)"

definition require_bearer :: "string option \<Rightarrow> request \<Rightarrow> status + request" where
  "require_bearer token req = (case token of Some t \<Rightarrow> bearer_layer t req | None \<Rightarrow> Inr req)"

definition op_of :: "string \<Rightarrow> access_op" where
  "op_of path =
     (if starts_with path ''/admin'' then OpAdmin
      else if path \<in> {''/object'', ''/scan'', ''/mget'', ''/scanBuckets'', ''/export'', ''/caps'',
          ''/members'', ''/partitions'', ''/route'', ''/leader'', ''/ingest/status''} then OpRead
      else if path \<in> {''/deleteObject'', ''/dropBuckets''} then OpDelete
      else OpWrite)"

text \<open>\<^verbatim>\<open>u8::from_str_radix(s, 16)\<close> on two characters: a sign and a digit, or two digits.\<close>

definition hex_val :: "char \<Rightarrow> nat option" where
  "hex_val c = (let b = byte c in
     if 48 \<le> b \<and> b \<le> 57 then Some (b - 48)
     else if 65 \<le> b \<and> b \<le> 70 then Some (b - 55)
     else if 97 \<le> b \<and> b \<le> 102 then Some (b - 87)
     else None)"

definition hex_pair :: "char \<Rightarrow> char \<Rightarrow> char option" where
  "hex_pair c d =
     (if c = CHR ''+'' then map_option char_of (hex_val d)
      else case (hex_val c, hex_val d) of
        (Some h, Some l) \<Rightarrow> Some (char_of (16 * h + l)) | _ \<Rightarrow> None)"

text \<open>The loop; slicing between the bytes of one character panics.\<close>

fun decode_loop :: "string \<Rightarrow> string option" where
  "decode_loop [] = Some []"
| "decode_loop (b # bs) =
     (let plain = map_option ((#) (if b = CHR ''+'' then CHR '' '' else b)) (decode_loop bs) in
      if b = CHR ''%'' then
        (case bs of
           c # d # rest \<Rightarrow>
             (if rest \<noteq> [] \<and> cont_byte (hd rest) then None
              else case hex_pair c d of
                Some v \<Rightarrow> map_option ((#) v) (decode_loop rest)
              | None \<Rightarrow> plain)
         | _ \<Rightarrow> plain)
      else plain)"

definition percent_decode :: "string \<Rightarrow> string option" where
  "percent_decode s = map_option from_utf8_lossy (decode_loop s)"

fun find_coll :: "string list \<Rightarrow> string option" where
  "find_coll [] = None"
| "find_coll (p # ps) = (case strip_prefix ''coll='' p of Some v \<Rightarrow> Some v | None \<Rightarrow> find_coll ps)"

text \<open>\<open>None\<close>: panic; \<open>Some None\<close>: no collection in the query.\<close>

definition coll_from_query :: "string \<Rightarrow> string option option" where
  "coll_from_query q =
     (case find_coll (split_on (CHR ''&'') q) of
        None \<Rightarrow> Some None
      | Some v \<Rightarrow> map_option Some (percent_decode v))"

record 'v json_body =
  jb_from_slice :: "string \<Rightarrow> 'v option"
  jb_get :: "'v \<Rightarrow> string \<Rightarrow> 'v option"
  jb_as_str :: "'v \<Rightarrow> string option"

definition coll_from_body :: "'v json_body \<Rightarrow> string \<Rightarrow> string option" where
  "coll_from_body J bytes =
     (case jb_from_slice J bytes of
        None \<Rightarrow> None
      | Some v \<Rightarrow> (case jb_get J v ''coll'' of None \<Rightarrow> None | Some c \<Rightarrow> jb_as_str J c))"

definition request_coll :: "(nat \<Rightarrow> string \<Rightarrow> string option) \<Rightarrow> 'v json_body \<Rightarrow> request
    \<Rightarrow> (request \<times> string option) option" where
  "request_coll to_bytes J req =
     (case (case rq_query req of None \<Rightarrow> Some None | Some q \<Rightarrow> coll_from_query q) of
        None \<Rightarrow> None
      | Some query_coll \<Rightarrow>
          Some (if query_coll = None \<and> rq_is_post req then
                  (let bytes = (case to_bytes (2 ^ 20) (rq_body req) of None \<Rightarrow> [] | Some b \<Rightarrow> b) in
                   (req\<lparr>rq_body := bytes\<rparr>, coll_from_body J bytes))
                else (req, query_coll)))"

definition policy_layer :: "(nat \<Rightarrow> string \<Rightarrow> string option) \<Rightarrow> 'v json_body \<Rightarrow> policy \<Rightarrow> request
    \<Rightarrow> (status + request) option" where
  "policy_layer to_bytes J P req =
     (if open_path (rq_path req) then Some (Inr req)
      else case presented_token req of
        None \<Rightarrow> Some (Inl UNAUTHORIZED)
      | Some token \<Rightarrow>
          (let op = op_of (rq_path req) in
           case request_coll to_bytes J req of
             None \<Rightarrow> None
           | Some (req, coll) \<Rightarrow>
               Some (case policy_principal P token of
                   Some p \<Rightarrow> if principal_allows p coll op then Inr req else Inl FORBIDDEN
                 | None \<Rightarrow> Inl UNAUTHORIZED)))"

subsection \<open>What a configuration string grants\<close>

text \<open>An entry of the configuration, read on its own: token, collection and permission letters.\<close>

definition perm_letter :: "access_op \<Rightarrow> string" where
  "perm_letter op = (case op of OpRead \<Rightarrow> ''r'' | OpWrite \<Rightarrow> ''w'' | OpDelete \<Rightarrow> ''d'' | OpAdmin \<Rightarrow> ''a'')"

definition entry_fields :: "string \<Rightarrow> (string \<times> string \<times> string list) option" where
  "entry_fields entry =
     (case map trim_str (split_on (CHR '':'') entry) of
        [t, c, p] \<Rightarrow> Some (t, c, utf8_chunks p) | _ \<Rightarrow> None)"

definition entry_good :: "string \<Rightarrow> bool" where
  "entry_good entry = (case entry_fields entry of None \<Rightarrow> False
     | Some (t, c, ps) \<Rightarrow> t \<noteq> [] \<and> c \<noteq> [] \<and> set ps \<subseteq> {''r'', ''w'', ''d'', ''a''})"

definition entry_grants :: "string \<Rightarrow> string \<Rightarrow> string option \<Rightarrow> access_op \<Rightarrow> bool" where
  "entry_grants entry token coll op = (case entry_fields entry of None \<Rightarrow> False
     | Some (t, c, ps) \<Rightarrow> t = token \<and> (c = ''*'' \<or> Some c = coll) \<and> (perm_letter op \<in> set ps \<or> ''a'' \<in> set ps))"

definition entry_token :: "string \<Rightarrow> string option" where
  "entry_token entry = map_option fst (entry_fields entry)"

lemma parse_perms_eq:
  "parse_perms entry ps g =
     (if set ps \<subseteq> {''r'', ''w'', ''d'', ''a''} then
        Inr (g\<lparr>gr_read := (gr_read g \<or> ''r'' \<in> set ps), gr_write := (gr_write g \<or> ''w'' \<in> set ps),
               gr_delete := (gr_delete g \<or> ''d'' \<in> set ps), gr_admin := (gr_admin g \<or> ''a'' \<in> set ps)\<rparr>)
      else Inl (BadPermission (hd (filter (\<lambda>p. p \<notin> {''r'', ''w'', ''d'', ''a''}) ps)) entry))"
proof (induction ps arbitrary: g)
  case (Cons p ps)
  consider "p = ''r''" | "p = ''w''" | "p = ''d''" | "p = ''a''" | "p \<notin> {''r'', ''w'', ''d'', ''a''}" by blast
  then show ?case by cases (auto simp: Cons)
qed simp

lemma three_fields:
  "map f xs = [t, c, p] \<longleftrightarrow> (\<exists>t' c' p'. xs = [t', c', p'] \<and> t = f t' \<and> c = f c' \<and> p = f p')"
  by (auto simp: map_eq_Cons_conv)

lemma parse_entry_eq:
  "(\<exists>e. parse_entry entry = Inl e) \<longleftrightarrow> \<not> entry_good entry"
  "parse_entry entry = Inr (token, g) \<Longrightarrow> entry_good entry \<and> entry_token entry = Some token \<and>
     (\<forall>coll op. grant_allows g coll op \<longleftrightarrow> entry_grants entry token coll op)"
  by (auto simp: parse_entry_def entry_good_def entry_fields_def entry_token_def entry_grants_def grant_allows_def
      perm_letter_def parse_perms_eq Let_def split: list.splits if_splits access_op.splits option.splits)

text \<open>The grants that a token has in a policy under construction.\<close>

definition allowed :: "policy \<Rightarrow> string \<Rightarrow> string option \<Rightarrow> access_op \<Rightarrow> bool" where
  "allowed P token coll op = (case policy_principal P token of None \<Rightarrow> False
     | Some p \<Rightarrow> principal_allows p coll op)"

lemma add_grant_facts:
  "policy_principal (add_grant t g P) token = None \<longleftrightarrow> policy_principal P token = None \<and> token \<noteq> t"
  "allowed (add_grant t g P) token coll op \<longleftrightarrow> allowed P token coll op \<or> token = t \<and> grant_allows g coll op"
  by (auto simp: add_grant_def policy_principal_def allowed_def principal_allows_def hm_simps hm_or_default_def Let_def
      split: option.splits)

lemma parse_entries_error: "(\<exists>e. parse_entries es P = Inl e) \<longleftrightarrow> list_ex (\<lambda>e. \<not> entry_good e) es"
proof (induction es arbitrary: P)
  case (Cons entry es)
  show ?case
  proof (cases "parse_entry entry")
    case (Inl e)
    then show ?thesis using parse_entry_eq(1) [of entry] by auto
  next
    case (Inr r)
    moreover obtain t g where "r = (t, g)" by (cases r)
    ultimately show ?thesis using Cons parse_entry_eq(1) [of entry] by auto
  qed
qed simp

lemma parse_entries_policy:
  assumes "parse_entries es P = Inr P'"
  shows "policy_principal P' token = None \<longleftrightarrow> policy_principal P token = None \<and> Some token \<notin> entry_token ` set es"
    and "allowed P' token coll op \<longleftrightarrow> allowed P token coll op \<or> (\<exists>e \<in> set es. entry_grants e token coll op)"
proof (atomize (full), use assms in \<open>induction es arbitrary: P\<close>)
  case (Cons entry es)
  then obtain t g where e: "parse_entry entry = Inr (t, g)" "parse_entries es (add_grant t g P) = Inr P'"
    by (auto split: sum.splits)
  have fields: "entry_token entry = Some t" "grant_allows g coll op \<longleftrightarrow> entry_grants entry t coll op"
    using parse_entry_eq(2) [OF e(1)] by simp_all
  moreover have "entry_grants entry token coll op \<Longrightarrow> token = t"
    using fields(1) by (auto simp: entry_grants_def entry_token_def split: option.splits)
  ultimately show ?case using Cons.IH [OF e(2)] by (auto simp: add_grant_facts)
qed simp

lemma parse_entries_empty: "parse_entries es P = Inr [] \<Longrightarrow> es = []"
proof (induction es arbitrary: P)
  case (Cons entry es)
  then obtain t g where e: "parse_entry entry = Inr (t, g)" "parse_entries es (add_grant t g P) = Inr []"
    by (auto split: sum.splits)
  from e(2) have "es = []" by (rule Cons.IH)
  with e(2) have "add_grant t g P = []" by simp
  then show ?case using add_grant_facts(1) [of t g P t] by (simp add: policy_principal_def)
qed simp

lemma policy_parse_iff:
  "(\<exists>P. policy_parse spec = Inr P) \<longleftrightarrow> policy_entries spec \<noteq> [] \<and> list_all entry_good (policy_entries spec)"
proof (cases "parse_entries (policy_entries spec) []")
  case (Inl e)
  then show ?thesis using parse_entries_error [of "policy_entries spec" "[]"]
    by (auto simp: policy_parse_def list_all_iff list_ex_iff)
next
  case (Inr P)
  then have "list_all entry_good (policy_entries spec)"
    using parse_entries_error [of "policy_entries spec" "[]"] by (auto simp: list_all_iff list_ex_iff)
  moreover have "P = [] \<longleftrightarrow> policy_entries spec = []"
    using Inr parse_entries_empty by fastforce
  ultimately show ?thesis using Inr by (simp add: policy_parse_def)
qed

lemma policy_parse_grants:
  assumes "policy_parse spec = Inr P"
  shows "policy_principal P token = None \<longleftrightarrow> Some token \<notin> entry_token ` set (policy_entries spec)"
    and "allowed P token coll op \<longleftrightarrow> (\<exists>e \<in> set (policy_entries spec). entry_grants e token coll op)"
proof -
  have p: "parse_entries (policy_entries spec) [] = Inr P"
    using assms by (auto simp: policy_parse_def split: sum.splits if_splits)
  show "policy_principal P token = None \<longleftrightarrow> Some token \<notin> entry_token ` set (policy_entries spec)"
    using parse_entries_policy(1) [OF p] by (simp add: policy_principal_def)
  show "allowed P token coll op \<longleftrightarrow> (\<exists>e \<in> set (policy_entries spec). entry_grants e token coll op)"
    using parse_entries_policy(2) [OF p] by (simp add: allowed_def policy_principal_def)
qed

subsection \<open>Percent decoding\<close>

lemma decode_loop_ascii: "ascii s \<Longrightarrow> decode_loop s \<noteq> None"
proof (induction "length s" arbitrary: s rule: less_induct)
  case less
  show ?case
  proof (cases s)
    case (Cons b bs)
    then have tail: "decode_loop bs \<noteq> None" using less by simp
    have rest: "decode_loop rest \<noteq> None \<and> \<not> (rest \<noteq> [] \<and> cont_byte (hd rest))" if "bs = c # d # rest" for c d rest
    proof
      show "decode_loop rest \<noteq> None" using less.hyps [of rest] less.prems Cons that by simp
      show "\<not> (rest \<noteq> [] \<and> cont_byte (hd rest))"
        using less.prems Cons that by (cases rest) (auto simp: cont_byte_def)
    qed
    note step = decode_loop.simps(2) [of b bs, unfolded Let_def]
    consider "b \<noteq> CHR ''%'' \<or> length bs < 2" | c d rest where "bs = c # d # rest" "b = CHR ''%''"
      by (cases bs; cases "tl bs") auto
    then show ?thesis
    proof cases
      case 1
      then have "decode_loop (b # bs) = map_option ((#) (if b = CHR ''+'' then CHR '' '' else b)) (decode_loop bs)"
        unfolding step by (auto split: list.split)
      with tail show ?thesis by (simp only: Cons option.map_disc_iff not_False_eq_True)
    next
      case 2
      with rest tail show ?thesis
        unfolding Cons step by (cases "hex_pair c d") (simp_all del: not_None_eq decode_loop.simps)
    qed
  qed simp
qed

lemma decode_loop_plain:
  "list_all (\<lambda>c. c \<noteq> CHR ''%'' \<and> c \<noteq> CHR ''+'') s \<Longrightarrow> decode_loop s = Some s"
  by (induction s rule: decode_loop.induct) auto

lemma ascii_split_on: "ascii s \<Longrightarrow> list_all ascii (split_on d s)"
  by (induction s) (auto split: list.splits)

lemma ascii_find_coll: "list_all ascii ps \<Longrightarrow> find_coll ps = Some v \<Longrightarrow> ascii v"
  by (induction ps) (auto simp: strip_prefix_iff split: option.splits)

lemma coll_from_query_ascii:
  assumes "ascii q"
  shows "coll_from_query q \<noteq> None"
proof (cases "find_coll (split_on (CHR ''&'') q)")
  case (Some v)
  then have "ascii v" using ascii_find_coll [OF ascii_split_on [OF assms]] by blast
  with Some show ?thesis using decode_loop_ascii [of v]
    by (simp add: coll_from_query_def percent_decode_def del: not_None_eq)
qed (simp add: coll_from_query_def)

lemma request_coll_ascii:
  "(case rq_query req of None \<Rightarrow> True | Some q \<Rightarrow> ascii q) \<Longrightarrow> request_coll to_bytes J req \<noteq> None"
  using coll_from_query_ascii by (auto simp: request_coll_def Let_def split: option.splits)

subsection \<open>Properties\<close>

text \<open>
  C22. Every configuration string and every request gets the answer the entries call for. The
  string is rejected exactly when it has no entry or one of its entries is not a token, a
  collection and letters out of r, w, d and a. Under an accepted string, a request with an ASCII
  query never panics the middleware: the probes pass; no bearer token, or one that no entry
  names, is 401; a token passes when one of its entries covers the collection the middleware sees
  (by name or *) with the letter of the route's operation or with a; any other is 403.
\<close>

theorem access_decision:
  assumes "case rq_query req of None \<Rightarrow> True | Some q \<Rightarrow> ascii q"
  shows "case policy_parse spec of
      Inl e \<Rightarrow> policy_entries spec = [] \<or> list_ex (\<lambda>e. \<not> entry_good e) (policy_entries spec)
    | Inr P \<Rightarrow> policy_entries spec \<noteq> [] \<and> list_all entry_good (policy_entries spec) \<and>
        (\<exists>req' coll. request_coll to_bytes J req = Some (req', coll) \<and>
          policy_layer to_bytes J P req = Some (
            if open_path (rq_path req) then Inr req
            else case presented_token req of
              None \<Rightarrow> Inl UNAUTHORIZED
            | Some token \<Rightarrow>
                if list_ex (\<lambda>e. entry_grants e token coll (op_of (rq_path req))) (policy_entries spec) then Inr req'
                else if list_ex (\<lambda>e. entry_token e = Some token) (policy_entries spec) then Inl FORBIDDEN
                else Inl UNAUTHORIZED))"
proof (cases "policy_parse spec")
  case (Inl e)
  then show ?thesis using policy_parse_iff [of spec] by (auto simp: list_all_iff list_ex_iff)
next
  case (Inr P)
  obtain req' coll where rc: "request_coll to_bytes J req = Some (req', coll)"
    using request_coll_ascii [OF assms, of to_bytes J] by auto
  have known: "list_ex (\<lambda>e. entry_token e = Some t) (policy_entries spec) \<longleftrightarrow> policy_principal P t \<noteq> None" for t
    using policy_parse_grants(1) [OF Inr, of t] by (auto simp: list_ex_iff image_iff)
  have grants: "list_ex (\<lambda>e. entry_grants e t coll op) (policy_entries spec) \<longleftrightarrow> allowed P t coll op" for t op
    using policy_parse_grants(2) [OF Inr, of t coll op] by (auto simp: list_ex_iff)
  have "policy_layer to_bytes J P req = Some (
      if open_path (rq_path req) then Inr req
      else case presented_token req of None \<Rightarrow> Inl UNAUTHORIZED
        | Some t \<Rightarrow> if allowed P t coll (op_of (rq_path req)) then Inr req'
            else if policy_principal P t \<noteq> None then Inl FORBIDDEN else Inl UNAUTHORIZED)"
    by (simp add: policy_layer_def rc allowed_def Let_def split: option.split)
  then show ?thesis using Inr policy_parse_iff [of spec] rc by (simp add: known grants del: not_None_eq split: option.split)
qed

definition kv_write :: request where
  "kv_write = \<lparr>rq_path = ''/write'', rq_query = Some ''coll=kv'', rq_is_post = True,
     rq_authorization = Some ''Bearer app'', rq_body = ''{}''\<rparr>"

definition no_json :: "unit json_body" where
  "no_json = \<lparr>jb_from_slice = (\<lambda>b. None), jb_get = (\<lambda>v k. None), jb_as_str = (\<lambda>v. None)\<rparr>"

lemma kv_write_coll: "request_coll tb J kv_write = Some (kv_write, Some ''kv'')"
  by (simp add: request_coll_def kv_write_def coll_from_query_def percent_decode_def Let_def)

lemma kv_write_simps: "rq_path kv_write = ''/write''" "presented_token kv_write = Some ''app''"
  "rq_query kv_write = Some ''coll=kv''"
  by (simp_all add: kv_write_def presented_token_def)

lemma app_entries: "policy_entries ''app:kv:rw'' = [''app:kv:rw'']"
  "entry_fields ''app:kv:rw'' = Some (''app'', ''kv'', [''r'', ''w''])"
  by (simp_all add: policy_entries_def entry_fields_def trim_str_def Let_def is_whitespace_def seq_len_def)

theorem access_decision_witness:
  "case policy_parse ''app:kv:rw'' of Inl e \<Rightarrow> False
   | Inr P \<Rightarrow> policy_layer (\<lambda>n b. Some b) no_json P kv_write = Some (Inr kv_write)"
  using access_decision [of kv_write "''app:kv:rw''" "\<lambda>n b. Some b" no_json]
  by (simp add: kv_write_coll kv_write_simps app_entries entry_good_def entry_grants_def op_of_def open_path_def
      starts_with_def perm_letter_def split: sum.splits)

text \<open>
  A collection in the query decides alone: the middleware neither reads nor changes the body. A
  token that may write to one collection reaches the handler of a POST route, which takes the
  collection from the body, with any body.
\<close>

theorem policy_query_hides_body:
  assumes "\<not> open_path (rq_path req)" and "rq_query req = Some q" and "coll_from_query q = Some (Some c)"
    and "presented_token req = Some token" and "policy_principal P token = Some p"
    and "principal_allows p (Some c) (op_of (rq_path req))"
  shows "policy_layer to_bytes J P (req\<lparr>rq_body := body\<rparr>) = Some (Inr (req\<lparr>rq_body := body\<rparr>))"
  using assms by (simp add: policy_layer_def request_coll_def presented_token_def Let_def)

text \<open>
  A POST body longer than the limit, for which \<^verbatim>\<open>to_bytes\<close> fails, is replaced by an empty one: a token
  with a grant for all collections passes, and the handler gets no body.
\<close>

theorem policy_large_body_dropped:
  assumes "\<not> open_path (rq_path req)" and "rq_query req = None" and "rq_is_post req"
    and "to_bytes (2 ^ 20) (rq_body req) = None" and "jb_from_slice J [] = None"
    and "presented_token req = Some token" and "policy_principal P token = Some p"
    and "principal_allows p None (op_of (rq_path req))"
  shows "policy_layer to_bytes J P req = Some (Inr (req\<lparr>rq_body := []\<rparr>))"
  using assms by (simp add: policy_layer_def request_coll_def coll_from_body_def Let_def)

text \<open>Slicing inside a character: a percent sign, an ASCII character and a character of three bytes.\<close>

theorem percent_decode_panics:
  "utf8_valid (''%a'' @ [CHR 0xE2, CHR 0x82, CHR 0xAC]) \<and> percent_decode (''%a'' @ [CHR 0xE2, CHR 0x82, CHR 0xAC]) = None"
  by (simp add: utf8_valid.simps(2) percent_decode_def cont_byte_def first_piece_def follow_count_def good_follow_def second_ok_def)

end
