(* ===== verification/Metrics.thy ===== *)
theory Metrics
  imports Decimal
begin

text \<open>
  The process counters, \<^verbatim>\<open>src/metrics.rs\<close>: five relaxed atomic counters that every protocol bumps,
  and their rendering in the Prometheus text format. The statics of the module are the record
  \<open>metrics\<close>; \<^verbatim>\<open>fetch_add\<close> wraps at 64 bits. The uptime, printed with \<^verbatim>\<open>{:.3}\<close> from the process clock,
  is an argument.
\<close>

datatype counter = GET | SET | SADD | SREM | DEL

record metrics =
  mt_get :: u64
  mt_set :: u64
  mt_sadd :: u64
  mt_srem :: u64
  mt_del :: u64

definition metrics_zero :: metrics where
  "metrics_zero = \<lparr>mt_get = 0, mt_set = 0, mt_sadd = 0, mt_srem = 0, mt_del = 0\<rparr>"

fun fetch_add :: "counter \<Rightarrow> u64 \<Rightarrow> metrics \<Rightarrow> metrics" where
  "fetch_add GET n m = m\<lparr>mt_get := mt_get m + n\<rparr>"
| "fetch_add SET n m = m\<lparr>mt_set := mt_set m + n\<rparr>"
| "fetch_add SADD n m = m\<lparr>mt_sadd := mt_sadd m + n\<rparr>"
| "fetch_add SREM n m = m\<lparr>mt_srem := mt_srem m + n\<rparr>"
| "fetch_add DEL n m = m\<lparr>mt_del := mt_del m + n\<rparr>"

definition metrics_inc :: "counter \<Rightarrow> metrics \<Rightarrow> metrics" where
  "metrics_inc c m = fetch_add c 1 m"

definition metrics_total :: "metrics \<Rightarrow> u64" where
  "metrics_total m = mt_get m + mt_set m + mt_sadd m + mt_srem m + mt_del m"

definition op_line :: "string \<Rightarrow> u64 \<Rightarrow> string" where
  "op_line op n = ''stplr_ops_total{op='' @ [CHR 0x22] @ op @ [CHR 0x22] @ ''} '' @ show_u64 n @ [CHR 0x0A]"

definition metrics_render :: "string \<Rightarrow> metrics \<Rightarrow> string" where
  "metrics_render up m =
     ''# HELP stplr_ops_total Operations served, by type.'' @ [CHR 0x0A] @
     ''# TYPE stplr_ops_total counter'' @ [CHR 0x0A] @
     op_line ''get'' (mt_get m) @ op_line ''set'' (mt_set m) @ op_line ''sadd'' (mt_sadd m) @
     op_line ''srem'' (mt_srem m) @ op_line ''del'' (mt_del m) @
     ''# HELP stplr_ops_grand_total All operations served.'' @ [CHR 0x0A] @
     ''# TYPE stplr_ops_grand_total counter'' @ [CHR 0x0A] @
     ''stplr_ops_grand_total '' @ show_u64 (metrics_total m) @ [CHR 0x0A] @
     ''# HELP stplr_uptime_seconds Process uptime in seconds.'' @ [CHR 0x0A] @
     ''# TYPE stplr_uptime_seconds gauge'' @ [CHR 0x0A] @
     ''stplr_uptime_seconds '' @ up @ [CHR 0x0A]"

definition render_cluster_gauges :: "nat \<Rightarrow> nat \<Rightarrow> bool \<Rightarrow> string" where
  "render_cluster_gauges shards replication migrating =
     ''# HELP stplr_cluster_shards Number of shards the coordinator routes across.'' @ [CHR 0x0A] @
     ''# TYPE stplr_cluster_shards gauge'' @ [CHR 0x0A] @
     ''stplr_cluster_shards '' @ show_nat shards @ [CHR 0x0A] @
     ''# HELP stplr_cluster_replication Effective replication factor.'' @ [CHR 0x0A] @
     ''# TYPE stplr_cluster_replication gauge'' @ [CHR 0x0A] @
     ''stplr_cluster_replication '' @ show_nat replication @ [CHR 0x0A] @
     ''# HELP stplr_cluster_migrating Whether a rebalance/migration is in progress (1=yes).'' @ [CHR 0x0A] @
     ''# TYPE stplr_cluster_migrating gauge'' @ [CHR 0x0A] @
     ''stplr_cluster_migrating '' @ show_nat (if migrating then 1 else 0) @ [CHR 0x0A]"

fun counter_of :: "counter \<Rightarrow> metrics \<Rightarrow> u64" where
  "counter_of GET m = mt_get m"
| "counter_of SET m = mt_set m"
| "counter_of SADD m = mt_sadd m"
| "counter_of SREM m = mt_srem m"
| "counter_of DEL m = mt_del m"

lemma counter_fetch_add [simp]: "counter_of c (fetch_add c' n m) = (if c = c' then counter_of c m + n else counter_of c m)"
  by (cases c; cases c') simp_all

lemma counter_zero [simp]: "counter_of c metrics_zero = 0"
  by (cases c) (simp_all add: metrics_zero_def)

lemma total_fetch_add [simp]: "metrics_total (fetch_add c n m) = metrics_total m + n"
  by (cases c) (simp_all add: metrics_total_def)

end
