(* ===== verification/Proto.thy ===== *)
theory Proto
  imports Shard Utf8 Metrics
begin

text \<open>
  The binary shard protocol, \<^verbatim>\<open>src/proto.rs\<close>: length-prefixed frames on persistent connections and a
  group-commit writer task that the \<^verbatim>\<open>SET\<close> requests of all connections funnel through.

  The bytes a client sends until it closes the connection are a string; reading past its end is the
  I/O error that ends the handler. \<open>bin_frame\<close> reads one frame, \<open>bin_exec\<close> is the effect of one request
  on the shard and its reply. The server is a transition system: one step of a connection handles
  its next frame or writes the acknowledgement of a committed \<^verbatim>\<open>SET\<close>; the steps of the writer take a
  request from the channel and commit a batch. Locks are held within a step only. The order of steps
  is arbitrary, and the clock of each step too. \<^verbatim>\<open>serde_json\<close> on bytes is the parameter \<open>wire\<close>.
\<close>

subsection \<open>Frames\<close>

definition OP_GET :: nat where "OP_GET = 1"
definition OP_SET :: nat where "OP_SET = 2"
definition OP_SADD :: nat where "OP_SADD = 3"
definition OP_SREM :: nat where "OP_SREM = 4"
definition OP_DEL :: nat where "OP_DEL = 5"
definition OP_PING :: nat where "OP_PING = 6"
definition OP_AUTH :: nat where "OP_AUTH = 7"

definition ST_OK :: nat where "ST_OK = 0"
definition ST_ABSENT :: nat where "ST_ABSENT = 1"
definition ST_TRUE :: nat where "ST_TRUE = 2"

definition BATCH_MAX :: nat where "BATCH_MAX = 512"
definition CHAN_CAP :: nat where "CHAN_CAP = 2048"

record 'v wire =
  wi_to_vec :: "'v \<Rightarrow> string"
  wi_from_slice :: "string \<Rightarrow> 'v option"
  wi_string :: "string \<Rightarrow> 'v"

definition write_u8 :: "nat \<Rightarrow> string" where
  "write_u8 n = [char_of n]"

definition write_u32 :: "nat \<Rightarrow> string" where
  "write_u32 n = [char_of (n div 256 ^ 3), char_of (n div 256 ^ 2), char_of (n div 256), char_of n]"

fun read_u32 :: "string \<Rightarrow> (nat \<times> string) option" where
  "read_u32 (a # b # c # d # r) = Some (((byte a * 256 + byte b) * 256 + byte c) * 256 + byte d, r)"
| "read_u32 _ = None"

definition read_field :: "string \<Rightarrow> (string \<times> string) option" where
  "read_field s = (case read_u32 s of
       None \<Rightarrow> None
     | Some (n, r) \<Rightarrow> if length r < n then None else Some (take n r, drop n r))"

definition as_str :: "string \<Rightarrow> string" where
  "as_str b = (case from_utf8 b of Some s \<Rightarrow> s | None \<Rightarrow> [])"

datatype 'v bin_req =
    BGet string string
  | BSet string string 'v
  | BSadd string string string
  | BSrem string string string
  | BDel string string
  | BPing
  | BAuth string

text \<open>What the handler reads next: the end of the connection (also by a truncated frame, an unknown
  opcode or a request before authentication) or a request, with the bytes after it.\<close>

datatype 'v bin_parse = FClose | FReq "'v bin_req" string

definition fields2 :: "(string \<Rightarrow> string \<Rightarrow> 'v bin_req) \<Rightarrow> string \<Rightarrow> 'v bin_parse" where
  "fields2 f s = (case read_field s of None \<Rightarrow> FClose | Some (a, s) \<Rightarrow>
     (case read_field s of None \<Rightarrow> FClose | Some (b, s) \<Rightarrow> FReq (f a b) s))"

definition fields3 :: "(string \<Rightarrow> string \<Rightarrow> string \<Rightarrow> 'v bin_req) \<Rightarrow> string \<Rightarrow> 'v bin_parse" where
  "fields3 f s = (case read_field s of None \<Rightarrow> FClose | Some (a, s) \<Rightarrow>
     (case read_field s of None \<Rightarrow> FClose | Some (b, s) \<Rightarrow>
       (case read_field s of None \<Rightarrow> FClose | Some (c, s) \<Rightarrow> FReq (f a b c) s)))"

definition set_value :: "'v wire \<Rightarrow> string \<Rightarrow> 'v" where
  "set_value W val = (case wi_from_slice W val of Some v \<Rightarrow> v | None \<Rightarrow> wi_string W (from_utf8_lossy val))"

definition bin_frame :: "'v wire \<Rightarrow> bool \<Rightarrow> string \<Rightarrow> 'v bin_parse" where
  "bin_frame W authed inp = (case inp of
       [] \<Rightarrow> FClose
     | c # r \<Rightarrow>
         (let op = byte c in
          if op = OP_AUTH then (case read_field r of None \<Rightarrow> FClose | Some (presented, r) \<Rightarrow> FReq (BAuth presented) r)
          else if \<not> authed then FClose
          else if op = OP_GET then fields2 (\<lambda>coll key. BGet (as_str coll) (as_str key)) r
          else if op = OP_SET then
            fields3 (\<lambda>coll key val. BSet (from_utf8_lossy coll) (from_utf8_lossy key) (set_value W val)) r
          else if op = OP_SADD then
            fields3 (\<lambda>coll key member. BSadd (as_str coll) (as_str key) (as_str member)) r
          else if op = OP_SREM then
            fields3 (\<lambda>coll key member. BSrem (as_str coll) (as_str key) (as_str member)) r
          else if op = OP_DEL then fields2 (\<lambda>coll key. BDel (as_str coll) (as_str key)) r
          else if op = OP_PING then FReq BPing r
          else FClose))"

definition auth_ok :: "string option \<Rightarrow> string \<Rightarrow> bool" where
  "auth_ok token presented = (case token of None \<Rightarrow> True | Some t \<Rightarrow> presented = t)"

text \<open>The effect of a request on the shard and its reply; of a \<^verbatim>\<open>SET\<close>, as if it were written alone.\<close>

fun bin_exec :: "('s, 'v) index_store \<Rightarrow> 'v json \<Rightarrow> 'v wire \<Rightarrow> string option \<Rightarrow> u64 \<Rightarrow> 'v bin_req
    \<Rightarrow> 's shard \<Rightarrow> 's shard \<times> string" where
  "bin_exec S J W token now (BGet coll key) sh =
     (sh, case shard_object S now sh coll key of
            Some v \<Rightarrow> (let bytes = wi_to_vec W v in write_u8 ST_OK @ write_u32 (length bytes) @ bytes)
          | None \<Rightarrow> write_u8 ST_ABSENT)"
| "bin_exec S J W token now (BSet coll key v) sh = (shard_write_object S coll key v sh, write_u8 ST_OK)"
| "bin_exec S J W token now (BSadd coll key member) sh =
     (let (sh, added) = shard_set_add S J now coll key member sh in
      (sh, write_u8 (if added then ST_TRUE else ST_ABSENT)))"
| "bin_exec S J W token now (BSrem coll key member) sh =
     (let (sh, removed) = shard_set_remove S J now coll key member sh in
      (sh, write_u8 (if removed then ST_TRUE else ST_ABSENT)))"
| "bin_exec S J W token now (BDel coll key) sh = (shard_delete_object S coll key sh, write_u8 ST_OK)"
| "bin_exec S J W token now BPing sh = (sh, write_u8 ST_OK)"
| "bin_exec S J W token now (BAuth presented) sh =
     (sh, write_u8 (if auth_ok token presented then ST_OK else ST_ABSENT))"

fun bin_counter :: "'v bin_req \<Rightarrow> counter option" where
  "bin_counter (BGet _ _) = Some GET"
| "bin_counter (BSet _ _ _) = Some SET"
| "bin_counter (BSadd _ _ _) = Some SADD"
| "bin_counter (BSrem _ _ _) = Some SREM"
| "bin_counter (BDel _ _) = Some DEL"
| "bin_counter _ = None"

definition bin_count :: "'v bin_req \<Rightarrow> metrics \<Rightarrow> metrics" where
  "bin_count req m = (case bin_counter req of None \<Rightarrow> m | Some c \<Rightarrow> metrics_inc c m)"

subsection \<open>The server\<close>

datatype phase = Reading | Waiting | Acked | Closed

record conn =
  cn_in :: string
  cn_out :: string
  cn_authed :: bool
  cn_phase :: phase

type_synonym 'v write_req = "string \<times> string \<times> 'v"

record ('s, 'v) bin_server =
  bs_shard :: "'s shard"
  bs_metrics :: metrics
  bs_conns :: "conn list"
  bs_chan :: "(nat \<times> 'v write_req) list"
  bs_batch :: "(nat \<times> 'v write_req) list"
  bs_sealed :: bool

definition bin_init :: "string option \<Rightarrow> string list \<Rightarrow> 's shard \<Rightarrow> ('s, 'v) bin_server" where
  "bin_init token streams sh = \<lparr>bs_shard = sh, bs_metrics = metrics_zero,
     bs_conns = map (\<lambda>s. \<lparr>cn_in = s, cn_out = [], cn_authed = (token = None), cn_phase = Reading\<rparr>) streams,
     bs_chan = [], bs_batch = [], bs_sealed = False\<rparr>"

definition upd_conn :: "nat \<Rightarrow> (conn \<Rightarrow> conn) \<Rightarrow> ('s, 'v) bin_server \<Rightarrow> ('s, 'v) bin_server" where
  "upd_conn i f st = st\<lparr>bs_conns := (bs_conns st)[i := f (bs_conns st ! i)]\<rparr>"

text \<open>One round of the loop of \<^verbatim>\<open>handle\<close>: the next frame of connection \<open>i\<close>, with the request it
  performed. A \<^verbatim>\<open>SET\<close> is only sent, when the channel has room.\<close>

definition handle_frame :: "('s, 'v) index_store \<Rightarrow> 'v json \<Rightarrow> 'v wire \<Rightarrow> string option \<Rightarrow> u64 \<Rightarrow> nat
    \<Rightarrow> ('s, 'v) bin_server \<Rightarrow> (('s, 'v) bin_server \<times> 'v bin_req list) option" where
  "handle_frame S J W token now i st =
     (let c = bs_conns st ! i in
      case bin_frame W (cn_authed c) (cn_in c) of
        FClose \<Rightarrow> Some (upd_conn i (\<lambda>c. c\<lparr>cn_phase := Closed\<rparr>) st, [])
      | FReq (BSet coll key v) r \<Rightarrow>
          if CHAN_CAP \<le> length (bs_chan st) then None
          else Some (upd_conn i (\<lambda>c. c\<lparr>cn_in := r, cn_phase := Waiting\<rparr>)
            (st\<lparr>bs_chan := bs_chan st @ [(i, coll, key, v)]\<rparr>), [])
      | FReq req r \<Rightarrow>
          (let (sh, reply) = bin_exec S J W token now req (bs_shard st);
               authed = (case req of BAuth p \<Rightarrow> auth_ok token p | _ \<Rightarrow> cn_authed c) in
           Some (upd_conn i (\<lambda>c. \<lparr>cn_in = r, cn_out = cn_out c @ reply, cn_authed = authed,
                cn_phase = (if authed then Reading else Closed)\<rparr>)
              (st\<lparr>bs_shard := sh, bs_metrics := bin_count req (bs_metrics st)\<rparr>), [req])))"

definition write_ack :: "nat \<Rightarrow> ('s, 'v) bin_server \<Rightarrow> ('s, 'v) bin_server" where
  "write_ack i st = upd_conn i (\<lambda>c. c\<lparr>cn_out := cn_out c @ write_u8 ST_OK, cn_phase := Reading\<rparr>) st"

definition writer_commit :: "('s, 'v) index_store \<Rightarrow> ('s, 'v) bin_server \<Rightarrow> ('s, 'v) bin_server" where
  "writer_commit S st =
     (let st = st\<lparr>bs_metrics := fetch_add SET (of_nat (length (bs_batch st))) (bs_metrics st),
                  bs_shard := shard_write_batch S (map snd (bs_batch st)) (bs_shard st)\<rparr> in
      fold (\<lambda>(i, _). upd_conn i (\<lambda>c. c\<lparr>cn_phase := Acked\<rparr>)) (bs_batch st)
        (st\<lparr>bs_batch := [], bs_sealed := False\<rparr>))"

inductive bin_step :: "('s, 'v) index_store \<Rightarrow> 'v json \<Rightarrow> 'v wire \<Rightarrow> string option
    \<Rightarrow> ('s, 'v) bin_server \<Rightarrow> (nat \<times> u64 \<times> 'v bin_req) list \<Rightarrow> ('s, 'v) bin_server \<Rightarrow> bool"
  for S J W token where
  conn_frame: "i < length (bs_conns st) \<Longrightarrow> cn_phase (bs_conns st ! i) = Reading \<Longrightarrow>
    handle_frame S J W token now i st = Some (st', reqs) \<Longrightarrow>
    bin_step S J W token st (map (\<lambda>req. (i, now, req)) reqs) st'"
| conn_ack: "i < length (bs_conns st) \<Longrightarrow> cn_phase (bs_conns st ! i) = Acked \<Longrightarrow>
    bin_step S J W token st [] (write_ack i st)"
| writer_recv: "bs_chan st = x # xs \<Longrightarrow> length (bs_batch st) < BATCH_MAX \<Longrightarrow> \<not> bs_sealed st \<Longrightarrow>
    bin_step S J W token st [] (st\<lparr>bs_chan := xs, bs_batch := bs_batch st @ [x]\<rparr>)"
| writer_seal: "bs_batch st \<noteq> [] \<Longrightarrow> length (bs_batch st) = BATCH_MAX \<or> bs_chan st = [] \<Longrightarrow> \<not> bs_sealed st \<Longrightarrow>
    bin_step S J W token st [] (st\<lparr>bs_sealed := True\<rparr>)"
| writer_commits: "bs_sealed st \<Longrightarrow>
    bin_step S J W token st (map (\<lambda>(i, coll, key, v). (i, now, BSet coll key v)) (bs_batch st)) (writer_commit S st)"

inductive bin_run :: "('s, 'v) index_store \<Rightarrow> 'v json \<Rightarrow> 'v wire \<Rightarrow> string option
    \<Rightarrow> ('s, 'v) bin_server \<Rightarrow> nat \<Rightarrow> (nat \<times> u64 \<times> 'v bin_req) list \<Rightarrow> ('s, 'v) bin_server \<Rightarrow> bool"
  for S J W token where
  run_start: "bin_run S J W token st 0 [] st"
| run_step: "bin_run S J W token st n tr st1 \<Longrightarrow> bin_step S J W token st1 evs st2 \<Longrightarrow>
    bin_run S J W token st (Suc n) (tr @ evs) st2"

subsection \<open>What a stream asks for, and one request at a time\<close>

lemma read_u32_shorter: "read_u32 s = Some (n, r) \<Longrightarrow> length r < length s"
  by (cases s rule: read_u32.cases) auto

lemma read_field_shorter: "read_field s = Some (b, r) \<Longrightarrow> length r < length s"
  by (auto simp: read_field_def dest!: read_u32_shorter split: option.splits if_splits)

lemma bin_frame_shorter: "bin_frame W authed s = FReq req r \<Longrightarrow> length r < length s"
  by (auto simp: bin_frame_def fields2_def fields3_def Let_def dest!: read_field_shorter
      split: list.splits option.splits if_splits)

function bin_decode :: "'v wire \<Rightarrow> string option \<Rightarrow> bool \<Rightarrow> string \<Rightarrow> 'v bin_req list" where
  "bin_decode W token authed s =
     (case bin_frame W authed s of
        FClose \<Rightarrow> []
      | FReq req r \<Rightarrow> req # (case req of
            BAuth p \<Rightarrow> if auth_ok token p then bin_decode W token True r else []
          | _ \<Rightarrow> bin_decode W token authed r))"
  by pat_completeness auto

termination
  by (relation "measure (\<lambda>(W, token, authed, s). length s)") (simp_all add: bin_frame_shorter)

declare bin_decode.simps [simp del]

fun bin_replay :: "('s, 'v) index_store \<Rightarrow> 'v json \<Rightarrow> 'v wire \<Rightarrow> string option
    \<Rightarrow> (nat \<times> u64 \<times> 'v bin_req) list \<Rightarrow> 's shard \<Rightarrow> 's shard \<times> (nat \<times> string) list" where
  "bin_replay S J W token [] sh = (sh, [])"
| "bin_replay S J W token ((i, now, req) # tr) sh =
     (let (sh, reply) = bin_exec S J W token now req sh;
          (sh, replies) = bin_replay S J W token tr sh in
      (sh, (i, reply) # replies))"

definition reqs_of :: "nat \<Rightarrow> (nat \<times> u64 \<times> 'v bin_req) list \<Rightarrow> 'v bin_req list" where
  "reqs_of i tr = map (\<lambda>(_, _, req). req) (filter (\<lambda>(j, _, _). j = i) tr)"

definition replies_of :: "nat \<Rightarrow> (nat \<times> string) list \<Rightarrow> string" where
  "replies_of i rs = concat (map snd (filter (\<lambda>(j, _). j = i) rs))"

lemma reqs_of_append [simp]: "reqs_of i (tr @ evs) = reqs_of i tr @ reqs_of i evs"
  and reqs_of_Nil [simp]: "reqs_of i [] = []"
  and reqs_of_Cons [simp]: "reqs_of i ((j, now, req) # tr) = (if j = i then req # reqs_of i tr else reqs_of i tr)"
  by (simp_all add: reqs_of_def)

lemma replies_of_append [simp]: "replies_of i (rs @ rs') = replies_of i rs @ replies_of i rs'"
  and replies_of_Nil [simp]: "replies_of i [] = []"
  and replies_of_Cons [simp]: "replies_of i ((j, r) # rs) = (if j = i then r @ replies_of i rs else replies_of i rs)"
  by (simp_all add: replies_of_def)

lemma bin_replay_append:
  "bin_replay S J W token (tr @ evs) sh =
     (let (sh1, rs) = bin_replay S J W token tr sh; (sh2, rs') = bin_replay S J W token evs sh1 in (sh2, rs @ rs'))"
  by (induction S J W token tr sh rule: bin_replay.induct) (simp_all add: Let_def split: prod.splits)

subsection \<open>The invariant\<close>

text \<open>The requests of connection \<open>i\<close> that are on their way to the writer.\<close>

definition pending_of :: "nat \<Rightarrow> (nat \<times> 'v write_req) list \<Rightarrow> 'v bin_req list" where
  "pending_of i xs = map (\<lambda>(_, coll, key, v). BSet coll key v) (filter (\<lambda>(j, _). j = i) xs)"

lemma pending_of_append [simp]: "pending_of i (xs @ ys) = pending_of i xs @ pending_of i ys"
  and pending_of_Nil [simp]: "pending_of i [] = []"
  and pending_of_Cons [simp]: "pending_of i ((j, c, k, v) # xs) =
    (if j = i then BSet c k v # pending_of i xs else pending_of i xs)"
  by (simp_all add: pending_of_def)

definition conn_inv :: "'v wire \<Rightarrow> string option \<Rightarrow> string \<Rightarrow> 'v bin_req list \<Rightarrow> string \<Rightarrow> 'v bin_req list \<Rightarrow> conn \<Rightarrow> bool" where
  "conn_inv W token stream reqs replies pend c \<longleftrightarrow>
     reqs @ pend @ (if cn_phase c = Closed then [] else bin_decode W token (cn_authed c) (cn_in c)) =
       bin_decode W token (token = None) stream \<and>
     cn_out c @ (if cn_phase c = Acked then write_u8 ST_OK else []) = replies \<and>
     length pend = (if cn_phase c = Waiting then 1 else 0)"

definition bin_inv :: "('s, 'v) index_store \<Rightarrow> 'v json \<Rightarrow> 'v wire \<Rightarrow> string option \<Rightarrow> string list \<Rightarrow> 's shard
    \<Rightarrow> (nat \<times> u64 \<times> 'v bin_req) list \<Rightarrow> ('s, 'v) bin_server \<Rightarrow> bool" where
  "bin_inv S J W token streams sh tr st \<longleftrightarrow>
     length (bs_conns st) = length streams \<and>
     (\<forall>x \<in> set (bs_batch st @ bs_chan st). fst x < length streams) \<and>
     (bs_sealed st \<longrightarrow> bs_batch st \<noteq> []) \<and> length (bs_batch st) \<le> BATCH_MAX \<and>
     bs_shard st = fst (bin_replay S J W token tr sh) \<and>
     (\<forall>c. counter_of c (bs_metrics st) = of_nat (length (filter (\<lambda>(_, _, req). bin_counter req = Some c) tr))) \<and>
     (\<forall>i < length streams. conn_inv W token (streams ! i) (reqs_of i tr)
        (replies_of i (snd (bin_replay S J W token tr sh))) (pending_of i (bs_batch st @ bs_chan st)) (bs_conns st ! i))"

lemma bin_inv_init: "bin_inv S J W token streams sh [] (bin_init token streams sh)"
  by (simp add: bin_inv_def bin_init_def conn_inv_def)

lemma upd_conn_simps [simp]:
  "bs_shard (upd_conn i f st) = bs_shard st" "bs_metrics (upd_conn i f st) = bs_metrics st"
  "bs_chan (upd_conn i f st) = bs_chan st" "bs_batch (upd_conn i f st) = bs_batch st"
  "bs_sealed (upd_conn i f st) = bs_sealed st" "length (bs_conns (upd_conn i f st)) = length (bs_conns st)"
  "j < length (bs_conns st) \<Longrightarrow> bs_conns (upd_conn i f st) ! j = (if j = i then f (bs_conns st ! i) else bs_conns st ! j)"
  by (simp_all add: upd_conn_def nth_list_update)

lemma handle_frame_cases:
  assumes "handle_frame S J W token now i st = Some (st', reqs)"
  obtains (close) "bin_frame W (cn_authed (bs_conns st ! i)) (cn_in (bs_conns st ! i)) = FClose" "reqs = []"
      "st' = upd_conn i (\<lambda>c. c\<lparr>cn_phase := Closed\<rparr>) st"
    | (send) coll key v r where
      "bin_frame W (cn_authed (bs_conns st ! i)) (cn_in (bs_conns st ! i)) = FReq (BSet coll key v) r" "reqs = []"
      "st' = upd_conn i (\<lambda>c. c\<lparr>cn_in := r, cn_phase := Waiting\<rparr>) (st\<lparr>bs_chan := bs_chan st @ [(i, coll, key, v)]\<rparr>)"
    | (run) req r sh reply authed where
      "bin_frame W (cn_authed (bs_conns st ! i)) (cn_in (bs_conns st ! i)) = FReq req r" "reqs = [req]"
      "\<forall>coll key v. req \<noteq> BSet coll key v" "bin_exec S J W token now req (bs_shard st) = (sh, reply)"
      "authed = (case req of BAuth p \<Rightarrow> auth_ok token p | _ \<Rightarrow> cn_authed (bs_conns st ! i))"
      "st' = upd_conn i (\<lambda>c. \<lparr>cn_in = r, cn_out = cn_out c @ reply, cn_authed = authed,
                cn_phase = (if authed then Reading else Closed)\<rparr>)
              (st\<lparr>bs_shard := sh, bs_metrics := bin_count req (bs_metrics st)\<rparr>)"
proof (cases "bin_frame W (cn_authed (bs_conns st ! i)) (cn_in (bs_conns st ! i))")
  case FClose
  with assms close show thesis by (simp add: handle_frame_def Let_def)
next
  case (FReq req r)
  show thesis
  proof (cases "\<exists>coll key v. req = BSet coll key v")
    case True
    with FReq assms send show thesis by (auto simp: handle_frame_def Let_def split: if_splits)
  next
    case False
    obtain sh reply where e: "bin_exec S J W token now req (bs_shard st) = (sh, reply)" by fastforce
    from False FReq assms e have "reqs = [req]" and
      "st' = upd_conn i (\<lambda>c. \<lparr>cn_in = r, cn_out = cn_out c @ reply,
                cn_authed = (case req of BAuth p \<Rightarrow> auth_ok token p | _ \<Rightarrow> cn_authed (bs_conns st ! i)),
                cn_phase = (if (case req of BAuth p \<Rightarrow> auth_ok token p | _ \<Rightarrow> cn_authed (bs_conns st ! i)) then Reading else Closed)\<rparr>)
              (st\<lparr>bs_shard := sh, bs_metrics := bin_count req (bs_metrics st)\<rparr>)"
      by (cases req; auto simp: handle_frame_def Let_def)+
    with FReq False e show thesis by (intro run) auto
  qed
qed

lemma bin_frame_authed: "bin_frame W authed s = FReq req r \<Longrightarrow> authed \<or> (\<exists>p. req = BAuth p)"
  by (auto simp: bin_frame_def Let_def split: list.splits option.splits if_splits)

lemma bin_decode_frame:
  assumes "bin_frame W authed s = FReq req r"
    and "authed' = (case req of BAuth p \<Rightarrow> auth_ok token p | _ \<Rightarrow> authed)"
  shows "bin_decode W token authed s = req # (if authed' then bin_decode W token authed' r else [])"
  using assms bin_frame_authed [OF assms(1)] by (subst bin_decode.simps) (auto split: bin_req.splits)

lemma counter_bin_count: "counter_of c (bin_count req m) = counter_of c m + (if bin_counter req = Some c then 1 else 0)"
  by (simp add: bin_count_def metrics_inc_def split: option.split)

lemma bin_inv_frame:
  assumes I: "bin_inv S J W token streams sh tr st" and i: "i < length (bs_conns st)"
    and ph: "cn_phase (bs_conns st ! i) = Reading" and h: "handle_frame S J W token now i st = Some (st', reqs)"
  shows "bin_inv S J W token streams sh (tr @ map (\<lambda>req. (i, now, req)) reqs) st'"
  using h
proof (cases rule: handle_frame_cases)
  case close
  with I i ph show ?thesis by (auto simp: bin_inv_def conn_inv_def bin_decode.simps)
next
  case (send coll key v r)
  have d: "bin_decode W token (cn_authed (bs_conns st ! i)) (cn_in (bs_conns st ! i)) =
      BSet coll key v # bin_decode W token (cn_authed (bs_conns st ! i)) r"
    using bin_decode_frame [OF send(1) refl] bin_frame_authed [OF send(1)] by auto
  show ?thesis unfolding bin_inv_def
  proof (intro conjI allI impI)
    fix j assume j: "j < length streams"
    have "conn_inv W token (streams ! j) (reqs_of j tr) (replies_of j (snd (bin_replay S J W token tr sh)))
        (pending_of j (bs_batch st @ bs_chan st)) (bs_conns st ! j)" using I j by (simp add: bin_inv_def)
    then show "conn_inv W token (streams ! j) (reqs_of j (tr @ map (\<lambda>req. (i, now, req)) reqs))
        (replies_of j (snd (bin_replay S J W token (tr @ map (\<lambda>req. (i, now, req)) reqs) sh)))
        (pending_of j (bs_batch st' @ bs_chan st')) (bs_conns st' ! j)"
      using I i j ph d by (auto simp: send(2,3) conn_inv_def bin_inv_def)
  qed (use I i in \<open>auto simp: bin_inv_def send(2,3)\<close>)
next
  case (run req r sh' reply authed)
  obtain rs where rp: "bin_replay S J W token tr sh = (bs_shard st, rs)"
    using I by (metis bin_inv_def prod.collapse)
  have rp': "bin_replay S J W token (tr @ map (\<lambda>req. (i, now, req)) reqs) sh = (sh', rs @ [(i, reply)])"
    by (simp add: bin_replay_append rp run(2,4))
  show ?thesis unfolding bin_inv_def rp'
  proof (intro conjI allI impI)
    fix j assume j: "j < length streams"
    have "conn_inv W token (streams ! j) (reqs_of j tr) (replies_of j rs)
        (pending_of j (bs_batch st @ bs_chan st)) (bs_conns st ! j)" using I j by (simp add: bin_inv_def rp)
    then show "conn_inv W token (streams ! j) (reqs_of j (tr @ map (\<lambda>req. (i, now, req)) reqs))
        (replies_of j (snd (sh', rs @ [(i, reply)]))) (pending_of j (bs_batch st' @ bs_chan st')) (bs_conns st' ! j)"
      using I i j ph bin_decode_frame [OF run(1,5)] by (auto simp: run(2,6) conn_inv_def bin_inv_def)
  qed (use I i in \<open>auto simp: bin_inv_def run(2,6) counter_bin_count\<close>)
qed

lemma commit_fields:
  "bs_shard (writer_commit S st) = shard_write_batch S (map snd (bs_batch st)) (bs_shard st)"
  "bs_metrics (writer_commit S st) = fetch_add SET (of_nat (length (bs_batch st))) (bs_metrics st)"
  "bs_chan (writer_commit S st) = bs_chan st" "bs_batch (writer_commit S st) = []" "\<not> bs_sealed (writer_commit S st)"
  "length (bs_conns (writer_commit S st)) = length (bs_conns st)"
  "j < length (bs_conns st) \<Longrightarrow> bs_conns (writer_commit S st) ! j =
     (if j \<in> fst ` set (bs_batch st) then (bs_conns st ! j)\<lparr>cn_phase := Acked\<rparr> else bs_conns st ! j)"
proof -
  let ?ack = "\<lambda>(i, _). upd_conn i (\<lambda>c. c\<lparr>cn_phase := Acked\<rparr>)"
  have f: "bs_shard (fold ?ack xs st) = bs_shard st \<and> bs_metrics (fold ?ack xs st) = bs_metrics st \<and>
      bs_chan (fold ?ack xs st) = bs_chan st \<and> bs_batch (fold ?ack xs st) = bs_batch st \<and>
      bs_sealed (fold ?ack xs st) = bs_sealed st \<and> length (bs_conns (fold ?ack xs st)) = length (bs_conns st)"
    for xs :: "(nat \<times> 'b write_req) list" and st :: "('a, 'b) bin_server"
    by (induction xs arbitrary: st) (auto split: prod.split)
  have c: "j < length (bs_conns st) \<Longrightarrow> bs_conns (fold ?ack xs st) ! j =
     (if j \<in> fst ` set xs then (bs_conns st ! j)\<lparr>cn_phase := Acked\<rparr> else bs_conns st ! j)"
    for xs :: "(nat \<times> 'b write_req) list" and st :: "('a, 'b) bin_server"
    by (induction xs arbitrary: st) (auto split: prod.split)
  show "bs_shard (writer_commit S st) = shard_write_batch S (map snd (bs_batch st)) (bs_shard st)"
    "bs_metrics (writer_commit S st) = fetch_add SET (of_nat (length (bs_batch st))) (bs_metrics st)"
    "bs_chan (writer_commit S st) = bs_chan st" "bs_batch (writer_commit S st) = []" "\<not> bs_sealed (writer_commit S st)"
    "length (bs_conns (writer_commit S st)) = length (bs_conns st)"
    "j < length (bs_conns st) \<Longrightarrow> bs_conns (writer_commit S st) ! j =
     (if j \<in> fst ` set (bs_batch st) then (bs_conns st ! j)\<lparr>cn_phase := Acked\<rparr> else bs_conns st ! j)"
    by (simp_all add: writer_commit_def Let_def f c)
qed

text \<open>The events of a committed batch, and its effect as one write after the other.\<close>

abbreviation batch_events :: "u64 \<Rightarrow> (nat \<times> 'v write_req) list \<Rightarrow> (nat \<times> u64 \<times> 'v bin_req) list" where
  "batch_events now xs \<equiv> map (\<lambda>(i, coll, key, v). (i, now, BSet coll key v)) xs"

lemma reqs_of_batch: "reqs_of i (batch_events now xs) = pending_of i xs"
  by (induction xs) (auto split: prod.split)

lemma batch_counter:
  "filter (\<lambda>(_, _, req). bin_counter req = Some c) (batch_events now xs) = (if c = SET then batch_events now xs else [])"
  by (induction xs) auto

lemma in_batch_iff: "j \<in> fst ` set xs \<longleftrightarrow> pending_of j xs \<noteq> []"
  by (force simp: pending_of_def filter_empty_conv)

context kv_store
begin

lemma replay_batch:
  "\<exists>rs. bin_replay S J W token (batch_events now xs) sh = (shard_write_batch S (map snd xs) sh, rs) \<and>
     (\<forall>i. replies_of i rs = concat (map (\<lambda>_. write_u8 ST_OK) (pending_of i xs)))"
proof (induction xs arbitrary: sh)
  case Nil
  then show ?case by (simp add: shard_write_batch_def put_batch default_put_batch_def)
next
  case (Cons x xs)
  obtain i c k v where x: "x = (i, c, k, v)" by (cases x)
  from Cons.IH [of "shard_write_object S c k v sh"] obtain rs where
    rs: "bin_replay S J W token (batch_events now xs) (shard_write_object S c k v sh) =
        (shard_write_batch S (map snd xs) (shard_write_object S c k v sh), rs)"
      "\<forall>i. replies_of i rs = concat (map (\<lambda>_. write_u8 ST_OK) (pending_of i xs))" by blast
  have "shard_write_batch S (map snd xs) (shard_write_object S c k v sh) = shard_write_batch S (map snd (x # xs)) sh"
    by (simp add: x shard_write_batch_def shard_write_object_def put_batch default_put_batch_def)
  with rs show ?case by (simp add: x)
qed

lemma bin_inv_commit:
  assumes I: "bin_inv S J W token streams sh tr st"
  shows "bin_inv S J W token streams sh (tr @ batch_events now (bs_batch st)) (writer_commit S st)"
proof -
  obtain rs where rp: "bin_replay S J W token tr sh = (bs_shard st, rs)"
    using I by (metis bin_inv_def prod.collapse)
  obtain rs' where rs': "bin_replay S J W token (batch_events now (bs_batch st)) (bs_shard st) =
        (shard_write_batch S (map snd (bs_batch st)) (bs_shard st), rs')"
      "\<forall>i. replies_of i rs' = concat (map (\<lambda>_. write_u8 ST_OK) (pending_of i (bs_batch st)))"
    using replay_batch by blast
  have rp': "bin_replay S J W token (tr @ batch_events now (bs_batch st)) sh =
      (shard_write_batch S (map snd (bs_batch st)) (bs_shard st), rs @ rs')"
    by (simp add: bin_replay_append rp rs'(1))
  show ?thesis unfolding bin_inv_def rp'
  proof (intro conjI allI impI)
    fix j assume j: "j < length streams"
    have I': "conn_inv W token (streams ! j) (reqs_of j tr) (replies_of j rs)
        (pending_of j (bs_batch st @ bs_chan st)) (bs_conns st ! j)" using I j by (simp add: bin_inv_def rp)
    have len: "j < length (bs_conns st)" using I j by (simp add: bin_inv_def)
    show "conn_inv W token (streams ! j) (reqs_of j (tr @ batch_events now (bs_batch st)))
        (replies_of j (snd (shard_write_batch S (map snd (bs_batch st)) (bs_shard st), rs @ rs')))
        (pending_of j (bs_batch (writer_commit S st) @ bs_chan (writer_commit S st))) (bs_conns (writer_commit S st) ! j)"
    proof (cases "pending_of j (bs_batch st)")
      case Nil
      with I' rs'(2) show ?thesis by (simp add: commit_fields(3,4) commit_fields(7) [OF len] in_batch_iff conn_inv_def reqs_of_batch)
    next
      case (Cons q qs)
      with I' have w: "cn_phase (bs_conns st ! j) = Waiting" "qs = []" "pending_of j (bs_chan st) = []"
        by (auto simp: conn_inv_def split: if_splits)
      with I' Cons rs'(2) show ?thesis
        by (simp add: commit_fields(3,4) commit_fields(7) [OF len] in_batch_iff conn_inv_def reqs_of_batch)
    qed
  qed (use I in \<open>auto simp: bin_inv_def commit_fields batch_counter simp del: fetch_add.simps counter_of.simps\<close>)
qed

lemma bin_inv_step:
  assumes "bin_step S J W token st evs st'" and "bin_inv S J W token streams sh tr st"
  shows "bin_inv S J W token streams sh (tr @ evs) st'"
  using assms
proof (cases rule: bin_step.cases)
  case (conn_frame i now reqs)
  with assms(2) show ?thesis using bin_inv_frame by blast
next
  case (conn_ack i)
  with assms(2) show ?thesis by (auto simp: bin_inv_def write_ack_def conn_inv_def)
next
  case (writer_commits now)
  with assms(2) show ?thesis using bin_inv_commit by blast
qed (use assms(2) in \<open>auto simp: bin_inv_def\<close>)

lemma bin_inv_run:
  assumes "bin_run S J W token (bin_init token streams sh) n tr st"
  shows "bin_inv S J W token streams sh tr st"
  using assms
proof (induction "bin_init token streams sh :: ('s, 'v) bin_server" n tr st rule: bin_run.induct)
  case run_start
  show ?case by (rule bin_inv_init)
next
  case (run_step n tr st1 evs st2)
  from bin_inv_step [OF run_step(3,2)] show ?case .
qed

end

subsection \<open>Progress\<close>

fun phase_weight :: "phase \<Rightarrow> nat" where
  "phase_weight Reading = 1"
| "phase_weight Waiting = 0"
| "phase_weight Acked = 2"
| "phase_weight Closed = 0"

definition conn_weight :: "conn \<Rightarrow> nat" where
  "conn_weight c = 6 * length (cn_in c) + phase_weight (cn_phase c)"

definition bin_weight :: "('s, 'v) bin_server \<Rightarrow> nat" where
  "bin_weight st = (\<Sum>c\<leftarrow>bs_conns st. conn_weight c) + 5 * length (bs_chan st) + 4 * length (bs_batch st) +
     (if bs_sealed st then 0 else 1)"

lemma sum_list_upd: "i < length xs \<Longrightarrow> sum_list (map f (xs[i := y])) + f (xs ! i) = sum_list (map f xs) + (f y :: nat)"
proof (induction xs arbitrary: i)
  case (Cons x xs)
  show ?case
  proof (cases i)
    case (Suc n)
    with Cons.IH [of n] Cons.prems show ?thesis by simp
  qed simp
qed simp

lemma upd_conn_weight:
  "i < length (bs_conns st) \<Longrightarrow>
   (\<Sum>c\<leftarrow>bs_conns (upd_conn i f st). conn_weight c) + conn_weight (bs_conns st ! i) =
   (\<Sum>c\<leftarrow>bs_conns st. conn_weight c) + conn_weight (f (bs_conns st ! i))"
  unfolding upd_conn_def by (simp add: sum_list_upd)

lemma handle_frame_weight:
  assumes "i < length (bs_conns st)" and "cn_phase (bs_conns st ! i) = Reading"
    and "handle_frame S J W token now i st = Some (st', reqs)"
  shows "bin_weight st' < bin_weight st"
  using assms(3)
proof (cases rule: handle_frame_cases)
  case close
  with upd_conn_weight [OF assms(1), of "\<lambda>c. c\<lparr>cn_phase := Closed\<rparr>"] assms(2) show ?thesis
    by (simp add: bin_weight_def conn_weight_def)
next
  case (send coll key v r)
  with upd_conn_weight [of i "st\<lparr>bs_chan := bs_chan st @ [(i, coll, key, v)]\<rparr>" "\<lambda>c. c\<lparr>cn_in := r, cn_phase := Waiting\<rparr>"]
    assms bin_frame_shorter [OF send(1)] show ?thesis
    by (simp add: bin_weight_def conn_weight_def)
next
  case (run req r sh reply authed)
  with upd_conn_weight [of i "st\<lparr>bs_shard := sh, bs_metrics := bin_count req (bs_metrics st)\<rparr>"
      "\<lambda>c. \<lparr>cn_in = r, cn_out = cn_out c @ reply, cn_authed = authed, cn_phase = (if authed then Reading else Closed)\<rparr>"]
    assms bin_frame_shorter [OF run(1)] show ?thesis
    by (simp add: bin_weight_def conn_weight_def split: if_splits)
qed

lemma commit_weight:
  "(\<Sum>c\<leftarrow>bs_conns (writer_commit S st). conn_weight c) \<le> (\<Sum>c\<leftarrow>bs_conns st. conn_weight c) + 2 * length (bs_batch st)"
proof -
  let ?ack = "\<lambda>(i, _). upd_conn i (\<lambda>c. c\<lparr>cn_phase := Acked\<rparr>)"
  have upd: "(\<Sum>c\<leftarrow>bs_conns (upd_conn i (\<lambda>c. c\<lparr>cn_phase := Acked\<rparr>) st). conn_weight c) \<le> (\<Sum>c\<leftarrow>bs_conns st. conn_weight c) + 2"
    for i and st :: "('a, 'b) bin_server"
  proof (cases "i < length (bs_conns st)")
    case True
    from upd_conn_weight [OF True, of "\<lambda>c. c\<lparr>cn_phase := Acked\<rparr>"] show ?thesis by (simp add: conn_weight_def)
  qed (simp add: upd_conn_def list_update_beyond)
  have "(\<Sum>c\<leftarrow>bs_conns (fold ?ack xs st). conn_weight c) \<le> (\<Sum>c\<leftarrow>bs_conns st. conn_weight c) + 2 * length xs"
    for xs :: "(nat \<times> 'b write_req) list" and st :: "('a, 'b) bin_server"
  proof (induction xs arbitrary: st)
    case (Cons x xs)
    obtain i y where x: "x = (i, y)" by (cases x)
    show ?case using Cons.IH [of "?ack x st"] upd [of i st] by (simp add: x)
  qed simp
  from this [of "bs_batch st" "st\<lparr>bs_metrics := fetch_add SET (of_nat (length (bs_batch st))) (bs_metrics st),
      bs_shard := shard_write_batch S (map snd (bs_batch st)) (bs_shard st), bs_batch := [], bs_sealed := False\<rparr>"]
  show ?thesis by (simp add: writer_commit_def Let_def)
qed

lemma bin_step_weight:
  assumes "bin_step S J W token st evs st'" and "bs_sealed st \<longrightarrow> bs_batch st \<noteq> []"
  shows "bin_weight st' < bin_weight st"
  using assms(1)
proof (cases rule: bin_step.cases)
  case (conn_frame i now reqs)
  then show ?thesis using handle_frame_weight by blast
next
  case (conn_ack i)
  with upd_conn_weight [of i st "\<lambda>c. c\<lparr>cn_out := cn_out c @ write_u8 ST_OK, cn_phase := Reading\<rparr>"] show ?thesis
    by (simp add: bin_weight_def conn_weight_def write_ack_def)
next
  case (writer_commits now)
  with commit_weight [of S st] assms(2) show ?thesis
    by (cases "bs_batch st") (auto simp: bin_weight_def commit_fields)
qed (auto simp: bin_weight_def)

text \<open>Without a step that can be taken, everything has been answered.\<close>

lemma bin_stuck:
  assumes I: "bin_inv S J W token streams sh tr st" and stuck: "\<forall>evs st'. \<not> bin_step S J W token st evs st'"
  shows "bs_chan st = []" and "bs_batch st = []" and "i < length streams \<Longrightarrow> cn_phase (bs_conns st ! i) = Closed"
proof -
  show b: "bs_batch st = []"
  proof (rule ccontr)
    assume b: "bs_batch st \<noteq> []"
    show False
    proof (cases "bs_sealed st \<or> length (bs_batch st) = BATCH_MAX \<or> bs_chan st = []")
      case True
      with b stuck show False by (metis bin_step.writer_commits bin_step.writer_seal)
    next
      case False
      then obtain x xs where "bs_chan st = x # xs" by (auto simp: neq_Nil_conv)
      moreover have "length (bs_batch st) < BATCH_MAX" using False I by (simp add: bin_inv_def)
      ultimately show False using False stuck by (metis bin_step.writer_recv)
    qed
  qed
  show c: "bs_chan st = []"
  proof (rule ccontr)
    assume "bs_chan st \<noteq> []"
    then obtain x xs where "bs_chan st = x # xs" by (auto simp: neq_Nil_conv)
    moreover have "\<not> bs_sealed st" "length (bs_batch st) < BATCH_MAX" using I b by (auto simp: bin_inv_def BATCH_MAX_def)
    ultimately show False using stuck bin_step.writer_recv by metis
  qed
  assume i: "i < length streams"
  then have l: "i < length (bs_conns st)" using I by (simp add: bin_inv_def)
  show "cn_phase (bs_conns st ! i) = Closed"
  proof (cases "cn_phase (bs_conns st ! i)")
    case Reading
    have "\<exists>st' reqs. handle_frame S J W token 0 i st = Some (st', reqs)"
      by (auto simp: handle_frame_def Let_def c CHAN_CAP_def split: bin_parse.split bin_req.split prod.split)
    with Reading l stuck show ?thesis by (metis bin_step.conn_frame)
  next
    case Waiting
    with I i show ?thesis by (auto simp: bin_inv_def conn_inv_def b c)
  next
    case Acked
    with l stuck show ?thesis by (metis bin_step.conn_ack)
  qed
qed

subsection \<open>The protocol on a connection\<close>

text \<open>The frames a client sends, and what the server accepts of a sequence of requests.\<close>

definition enc_field :: "string \<Rightarrow> string" where
  "enc_field b = write_u32 (length b) @ b"

fun enc_req :: "'v wire \<Rightarrow> 'v bin_req \<Rightarrow> string" where
  "enc_req W (BGet c k) = write_u8 OP_GET @ enc_field c @ enc_field k"
| "enc_req W (BSet c k v) = write_u8 OP_SET @ enc_field c @ enc_field k @ enc_field (wi_to_vec W v)"
| "enc_req W (BSadd c k m) = write_u8 OP_SADD @ enc_field c @ enc_field k @ enc_field m"
| "enc_req W (BSrem c k m) = write_u8 OP_SREM @ enc_field c @ enc_field k @ enc_field m"
| "enc_req W (BDel c k) = write_u8 OP_DEL @ enc_field c @ enc_field k"
| "enc_req W BPing = write_u8 OP_PING"
| "enc_req W (BAuth t) = write_u8 OP_AUTH @ enc_field t"

definition short :: "string \<Rightarrow> bool" where
  "short b \<longleftrightarrow> length b < 2 ^ 32"

definition text_field :: "string \<Rightarrow> bool" where
  "text_field b \<longleftrightarrow> short b \<and> utf8_valid b"

fun sendable :: "'v wire \<Rightarrow> 'v bin_req \<Rightarrow> bool" where
  "sendable W (BGet c k) \<longleftrightarrow> text_field c \<and> text_field k"
| "sendable W (BSet c k v) \<longleftrightarrow> text_field c \<and> text_field k \<and> short (wi_to_vec W v) \<and> wi_from_slice W (wi_to_vec W v) = Some v"
| "sendable W (BSadd c k m) \<longleftrightarrow> text_field c \<and> text_field k \<and> text_field m"
| "sendable W (BSrem c k m) \<longleftrightarrow> text_field c \<and> text_field k \<and> text_field m"
| "sendable W (BDel c k) \<longleftrightarrow> text_field c \<and> text_field k"
| "sendable W BPing \<longleftrightarrow> True"
| "sendable W (BAuth t) \<longleftrightarrow> short t"

fun accepted :: "string option \<Rightarrow> bool \<Rightarrow> 'v bin_req list \<Rightarrow> 'v bin_req list" where
  "accepted token authed [] = []"
| "accepted token authed (BAuth p # reqs) = BAuth p # (if auth_ok token p then accepted token True reqs else [])"
| "accepted token authed (req # reqs) = (if authed then req # accepted token authed reqs else [])"

lemma byte_char_of [simp]: "(of_char (char_of (n :: nat) :: char) :: nat) = n mod 256"
  by (simp add: of_char_of)

lemma read_write_u32:
  assumes "n < 2 ^ 32"
  shows "read_u32 (write_u32 n @ r) = Some (n, r)"
proof -
  let ?c = "n div 256 div 256 div 256"
  have "n div 256 ^ 3 = ?c" "n div 256 ^ 2 = n div 256 div 256"
    by (simp_all add: div_mult2_eq [symmetric])
  moreover have "?c < 256" using assms by (simp add: div_mult2_eq [symmetric] less_mult_imp_div_less)
  then have "?c mod 256 = ?c" by simp
  ultimately show ?thesis by (simp only: write_u32_def append.simps read_u32.simps byte_char_of div_mult_mod_eq)
qed

lemma read_enc_field [simp]: "short b \<Longrightarrow> read_field (enc_field b @ r) = Some (b, r)"
  by (simp add: enc_field_def read_field_def read_write_u32 short_def)

lemma as_str_text [simp]: "text_field b \<Longrightarrow> as_str b = b"
  by (simp add: text_field_def as_str_def from_utf8_def)

lemma text_field_short [simp]: "text_field b \<Longrightarrow> short b" and text_field_lossy [simp]: "text_field b \<Longrightarrow> from_utf8_lossy b = b"
  by (simp_all add: text_field_def lossy_valid)

lemmas op_codes = OP_GET_def OP_SET_def OP_SADD_def OP_SREM_def OP_DEL_def OP_PING_def OP_AUTH_def

lemma bin_frame_enc:
  assumes "sendable W req"
  shows "bin_frame W authed (enc_req W req @ r) =
    (if authed \<or> (\<exists>p. req = BAuth p) then FReq req r else FClose)"
  using assms
  by (cases req) (simp_all add: bin_frame_def write_u8_def op_codes fields2_def fields3_def set_value_def)

lemma bin_decode_enc:
  "list_all (sendable W) reqs \<Longrightarrow> bin_decode W token authed (concat (map (enc_req W) reqs)) = accepted token authed reqs"
proof (induction reqs arbitrary: authed)
  case Nil
  then show ?case by (subst bin_decode.simps) (simp add: bin_frame_def)
next
  case (Cons req reqs)
  have f: "bin_frame W authed (concat (map (enc_req W) (req # reqs))) =
      (if authed \<or> (\<exists>p. req = BAuth p) then FReq req (concat (map (enc_req W) reqs)) else FClose)"
    using bin_frame_enc [of W req authed] Cons.prems by (simp del: enc_req.simps)
  show ?case
    by (subst bin_decode.simps, simp only: f) (use Cons in \<open>cases req; simp\<close>)
qed

text \<open>
  C8. The binary server is linearizable. However the frames of the connections, the requests in
  the channel and the commits of the group-commit writer interleave, the shard and all replies are
  those of performing the requests one at a time, in an order \<open>tr\<close> that keeps the order of every
  connection: what a connection has got so far is what its requests returned there, up to one
  acknowledgement not yet written, and its stream is its performed requests, at most one \<^verbatim>\<open>SET\<close> under way
  and the rest. So an acknowledged \<^verbatim>\<open>SET\<close> is visible to every later \<^verbatim>\<open>GET\<close>. The counters count the requests.
\<close>

theorem proto_linearizable:
  assumes "bin_run memory_index J W token (bin_init token streams sh) n tr st"
  shows "bs_shard st = fst (bin_replay memory_index J W token tr sh)
    \<and> (\<forall>i < length streams.
          cn_out (bs_conns st ! i) @ (if cn_phase (bs_conns st ! i) = Acked then write_u8 ST_OK else []) =
            replies_of i (snd (bin_replay memory_index J W token tr sh))
        \<and> (\<exists>under_way rest. length under_way \<le> 1 \<and>
              reqs_of i tr @ under_way @ rest = bin_decode W token (token = None) (streams ! i)))
    \<and> (\<forall>c. counter_of c (bs_metrics st) = of_nat (length (filter (\<lambda>(_, _, req). bin_counter req = Some c) tr)))"
proof -
  have I: "bin_inv memory_index J W token streams sh tr st" using mem.bin_inv_run [OF assms] .
  then have c: "conn_inv W token (streams ! i) (reqs_of i tr) (replies_of i (snd (bin_replay memory_index J W token tr sh)))
      (pending_of i (bs_batch st @ bs_chan st)) (bs_conns st ! i)" if "i < length streams" for i
    using that by (simp add: bin_inv_def)
  have "\<exists>under_way rest. length under_way \<le> 1 \<and>
      reqs_of i tr @ under_way @ rest = bin_decode W token (token = None) (streams ! i)" if "i < length streams" for i
    using c [OF that] unfolding conn_inv_def
    by (intro exI [of _ "pending_of i (bs_batch st @ bs_chan st)"]
        exI [of _ "if cn_phase (bs_conns st ! i) = Closed then [] else bin_decode W token (cn_authed (bs_conns st ! i)) (cn_in (bs_conns st ! i))"])
      (auto split: if_splits)
  with I c show ?thesis unfolding bin_inv_def conn_inv_def by blast
qed

text \<open>
  C17. Every request is answered. A run of the server has at most six steps per byte sent and one per
  connection and one more, and where it can go no further every connection is closed, every request its
  stream holds has been performed, in order, and every reply has been written.
\<close>

theorem proto_completes:
  assumes "bin_run memory_index J W token (bin_init token streams sh) n tr st"
  shows "n \<le> (\<Sum>s\<leftarrow>streams. 6 * length s + 1) + 1
    \<and> ((\<forall>evs st'. \<not> bin_step memory_index J W token st evs st') \<longrightarrow>
        (\<forall>i < length streams. cn_phase (bs_conns st ! i) = Closed
          \<and> reqs_of i tr = bin_decode W token (token = None) (streams ! i)
          \<and> cn_out (bs_conns st ! i) = replies_of i (snd (bin_replay memory_index J W token tr sh))))"
proof -
  have "bin_weight st + n \<le> bin_weight (bin_init token streams sh :: ('a memory_store, 'a) bin_server)" using assms
  proof (induction "bin_init token streams sh :: ('a memory_store, 'a) bin_server" n tr st rule: bin_run.induct)
    case (run_step n tr st1 evs st2)
    from mem.bin_inv_run [OF run_step(1)] have "bs_sealed st1 \<longrightarrow> bs_batch st1 \<noteq> []" by (simp add: bin_inv_def)
    from bin_step_weight [OF run_step(3) this] run_step(2) show ?case by simp
  qed simp
  then have "n \<le> (\<Sum>s\<leftarrow>streams. 6 * length s + 1) + 1"
    by (simp add: bin_weight_def bin_init_def comp_def conn_weight_def)
  moreover have I: "bin_inv memory_index J W token streams sh tr st" using mem.bin_inv_run [OF assms] .
  have "cn_phase (bs_conns st ! i) = Closed
      \<and> reqs_of i tr = bin_decode W token (token = None) (streams ! i)
      \<and> cn_out (bs_conns st ! i) = replies_of i (snd (bin_replay memory_index J W token tr sh))"
    if stuck: "\<forall>evs st'. \<not> bin_step memory_index J W token st evs st'" and i: "i < length streams" for i
    using I i bin_stuck [OF I stuck] by (simp add: bin_inv_def conn_inv_def)
  ultimately show ?thesis by blast
qed

text \<open>
  C18. Frames round-trip: the stream of any sequence of requests, with text fields in UTF-8 and fields
  under 4 GiB, is read as exactly these requests, in order, as far as they are authenticated; nothing of
  it is taken before a token that is asked for has been presented. The value in the reply of a \<^verbatim>\<open>GET\<close> is
  the one encoded.
\<close>

theorem proto_roundtrip:
  assumes "list_all (sendable W) reqs" and "shard_object S now sh c k = Some v" and "short (wi_to_vec W v)"
  shows "bin_decode W token authed (concat (map (enc_req W) reqs)) = accepted token authed reqs
    \<and> read_field (tl (snd (bin_exec S J W token now (BGet c k) sh))) = Some (wi_to_vec W v, [])"
  using assms bin_decode_enc [OF assms(1)] read_enc_field [OF assms(3), of "[]"]
  by (simp add: write_u8_def enc_field_def Let_def)

subsubsection \<open>A run\<close>

definition text_wire :: "jv wire" where
  "text_wire = \<lparr>wi_to_vec = (\<lambda>v. case v of JStr s \<Rightarrow> s | _ \<Rightarrow> []), wi_from_slice = (\<lambda>s. Some (JStr s)), wi_string = JStr\<rparr>"

abbreviation set_k :: "jv bin_req" where
  "set_k \<equiv> BSet ''kv'' ''k'' (JStr ''v'')"

abbreviation get_k :: "jv bin_req" where
  "get_k \<equiv> BGet ''kv'' ''k''"

lemma two_sendable: "sendable text_wire set_k" "sendable text_wire get_k"
  by (simp_all add: text_wire_def text_field_def short_def utf8_valid_ascii)

theorem proto_roundtrip_witness:
  "bin_decode text_wire (Some ''t'') False (concat (map (enc_req text_wire) [BAuth ''t'', set_k, get_k])) = [BAuth ''t'', set_k, get_k]
   \<and> read_field (tl (snd (bin_exec memory_index jv_json text_wire None 0 get_k
        (shard_new ''s'' (mem_put_object ''kv'' ''k'' (JStr ''v'') mem_new))))) = Some (''v'', [])"
proof -
  have "list_all (sendable text_wire) [BAuth ''t'', set_k, get_k]" using two_sendable by (simp add: short_def)
  moreover have "shard_object memory_index 0 (shard_new ''s'' (mem_put_object ''kv'' ''k'' (JStr ''v'') mem_new)) ''kv'' ''k'' = Some (JStr ''v'')"
    by (simp add: shard_object_def shard_new_def mem_eval)
  ultimately show ?thesis
    using proto_roundtrip [of text_wire "[BAuth ''t'', set_k, get_k]" memory_index 0 _ "''kv''" "''k''" "JStr ''v''" "Some ''t''" False jv_json]
      proto_roundtrip [of text_wire "[]" memory_index 0 _ "''kv''" "''k''" "JStr ''v''" None False jv_json]
    by (simp add: auth_ok_def short_def text_wire_def)
qed

text \<open>Two connections, one that writes a key and one that reads it after the commit.\<close>

abbreviation two_streams :: "string list" where
  "two_streams \<equiv> [enc_req text_wire set_k, enc_req text_wire get_k]"

abbreviation one_conn :: "string \<Rightarrow> string \<Rightarrow> phase \<Rightarrow> conn" where
  "one_conn inp out ph \<equiv> \<lparr>cn_in = inp, cn_out = out, cn_authed = True, cn_phase = ph\<rparr>"

lemma two_conn_run:
  fixes sh :: "jv memory_store shard"
  shows "\<exists>st. bin_run memory_index jv_json text_wire None (bin_init None two_streams sh) 6 [(0, 0, set_k), (1, 0, get_k)] st \<and>
    cn_phase (bs_conns st ! 1) = Reading"
proof -
  let ?step = "bin_step memory_index jv_json text_wire None"
    and ?run = "bin_run memory_index jv_json text_wire None (bin_init None two_streams sh)"
    and ?s = "enc_req text_wire set_k" and ?g = "enc_req text_wire get_k"
    and ?w = "(0 :: nat, ''kv'', ''k'', JStr ''v'')" and ?m = "fetch_add SET 1 metrics_zero"
    and ?sh = "shard_write_batch memory_index [(''kv'', ''k'', JStr ''v'')] sh"
    and ?st = "\<lambda>sh m c0 c1 chan batch sealed. \<lparr>bs_shard = sh, bs_metrics = m, bs_conns = [c0, c1], bs_chan = chan,
      bs_batch = batch, bs_sealed = sealed\<rparr> :: (jv memory_store, jv) bin_server"
  have fr: "bin_frame text_wire True ?s = FReq set_k []" "bin_frame text_wire True ?g = FReq get_k []"
    using bin_frame_enc [OF two_sendable(1), of True "[]"] bin_frame_enc [OF two_sendable(2), of True "[]"] by simp_all
  obtain out where out: "bin_exec memory_index jv_json text_wire None 0 get_k ?sh = (?sh, out)" by simp
  let ?st0 = "?st sh metrics_zero (one_conn ?s [] Reading) (one_conn ?g [] Reading) [] [] False"
    and ?st1 = "?st sh metrics_zero (one_conn [] [] Waiting) (one_conn ?g [] Reading) [?w] [] False"
    and ?st2 = "?st sh metrics_zero (one_conn [] [] Waiting) (one_conn ?g [] Reading) [] [?w] False"
    and ?st3 = "?st sh metrics_zero (one_conn [] [] Waiting) (one_conn ?g [] Reading) [] [?w] True"
    and ?st4 = "?st ?sh ?m (one_conn [] [] Acked) (one_conn ?g [] Reading) [] [] False"
    and ?st5 = "?st ?sh ?m (one_conn [] (write_u8 ST_OK) Reading) (one_conn ?g [] Reading) [] [] False"
    and ?st6 = "?st ?sh (metrics_inc GET ?m) (one_conn [] (write_u8 ST_OK) Reading) (one_conn [] out Reading) [] [] False"
  have st0: "bin_init None two_streams sh = ?st0" by (simp add: bin_init_def)
  have s1: "?step ?st0 [] ?st1"
    using bin_step.conn_frame [of 0 ?st0 memory_index jv_json text_wire None 0 ?st1 "[]"]
    by (simp add: handle_frame_def fr CHAN_CAP_def upd_conn_def del: enc_req.simps)
  have s2: "?step ?st1 [] ?st2"
    using bin_step.writer_recv [of ?st1 ?w "[]" memory_index jv_json text_wire None] by (simp add: BATCH_MAX_def)
  have s3: "?step ?st2 [] ?st3"
    using bin_step.writer_seal [of ?st2 memory_index jv_json text_wire None] by simp
  have s4: "?step ?st3 [(0, 0, set_k)] ?st4"
    using bin_step.writer_commits [of ?st3 memory_index jv_json text_wire None 0]
    by (simp add: writer_commit_def upd_conn_def del: fetch_add.simps)
  have s5: "?step ?st4 [] ?st5"
    using bin_step.conn_ack [of 0 ?st4 memory_index jv_json text_wire None]
    by (simp add: write_ack_def upd_conn_def del: fetch_add.simps)
  have s6: "?step ?st5 [(1, 0, get_k)] ?st6"
    using bin_step.conn_frame [of 1 ?st5 memory_index jv_json text_wire None 0 ?st6 "[get_k]"] out
    by (simp add: handle_frame_def fr upd_conn_def bin_count_def del: enc_req.simps bin_exec.simps fetch_add.simps)
  note run = bin_run.run_step
  have "?run 6 [(0, 0, set_k), (1, 0, get_k)] ?st6"
    unfolding st0 using run [OF run [OF run [OF run [OF run [OF run [OF bin_run.run_start s1] s2] s3] s4] s5] s6]
    by (simp add: eval_nat_numeral del: enc_req.simps fetch_add.simps)
  then show ?thesis by (intro exI [of _ ?st6]) (simp del: enc_req.simps fetch_add.simps)
qed

theorem proto_linearizable_witness:
  "\<exists>st. bin_run memory_index jv_json text_wire None (bin_init None two_streams (shard_new ''s'' mem_new)) 6
      [(0, 0, set_k), (1, 0, get_k)] st
    \<and> cn_out (bs_conns st ! 1) = write_u8 ST_OK @ write_u32 1 @ ''v''"
proof -
  let ?sh = "shard_new ''s'' mem_new :: jv memory_store shard"
  obtain st where st: "bin_run memory_index jv_json text_wire None (bin_init None two_streams ?sh) 6
      [(0, 0, set_k), (1, 0, get_k)] st" "cn_phase (bs_conns st ! 1) = Reading" using two_conn_run [of ?sh] by blast
  have "snd (bin_replay memory_index jv_json text_wire None [(0, 0, set_k), (1, 0, get_k)] ?sh) =
      [(0, write_u8 ST_OK), (1, write_u8 ST_OK @ write_u32 1 @ ''v'')]"
    by (simp add: shard_object_def shard_write_object_def shard_new_def mem_eval text_wire_def Let_def)
  moreover have "1 < length two_streams" by simp
  with proto_linearizable [OF st(1)] have "cn_out (bs_conns st ! 1) @ (if cn_phase (bs_conns st ! 1) = Acked then write_u8 ST_OK else []) =
      replies_of 1 (snd (bin_replay memory_index jv_json text_wire None [(0, 0, set_k), (1, 0, get_k)] ?sh))" by blast
  ultimately have "cn_out (bs_conns st ! 1) = write_u8 ST_OK @ write_u32 1 @ ''v''" using st(2) by simp
  with st(1) show ?thesis by blast
qed

theorem proto_completes_witness:
  "\<exists>st. bin_run memory_index jv_json text_wire None (bin_init None two_streams (shard_new ''s'' mem_new)) 6
      [(0, 0, set_k), (1, 0, get_k)] st
    \<and> 6 \<le> (\<Sum>s\<leftarrow>two_streams. 6 * length s + 1) + 1"
proof -
  obtain st where st: "bin_run memory_index jv_json text_wire None (bin_init None two_streams (shard_new ''s'' mem_new)) 6
      [(0, 0, set_k), (1, 0, get_k)] st" using two_conn_run by blast
  with proto_completes [OF st] show ?thesis by blast
qed

end
