(* ===== verification/Resp.thy ===== *)
theory Resp
  imports Proto "HOL-Library.Sublist"
begin

text \<open>
  The Redis-compatible front end, \<^verbatim>\<open>src/resp.rs\<close>: the RESP request parser and encoders, the commands
  on the collection \<^verbatim>\<open>kv\<close> of a shard, and the loop of a connection. As for the binary protocol the bytes
  a client sends until it closes are a string, a value's JSON text is the parameter \<open>wire\<close>, and
  \<open>as_array\<close> is the match on \<^verbatim>\<open>Value::Array\<close>. Each command takes the shard's lock once and holds it
  throughout, so a command is one step at one time of the clock; commands of other connections come
  between the commands of this one.
\<close>

subsection \<open>Encoders\<close>

abbreviation CRLF :: string where
  "CRLF \<equiv> [CHR 0x0D, CHR 0x0A]"

definition resp_simple :: "string \<Rightarrow> string" where
  "resp_simple s = ''+'' @ s @ CRLF"

definition resp_err :: "string \<Rightarrow> string" where
  "resp_err s = ''-'' @ s @ CRLF"

definition resp_int :: "i64 \<Rightarrow> string" where
  "resp_int n = '':'' @ show_i64 n @ CRLF"

definition resp_bulk :: "string option \<Rightarrow> string" where
  "resp_bulk data = (case data of
       Some d \<Rightarrow> ''$'' @ show_nat (length d) @ CRLF @ d @ CRLF
     | None \<Rightarrow> ''$-1'' @ CRLF)"

definition resp_bulk_value :: "'v json \<Rightarrow> 'v wire \<Rightarrow> 'v option \<Rightarrow> string" where
  "resp_bulk_value J W ov = (case ov of
       None \<Rightarrow> resp_bulk None
     | Some v \<Rightarrow> (case js_as_str J v of Some s \<Rightarrow> resp_bulk (Some s) | None \<Rightarrow> resp_bulk (Some (wi_to_vec W v))))"

definition resp_array_header :: "nat \<Rightarrow> string" where
  "resp_array_header n = ''*'' @ show_nat n @ CRLF"

subsection \<open>The request parser\<close>

definition is_eol :: "char \<Rightarrow> bool" where
  "is_eol c \<longleftrightarrow> c = CHR 0x0A \<or> c = CHR 0x0D"

definition read_line :: "string \<Rightarrow> (string \<times> string) option" where
  "read_line s =
     (if s = [] then None
      else (let line = takeWhile (\<lambda>c. c \<noteq> CHR 0x0A) s in
            Some (rev (dropWhile is_eol (rev line)), drop (Suc (length line)) s)))"

definition ascii_space :: "char \<Rightarrow> bool" where
  "ascii_space c \<longleftrightarrow> c = CHR '' '' \<or> c = CHR 0x09 \<or> c = CHR 0x0A \<or> c = CHR 0x0C \<or> c = CHR 0x0D"

fun split_spaces :: "string \<Rightarrow> string list" where
  "split_spaces [] = [[]]"
| "split_spaces (c # cs) =
     (if ascii_space c then [] # split_spaces cs
      else case split_spaces cs of [] \<Rightarrow> [[c]] | p # ps \<Rightarrow> (c # p) # ps)"

definition parse_usize :: "string \<Rightarrow> nat option" where
  "parse_usize s = map_option unat (parse_u64 s)"

definition len_of :: "string \<Rightarrow> nat" where
  "len_of b = (case parse_usize (from_utf8_lossy b) of Some n \<Rightarrow> n | None \<Rightarrow> 0)"

text \<open>A command, or the end of the connection: at the end of the stream, on a malformed or truncated
  request, and by a panic when a length exceeds what a vector can hold.\<close>

datatype cmd_parse = CmdEnd | CmdPanic | Cmd "string list" string

definition ISIZE_MAX :: nat where
  "ISIZE_MAX = 2 ^ 63 - 1"

fun read_args :: "nat \<Rightarrow> string \<Rightarrow> string list \<Rightarrow> cmd_parse" where
  "read_args 0 s args = Cmd args s"
| "read_args (Suc n) s args = (case read_line s of
       Some (h # hdr, s) \<Rightarrow>
         if h \<noteq> CHR ''$'' then CmdEnd
         else (let len = len_of hdr in
               if ISIZE_MAX < len then CmdPanic
               else if length s < len + 2 then CmdEnd
               else read_args n (drop (len + 2) s) (args @ [take len s]))
     | _ \<Rightarrow> CmdEnd)"

definition read_command :: "string \<Rightarrow> cmd_parse" where
  "read_command s = (case read_line s of
       None \<Rightarrow> CmdEnd
     | Some ([], s) \<Rightarrow> Cmd [] s
     | Some (c # line, s) \<Rightarrow>
         if c = CHR ''*'' then
           (let n = len_of line in if ISIZE_MAX < n * 24 then CmdPanic else read_args n s [])
         else Cmd (filter (\<lambda>p. p \<noteq> []) (split_spaces (c # line))) s)"

subsection \<open>Commands\<close>

definition COLL :: string where
  "COLL = ''kv''"

definition ascii_upper :: "string \<Rightarrow> string" where
  "ascii_upper = map (\<lambda>c. if 97 \<le> byte c \<and> byte c \<le> 122 then char_of (byte c - 32) else c)"

definition ascii_lower :: "string \<Rightarrow> string" where
  "ascii_lower = map (\<lambda>c. if 65 \<le> byte c \<and> byte c \<le> 90 then char_of (byte c + 32) else c)"

abbreviation lossy :: "string \<Rightarrow> string" where
  "lossy \<equiv> from_utf8_lossy"

text \<open>The options of \<^verbatim>\<open>SET\<close> and \<^verbatim>\<open>SCAN\<close>: pairs of a name and a value; a last name without a value is ignored.\<close>

fun set_opts :: "string list \<Rightarrow> u64 \<Rightarrow> u64" where
  "set_opts (name # val # rest) ttl_ms =
     (let num = (case parse_u64 (lossy val) of Some n \<Rightarrow> n | None \<Rightarrow> 0); name = ascii_upper (lossy name) in
      set_opts rest (if name = ''EX'' then num * 1000 else if name = ''PX'' then num else ttl_ms))"
| "set_opts _ ttl_ms = ttl_ms"

definition resp_set :: "('s, 'v) index_store \<Rightarrow> 'v wire \<Rightarrow> u64 \<Rightarrow> string \<Rightarrow> string \<Rightarrow> string list \<Rightarrow> 's shard \<Rightarrow> 's shard" where
  "resp_set S W now key val opts sh =
     (let v = wi_string W (lossy val); ttl_ms = set_opts opts 0 in
      if ttl_ms > 0 then shard_write_object_ttl S now COLL (lossy key) v ttl_ms sh
      else shard_write_object S COLL (lossy key) v sh)"

fun resp_del :: "('s, 'v) index_store \<Rightarrow> u64 \<Rightarrow> string list \<Rightarrow> 's shard \<Rightarrow> i64 \<Rightarrow> 's shard \<times> i64" where
  "resp_del S now [] sh n = (sh, n)"
| "resp_del S now (k # ks) sh n =
     (if shard_object S now sh COLL (lossy k) \<noteq> None
      then resp_del S now ks (shard_delete_object S COLL (lossy k) sh) (n + 1)
      else resp_del S now ks sh n)"

fun resp_sadd :: "('s, 'v) index_store \<Rightarrow> 'v json \<Rightarrow> u64 \<Rightarrow> string \<Rightarrow> string list \<Rightarrow> 's shard \<Rightarrow> i64 \<Rightarrow> 's shard \<times> i64" where
  "resp_sadd S J now key [] sh n = (sh, n)"
| "resp_sadd S J now key (m # ms) sh n =
     (let (sh, added) = shard_set_add S J now COLL key (lossy m) sh in
      resp_sadd S J now key ms sh (if added then n + 1 else n))"

fun resp_srem :: "('s, 'v) index_store \<Rightarrow> 'v json \<Rightarrow> u64 \<Rightarrow> string \<Rightarrow> string list \<Rightarrow> 's shard \<Rightarrow> i64 \<Rightarrow> 's shard \<times> i64" where
  "resp_srem S J now key [] sh n = (sh, n)"
| "resp_srem S J now key (m # ms) sh n =
     (let (sh, removed) = shard_set_remove S J now COLL key (lossy m) sh in
      resp_srem S J now key ms sh (if removed then n + 1 else n))"

definition resp_set_members :: "('s, 'v) index_store \<Rightarrow> 'v json \<Rightarrow> ('v \<Rightarrow> 'v list option) \<Rightarrow> u64 \<Rightarrow> 's shard
    \<Rightarrow> string \<Rightarrow> string list" where
  "resp_set_members S J as_array now sh key =
     (case Option.bind (shard_object S now sh COLL key) as_array of
        Some a \<Rightarrow> List.map_filter (js_as_str J) a
      | None \<Rightarrow> [])"

definition resp_incr :: "('s, 'v) index_store \<Rightarrow> 'v json \<Rightarrow> u64 \<Rightarrow> string \<Rightarrow> i64 \<Rightarrow> 's shard \<Rightarrow> 's shard \<times> string" where
  "resp_incr S J now key d sh =
     (case shard_incr S J now COLL (lossy key) d sh of
        (sh, Some v) \<Rightarrow> (sh, resp_int v)
      | (sh, None) \<Rightarrow> (sh, resp_err ''ERR value is not an integer or out of range''))"

definition trim_stars :: "string \<Rightarrow> string" where
  "trim_stars p = rev (dropWhile (\<lambda>c. c = CHR ''*'') (rev p))"

fun scan_opts :: "string list \<Rightarrow> nat \<Rightarrow> string option \<Rightarrow> nat \<times> string option" where
  "scan_opts (name # val # rest) cnt pre =
     (let name = ascii_upper (lossy name) in
      if name = ''COUNT'' then
        scan_opts rest (case parse_usize (lossy val) of Some n \<Rightarrow> n | None \<Rightarrow> 10) pre
      else if name = ''MATCH'' then scan_opts rest cnt (Some (trim_stars (lossy val)))
      else scan_opts rest cnt pre)"
| "scan_opts _ cnt pre = (cnt, pre)"

definition resp_scan :: "('s, 'v) index_store \<Rightarrow> u64 \<Rightarrow> 's shard \<Rightarrow> string \<Rightarrow> string list \<Rightarrow> string \<times> string list" where
  "resp_scan S now sh cursor opts =
     (let after = (if lossy cursor = ''0'' then None else Some (lossy cursor));
          (cnt, pre) = scan_opts opts 10 None;
          keys = shard_scan_range S now sh COLL after pre None cnt;
          next = (if length keys < cnt then ''0'' else if keys = [] then ''0'' else last keys) in
      (next, keys))"

definition bulks :: "string list \<Rightarrow> string" where
  "bulks xs = concat (map (\<lambda>x. resp_bulk (Some x)) xs)"

text \<open>The commands on the shard.\<close>

definition data_command :: "('s, 'v) index_store \<Rightarrow> 'v json \<Rightarrow> 'v wire \<Rightarrow> ('v \<Rightarrow> 'v list option) \<Rightarrow> u64 \<Rightarrow> string
    \<Rightarrow> string list \<Rightarrow> 's shard \<Rightarrow> 's shard \<times> string" where
  "data_command S J W as_array now cmd args sh =
     (let n = length args; a = (\<lambda>i. args ! i); obj = (\<lambda>i. shard_object S now sh COLL (lossy (a i))) in
      if cmd = ''DBSIZE'' then
        (sh, resp_int (of_nat (length (shard_scan_range S now sh COLL None None None (2 ^ 64 - 1)))))
      else if cmd = ''GET'' \<and> n = 2 then (sh, resp_bulk_value J W (obj 1))
      else if cmd = ''SET'' \<and> 3 \<le> n then (resp_set S W now (a 1) (a 2) (drop 3 args) sh, resp_simple ''OK'')
      else if cmd = ''GETSET'' \<and> n = 3 then
        (shard_write_object S COLL (lossy (a 1)) (wi_string W (lossy (a 2))) sh, resp_bulk_value J W (obj 1))
      else if cmd = ''DEL'' \<and> 2 \<le> n then
        (let (sh, k) = resp_del S now (drop 1 args) sh 0 in (sh, resp_int k))
      else if cmd = ''EXISTS'' \<and> 2 \<le> n then
        (sh, resp_int (of_nat (length (filter (\<lambda>k. shard_object S now sh COLL (lossy k) \<noteq> None) (drop 1 args)))))
      else if (cmd = ''INCR'' \<or> cmd = ''DECR'') \<and> n = 2 then
        resp_incr S J now (a 1) (if cmd = ''INCR'' then 1 else - 1) sh
      else if (cmd = ''INCRBY'' \<or> cmd = ''DECRBY'') \<and> n = 3 then
        (case parse_i64 (lossy (a 2)) of
           None \<Rightarrow> (sh, resp_err ''ERR value is not an integer or out of range'')
         | Some k \<Rightarrow> resp_incr S J now (a 1) (if cmd = ''INCRBY'' then k else - k) sh)
      else if cmd = ''SADD'' \<and> 3 \<le> n then
        (let (sh, k) = resp_sadd S J now (lossy (a 1)) (drop 2 args) sh 0 in (sh, resp_int k))
      else if cmd = ''SREM'' \<and> 3 \<le> n then
        (let (sh, k) = resp_srem S J now (lossy (a 1)) (drop 2 args) sh 0 in (sh, resp_int k))
      else if cmd = ''SMEMBERS'' \<and> n = 2 then
        (let members = resp_set_members S J as_array now sh (lossy (a 1)) in
         (sh, resp_array_header (length members) @ bulks members))
      else if cmd = ''SCARD'' \<and> n = 2 then
        (sh, resp_int (of_nat (length (resp_set_members S J as_array now sh (lossy (a 1))))))
      else if cmd = ''SISMEMBER'' \<and> n = 3 then
        (sh, resp_int (if lossy (a 2) \<in> set (resp_set_members S J as_array now sh (lossy (a 1))) then 1 else 0))
      else if cmd = ''SCAN'' \<and> 2 \<le> n then
        (let (next, keys) = resp_scan S now sh (a 1) (drop 2 args) in
         (sh, resp_array_header 2 @ resp_bulk (Some next) @ resp_array_header (length keys) @ bulks keys))
      else if cmd = ''TYPE'' \<and> n = 2 then
        (sh, resp_simple (case obj 1 of None \<Rightarrow> ''none''
           | Some v \<Rightarrow> if as_array v \<noteq> None then ''set'' else ''string''))
      else (sh, resp_err (''ERR unknown command '' @ [CHR 0x27] @ ascii_lower cmd @ [CHR 0x27])))"

text \<open>One command of a connection: the shard after it, the reply, whether the connection is
  authenticated, and whether it goes on.\<close>

definition resp_command :: "('s, 'v) index_store \<Rightarrow> 'v json \<Rightarrow> 'v wire \<Rightarrow> ('v \<Rightarrow> 'v list option) \<Rightarrow> string option
    \<Rightarrow> u64 \<Rightarrow> bool \<Rightarrow> string list \<Rightarrow> 's shard \<Rightarrow> 's shard \<times> string \<times> bool \<times> bool" where
  "resp_command S J W as_array token now authed args sh =
     (let cmd = ascii_upper (lossy (hd args)) in
      if \<not> authed \<and> cmd \<notin> {''AUTH'', ''PING'', ''QUIT'', ''HELLO''} then
        (sh, resp_err ''NOAUTH Authentication required.'', authed, True)
      else if cmd = ''PING'' then
        (sh, if 1 < length args then resp_bulk (Some (args ! 1)) else resp_simple ''PONG'', authed, True)
      else if cmd = ''AUTH'' then
        (case token of
           Some t \<Rightarrow> if 2 \<le> length args \<and> last args = t then (sh, resp_simple ''OK'', True, True)
             else (sh, resp_err ''WRONGPASS invalid username-password pair'', authed, True)
         | None \<Rightarrow> (sh, resp_err ''ERR Client sent AUTH, but no password is set'', authed, True))
      else if cmd = ''QUIT'' then (sh, resp_simple ''OK'', authed, False)
      else if cmd = ''SELECT'' \<or> cmd = ''CLIENT'' then (sh, resp_simple ''OK'', authed, True)
      else if cmd = ''HELLO'' then (sh, resp_err (''ERR unknown command '' @ [CHR 0x27] @ ''HELLO'' @ [CHR 0x27]), authed, True)
      else if cmd = ''COMMAND'' then (sh, resp_array_header 0, authed, True)
      else if cmd = ''INFO'' then
        (sh, resp_bulk (Some (''# Server'' @ CRLF @ ''stplr_resp:1'' @ CRLF)), authed, True)
      else (let (sh, out) = data_command S J W as_array now cmd args sh in (sh, out, authed, True)))"

subsection \<open>A connection\<close>

record resp_conn =
  rc_in :: string
  rc_out :: string
  rc_authed :: bool
  rc_open :: bool

definition resp_accept :: "string option \<Rightarrow> string \<Rightarrow> resp_conn" where
  "resp_accept token stream = \<lparr>rc_in = stream, rc_out = [], rc_authed = (token = None), rc_open = True\<rparr>"

text \<open>One round of the loop of \<^verbatim>\<open>handle\<close>.\<close>

definition resp_handle :: "('s, 'v) index_store \<Rightarrow> 'v json \<Rightarrow> 'v wire \<Rightarrow> ('v \<Rightarrow> 'v list option) \<Rightarrow> string option
    \<Rightarrow> u64 \<Rightarrow> resp_conn \<Rightarrow> 's shard \<Rightarrow> resp_conn \<times> 's shard" where
  "resp_handle S J W as_array token now c sh =
     (case read_command (rc_in c) of
        Cmd args r \<Rightarrow>
          if args = [] then (c\<lparr>rc_in := r\<rparr>, sh)
          else (let (sh, out, authed, go) = resp_command S J W as_array token now (rc_authed c) args sh in
                (\<lparr>rc_in = r, rc_out = rc_out c @ out, rc_authed = authed, rc_open = go\<rparr>, sh))
      | _ \<Rightarrow> (c\<lparr>rc_open := False\<rparr>, sh))"

text \<open>Rounds of a connection, each at a time of the clock and after what other connections did.\<close>

fun resp_loop :: "('s, 'v) index_store \<Rightarrow> 'v json \<Rightarrow> 'v wire \<Rightarrow> ('v \<Rightarrow> 'v list option) \<Rightarrow> string option
    \<Rightarrow> (u64 \<times> ('s shard \<Rightarrow> 's shard)) list \<Rightarrow> resp_conn \<Rightarrow> 's shard \<Rightarrow> resp_conn \<times> 's shard" where
  "resp_loop S J W as_array token [] c sh = (c, sh)"
| "resp_loop S J W as_array token ((now, others) # sched) c sh =
     (if rc_open c then
        (let (c, sh) = resp_handle S J W as_array token now c (others sh) in resp_loop S J W as_array token sched c sh)
      else resp_loop S J W as_array token sched c (others sh))"

subsection \<open>Pipelined commands\<close>

definition enc_command :: "string list \<Rightarrow> string" where
  "enc_command args = resp_array_header (length args) @ bulks args"

text \<open>The commands performed one at a time, without a wire.\<close>

fun resp_direct :: "('s, 'v) index_store \<Rightarrow> 'v json \<Rightarrow> 'v wire \<Rightarrow> ('v \<Rightarrow> 'v list option) \<Rightarrow> string option
    \<Rightarrow> (u64 \<times> ('s shard \<Rightarrow> 's shard)) list \<Rightarrow> string list list \<Rightarrow> bool \<Rightarrow> 's shard \<Rightarrow> string \<times> 's shard" where
  "resp_direct S J W as_array token [] cmds authed sh = ([], sh)"
| "resp_direct S J W as_array token ((now, others) # sched) [] authed sh =
     resp_direct S J W as_array token sched [] authed (others sh)"
| "resp_direct S J W as_array token ((now, others) # sched) (args # cmds) authed sh =
     (let (sh, out, authed, go) = resp_command S J W as_array token now authed args (others sh);
          (out', sh) = resp_direct S J W as_array token sched (if go then cmds else []) authed sh in
      (out @ out', sh))"

lemma digit_not_eol: "is_digit c \<Longrightarrow> \<not> is_eol c"
  by (auto simp: is_eol_def is_digit_def)

lemma all_digits_last: "all_digits s \<Longrightarrow> s \<noteq> [] \<Longrightarrow> is_digit (last s)"
  by (simp add: all_digits_def list_all_iff)

lemma read_line_crlf:
  assumes "list_all (\<lambda>c. \<not> is_eol c) l"
  shows "read_line (l @ CRLF @ r) = Some (l, r)"
proof -
  have l: "\<forall>c \<in> set l. c \<noteq> CHR 0x0A" using assms by (auto simp: list_all_iff is_eol_def)
  then have t: "takeWhile (\<lambda>c. c \<noteq> CHR 0x0A) (l @ CRLF @ r) = l @ [CHR 0x0D]"
    by (subst takeWhile_append2) auto
  have d: "dropWhile is_eol (CHR 0x0D # rev l) = rev l"
    using assms by (cases l rule: rev_cases) (simp_all add: is_eol_def)
  show ?thesis unfolding read_line_def Let_def t using d by simp
qed

lemma all_digits_not_eol: "all_digits s \<Longrightarrow> list_all (\<lambda>c. \<not> is_eol c) s"
  by (auto simp: all_digits_def list_all_iff digit_not_eol)

lemma digit_ascii: "is_digit c \<Longrightarrow> byte c < 0x80"
  by (auto simp: is_digit_def)

lemma len_of_show [simp]: "n < 2 ^ 64 \<Longrightarrow> len_of (show_nat n) = n"
proof -
  assume n: "n < 2 ^ 64"
  have "ascii (show_nat n)" using all_digits_show [of n] by (auto simp: ascii_def all_digits_def list_all_iff digit_ascii)
  moreover have "parse_u64 (show_nat n) = Some (of_nat n)" using n by (simp add: parse_u64_digits)
  ultimately show "len_of (show_nat n) = n" using n by (simp add: len_of_def parse_usize_def unsigned_of_nat take_bit_nat_eq_self)
qed

text \<open>Strings short enough for a vector, and commands of such strings.\<close>

definition cmd_fits :: "string list \<Rightarrow> bool" where
  "cmd_fits args \<longleftrightarrow> args \<noteq> [] \<and> length args * 24 \<le> ISIZE_MAX \<and> list_all (\<lambda>a. length a \<le> ISIZE_MAX) args"

lemma read_args_enc:
  "list_all (\<lambda>a. length a \<le> ISIZE_MAX) args \<Longrightarrow> read_args (length args) (bulks args @ r) acc = Cmd (acc @ args) r"
proof (induction args arbitrary: acc)
  case (Cons a args)
  have a: "length a \<le> ISIZE_MAX" and len: "length a < 2 ^ 64" using Cons.prems by (simp_all add: ISIZE_MAX_def)
  have "list_all (\<lambda>c. \<not> is_eol c) (CHR ''$'' # show_nat (length a))"
    using all_digits_not_eol [OF all_digits_show] by (simp add: is_eol_def)
  from read_line_crlf [OF this] have "read_line (bulks (a # args) @ r) = Some (CHR ''$'' # show_nat (length a), a @ CRLF @ bulks args @ r)"
    by (simp add: bulks_def resp_bulk_def)
  then show ?case using Cons.IH [of "acc @ [a]"] Cons.prems a by (simp add: len_of_show [OF len] Let_def)
qed (simp add: bulks_def)

lemma read_command_enc: "cmd_fits args \<Longrightarrow> read_command (enc_command args @ r) = Cmd args r"
proof -
  assume fits: "cmd_fits args"
  have "list_all (\<lambda>c. \<not> is_eol c) (CHR ''*'' # show_nat (length args))"
    using all_digits_not_eol [OF all_digits_show] by (simp add: is_eol_def)
  from read_line_crlf [OF this] have "read_line (enc_command args @ r) = Some (CHR ''*'' # show_nat (length args), bulks args @ r)"
    by (simp add: enc_command_def resp_array_header_def)
  moreover have "len_of (show_nat (length args)) = length args" using fits by (simp add: cmd_fits_def ISIZE_MAX_def)
  ultimately show ?thesis
    using fits read_args_enc [of args r "[]"] by (simp add: read_command_def cmd_fits_def Let_def)
qed

lemma resp_loop_closed:
  "\<not> rc_open c \<Longrightarrow> resp_loop S J W as_array token sched c sh = (c, fold (\<lambda>(_, others). others) sched sh)"
  by (induction sched arbitrary: sh) auto

lemma resp_direct_Nil: "resp_direct S J W as_array token sched [] authed sh = ([], fold (\<lambda>(_, others). others) sched sh)"
  by (induction sched arbitrary: sh) auto

lemma resp_loop_direct:
  assumes "list_all cmd_fits cmds" and "rc_in c = concat (map enc_command cmds)" and "rc_open c"
    and "resp_loop S J W as_array token sched c sh = (c', sh')"
  shows "resp_direct S J W as_array token sched cmds (rc_authed c) sh = (drop (length (rc_out c)) (rc_out c'), sh') \<and>
    take (length (rc_out c)) (rc_out c') = rc_out c"
  using assms
proof (induction sched arbitrary: cmds c sh)
  case (Cons x sched)
  obtain now others where x: "x = (now, others)" by (cases x)
  show ?case
  proof (cases cmds)
    case Nil
    then have "resp_handle S J W as_array token now c (others sh) = (c\<lparr>rc_open := False\<rparr>, others sh)"
      using Cons.prems by (simp add: resp_handle_def read_command_def read_line_def)
    with Cons.prems Nil show ?thesis by (auto simp: x resp_loop_closed resp_direct_Nil)
  next
    case (Cons args cmds')
    obtain sh1 out authed go where e: "resp_command S J W as_array token now (rc_authed c) args (others sh) = (sh1, out, authed, go)"
      by (metis prod_cases4)
    let ?c1 = "\<lparr>rc_in = concat (map enc_command cmds'), rc_out = rc_out c @ out, rc_authed = authed, rc_open = go\<rparr>"
    have "read_command (rc_in c) = Cmd args (concat (map enc_command cmds'))" "args \<noteq> []"
      using Cons.prems Cons read_command_enc [of args] by (simp_all add: cmd_fits_def)
    then have h: "resp_handle S J W as_array token now c (others sh) = (?c1, sh1)"
      by (simp add: resp_handle_def e)
    show ?thesis
    proof (cases go)
      case True
      have "resp_loop S J W as_array token sched ?c1 sh1 = (c', sh')" using Cons.prems h by (simp add: x)
      from Cons.IH [OF _ _ _ this, of cmds'] True Cons.prems(1) Cons
      have "resp_direct S J W as_array token sched cmds' authed sh1 = (drop (length (rc_out c @ out)) (rc_out c'), sh')"
        and t: "take (length (rc_out c @ out)) (rc_out c') = rc_out c @ out" by simp_all
      moreover from t have "rc_out c' = rc_out c @ out @ drop (length (rc_out c @ out)) (rc_out c')"
        by (metis append.assoc append_take_drop_id)
      ultimately show ?thesis using True Cons e
        by (simp add: x) (metis append_eq_conv_conj)
    next
      case False
      then show ?thesis using Cons.prems h Cons e by (auto simp: x resp_loop_closed resp_direct_Nil)
    qed
  qed
qed auto

subsection \<open>Authentication\<close>

text \<open>What the parser returns are pieces of the stream.\<close>

lemma rev_dropWhile_prefix: "prefix (rev (dropWhile P (rev xs))) xs"
  using suffix_dropWhile [of P "rev xs"] by (simp add: suffix_to_prefix)

lemma read_line_pieces: "read_line s = Some (l, r) \<Longrightarrow> sublist l s \<and> suffix r s"
proof -
  assume a: "read_line s = Some (l, r)"
  then have l: "l = rev (dropWhile is_eol (rev (takeWhile (\<lambda>c. c \<noteq> CHR 0x0A) s)))" and r: "suffix r s"
    by (auto simp: read_line_def Let_def suffix_drop split: if_splits)
  from l have "prefix l s"
    using rev_dropWhile_prefix prefix_order.order_trans [OF _ takeWhile_is_prefix] by blast
  with r show ?thesis by (simp add: prefix_imp_sublist)
qed

lemma split_spaces_pieces: "p \<in> set (split_spaces s) \<Longrightarrow> sublist p s"
proof -
  have "split_spaces s \<noteq> [] \<and> prefix (hd (split_spaces s)) s \<and> (\<forall>p \<in> set (split_spaces s). sublist p s)"
    by (induction s) (auto split: list.split simp: sublist_Cons_right intro: prefix_imp_sublist)
  then show "p \<in> set (split_spaces s) \<Longrightarrow> sublist p s" by blast
qed

lemma read_args_pieces:
  "read_args n s acc = Cmd args r \<Longrightarrow> suffix r s \<and> (\<forall>a \<in> set args. a \<in> set acc \<or> sublist a s)"
proof (induction n s acc rule: read_args.induct)
  case (2 n s acc)
  then obtain hdr s1 where l: "read_line s = Some (CHR ''$'' # hdr, s1)" and len: "len_of hdr \<le> ISIZE_MAX" "len_of hdr + 2 \<le> length s1"
    and rest: "read_args n (drop (len_of hdr + 2) s1) (acc @ [take (len_of hdr) s1]) = Cmd args r"
    by (auto simp: Let_def split: option.splits list.splits if_splits)
  have s1: "suffix s1 s" using read_line_pieces [OF l] by simp
  have ih: "suffix r (drop (len_of hdr + 2) s1) \<and>
      (\<forall>a \<in> set args. a \<in> set (acc @ [take (len_of hdr) s1]) \<or> sublist a (drop (len_of hdr + 2) s1))"
    using 2(1) [OF l refl refl _ refl] len rest by simp
  have "sublist a s" if "sublist a (drop (len_of hdr + 2) s1) \<or> a = take (len_of hdr) s1" for a
    using that s1 by (metis prefix_imp_sublist sublist_order.order_trans suffix_drop suffix_imp_sublist take_is_prefix)
  moreover have "suffix r s" using ih s1 suffix_drop suffix_order.order_trans by blast
  ultimately show ?case using ih by auto
qed simp

lemma read_command_pieces: "read_command s = Cmd args r \<Longrightarrow> suffix r s \<and> (\<forall>a \<in> set args. sublist a s)"
proof -
  assume c: "read_command s = Cmd args r"
  then obtain l s1 where l: "read_line s = Some (l, s1)" by (auto simp: read_command_def split: option.splits)
  have p: "sublist l s" "suffix s1 s" using read_line_pieces [OF l] by simp_all
  show ?thesis
  proof (cases "\<exists>line. l = CHR ''*'' # line")
    case True
    then obtain line where "read_args (len_of line) s1 [] = Cmd args r"
      using c l by (auto simp: read_command_def Let_def split: if_splits)
    from read_args_pieces [OF this] p(2) show ?thesis
      by (auto intro: suffix_order.order_trans sublist_order.order_trans suffix_imp_sublist)
  next
    case False
    then have "r = s1" "\<forall>a \<in> set args. sublist a l"
      using c l by (auto simp: read_command_def split_spaces_pieces split: list.splits if_splits)
    with p show ?thesis by (auto intro: sublist_order.order_trans)
  qed
qed

lemma resp_command_unauthed:
  assumes "resp_command S J W as_array (Some t) now False args sh = (sh', out, authed, go)"
  shows "sh' = sh" and "authed \<Longrightarrow> t \<in> set args"
    and "resp_command S' J W as_array (Some t) now' False args sh2 = (sh2, out, authed, go)"
  using assms by (auto simp: resp_command_def Let_def split: if_splits intro!: last_in_set)

lemma resp_handle_unauthed:
  assumes "\<not> rc_authed c" and "\<not> sublist t (rc_in c)"
  obtains c1 where "\<And>now sh. resp_handle S J W as_array (Some t) now c sh = (c1, sh)" "\<not> rc_authed c1" "\<not> sublist t (rc_in c1)"
proof (cases "\<exists>args r. read_command (rc_in c) = Cmd args r \<and> args \<noteq> []")
  case True
  then obtain args r where a: "read_command (rc_in c) = Cmd args r" "args \<noteq> []" by blast
  obtain sh out authed go where e: "resp_command S J W as_array (Some t) 0 False args undefined = (sh, out, authed, go)"
    by (metis prod_cases4)
  note u = resp_command_unauthed [OF e]
  have p: "suffix r (rc_in c)" "\<forall>a \<in> set args. sublist a (rc_in c)" using read_command_pieces [OF a(1)] by simp_all
  with u(2) assms(2) have "\<not> authed" by blast
  moreover have "\<not> sublist t r" using p(1) assms(2) suffix_imp_sublist sublist_order.order_trans by blast
  ultimately show thesis
    using a assms(1)
    by (intro that [of "\<lparr>rc_in = r, rc_out = rc_out c @ out, rc_authed = authed, rc_open = go\<rparr>"])
      (simp_all add: resp_handle_def u(3))
next
  case False
  show thesis
  proof (cases "read_command (rc_in c)")
    case (Cmd args r)
    have "\<not> sublist t r"
      using read_command_pieces [OF Cmd] assms(2) suffix_imp_sublist sublist_order.order_trans by blast
    with Cmd False assms(1) show thesis by (intro that [of "c\<lparr>rc_in := r\<rparr>"]) (simp_all add: resp_handle_def)
  qed (use assms in \<open>auto simp: resp_handle_def intro: that [of "c\<lparr>rc_open := False\<rparr>"]\<close>)
qed

lemma resp_loop_unauthed:
  assumes "resp_loop S J W as_array (Some t) sched c sh = (c', sh')" and "\<not> rc_authed c" and "\<not> sublist t (rc_in c)"
  shows "\<not> rc_authed c' \<and> sh' = fold (\<lambda>(_, others). others) sched sh \<and>
    (\<forall>sched2 sh2. length sched2 = length sched \<longrightarrow> fst (resp_loop S J W as_array (Some t) sched2 c sh2) = c')"
  using assms
proof (induction sched arbitrary: c sh)
  case (Cons x sched)
  obtain now others where x: "x = (now, others)" by (cases x)
  show ?case
  proof (cases "rc_open c")
    case False
    with Cons.prems show ?thesis by (auto simp: x resp_loop_closed)
  next
    case True
    obtain c1 where h: "\<And>now sh. resp_handle S J W as_array (Some t) now c sh = (c1, sh)" "\<not> rc_authed c1"
      "\<not> sublist t (rc_in c1)" using resp_handle_unauthed [OF Cons.prems(2,3)] by metis
    have "resp_loop S J W as_array (Some t) sched c1 (others sh) = (c', sh')" using Cons.prems(1) True h(1) by (simp add: x)
    note ih = Cons.IH [OF this h(2,3)]
    have "fst (resp_loop S J W as_array (Some t) sched2 c sh2) = c'" if len: "length sched2 = length (x # sched)" for sched2 sh2
    proof -
      obtain now2 others2 sched3 where "sched2 = (now2, others2) # sched3" using len by (cases sched2) auto
      then show ?thesis using ih True h(1) len by simp
    qed
    with ih show ?thesis by (simp add: x)
  qed
qed auto

subsection \<open>Commands on an in-memory shard\<close>

text \<open>The keyspace of a RESP client.\<close>

abbreviation resp_view :: "u64 \<Rightarrow> 'v memory_store shard \<Rightarrow> string \<Rightarrow> 'v option" where
  "resp_view now sh k \<equiv> mem_get_object now (sh_store sh) COLL k"

lemma view_object: "shard_object memory_index now sh COLL k = resp_view now sh k"
  by (simp add: shard_object_def)

lemma view_delete:
  assumes "mem_ok (sh_store sh)"
  shows "mem_ok (sh_store (shard_delete_object memory_index COLL x sh))"
    and "resp_view now (shard_delete_object memory_index COLL x sh) k = (if k = x then None else resp_view now sh k)"
  using mem.get_delete [OF assms, of now COLL x COLL k] mem_ok_ops [OF assms]
  by (simp_all add: shard_delete_object_def)

lemma view_write:
  assumes "mem_ok (sh_store sh)"
  shows "mem_ok (sh_store (shard_write_object memory_index COLL x v sh))"
    and "resp_view now (shard_write_object memory_index COLL x v sh) k = (if k = x then Some v else resp_view now sh k)"
  using mem.get_put [OF assms, of now COLL x v COLL k] mem_ok_ops [OF assms]
  by (simp_all add: shard_write_object_def)

lemma resp_del_facts:
  assumes "mem_ok (sh_store sh)" and "resp_del memory_index now ks sh n = (sh', m)"
  shows "mem_ok (sh_store sh') \<and> m = n + of_nat (card {k \<in> lossy ` set ks. resp_view now sh k \<noteq> None}) \<and>
    (\<forall>now' k. resp_view now' sh' k =
      (if k \<in> lossy ` set ks \<and> resp_view now sh k \<noteq> None then None else resp_view now' sh k))"
  using assms
proof (induction ks arbitrary: sh n)
  case (Cons x ks)
  let ?x = "lossy x"
  show ?case
  proof (cases "resp_view now sh ?x")
    case None
    then have "{k \<in> lossy ` set (x # ks). resp_view now sh k \<noteq> None} = {k \<in> lossy ` set ks. resp_view now sh k \<noteq> None}" by auto
    with Cons.IH [of sh n] Cons.prems None show ?thesis by (auto simp: view_object)
  next
    case (Some v)
    let ?sh = "shard_delete_object memory_index COLL ?x sh"
    note d = view_delete [OF Cons.prems(1), where x = ?x]
    let ?K = "{k \<in> lossy ` set ks. resp_view now ?sh k \<noteq> None}"
    have "{k \<in> lossy ` set (x # ks). resp_view now sh k \<noteq> None} = insert ?x ?K" using Some d(2) by auto
    moreover have "?x \<notin> ?K" "finite ?K" using d(2) by simp_all
    ultimately have c: "card {k \<in> lossy ` set (x # ks). resp_view now sh k \<noteq> None} = Suc (card ?K)" by (simp add: d(2))
    have "resp_del memory_index now ks ?sh (n + 1) = (sh', m)" using Cons.prems(2) Some by (simp add: view_object)
    from Cons.IH [OF d(1) this] c Some show ?thesis by (auto simp: d(2))
  qed
qed auto

lemma ascii_show_u64 [simp]: "ascii (show_u64 n)"
  using all_digits_show [of "unat n"] by (auto simp: show_u64_def ascii_def all_digits_def list_all_iff digit_ascii)

lemma ascii_show_i64 [simp]: "ascii (show_i64 d)"
  using all_digits_show
  by (auto simp: show_i64_def ascii_def all_digits_def list_all_iff digit_ascii)

lemma data_command_cases:
  "data_command S J W A now ''GET'' [c, k] sh = (sh, resp_bulk_value J W (shard_object S now sh COLL (lossy k)))"
  "data_command S J W A now ''SET'' (c # k # v # opts) sh = (resp_set S W now k v opts sh, resp_simple ''OK'')"
  "data_command S J W A now ''GETSET'' [c, k, v] sh =
     (shard_write_object S COLL (lossy k) (wi_string W (lossy v)) sh, resp_bulk_value J W (shard_object S now sh COLL (lossy k)))"
  "ks \<noteq> [] \<Longrightarrow> data_command S J W A now ''DEL'' (c # ks) sh = (let (sh, k) = resp_del S now ks sh 0 in (sh, resp_int k))"
  "data_command S J W A now ''INCRBY'' [c, k, i] sh = (case parse_i64 (lossy i) of
       None \<Rightarrow> (sh, resp_err ''ERR value is not an integer or out of range'')
     | Some d \<Rightarrow> resp_incr S J now k d sh)"
  by (simp_all add: data_command_def Suc_le_eq split: option.split)

lemma upper_letters [simp]: "ascii_upper ''EX'' = ''EX''"
  by (simp add: ascii_upper_def)

lemma view_write_ttl:
  assumes "mem_ok (sh_store sh)" and "ttl \<noteq> 0"
  shows "resp_view now' (shard_write_object_ttl memory_index now COLL x v ttl sh) k =
    (if k = x then (if now + ttl \<le> now' then None else Some v) else resp_view now' sh k)"
  using mem.get_put_at [OF assms(1), of now' COLL x v "now + ttl" COLL k] assms(2)
  by (simp add: shard_write_object_ttl_def)

lemma view_incr:
  assumes "mem_ok (sh_store sh)" and "shard_incr memory_index J now COLL x d sh = (sh', r)"
    and "cur = (case resp_view now sh x of None \<Rightarrow> Some 0 | Some v \<Rightarrow> js_integer J v)"
  shows "r = map_option (\<lambda>n. n + d) cur"
    and "resp_view now' sh' k = (case cur of Some n \<Rightarrow> if k = x then Some (js_of_i64 J (n + d)) else resp_view now' sh k
      | None \<Rightarrow> resp_view now' sh k)"
  using assms mem.get_put [OF assms(1), of now' COLL x _ COLL k]
  by (auto simp: shard_incr_def on_store_def store_incr_def Let_def split: option.splits)

text \<open>
  C19. Pipelining: when a client sends any sequence of commands as RESP arrays of bulk strings, with any
  bytes in the arguments, in one stream, the connection performs exactly these commands in this order,
  up to a \<^verbatim>\<open>QUIT\<close>, and writes the replies one after the other, whatever other connections do to the shard
  in between.
\<close>

theorem resp_pipeline:
  assumes "list_all cmd_fits cmds"
    and "resp_loop S J W as_array token sched (resp_accept token (concat (map enc_command cmds))) sh = (c', sh')"
  shows "resp_direct S J W as_array token sched cmds (token = None) sh = (rc_out c', sh')"
  using resp_loop_direct [OF assms(1) _ _ assms(2)] by (simp add: resp_accept_def)

text \<open>
  C23. The authentication gate: when a token is configured and the bytes a client sends do not contain it,
  the connection is never authenticated, changes nothing in the shard, and gets replies that do not
  depend on what the shard holds, whatever the client sends.
\<close>

theorem resp_auth_gate:
  assumes "\<not> sublist t stream"
    and "resp_loop S J W as_array (Some t) sched (resp_accept (Some t) stream) sh = (c', sh')"
  shows "\<not> rc_authed c' \<and> sh' = fold (\<lambda>(_, others). others) sched sh
    \<and> (\<forall>sched2 sh2. length sched2 = length sched \<longrightarrow>
         rc_out (fst (resp_loop S J W as_array (Some t) sched2 (resp_accept (Some t) stream) sh2)) = rc_out c')"
  using resp_loop_unauthed [OF assms(2)] assms(1) by (simp add: resp_accept_def)

text \<open>
  C25. The commands on an in-memory shard, for keys and values in UTF-8: \<^verbatim>\<open>GET\<close> returns what is there; \<^verbatim>\<open>SET\<close>
  stores the string, with \<^verbatim>\<open>EX\<close> until that many seconds (modulo 2^64 milliseconds) have passed; \<^verbatim>\<open>GETSET\<close>
  stores and returns what was there; \<^verbatim>\<open>DEL\<close> removes the keys that are there and returns their number,
  counting a repeated key once; \<^verbatim>\<open>INCRBY\<close> adds to an integer, 0 when absent, modulo 2^64, and refuses any other
  value without changing it. Other keys keep their values.
\<close>

theorem resp_data_commands:
  assumes ok: "mem_ok (sh_store sh)" and "utf8_valid k" and "utf8_valid v" and "n * 1000 \<noteq> 0"
    and ex: "(sh1, out1) = data_command memory_index J W A now ''SET'' [''SET'', k, v] sh"
    and "(sh2, out2) = data_command memory_index J W A now ''SET'' [''SET'', k, v, ''EX'', show_u64 n] sh"
    and "(sh3, out3) = data_command memory_index J W A now ''GETSET'' [''GETSET'', k, v] sh"
    and "(sh4, out4) = data_command memory_index J W A now ''DEL'' (''DEL'' # ks) sh" and "ks \<noteq> []"
    and "(sh5, out5) = data_command memory_index J W A now ''INCRBY'' [''INCRBY'', k, show_i64 d] sh"
    and "cur = (case resp_view now sh k of None \<Rightarrow> Some 0 | Some x \<Rightarrow> js_integer J x)"
  shows "data_command memory_index J W A now ''GET'' [''GET'', k] sh = (sh, resp_bulk_value J W (resp_view now sh k))
    \<and> out1 = resp_simple ''OK'' \<and> resp_view now' sh1 x = (if x = k then Some (wi_string W v) else resp_view now' sh x)
    \<and> out2 = resp_simple ''OK'' \<and> resp_view now' sh2 x = (if x = k
        then if now + n * 1000 \<le> now' then None else Some (wi_string W v) else resp_view now' sh x)
    \<and> out3 = resp_bulk_value J W (resp_view now sh k)
    \<and> resp_view now' sh3 x = (if x = k then Some (wi_string W v) else resp_view now' sh x)
    \<and> out4 = resp_int (of_nat (card {k \<in> lossy ` set ks. resp_view now sh k \<noteq> None}))
    \<and> resp_view now' sh4 x = (if x \<in> lossy ` set ks \<and> resp_view now sh x \<noteq> None then None else resp_view now' sh x)
    \<and> out5 = (case cur of Some i \<Rightarrow> resp_int (i + d) | None \<Rightarrow> resp_err ''ERR value is not an integer or out of range'')
    \<and> resp_view now' sh5 x = (case cur of Some i \<Rightarrow> if x = k then Some (js_of_i64 J (i + d)) else resp_view now' sh x
        | None \<Rightarrow> resp_view now' sh x)"
proof -
  have l: "lossy k = k" "lossy v = v" "lossy ''EX'' = ''EX''" "parse_u64 (lossy (show_u64 n)) = Some n"
    using assms(2,3) by (simp_all add: lossy_valid)
  have opts: "set_opts [''EX'', show_u64 n] 0 = n * 1000" "set_opts [] 0 = 0" by (simp_all add: l Let_def)
  have set: "data_command memory_index J W A now ''SET'' [''SET'', k, v] sh =
      (shard_write_object memory_index COLL k (wi_string W v) sh, resp_simple ''OK'')"
    "data_command memory_index J W A now ''SET'' [''SET'', k, v, ''EX'', show_u64 n] sh =
      (shard_write_object_ttl memory_index now COLL k (wi_string W v) (n * 1000) sh, resp_simple ''OK'')"
    using assms(4) not_sym [OF assms(4)] by (simp_all only: data_command_cases resp_set_def opts l Let_def word_gt_0 if_True if_False simp_thms)
  obtain m where del: "resp_del memory_index now ks sh 0 = (sh4, m)" "out4 = resp_int m"
    using assms(8,9) by (simp add: data_command_cases Let_def split: prod.splits)
  obtain r where inc: "shard_incr memory_index J now COLL k d sh = (sh5, r)"
    "out5 = (case r of Some i \<Rightarrow> resp_int i | None \<Rightarrow> resp_err ''ERR value is not an integer or out of range'')"
    using assms(10) by (simp add: data_command_cases resp_incr_def l split: prod.splits option.splits)
  have "data_command memory_index J W A now ''GET'' [''GET'', k] sh = (sh, resp_bulk_value J W (resp_view now sh k))"
    by (simp add: data_command_cases l view_object)
  moreover have "sh1 = shard_write_object memory_index COLL k (wi_string W v) sh" "out1 = resp_simple ''OK''"
    "sh2 = shard_write_object_ttl memory_index now COLL k (wi_string W v) (n * 1000) sh" "out2 = resp_simple ''OK''"
    using assms(5,6) unfolding set by simp_all
  moreover have "sh3 = shard_write_object memory_index COLL k (wi_string W v) sh" "out3 = resp_bulk_value J W (resp_view now sh k)"
    using assms(7) by (simp_all add: data_command_cases l view_object)
  moreover have "out5 = (case cur of Some i \<Rightarrow> resp_int (i + d) | None \<Rightarrow> resp_err ''ERR value is not an integer or out of range'')"
    using inc(2) view_incr(1) [OF ok inc(1) assms(11)] by (simp split: option.split)
  ultimately show ?thesis
    using resp_del_facts [OF ok del(1)] del(2) view_incr(2) [OF ok inc(1) assms(11)]
    by (simp add: view_write [OF ok] view_write_ttl [OF ok assms(4)])
qed

subsubsection \<open>Commands at work\<close>

abbreviation no_array :: "jv \<Rightarrow> jv list option" where
  "no_array \<equiv> \<lambda>_. None"

abbreviation empty_shard :: "jv memory_store shard" where
  "empty_shard \<equiv> shard_new ''s'' mem_new"

lemma upper_commands: "ascii_upper ''SET'' = ''SET''" "ascii_upper ''get'' = ''GET''"
  by code_simp+

theorem resp_pipeline_witness:
  "rc_out (fst (resp_loop memory_index jv_json text_wire no_array None [(0, id), (0, id), (0, id)]
      (resp_accept None (concat (map enc_command [[''SET'', ''k'', ''v''], [''get'', ''k'']]))) empty_shard)) =
    resp_simple ''OK'' @ resp_bulk (Some ''v'')"
proof -
  let ?cmds = "[[''SET'', ''k'', ''v''], [''get'', ''k'']]"
  obtain c' sh' where l: "resp_loop memory_index jv_json text_wire no_array None [(0, id), (0, id), (0, id)]
      (resp_accept None (concat (map enc_command ?cmds))) empty_shard = (c', sh')" by (metis prod.collapse)
  have fits: "list_all cmd_fits ?cmds" by (simp add: cmd_fits_def ISIZE_MAX_def)
  have d: "data_command memory_index jv_json text_wire no_array 0 ''SET'' [''SET'', ''k'', ''v''] empty_shard =
      (shard_write_object memory_index COLL ''k'' (JStr ''v'') empty_shard, resp_simple ''OK'')"
    "data_command memory_index jv_json text_wire no_array 0 ''GET'' [''get'', ''k'']
        (shard_write_object memory_index COLL ''k'' (JStr ''v'') empty_shard) =
      (shard_write_object memory_index COLL ''k'' (JStr ''v'') empty_shard, resp_bulk (Some ''v''))"
    by (simp_all add: data_command_cases resp_set_def text_wire_def resp_bulk_value_def jv_json_def view_object view_write shard_new_def)
  have "resp_direct memory_index jv_json text_wire no_array None [(0, id), (0, id), (0, id)] ?cmds True empty_shard =
      (resp_simple ''OK'' @ resp_bulk (Some ''v''), shard_write_object memory_index COLL ''k'' (JStr ''v'') empty_shard)"
    by (simp add: resp_command_def upper_commands d)
  with resp_pipeline [OF fits l] l show ?thesis by simp
qed

theorem resp_auth_gate_witness:
  "snd (resp_loop memory_index jv_json text_wire no_array (Some ''secret'') [(0, id), (0, id)]
      (resp_accept (Some ''secret'') (''DEL k'' @ CRLF)) empty_shard) = empty_shard"
proof -
  obtain c' sh' where l: "resp_loop memory_index jv_json text_wire no_array (Some ''secret'') [(0, id), (0, id)]
      (resp_accept (Some ''secret'') (''DEL k'' @ CRLF)) empty_shard = (c', sh')" by (metis prod.collapse)
  have "\<not> sublist ''secret'' (''DEL k'' @ CRLF)" by (simp add: sublist_Cons_right)
  from resp_auth_gate [OF this l] l show ?thesis by simp
qed

theorem resp_data_commands_witness:
  "resp_view 999 (fst (data_command memory_index jv_json text_wire no_array 0 ''SET'' [''SET'', ''k'', ''v'', ''EX'', show_u64 1] empty_shard)) ''k''
      = Some (JStr ''v'')
   \<and> resp_view 1000 (fst (data_command memory_index jv_json text_wire no_array 0 ''SET'' [''SET'', ''k'', ''v'', ''EX'', show_u64 1] empty_shard)) ''k''
      = None
   \<and> snd (data_command memory_index jv_json text_wire no_array 0 ''INCRBY'' [''INCRBY'', ''k'', show_i64 5] empty_shard) = resp_int 5"
proof -
  let ?d = "data_command memory_index jv_json text_wire no_array 0"
  obtain sh1 out1 sh2 out2 sh3 out3 sh4 out4 sh5 out5 where
    d: "(sh1, out1) = ?d ''SET'' [''SET'', ''k'', ''v''] empty_shard"
      "(sh2, out2) = ?d ''SET'' [''SET'', ''k'', ''v'', ''EX'', show_u64 1] empty_shard"
      "(sh3, out3) = ?d ''GETSET'' [''GETSET'', ''k'', ''v''] empty_shard"
      "(sh4, out4) = ?d ''DEL'' (''DEL'' # [''k'']) empty_shard"
      "(sh5, out5) = ?d ''INCRBY'' [''INCRBY'', ''k'', show_i64 5] empty_shard"
    by (metis prod.collapse)
  have ok: "mem_ok (sh_store empty_shard)" and utf8: "utf8_valid ''k''" "utf8_valid ''v''" "(1 :: u64) * 1000 \<noteq> 0"
    by (simp_all add: shard_new_def utf8_valid_ascii)
  have v: "resp_view 0 empty_shard ''k'' = None" by (simp add: shard_new_def mem_eval)
  note r = resp_data_commands [OF ok utf8 d(1-4) _ d(5) refl, simplified v]
  have "resp_view 999 sh2 ''k'' = Some (JStr ''v'')" "resp_view 1000 sh2 ''k'' = None" "out5 = resp_int 5"
    using r [of 999 "''k''"] r [of 1000 "''k''"] by (simp_all add: text_wire_def)
  moreover have "fst (?d ''SET'' [''SET'', ''k'', ''v'', ''EX'', show_u64 1] empty_shard) = sh2"
    "snd (?d ''INCRBY'' [''INCRBY'', ''k'', show_i64 5] empty_shard) = out5" using d(2,5) by (metis fst_conv, metis snd_conv)
  ultimately show ?thesis by (simp only: simp_thms)
qed

end
