(* ===== verification/Net.thy ===== *)
theory Net
  imports Cluster Access Resp "HOL-Library.Monad_Syntax"
begin

text \<open>
  The HTTP transport, \<^verbatim>\<open>src/net.rs\<close>: the object-safe view of a shard, the wire bodies, the routes of a
  shard's server and the remote client \<^verbatim>\<open>HttpShardClient\<close>. (The middleware is in \<open>Access\<close>.)

  JSON documents, their text, URL-encoded queries and header values belong to \<^verbatim>\<open>serde_json\<close>, \<^verbatim>\<open>axum\<close>
  and \<^verbatim>\<open>reqwest\<close>: they are the parameter \<open>doc\<close>, with the laws \<open>doc_laws\<close>. A stored value is itself
  a document, as in the code. The network between a client and a server is the parameter \<open>N\<close>; \<open>delivers\<close>
  says that it brings every request to the server at the client's URL and its answer back.
  A handler holds the shard's lock for its one call, so a request is one step at one time of the
  clock; \<open>None\<close> for an answer is a request whose task never answers.

  The client's calls are proved equal to those of the in-process client on the same shard, up to
  what the wire changes (a JSON null reads as absent, pages are bounded), so that the results
  about clusters carry over to clusters of remote shards.
\<close>

subsection \<open>Documents, queries and their laws\<close>

record 'v doc =
  dj_null :: 'v
  dj_bool :: "bool \<Rightarrow> 'v"
  dj_usize :: "nat \<Rightarrow> 'v"
  dj_u64 :: "u64 \<Rightarrow> 'v"
  dj_i64 :: "i64 \<Rightarrow> 'v"
  dj_str :: "string \<Rightarrow> 'v"
  dj_array :: "'v list \<Rightarrow> 'v"
  dj_object :: "(string \<times> 'v) list \<Rightarrow> 'v"
  dj_is_null :: "'v \<Rightarrow> bool"
  dj_as_bool :: "'v \<Rightarrow> bool option"
  dj_as_usize :: "'v \<Rightarrow> nat option"
  dj_as_u64 :: "'v \<Rightarrow> u64 option"
  dj_as_i64 :: "'v \<Rightarrow> i64 option"
  dj_as_str :: "'v \<Rightarrow> string option"
  dj_as_array :: "'v \<Rightarrow> 'v list option"
  dj_get :: "'v \<Rightarrow> string \<Rightarrow> 'v option"
  dj_to_string :: "'v \<Rightarrow> string"
  dj_from_str :: "string \<Rightarrow> 'v option"
  dj_fields :: "string list \<Rightarrow> string \<Rightarrow> nat + (string \<times> 'v) list"
  dj_to_query :: "(string \<times> string) list \<Rightarrow> string"
  dj_from_query :: "string \<Rightarrow> (string \<times> string) list option"
  dj_message :: "nat \<Rightarrow> string"
  dj_header_ok :: "string \<Rightarrow> bool"

text \<open>
  \<open>dj_fields\<close> is what \<^verbatim>\<open>serde\<close> hands to the derived reader of a struct with the given fields: the
  entries of an object, in the order of the text and with repetitions, or the status of the rejection. The laws:
  reading gives back what was written, and an empty text is no document. The fields of an object may be
  written in another order than they were given: \<^verbatim>\<open>serde_json\<close> keeps them sorted by name. As in \<open>serde_laws\<close>, the type \<open>'v\<close> stands for the values
  that read back as they were written, which leaves out values nested more than 128 deep, that the reader
  refuses, and floating-point numbers that the reader rounds otherwise.
\<close>

definition doc_laws :: "'v doc \<Rightarrow> bool" where
  "doc_laws D \<longleftrightarrow>
     dj_is_null D (dj_null D) \<and> (\<forall>s. \<not> dj_is_null D (dj_str D s)) \<and> (\<forall>n. \<not> dj_is_null D (dj_u64 D n)) \<and>
     (\<forall>b. dj_as_bool D (dj_bool D b) = Some b) \<and> (\<forall>n. dj_as_usize D (dj_usize D n) = Some n) \<and>
     (\<forall>n. dj_as_u64 D (dj_u64 D n) = Some n) \<and> (\<forall>n. dj_as_i64 D (dj_i64 D n) = Some n) \<and>
     dj_as_i64 D (dj_null D) = None \<and> (\<forall>s. dj_as_str D (dj_str D s) = Some s) \<and>
     (\<forall>vs. dj_as_array D (dj_array D vs) = Some vs) \<and>
     (\<forall>fs k. distinct (map fst fs) \<longrightarrow> dj_get D (dj_object D fs) k = map_of fs k) \<and>
     (\<forall>v. dj_from_str D (dj_to_string D v) = Some v) \<and> dj_from_str D [] = None \<and>
     (\<forall>names fs. distinct (map fst fs) \<longrightarrow> set (map fst fs) \<subseteq> set names \<longrightarrow>
        (\<exists>fs'. dj_fields D names (dj_to_string D (dj_object D fs)) = Inr fs' \<and>
           distinct (map fst fs') \<and> map_of fs' = map_of fs)) \<and>
     (\<forall>ps. dj_from_query D (dj_to_query D ps) = Some ps)"

definition opt_json :: "'v doc \<Rightarrow> ('a \<Rightarrow> 'v) \<Rightarrow> 'a option \<Rightarrow> 'v" where
  "opt_json D f oa = (case oa of None \<Rightarrow> dj_null D | Some a \<Rightarrow> f a)"

text \<open>\<^verbatim>\<open>filter(|o| !o.is_null())\<close>, and reading an \<^verbatim>\<open>Option<Value>\<close>.\<close>

definition nonnull :: "'v doc \<Rightarrow> 'v option \<Rightarrow> 'v option" where
  "nonnull D ov = (case ov of None \<Rightarrow> None | Some v \<Rightarrow> if dj_is_null D v then None else Some v)"

text \<open>The readers \<^verbatim>\<open>serde\<close> derives for the field types in use.\<close>

definition rd_option :: "'v doc \<Rightarrow> ('v \<Rightarrow> 'a option) \<Rightarrow> 'v \<Rightarrow> 'a option option" where
  "rd_option D rd v = (if dj_is_null D v then Some None else map_option Some (rd v))"

definition rd_vec :: "'v doc \<Rightarrow> ('v \<Rightarrow> 'a option) \<Rightarrow> 'v \<Rightarrow> 'a list option" where
  "rd_vec D rd v = Option.bind (dj_as_array D v) (\<lambda>vs. those (map rd vs))"

definition rd_entry :: "'v doc \<Rightarrow> 'v \<Rightarrow> (string \<times> 'v) option" where
  "rd_entry D v = (case dj_as_array D v of
     Some [k, x] \<Rightarrow> map_option (\<lambda>k. (k, x)) (dj_as_str D k) | _ \<Rightarrow> None)"

text \<open>A field of a struct: a missing field may have a default, a repeated one is an error.\<close>

definition field_of :: "(string \<times> 'a) list \<Rightarrow> string \<Rightarrow> ('a \<Rightarrow> 'b option) \<Rightarrow> 'b option \<Rightarrow> 'b option" where
  "field_of fs name rd dflt = (case filter (\<lambda>(k, _). k = name) fs of
     [] \<Rightarrow> dflt | [(_, a)] \<Rightarrow> rd a | _ \<Rightarrow> None)"

definition default_scan_limit :: nat where
  "default_scan_limit = 1000"

subsection \<open>The object-safe view of a shard\<close>

record ('s, 'v) shard_ops =
  so_object :: "u64 \<Rightarrow> 's \<Rightarrow> string \<Rightarrow> string \<Rightarrow> 'v option"
  so_mget :: "u64 \<Rightarrow> 's \<Rightarrow> string \<Rightarrow> string list \<Rightarrow> 'v option list"
  so_scan_range :: "u64 \<Rightarrow> 's \<Rightarrow> string \<Rightarrow> string option \<Rightarrow> string option \<Rightarrow> string option \<Rightarrow> nat \<Rightarrow> string list"
  so_scan_buckets :: "u64 \<Rightarrow> 's \<Rightarrow> string \<Rightarrow> nat list \<Rightarrow> string option \<Rightarrow> nat \<Rightarrow> string list option"
  so_set_add :: "u64 \<Rightarrow> string \<Rightarrow> string \<Rightarrow> string \<Rightarrow> 's \<Rightarrow> 's \<times> bool"
  so_set_remove :: "u64 \<Rightarrow> string \<Rightarrow> string \<Rightarrow> string \<Rightarrow> 's \<Rightarrow> 's \<times> bool"
  so_write_object :: "string \<Rightarrow> string \<Rightarrow> 'v \<Rightarrow> 's \<Rightarrow> 's"
  so_write_object_ttl :: "u64 \<Rightarrow> string \<Rightarrow> string \<Rightarrow> 'v \<Rightarrow> u64 \<Rightarrow> 's \<Rightarrow> 's"
  so_sweep_expired :: "u64 \<Rightarrow> 's \<Rightarrow> 's \<times> nat"
  so_cas :: "u64 \<Rightarrow> string \<Rightarrow> string \<Rightarrow> 'v option \<Rightarrow> 'v \<Rightarrow> 's \<Rightarrow> 's \<times> bool"
  so_incr :: "u64 \<Rightarrow> string \<Rightarrow> string \<Rightarrow> i64 \<Rightarrow> 's \<Rightarrow> 's \<times> i64 option"
  so_write_batch :: "(string \<times> string \<times> 'v) list \<Rightarrow> 's \<Rightarrow> 's"
  so_delete_object :: "string \<Rightarrow> string \<Rightarrow> 's \<Rightarrow> 's"
  so_export_entries :: "u64 \<Rightarrow> 's \<Rightarrow> string \<Rightarrow> nat list \<Rightarrow> (string \<times> 'v) list"
  so_import_entries :: "string \<Rightarrow> (string \<times> 'v) list \<Rightarrow> 's \<Rightarrow> 's"
  so_drop_buckets :: "u64 \<Rightarrow> string \<Rightarrow> nat list \<Rightarrow> 's \<Rightarrow> 's \<times> nat"
  so_native_set_logic :: "'s \<Rightarrow> bool"
  so_snapshot :: "'s \<Rightarrow> string \<Rightarrow> string + unit"
  so_lease_acquire :: "u64 \<Rightarrow> string \<Rightarrow> string \<Rightarrow> u64 \<Rightarrow> 's \<Rightarrow> 's \<times> lease_outcome"

definition ops_of_shard :: "('s, 'v) index_store \<Rightarrow> 'v json \<Rightarrow> ('s shard, 'v) shard_ops" where
  "ops_of_shard S J = \<lparr>
     so_object = shard_object S,
     so_mget = shard_mget S,
     so_scan_range = shard_scan_range S,
     so_scan_buckets = shard_scan_buckets S,
     so_set_add = shard_set_add S J,
     so_set_remove = shard_set_remove S J,
     so_write_object = shard_write_object S,
     so_write_object_ttl = shard_write_object_ttl S,
     so_sweep_expired = shard_sweep_expired S,
     so_cas = shard_cas S J,
     so_incr = shard_incr S J,
     so_write_batch = shard_write_batch S,
     so_delete_object = shard_delete_object S,
     so_export_entries = shard_export_entries S,
     so_import_entries = shard_import_entries S,
     so_drop_buckets = shard_drop_buckets S,
     so_native_set_logic = (\<lambda>sh. False),
     so_snapshot = shard_snapshot S,
     so_lease_acquire = shard_lease_acquire S J\<rparr>"

subsection \<open>Wire bodies\<close>

record obj_q =
  oq_coll :: string
  oq_key :: string

record scan_q =
  sq_coll :: string
  sq_after :: "string option"
  sq_prefix :: "string option"
  sq_end :: "string option"
  sq_limit :: nat

record mget_body =
  mb_coll :: string
  mb_keys :: "string list"

record scan_buckets_body =
  sb_coll :: string
  sb_buckets :: "nat list"
  sb_after :: "string option"
  sb_limit :: nat

record set_body =
  se_coll :: string
  se_key :: string
  se_member :: string

record 'v write_body =
  wb_coll :: string
  wb_key :: string
  wb_obj :: 'v
  wb_ttl_ms :: "u64 option"

record delete_body =
  db_coll :: string
  db_key :: string

record bucket_body =
  bb_coll :: string
  bb_buckets :: "nat list"

record 'v import_body =
  ib_coll :: string
  ib_entries :: "(string \<times> 'v) list"

record 'v cas_body =
  cb_coll :: string
  cb_key :: string
  cb_expect :: "'v option"
  cb_new :: 'v

record incr_body =
  nb_coll :: string
  nb_key :: string
  nb_delta :: i64

record backup_q =
  bq_dest :: string

record lease_body =
  lb_key :: string
  lb_holder :: string
  lb_ttl_ms :: u64

text \<open>Queries: every value is a string.\<close>

definition read_obj_q :: "(string \<times> string) list \<Rightarrow> obj_q option" where
  "read_obj_q ps = do {
     coll \<leftarrow> field_of ps ''coll'' Some None;
     key \<leftarrow> field_of ps ''key'' Some None;
     Some \<lparr>oq_coll = coll, oq_key = key\<rparr> }"

definition read_scan_q :: "(string \<times> string) list \<Rightarrow> scan_q option" where
  "read_scan_q ps = do {
     coll \<leftarrow> field_of ps ''coll'' Some None;
     after \<leftarrow> field_of ps ''after'' (Some \<circ> Some) (Some None);
     pre \<leftarrow> field_of ps ''prefix'' (Some \<circ> Some) (Some None);
     end \<leftarrow> field_of ps ''end'' (Some \<circ> Some) (Some None);
     limit \<leftarrow> field_of ps ''limit'' parse_usize (Some default_scan_limit);
     Some \<lparr>sq_coll = coll, sq_after = after, sq_prefix = pre, sq_end = end, sq_limit = limit\<rparr> }"

definition read_backup_q :: "(string \<times> string) list \<Rightarrow> backup_q option" where
  "read_backup_q ps = do {
     dest \<leftarrow> field_of ps ''dest'' Some None;
     Some \<lparr>bq_dest = dest\<rparr> }"

text \<open>JSON bodies: what the client writes and the server reads.\<close>

definition mget_json :: "'v doc \<Rightarrow> mget_body \<Rightarrow> 'v" where
  "mget_json D b = dj_object D
     [(''coll'', dj_str D (mb_coll b)), (''keys'', dj_array D (map (dj_str D) (mb_keys b)))]"

definition read_mget :: "'v doc \<Rightarrow> (string \<times> 'v) list \<Rightarrow> mget_body option" where
  "read_mget D fs = do {
     coll \<leftarrow> field_of fs ''coll'' (dj_as_str D) None;
     keys \<leftarrow> field_of fs ''keys'' (rd_vec D (dj_as_str D)) None;
     Some \<lparr>mb_coll = coll, mb_keys = keys\<rparr> }"

definition scan_buckets_json :: "'v doc \<Rightarrow> scan_buckets_body \<Rightarrow> 'v" where
  "scan_buckets_json D b = dj_object D
     [(''coll'', dj_str D (sb_coll b)), (''buckets'', dj_array D (map (dj_usize D) (sb_buckets b))),
      (''after'', opt_json D (dj_str D) (sb_after b)), (''limit'', dj_usize D (sb_limit b))]"

definition read_scan_buckets :: "'v doc \<Rightarrow> (string \<times> 'v) list \<Rightarrow> scan_buckets_body option" where
  "read_scan_buckets D fs = do {
     coll \<leftarrow> field_of fs ''coll'' (dj_as_str D) None;
     buckets \<leftarrow> field_of fs ''buckets'' (rd_vec D (dj_as_usize D)) None;
     after \<leftarrow> field_of fs ''after'' (rd_option D (dj_as_str D)) (Some None);
     limit \<leftarrow> field_of fs ''limit'' (dj_as_usize D) (Some default_scan_limit);
     Some \<lparr>sb_coll = coll, sb_buckets = buckets, sb_after = after, sb_limit = limit\<rparr> }"

definition set_json :: "'v doc \<Rightarrow> set_body \<Rightarrow> 'v" where
  "set_json D b = dj_object D
     [(''coll'', dj_str D (se_coll b)), (''key'', dj_str D (se_key b)), (''member'', dj_str D (se_member b))]"

definition read_set :: "'v doc \<Rightarrow> (string \<times> 'v) list \<Rightarrow> set_body option" where
  "read_set D fs = do {
     coll \<leftarrow> field_of fs ''coll'' (dj_as_str D) None;
     key \<leftarrow> field_of fs ''key'' (dj_as_str D) None;
     member \<leftarrow> field_of fs ''member'' (dj_as_str D) None;
     Some \<lparr>se_coll = coll, se_key = key, se_member = member\<rparr> }"

definition write_json :: "'v doc \<Rightarrow> 'v write_body \<Rightarrow> 'v" where
  "write_json D b = dj_object D
     ([(''coll'', dj_str D (wb_coll b)), (''key'', dj_str D (wb_key b)), (''obj'', wb_obj b)] @
      (case wb_ttl_ms b of None \<Rightarrow> [] | Some ttl \<Rightarrow> [(''ttlMs'', dj_u64 D ttl)]))"

definition read_write :: "'v doc \<Rightarrow> (string \<times> 'v) list \<Rightarrow> 'v write_body option" where
  "read_write D fs = do {
     coll \<leftarrow> field_of fs ''coll'' (dj_as_str D) None;
     key \<leftarrow> field_of fs ''key'' (dj_as_str D) None;
     obj \<leftarrow> field_of fs ''obj'' Some None;
     ttl \<leftarrow> field_of fs ''ttlMs'' (rd_option D (dj_as_u64 D)) (Some None);
     Some \<lparr>wb_coll = coll, wb_key = key, wb_obj = obj, wb_ttl_ms = ttl\<rparr> }"

definition delete_json :: "'v doc \<Rightarrow> delete_body \<Rightarrow> 'v" where
  "delete_json D b = dj_object D [(''coll'', dj_str D (db_coll b)), (''key'', dj_str D (db_key b))]"

definition read_delete :: "'v doc \<Rightarrow> (string \<times> 'v) list \<Rightarrow> delete_body option" where
  "read_delete D fs = do {
     coll \<leftarrow> field_of fs ''coll'' (dj_as_str D) None;
     key \<leftarrow> field_of fs ''key'' (dj_as_str D) None;
     Some \<lparr>db_coll = coll, db_key = key\<rparr> }"

definition bucket_json :: "'v doc \<Rightarrow> bucket_body \<Rightarrow> 'v" where
  "bucket_json D b = dj_object D
     [(''coll'', dj_str D (bb_coll b)), (''buckets'', dj_array D (map (dj_usize D) (bb_buckets b)))]"

definition read_bucket :: "'v doc \<Rightarrow> (string \<times> 'v) list \<Rightarrow> bucket_body option" where
  "read_bucket D fs = do {
     coll \<leftarrow> field_of fs ''coll'' (dj_as_str D) None;
     buckets \<leftarrow> field_of fs ''buckets'' (rd_vec D (dj_as_usize D)) None;
     Some \<lparr>bb_coll = coll, bb_buckets = buckets\<rparr> }"

definition entries_json :: "'v doc \<Rightarrow> (string \<times> 'v) list \<Rightarrow> 'v" where
  "entries_json D es = dj_array D (map (\<lambda>(k, v). dj_array D [dj_str D k, v]) es)"

definition import_json :: "'v doc \<Rightarrow> 'v import_body \<Rightarrow> 'v" where
  "import_json D b = dj_object D
     [(''coll'', dj_str D (ib_coll b)), (''entries'', entries_json D (ib_entries b))]"

definition read_import :: "'v doc \<Rightarrow> (string \<times> 'v) list \<Rightarrow> 'v import_body option" where
  "read_import D fs = do {
     coll \<leftarrow> field_of fs ''coll'' (dj_as_str D) None;
     entries \<leftarrow> field_of fs ''entries'' (rd_vec D (rd_entry D)) None;
     Some \<lparr>ib_coll = coll, ib_entries = entries\<rparr> }"

definition cas_json :: "'v doc \<Rightarrow> 'v cas_body \<Rightarrow> 'v" where
  "cas_json D b = dj_object D
     [(''coll'', dj_str D (cb_coll b)), (''key'', dj_str D (cb_key b)),
      (''expect'', opt_json D id (cb_expect b)), (''new'', cb_new b)]"

definition read_cas :: "'v doc \<Rightarrow> (string \<times> 'v) list \<Rightarrow> 'v cas_body option" where
  "read_cas D fs = do {
     coll \<leftarrow> field_of fs ''coll'' (dj_as_str D) None;
     key \<leftarrow> field_of fs ''key'' (dj_as_str D) None;
     expect \<leftarrow> field_of fs ''expect'' (rd_option D Some) (Some None);
     new \<leftarrow> field_of fs ''new'' Some None;
     Some \<lparr>cb_coll = coll, cb_key = key, cb_expect = expect, cb_new = new\<rparr> }"

definition incr_json :: "'v doc \<Rightarrow> incr_body \<Rightarrow> 'v" where
  "incr_json D b = dj_object D
     [(''coll'', dj_str D (nb_coll b)), (''key'', dj_str D (nb_key b)), (''delta'', dj_i64 D (nb_delta b))]"

definition read_incr :: "'v doc \<Rightarrow> (string \<times> 'v) list \<Rightarrow> incr_body option" where
  "read_incr D fs = do {
     coll \<leftarrow> field_of fs ''coll'' (dj_as_str D) None;
     key \<leftarrow> field_of fs ''key'' (dj_as_str D) None;
     delta \<leftarrow> field_of fs ''delta'' (dj_as_i64 D) None;
     Some \<lparr>nb_coll = coll, nb_key = key, nb_delta = delta\<rparr> }"

definition lease_json :: "'v doc \<Rightarrow> lease_body \<Rightarrow> 'v" where
  "lease_json D b = dj_object D
     [(''key'', dj_str D (lb_key b)), (''holder'', dj_str D (lb_holder b)), (''ttlMs'', dj_u64 D (lb_ttl_ms b))]"

definition read_lease :: "'v doc \<Rightarrow> (string \<times> 'v) list \<Rightarrow> lease_body option" where
  "read_lease D fs = do {
     key \<leftarrow> field_of fs ''key'' (dj_as_str D) None;
     holder \<leftarrow> field_of fs ''holder'' (dj_as_str D) None;
     ttl \<leftarrow> field_of fs ''ttlMs'' (dj_as_u64 D) None;
     Some \<lparr>lb_key = key, lb_holder = holder, lb_ttl_ms = ttl\<rparr> }"

subsection \<open>The server\<close>

record response =
  rs_status :: nat
  rs_body :: string

text \<open>A shard process: the shard behind its lock, and the process counters.\<close>

record 's node =
  nd_shard :: 's
  nd_metrics :: metrics

definition ok_json :: "'v doc \<Rightarrow> 'v \<Rightarrow> response option" where
  "ok_json D v = Some \<lparr>rs_status = 200, rs_body = dj_to_string D v\<rparr>"

definition rejection :: "'v doc \<Rightarrow> nat \<Rightarrow> response option" where
  "rejection D st = Some \<lparr>rs_status = st, rs_body = dj_message D st\<rparr>"

definition plain_status :: "nat \<Rightarrow> response option" where
  "plain_status st = Some \<lparr>rs_status = st, rs_body = []\<rparr>"

text \<open>\<^verbatim>\<open>axum\<close>'s extractors: \<^verbatim>\<open>Query\<close>, and \<^verbatim>\<open>Json\<close> with its default limit on a body of 2 MB.\<close>

definition BODY_LIMIT :: nat where
  "BODY_LIMIT = 2097152"

definition with_query :: "'v doc \<Rightarrow> ((string \<times> string) list \<Rightarrow> 'q option) \<Rightarrow> request
    \<Rightarrow> ('q \<Rightarrow> 'n \<Rightarrow> 'n \<times> response option) \<Rightarrow> 'n \<Rightarrow> 'n \<times> response option" where
  "with_query D rd req h nd =
     (case Option.bind (dj_from_query D (case rq_query req of None \<Rightarrow> [] | Some q \<Rightarrow> q)) rd of
        None \<Rightarrow> (nd, rejection D 400)
      | Some q \<Rightarrow> h q nd)"

definition with_json :: "'v doc \<Rightarrow> string list \<Rightarrow> ((string \<times> 'v) list \<Rightarrow> 'b option) \<Rightarrow> request
    \<Rightarrow> ('b \<Rightarrow> 'n \<Rightarrow> 'n \<times> response option) \<Rightarrow> 'n \<Rightarrow> 'n \<times> response option" where
  "with_json D names rd req h nd =
     (if BODY_LIMIT < length (rq_body req) then (nd, rejection D 413)
      else case dj_fields D names (rq_body req) of
        Inl st \<Rightarrow> (nd, rejection D st)
      | Inr fs \<Rightarrow> (case rd fs of None \<Rightarrow> (nd, rejection D 422) | Some b \<Rightarrow> h b nd))"

text \<open>The handlers; \<open>count_op\<close> is \<^verbatim>\<open>metrics::inc\<close>.\<close>

definition count_op :: "counter \<Rightarrow> 's node \<Rightarrow> 's node" where
  "count_op c nd = nd\<lparr>nd_metrics := metrics_inc c (nd_metrics nd)\<rparr>"

definition h_caps :: "('s, 'v) shard_ops \<Rightarrow> 'v doc \<Rightarrow> 's node \<Rightarrow> 's node \<times> response option" where
  "h_caps Op D nd = (nd, ok_json D (dj_object D
     [(''nativeSetLogic'', dj_bool D (so_native_set_logic Op (nd_shard nd)))]))"

definition h_object :: "('s, 'v) shard_ops \<Rightarrow> 'v doc \<Rightarrow> u64 \<Rightarrow> obj_q \<Rightarrow> 's node \<Rightarrow> 's node \<times> response option" where
  "h_object Op D now q nd =
     (let nd = count_op GET nd in
      (nd, ok_json D (dj_object D
        [(''object'', opt_json D id (so_object Op now (nd_shard nd) (oq_coll q) (oq_key q)))])))"

definition h_mget :: "('s, 'v) shard_ops \<Rightarrow> 'v doc \<Rightarrow> u64 \<Rightarrow> mget_body \<Rightarrow> 's node \<Rightarrow> 's node \<times> response option" where
  "h_mget Op D now b nd =
     (let nd = count_op GET nd; vals = so_mget Op now (nd_shard nd) (mb_coll b) (mb_keys b) in
      (nd, ok_json D (dj_object D [(''values'', dj_array D (map (opt_json D id) vals))])))"

definition h_scan :: "('s, 'v) shard_ops \<Rightarrow> 'v doc \<Rightarrow> u64 \<Rightarrow> scan_q \<Rightarrow> 's node \<Rightarrow> 's node \<times> response option" where
  "h_scan Op D now q nd =
     (let keys = so_scan_range Op now (nd_shard nd) (sq_coll q) (sq_after q) (sq_prefix q) (sq_end q)
            (min (sq_limit q) 10000) in
      (nd, ok_json D (dj_object D [(''keys'', dj_array D (map (dj_str D) keys))])))"

definition h_scan_buckets :: "('s, 'v) shard_ops \<Rightarrow> 'v doc \<Rightarrow> u64 \<Rightarrow> scan_buckets_body \<Rightarrow> 's node
    \<Rightarrow> 's node \<times> response option" where
  "h_scan_buckets Op D now b nd =
     (case so_scan_buckets Op now (nd_shard nd) (sb_coll b) (sb_buckets b) (sb_after b)
          (min (sb_limit b) 100000) of
        None \<Rightarrow> (nd, None)
      | Some keys \<Rightarrow> (nd, ok_json D (dj_object D [(''keys'', dj_array D (map (dj_str D) keys))])))"

definition h_export :: "('s, 'v) shard_ops \<Rightarrow> 'v doc \<Rightarrow> u64 \<Rightarrow> bucket_body \<Rightarrow> 's node \<Rightarrow> 's node \<times> response option" where
  "h_export Op D now b nd =
     (nd, ok_json D (dj_object D
       [(''entries'', entries_json D (so_export_entries Op now (nd_shard nd) (bb_coll b) (bb_buckets b)))]))"

definition h_backup :: "('s, 'v) shard_ops \<Rightarrow> 'v doc \<Rightarrow> backup_q \<Rightarrow> 's node \<Rightarrow> 's node \<times> response option" where
  "h_backup Op D q nd = (nd, ok_json D (case so_snapshot Op (nd_shard nd) (bq_dest q) of
       Inr () \<Rightarrow> dj_object D [(''ok'', dj_bool D True), (''dest'', dj_str D (bq_dest q))]
     | Inl e \<Rightarrow> dj_object D [(''ok'', dj_bool D False), (''error'', dj_str D e)]))"

definition h_set_add :: "('s, 'v) shard_ops \<Rightarrow> 'v doc \<Rightarrow> u64 \<Rightarrow> set_body \<Rightarrow> 's node \<Rightarrow> 's node \<times> response option" where
  "h_set_add Op D now b nd =
     (let nd = count_op SADD nd;
          (sh, added) = so_set_add Op now (se_coll b) (se_key b) (se_member b) (nd_shard nd) in
      (nd\<lparr>nd_shard := sh\<rparr>, ok_json D (dj_object D [(''added'', dj_bool D added)])))"

definition h_set_remove :: "('s, 'v) shard_ops \<Rightarrow> 'v doc \<Rightarrow> u64 \<Rightarrow> set_body \<Rightarrow> 's node \<Rightarrow> 's node \<times> response option" where
  "h_set_remove Op D now b nd =
     (let nd = count_op SREM nd;
          (sh, removed) = so_set_remove Op now (se_coll b) (se_key b) (se_member b) (nd_shard nd) in
      (nd\<lparr>nd_shard := sh\<rparr>, ok_json D (dj_object D [(''removed'', dj_bool D removed)])))"

definition h_write :: "('s, 'v) shard_ops \<Rightarrow> 'v doc \<Rightarrow> u64 \<Rightarrow> 'v write_body \<Rightarrow> 's node \<Rightarrow> 's node \<times> response option" where
  "h_write Op D now b nd =
     (let nd = count_op SET nd;
          sh = (if (case wb_ttl_ms b of Some ttl \<Rightarrow> ttl > 0 | None \<Rightarrow> False)
                then so_write_object_ttl Op now (wb_coll b) (wb_key b) (wb_obj b) (the (wb_ttl_ms b)) (nd_shard nd)
                else so_write_object Op (wb_coll b) (wb_key b) (wb_obj b) (nd_shard nd)) in
      (nd\<lparr>nd_shard := sh\<rparr>, ok_json D (dj_object D [(''ok'', dj_bool D True)])))"

definition h_cas :: "('s, 'v) shard_ops \<Rightarrow> 'v doc \<Rightarrow> u64 \<Rightarrow> 'v cas_body \<Rightarrow> 's node \<Rightarrow> 's node \<times> response option" where
  "h_cas Op D now b nd =
     (let nd = count_op SET nd;
          (sh, set) = so_cas Op now (cb_coll b) (cb_key b) (cb_expect b) (cb_new b) (nd_shard nd) in
      (nd\<lparr>nd_shard := sh\<rparr>, ok_json D (dj_object D [(''set'', dj_bool D set)])))"

definition h_incr :: "('s, 'v) shard_ops \<Rightarrow> 'v doc \<Rightarrow> u64 \<Rightarrow> incr_body \<Rightarrow> 's node \<Rightarrow> 's node \<times> response option" where
  "h_incr Op D now b nd =
     (let nd = count_op SET nd;
          (sh, n) = so_incr Op now (nb_coll b) (nb_key b) (nb_delta b) (nd_shard nd) in
      (nd\<lparr>nd_shard := sh\<rparr>, ok_json D (dj_object D [(''value'', opt_json D (dj_i64 D) n)])))"

definition h_delete :: "('s, 'v) shard_ops \<Rightarrow> 'v doc \<Rightarrow> delete_body \<Rightarrow> 's node \<Rightarrow> 's node \<times> response option" where
  "h_delete Op D b nd =
     (let nd = count_op DEL nd in
      (nd\<lparr>nd_shard := so_delete_object Op (db_coll b) (db_key b) (nd_shard nd)\<rparr>,
       ok_json D (dj_object D [(''ok'', dj_bool D True)])))"

definition h_lease_acquire :: "('s, 'v) shard_ops \<Rightarrow> 'v doc \<Rightarrow> u64 \<Rightarrow> lease_body \<Rightarrow> 's node
    \<Rightarrow> 's node \<times> response option" where
  "h_lease_acquire Op D now b nd =
     (let (sh, out) = so_lease_acquire Op now (lb_key b) (lb_holder b) (lb_ttl_ms b) (nd_shard nd) in
      (nd\<lparr>nd_shard := sh\<rparr>, ok_json D (dj_object D
        [(''granted'', dj_bool D (lo_granted out)), (''holder'', dj_str D (ls_holder (lo_lease out))),
         (''expiresMs'', dj_u64 D (ls_expires_ms (lo_lease out))), (''token'', dj_u64 D (ls_token (lo_lease out)))])))"

definition h_import :: "('s, 'v) shard_ops \<Rightarrow> 'v doc \<Rightarrow> 'v import_body \<Rightarrow> 's node \<Rightarrow> 's node \<times> response option" where
  "h_import Op D b nd =
     (nd\<lparr>nd_shard := so_import_entries Op (ib_coll b) (ib_entries b) (nd_shard nd)\<rparr>,
      ok_json D (dj_object D [(''ok'', dj_bool D True)]))"

definition h_drop_buckets :: "('s, 'v) shard_ops \<Rightarrow> 'v doc \<Rightarrow> u64 \<Rightarrow> bucket_body \<Rightarrow> 's node
    \<Rightarrow> 's node \<times> response option" where
  "h_drop_buckets Op D now b nd =
     (let (sh, n) = so_drop_buckets Op now (bb_coll b) (bb_buckets b) (nd_shard nd) in
      (nd\<lparr>nd_shard := sh\<rparr>, ok_json D (dj_object D [(''dropped'', dj_usize D n)])))"

text \<open>The routes: an unknown path is 404, a wrong method 405. \<open>up\<close> is the uptime that the metrics print.\<close>

definition on_get :: "request \<Rightarrow> ('n \<Rightarrow> 'n \<times> response option) \<Rightarrow> 'n \<Rightarrow> 'n \<times> response option" where
  "on_get req h nd = (if rq_is_post req then (nd, plain_status 405) else h nd)"

definition on_post :: "request \<Rightarrow> ('n \<Rightarrow> 'n \<times> response option) \<Rightarrow> 'n \<Rightarrow> 'n \<times> response option" where
  "on_post req h nd = (if rq_is_post req then h nd else (nd, plain_status 405))"

definition net_app :: "('s, 'v) shard_ops \<Rightarrow> 'v doc \<Rightarrow> string \<Rightarrow> u64 \<Rightarrow> request \<Rightarrow> 's node
    \<Rightarrow> 's node \<times> response option" where
  "net_app Op D up now req =
     (let path = rq_path req in
      if path = ''/health'' then on_get req (\<lambda>nd. (nd, ok_json D (dj_object D [(''ok'', dj_bool D True)])))
      else if path = ''/metrics'' then on_get req (\<lambda>nd.
        (nd, Some \<lparr>rs_status = 200, rs_body = metrics_render up (nd_metrics nd)\<rparr>))
      else if path = ''/caps'' then on_get req (h_caps Op D)
      else if path = ''/object'' then on_get req (with_query D read_obj_q req (h_object Op D now))
      else if path = ''/mget'' then
        on_post req (with_json D [''coll'', ''keys''] (read_mget D) req (h_mget Op D now))
      else if path = ''/scan'' then on_get req (with_query D read_scan_q req (h_scan Op D now))
      else if path = ''/scanBuckets'' then
        on_post req (with_json D [''coll'', ''buckets'', ''after'', ''limit''] (read_scan_buckets D) req
          (h_scan_buckets Op D now))
      else if path = ''/setAdd'' then
        on_post req (with_json D [''coll'', ''key'', ''member''] (read_set D) req (h_set_add Op D now))
      else if path = ''/setRemove'' then
        on_post req (with_json D [''coll'', ''key'', ''member''] (read_set D) req (h_set_remove Op D now))
      else if path = ''/write'' then
        on_post req (with_json D [''coll'', ''key'', ''obj'', ''ttlMs''] (read_write D) req (h_write Op D now))
      else if path = ''/cas'' then
        on_post req (with_json D [''coll'', ''key'', ''expect'', ''new''] (read_cas D) req (h_cas Op D now))
      else if path = ''/incr'' then
        on_post req (with_json D [''coll'', ''key'', ''delta''] (read_incr D) req (h_incr Op D now))
      else if path = ''/deleteObject'' then
        on_post req (with_json D [''coll'', ''key''] (read_delete D) req (h_delete Op D))
      else if path = ''/export'' then
        on_post req (with_json D [''coll'', ''buckets''] (read_bucket D) req (h_export Op D now))
      else if path = ''/import'' then
        on_post req (with_json D [''coll'', ''entries''] (read_import D) req (h_import Op D))
      else if path = ''/dropBuckets'' then
        on_post req (with_json D [''coll'', ''buckets''] (read_bucket D) req (h_drop_buckets Op D now))
      else if path = ''/backup'' then on_post req (with_query D read_backup_q req (h_backup Op D))
      else if path = ''/leaseAcquire'' then
        on_post req (with_json D [''key'', ''holder'', ''ttlMs''] (read_lease D) req (h_lease_acquire Op D now))
      else (\<lambda>nd. (nd, plain_status 404)))"

text \<open>A router behind a layer of the middleware.\<close>

definition status_code :: "status \<Rightarrow> nat" where
  "status_code st = (case st of UNAUTHORIZED \<Rightarrow> 401 | FORBIDDEN \<Rightarrow> 403)"

definition layered :: "(status + request) option \<Rightarrow> (request \<Rightarrow> 'n \<Rightarrow> 'n \<times> response option)
    \<Rightarrow> 'n \<Rightarrow> 'n \<times> response option" where
  "layered l app nd = (case l of
       None \<Rightarrow> (nd, None)
     | Some (Inl st) \<Rightarrow> (nd, plain_status (status_code st))
     | Some (Inr req) \<Rightarrow> app req nd)"

definition shard_server :: "('s, 'v) shard_ops \<Rightarrow> 'v doc \<Rightarrow> string \<Rightarrow> string option \<Rightarrow> u64 \<Rightarrow> request
    \<Rightarrow> 's node \<Rightarrow> 's node \<times> response option" where
  "shard_server Op D up token now req = layered (Some (require_bearer token req)) (net_app Op D up now)"

subsection \<open>The client\<close>

text \<open>A client's \<^verbatim>\<open>reqwest::Client\<close> is the token of its default \<^verbatim>\<open>Authorization\<close> header. The network takes the base URL,
  the request and the world; it fails, or brings a response.\<close>

type_synonym 'w network = "string \<Rightarrow> request \<Rightarrow> 'w \<Rightarrow> 'w \<times> (string + response)"

record http_shard_client =
  hs_id :: node_id
  hs_base :: string
  hs_token :: "string option"

definition trim_end_slash :: "string \<Rightarrow> string" where
  "trim_end_slash s = rev (dropWhile (\<lambda>c. c = CHR ''/'') (rev s))"

definition http_new_authed :: "node_id \<Rightarrow> string \<Rightarrow> string option \<Rightarrow> http_shard_client" where
  "http_new_authed n base token = \<lparr>hs_id = n, hs_base = trim_end_slash base, hs_token = token\<rparr>"

definition http_new :: "node_id \<Rightarrow> string \<Rightarrow> http_shard_client" where
  "http_new n base = http_new_authed n base None"

text \<open>The default header of the client's requests; a token that is no header value is left out.\<close>

definition hs_auth :: "'v doc \<Rightarrow> http_shard_client \<Rightarrow> string option" where
  "hs_auth D hc = (case hs_token hc of
       Some t \<Rightarrow> if dj_header_ok D (''Bearer '' @ t) then Some (''Bearer '' @ t) else None
     | None \<Rightarrow> None)"

definition send_get :: "'v doc \<Rightarrow> 'w network \<Rightarrow> http_shard_client \<Rightarrow> string \<Rightarrow> string option \<Rightarrow> 'w
    \<Rightarrow> 'w \<times> (string + response)" where
  "send_get D N hc path query = N (hs_base hc)
     \<lparr>rq_path = path, rq_query = query, rq_is_post = False, rq_authorization = hs_auth D hc, rq_body = []\<rparr>"

definition send_post :: "'v doc \<Rightarrow> 'w network \<Rightarrow> http_shard_client \<Rightarrow> string \<Rightarrow> 'v \<Rightarrow> 'w
    \<Rightarrow> 'w \<times> (string + response)" where
  "send_post D N hc path body = N (hs_base hc)
     \<lparr>rq_path = path, rq_query = None, rq_is_post = True, rq_authorization = hs_auth D hc,
      rq_body = dj_to_string D body\<rparr>"

text \<open>\<^verbatim>\<open>.json().await\<close>, which does not look at the status, and \<^verbatim>\<open>post_ok\<close>, which only looks at it.\<close>

definition json_answer :: "'v doc \<Rightarrow> ('v \<Rightarrow> 'r) \<Rightarrow> 'w \<times> (string + response) \<Rightarrow> 'w \<times> 'r cresult" where
  "json_answer D f wr = (case wr of
       (w, Inl e) \<Rightarrow> (w, CErr e)
     | (w, Inr r) \<Rightarrow> (case dj_from_str D (rs_body r) of
           None \<Rightarrow> (w, CErr ''error decoding response body'') | Some v \<Rightarrow> (w, COk (f v))))"

definition is_success :: "response \<Rightarrow> bool" where
  "is_success r \<longleftrightarrow> 200 \<le> rs_status r \<and> rs_status r < 300"

definition post_ok :: "'v doc \<Rightarrow> 'w network \<Rightarrow> http_shard_client \<Rightarrow> string \<Rightarrow> 'v \<Rightarrow> 'w
    \<Rightarrow> 'w \<times> unit cresult" where
  "post_ok D N hc path body w = (case send_post D N hc path body w of
       (w, Inl e) \<Rightarrow> (w, CErr e)
     | (w, Inr r) \<Rightarrow> if 400 \<le> rs_status r \<and> rs_status r < 600
         then (w, CErr (''HTTP status error '' @ show_nat (rs_status r))) else (w, COk ()))"

definition get_or_default :: "'v doc \<Rightarrow> string \<Rightarrow> ('v \<Rightarrow> 'a list option) \<Rightarrow> 'v \<Rightarrow> 'a list" where
  "get_or_default D name rd v = (case Option.bind (dj_get D v name) rd of None \<Rightarrow> [] | Some xs \<Rightarrow> xs)"

definition get_flag :: "'v doc \<Rightarrow> string \<Rightarrow> 'v \<Rightarrow> bool" where
  "get_flag D name v = (case Option.bind (dj_get D v name) (dj_as_bool D) of None \<Rightarrow> False | Some b \<Rightarrow> b)"

definition get_u64 :: "'v doc \<Rightarrow> string \<Rightarrow> 'v \<Rightarrow> u64" where
  "get_u64 D name v = (case Option.bind (dj_get D v name) (dj_as_u64 D) of None \<Rightarrow> 0 | Some n \<Rightarrow> n)"

definition http_health :: "'v doc \<Rightarrow> 'w network \<Rightarrow> http_shard_client \<Rightarrow> 'w \<Rightarrow> bool" where
  "http_health D N hc w = (case snd (send_get D N hc ''/health'' None w) of Inl e \<Rightarrow> False | Inr r \<Rightarrow> is_success r)"

definition http_object :: "'v doc \<Rightarrow> 'w network \<Rightarrow> http_shard_client \<Rightarrow> string \<Rightarrow> string
    \<Rightarrow> 'w \<Rightarrow> 'w \<times> 'v option cresult" where
  "http_object D N hc coll key w = json_answer D (\<lambda>v. nonnull D (dj_get D v ''object''))
     (send_get D N hc ''/object'' (Some (dj_to_query D [(''coll'', coll), (''key'', key)])) w)"

definition http_scan_buckets :: "'v doc \<Rightarrow> 'w network \<Rightarrow> http_shard_client \<Rightarrow> string \<Rightarrow> nat list
    \<Rightarrow> string option \<Rightarrow> nat \<Rightarrow> 'w \<Rightarrow> ('w \<times> string list cresult) option" where
  "http_scan_buckets D N hc coll buckets after limit w =
     Some (json_answer D (get_or_default D ''keys'' (rd_vec D (dj_as_str D)))
       (send_post D N hc ''/scanBuckets'' (scan_buckets_json D
         \<lparr>sb_coll = coll, sb_buckets = buckets, sb_after = after, sb_limit = limit\<rparr>) w))"

definition http_mget :: "'v doc \<Rightarrow> 'w network \<Rightarrow> http_shard_client \<Rightarrow> string \<Rightarrow> string list
    \<Rightarrow> 'w \<Rightarrow> 'w \<times> 'v option list cresult" where
  "http_mget D N hc coll keys w =
     json_answer D (get_or_default D ''values'' (rd_vec D (rd_option D Some)))
       (send_post D N hc ''/mget'' (mget_json D \<lparr>mb_coll = coll, mb_keys = keys\<rparr>) w)"

definition http_scan_range :: "'v doc \<Rightarrow> 'w network \<Rightarrow> http_shard_client \<Rightarrow> string \<Rightarrow> string option
    \<Rightarrow> string option \<Rightarrow> string option \<Rightarrow> nat \<Rightarrow> 'w \<Rightarrow> 'w \<times> string list cresult" where
  "http_scan_range D N hc coll after pre end limit w =
     (let query = [(''coll'', coll), (''limit'', show_nat limit)];
          query = (case after of Some a \<Rightarrow> query @ [(''after'', a)] | None \<Rightarrow> query);
          query = (case pre of Some p \<Rightarrow> query @ [(''prefix'', p)] | None \<Rightarrow> query);
          query = (case end of Some e \<Rightarrow> query @ [(''end'', e)] | None \<Rightarrow> query) in
      json_answer D (get_or_default D ''keys'' (rd_vec D (dj_as_str D)))
        (send_get D N hc ''/scan'' (Some (dj_to_query D query)) w))"

definition http_set_add :: "'v doc \<Rightarrow> 'w network \<Rightarrow> http_shard_client \<Rightarrow> string \<Rightarrow> string \<Rightarrow> string
    \<Rightarrow> 'w \<Rightarrow> 'w \<times> bool cresult" where
  "http_set_add D N hc coll key member w = json_answer D (get_flag D ''added'')
     (send_post D N hc ''/setAdd'' (set_json D \<lparr>se_coll = coll, se_key = key, se_member = member\<rparr>) w)"

definition http_set_remove :: "'v doc \<Rightarrow> 'w network \<Rightarrow> http_shard_client \<Rightarrow> string \<Rightarrow> string \<Rightarrow> string
    \<Rightarrow> 'w \<Rightarrow> 'w \<times> bool cresult" where
  "http_set_remove D N hc coll key member w = json_answer D (get_flag D ''removed'')
     (send_post D N hc ''/setRemove'' (set_json D \<lparr>se_coll = coll, se_key = key, se_member = member\<rparr>) w)"

definition http_write_object :: "'v doc \<Rightarrow> 'w network \<Rightarrow> http_shard_client \<Rightarrow> string \<Rightarrow> string \<Rightarrow> 'v
    \<Rightarrow> 'w \<Rightarrow> 'w \<times> unit cresult" where
  "http_write_object D N hc coll key obj =
     post_ok D N hc ''/write'' (write_json D \<lparr>wb_coll = coll, wb_key = key, wb_obj = obj, wb_ttl_ms = None\<rparr>)"

definition http_write_object_ttl :: "'v doc \<Rightarrow> 'w network \<Rightarrow> http_shard_client \<Rightarrow> string \<Rightarrow> string \<Rightarrow> 'v \<Rightarrow> u64
    \<Rightarrow> 'w \<Rightarrow> 'w \<times> unit cresult" where
  "http_write_object_ttl D N hc coll key obj ttl_ms =
     post_ok D N hc ''/write'' (write_json D
       \<lparr>wb_coll = coll, wb_key = key, wb_obj = obj, wb_ttl_ms = Some ttl_ms\<rparr>)"

definition http_cas :: "'v doc \<Rightarrow> 'w network \<Rightarrow> http_shard_client \<Rightarrow> string \<Rightarrow> string \<Rightarrow> 'v option \<Rightarrow> 'v
    \<Rightarrow> 'w \<Rightarrow> 'w \<times> bool cresult" where
  "http_cas D N hc coll key expect new w = json_answer D (get_flag D ''set'')
     (send_post D N hc ''/cas'' (cas_json D
       \<lparr>cb_coll = coll, cb_key = key, cb_expect = expect, cb_new = new\<rparr>) w)"

definition http_incr :: "'v doc \<Rightarrow> 'w network \<Rightarrow> http_shard_client \<Rightarrow> string \<Rightarrow> string \<Rightarrow> i64
    \<Rightarrow> 'w \<Rightarrow> 'w \<times> i64 option cresult" where
  "http_incr D N hc coll key delta w =
     json_answer D (\<lambda>v. Option.bind (dj_get D v ''value'') (dj_as_i64 D))
       (send_post D N hc ''/incr'' (incr_json D \<lparr>nb_coll = coll, nb_key = key, nb_delta = delta\<rparr>) w)"

definition http_delete_object :: "'v doc \<Rightarrow> 'w network \<Rightarrow> http_shard_client \<Rightarrow> string \<Rightarrow> string
    \<Rightarrow> 'w \<Rightarrow> 'w \<times> unit cresult" where
  "http_delete_object D N hc coll key =
     post_ok D N hc ''/deleteObject'' (delete_json D \<lparr>db_coll = coll, db_key = key\<rparr>)"

definition http_export_entries :: "'v doc \<Rightarrow> 'w network \<Rightarrow> http_shard_client \<Rightarrow> string \<Rightarrow> nat list
    \<Rightarrow> 'w \<Rightarrow> 'w \<times> (string \<times> 'v) list cresult" where
  "http_export_entries D N hc coll buckets w =
     json_answer D (get_or_default D ''entries'' (rd_vec D (rd_entry D)))
       (send_post D N hc ''/export'' (bucket_json D \<lparr>bb_coll = coll, bb_buckets = buckets\<rparr>) w)"

definition http_import_entries :: "'v doc \<Rightarrow> 'w network \<Rightarrow> http_shard_client \<Rightarrow> string \<Rightarrow> (string \<times> 'v) list
    \<Rightarrow> 'w \<Rightarrow> 'w \<times> unit cresult" where
  "http_import_entries D N hc coll entries =
     post_ok D N hc ''/import'' (import_json D \<lparr>ib_coll = coll, ib_entries = entries\<rparr>)"

definition http_drop_buckets :: "'v doc \<Rightarrow> 'w network \<Rightarrow> http_shard_client \<Rightarrow> string \<Rightarrow> nat list
    \<Rightarrow> 'w \<Rightarrow> 'w \<times> nat cresult" where
  "http_drop_buckets D N hc coll buckets w =
     json_answer D (\<lambda>v. case Option.bind (dj_get D v ''dropped'') (dj_as_usize D) of None \<Rightarrow> 0 | Some n \<Rightarrow> n)
       (send_post D N hc ''/dropBuckets'' (bucket_json D \<lparr>bb_coll = coll, bb_buckets = buckets\<rparr>) w)"

definition http_lease_acquire :: "'v doc \<Rightarrow> 'w network \<Rightarrow> http_shard_client \<Rightarrow> string \<Rightarrow> string \<Rightarrow> u64
    \<Rightarrow> 'w \<Rightarrow> 'w \<times> lease_outcome cresult" where
  "http_lease_acquire D N hc key holder ttl_ms w =
     json_answer D (\<lambda>v. \<lparr>lo_granted = get_flag D ''granted'' v,
         lo_lease = \<lparr>ls_holder = (case Option.bind (dj_get D v ''holder'') (dj_as_str D) of
             None \<Rightarrow> [] | Some h \<Rightarrow> h),
           ls_expires_ms = get_u64 D ''expiresMs'' v, ls_token = get_u64 D ''token'' v\<rparr>\<rparr>)
       (send_post D N hc ''/leaseAcquire'' (lease_json D
         \<lparr>lb_key = key, lb_holder = holder, lb_ttl_ms = ttl_ms\<rparr>) w)"

definition http_client :: "'v doc \<Rightarrow> 'w network \<Rightarrow> (http_shard_client, 'w, 'v) shard_client" where
  "http_client D N = \<lparr>
     sc_id = hs_id,
     sc_object = http_object D N,
     sc_scan_range = http_scan_range D N,
     sc_scan_buckets = http_scan_buckets D N,
     sc_mget = http_mget D N,
     sc_set_add = http_set_add D N,
     sc_set_remove = http_set_remove D N,
     sc_write_object = http_write_object D N,
     sc_write_object_ttl = http_write_object_ttl D N,
     sc_delete_object = http_delete_object D N,
     sc_cas = http_cas D N,
     sc_incr = http_incr D N,
     sc_export_entries = http_export_entries D N,
     sc_import_entries = http_import_entries D N,
     sc_drop_buckets = http_drop_buckets D N,
     sc_health = http_health D N,
     sc_endpoint = hs_base,
     sc_lease_acquire = http_lease_acquire D N\<rparr>"

subsection \<open>Reading back what was written\<close>

lemma doc_law:
  assumes "doc_laws D"
  shows "dj_is_null D (dj_null D)" "\<not> dj_is_null D (dj_str D s)" "\<not> dj_is_null D (dj_u64 D u)"
    "dj_as_bool D (dj_bool D b) = Some b" "dj_as_usize D (dj_usize D n) = Some n"
    "dj_as_u64 D (dj_u64 D u) = Some u" "dj_as_i64 D (dj_i64 D i) = Some i"
    "dj_as_i64 D (dj_null D) = None" "dj_as_str D (dj_str D s) = Some s"
    "dj_as_array D (dj_array D vs) = Some vs"
    "distinct (map fst fs) \<Longrightarrow> dj_get D (dj_object D fs) k = map_of fs k"
    "dj_from_str D (dj_to_string D v) = Some v" "dj_from_str D [] = None"
    "dj_from_query D (dj_to_query D ps) = Some ps"
  using assms unfolding doc_laws_def by blast+

text \<open>The reader of a body may get the fields in any order.\<close>

lemma field_of_map:
  "distinct (map fst fs) \<Longrightarrow> field_of fs name rd dflt = (case map_of fs name of None \<Rightarrow> dflt | Some a \<Rightarrow> rd a)"
proof (induction fs)
  case (Cons f fs)
  have "filter (\<lambda>(k, _). k = fst f) fs = []"
    using Cons.prems by (auto simp: filter_empty_conv image_iff)
  with Cons show ?case by (cases f) (auto simp: field_of_def)
qed (simp add: field_of_def)

lemma with_json_object:
  assumes "doc_laws D" and "length (rq_body req) \<le> BODY_LIMIT" and "rq_body req = dj_to_string D (dj_object D fs)"
    and "distinct (map fst fs)" and "set (map fst fs) \<subseteq> set names"
    and rd: "\<And>fs'. distinct (map fst fs') \<Longrightarrow> map_of fs' = map_of fs \<Longrightarrow> rd fs' = Some b"
  shows "with_json D names rd req h nd = h b nd"
proof -
  obtain fs' where "dj_fields D names (dj_to_string D (dj_object D fs)) = Inr fs'"
    and "distinct (map fst fs')" "map_of fs' = map_of fs"
    using assms(1,4,5) unfolding doc_laws_def by blast
  then show ?thesis using assms(2,3) rd [of fs'] by (simp add: with_json_def)
qed

lemma those_map: "(\<And>x. x \<in> set xs \<Longrightarrow> rd (f x) = Some (g x)) \<Longrightarrow> those (map (\<lambda>x. rd (f x)) xs) = Some (map g xs)"
  by (induction xs) simp_all

lemma rd_option_json:
  assumes "doc_laws D"
  shows "rd_option D Some (opt_json D id ov) = Some (nonnull D ov)"
    and "rd_option D (dj_as_str D) (opt_json D (dj_str D) os) = Some os"
    and "rd_option D (dj_as_u64 D) (dj_u64 D n) = Some (Some n)"
  using doc_law [OF assms]
  by (simp_all add: rd_option_def opt_json_def nonnull_def split: option.splits)

lemma rd_vec_json:
  assumes "doc_laws D"
  shows "rd_vec D (dj_as_str D) (dj_array D (map (dj_str D) xs)) = Some xs"
    and "rd_vec D (dj_as_usize D) (dj_array D (map (dj_usize D) ns)) = Some ns"
    and "rd_vec D (rd_option D Some) (dj_array D (map (opt_json D id) ovs)) = Some (map (nonnull D) ovs)"
    and "rd_vec D (rd_entry D) (entries_json D es) = Some es"
proof -
  note law = doc_law [OF assms] rd_option_json [OF assms]
  show "rd_vec D (dj_as_str D) (dj_array D (map (dj_str D) xs)) = Some xs"
    "rd_vec D (dj_as_usize D) (dj_array D (map (dj_usize D) ns)) = Some ns"
    "rd_vec D (rd_option D Some) (dj_array D (map (opt_json D id) ovs)) = Some (map (nonnull D) ovs)"
    using those_map [of xs Some "\<lambda>x. x" "\<lambda>x. x"] those_map [of ns Some "\<lambda>x. x" "\<lambda>x. x"]
    by (simp_all add: rd_vec_def comp_def those_map [where g = "nonnull D"] law)
  show "rd_vec D (rd_entry D) (entries_json D es) = Some es"
    using those_map [of es "rd_entry D" "\<lambda>(k, v). dj_array D [dj_str D k, v]" "\<lambda>x. x"]
    by (simp add: rd_vec_def comp_def entries_json_def rd_entry_def law split: prod.splits)
qed

text \<open>Every body survives the wire, if it fits; of an expected value, a null is read as none.\<close>

definition fits :: "'v doc \<Rightarrow> 'v \<Rightarrow> bool" where
  "fits D v \<longleftrightarrow> length (dj_to_string D v) \<le> BODY_LIMIT"

lemmas wire_simps = fits_def field_of_map mget_json_def read_mget_def
  scan_buckets_json_def read_scan_buckets_def set_json_def read_set_def write_json_def read_write_def
  delete_json_def read_delete_def bucket_json_def read_bucket_def import_json_def read_import_def
  cas_json_def read_cas_def incr_json_def read_incr_def lease_json_def read_lease_def

lemmas wire_json = mget_json_def scan_buckets_json_def set_json_def write_json_def delete_json_def bucket_json_def
  import_json_def cas_json_def incr_json_def lease_json_def

lemma body_roundtrip:
  assumes "doc_laws D"
  shows "fits D (mget_json D mb) \<Longrightarrow> rq_body req = dj_to_string D (mget_json D mb) \<Longrightarrow>
      with_json D [''coll'', ''keys''] (read_mget D) req h nd = h mb nd"
    and "fits D (scan_buckets_json D sb) \<Longrightarrow> rq_body req = dj_to_string D (scan_buckets_json D sb) \<Longrightarrow>
      with_json D [''coll'', ''buckets'', ''after'', ''limit''] (read_scan_buckets D) req h1 nd = h1 sb nd"
    and "fits D (set_json D se) \<Longrightarrow> rq_body req = dj_to_string D (set_json D se) \<Longrightarrow>
      with_json D [''coll'', ''key'', ''member''] (read_set D) req h2 nd = h2 se nd"
    and "fits D (write_json D wb) \<Longrightarrow> rq_body req = dj_to_string D (write_json D wb) \<Longrightarrow>
      with_json D [''coll'', ''key'', ''obj'', ''ttlMs''] (read_write D) req h3 nd = h3 wb nd"
    and "fits D (delete_json D db) \<Longrightarrow> rq_body req = dj_to_string D (delete_json D db) \<Longrightarrow>
      with_json D [''coll'', ''key''] (read_delete D) req h4 nd = h4 db nd"
    and "fits D (bucket_json D bb) \<Longrightarrow> rq_body req = dj_to_string D (bucket_json D bb) \<Longrightarrow>
      with_json D [''coll'', ''buckets''] (read_bucket D) req h5 nd = h5 bb nd"
    and "fits D (import_json D ib) \<Longrightarrow> rq_body req = dj_to_string D (import_json D ib) \<Longrightarrow>
      with_json D [''coll'', ''entries''] (read_import D) req h6 nd = h6 ib nd"
    and "fits D (cas_json D cb) \<Longrightarrow> rq_body req = dj_to_string D (cas_json D cb) \<Longrightarrow>
      with_json D [''coll'', ''key'', ''expect'', ''new''] (read_cas D) req h7 nd =
        h7 (cb\<lparr>cb_expect := nonnull D (cb_expect cb)\<rparr>) nd"
    and "fits D (incr_json D nb) \<Longrightarrow> rq_body req = dj_to_string D (incr_json D nb) \<Longrightarrow>
      with_json D [''coll'', ''key'', ''delta''] (read_incr D) req h8 nd = h8 nb nd"
    and "fits D (lease_json D lb) \<Longrightarrow> rq_body req = dj_to_string D (lease_json D lb) \<Longrightarrow>
      with_json D [''key'', ''holder'', ''ttlMs''] (read_lease D) req h9 nd = h9 lb nd"
proof -
  note [simp] = doc_law [OF assms] rd_option_json [OF assms] rd_vec_json [OF assms] wire_simps
  show "with_json D [''coll'', ''keys''] (read_mget D) req h nd = h mb nd" if "fits D (mget_json D mb)" "rq_body req = dj_to_string D (mget_json D mb)"
    by (rule with_json_object [OF assms _ that(2) [unfolded wire_json]]) (use that in \<open>auto split: option.split\<close>)
  show "with_json D [''coll'', ''buckets'', ''after'', ''limit''] (read_scan_buckets D) req h1 nd = h1 sb nd" if "fits D (scan_buckets_json D sb)" "rq_body req = dj_to_string D (scan_buckets_json D sb)"
    by (rule with_json_object [OF assms _ that(2) [unfolded wire_json]]) (use that in \<open>auto split: option.split\<close>)
  show "with_json D [''coll'', ''key'', ''member''] (read_set D) req h2 nd = h2 se nd" if "fits D (set_json D se)" "rq_body req = dj_to_string D (set_json D se)"
    by (rule with_json_object [OF assms _ that(2) [unfolded wire_json]]) (use that in \<open>auto split: option.split\<close>)
  show "with_json D [''coll'', ''key'', ''obj'', ''ttlMs''] (read_write D) req h3 nd = h3 wb nd" if "fits D (write_json D wb)" "rq_body req = dj_to_string D (write_json D wb)"
    by (rule with_json_object [OF assms _ that(2) [unfolded wire_json]]) (use that in \<open>auto split: option.split\<close>)
  show "with_json D [''coll'', ''key''] (read_delete D) req h4 nd = h4 db nd" if "fits D (delete_json D db)" "rq_body req = dj_to_string D (delete_json D db)"
    by (rule with_json_object [OF assms _ that(2) [unfolded wire_json]]) (use that in \<open>auto split: option.split\<close>)
  show "with_json D [''coll'', ''buckets''] (read_bucket D) req h5 nd = h5 bb nd" if "fits D (bucket_json D bb)" "rq_body req = dj_to_string D (bucket_json D bb)"
    by (rule with_json_object [OF assms _ that(2) [unfolded wire_json]]) (use that in \<open>auto split: option.split\<close>)
  show "with_json D [''coll'', ''entries''] (read_import D) req h6 nd = h6 ib nd" if "fits D (import_json D ib)" "rq_body req = dj_to_string D (import_json D ib)"
    by (rule with_json_object [OF assms _ that(2) [unfolded wire_json]]) (use that in \<open>auto split: option.split\<close>)
  show "with_json D [''coll'', ''key'', ''expect'', ''new''] (read_cas D) req h7 nd =
      h7 (cb\<lparr>cb_expect := nonnull D (cb_expect cb)\<rparr>) nd" if "fits D (cas_json D cb)" "rq_body req = dj_to_string D (cas_json D cb)"
    by (rule with_json_object [OF assms _ that(2) [unfolded wire_json]]) (use that in \<open>auto split: option.split\<close>)
  show "with_json D [''coll'', ''key'', ''delta''] (read_incr D) req h8 nd = h8 nb nd" if "fits D (incr_json D nb)" "rq_body req = dj_to_string D (incr_json D nb)"
    by (rule with_json_object [OF assms _ that(2) [unfolded wire_json]]) (use that in \<open>auto split: option.split\<close>)
  show "with_json D [''key'', ''holder'', ''ttlMs''] (read_lease D) req h9 nd = h9 lb nd" if "fits D (lease_json D lb)" "rq_body req = dj_to_string D (lease_json D lb)"
    by (rule with_json_object [OF assms _ that(2) [unfolded wire_json]]) (use that in \<open>auto split: option.split\<close>)
qed

subsection \<open>A client linked to a shard server\<close>

text \<open>
  The network brings every request, whatever the length of its URL, to the server at the address of the URL and the answer back;
  \<open>up\<close> and \<open>m\<close> are the uptime and the counters of that process, which only its metrics show.
\<close>

definition delivers :: "('s shard, 'v) shard_ops \<Rightarrow> 'v doc \<Rightarrow> 's world network \<Rightarrow> string option
    \<Rightarrow> (string \<Rightarrow> nat) \<Rightarrow> bool" where
  "delivers Op D N token locate \<longleftrightarrow> (\<forall>base req w. \<exists>up m. \<forall>nd r.
     shard_server Op D up token (w_now w) req
       \<lparr>nd_shard = w_shards w (locate base), nd_metrics = m\<rparr> = (nd, r) \<longrightarrow>
     fst (N base req w) = w\<lparr>w_shards := (w_shards w)(locate base := nd_shard nd)\<rparr> \<and>
     (case r of None \<Rightarrow> (\<exists>e. snd (N base req w) = Inl e) | Some rs \<Rightarrow> snd (N base req w) = Inr rs))"

text \<open>The client presents the token that the server asks for.\<close>

definition authorized :: "'v doc \<Rightarrow> string option \<Rightarrow> http_shard_client \<Rightarrow> bool" where
  "authorized D token hc \<longleftrightarrow> (case token of None \<Rightarrow> True | Some t \<Rightarrow> hs_auth D hc = Some (''Bearer '' @ t))"

lemma authorized_pass:
  "authorized D token hc \<Longrightarrow> rq_authorization req = hs_auth D hc \<Longrightarrow> require_bearer token req = Inr req"
  by (auto simp: authorized_def require_bearer_def bearer_layer_def presented_token_def split: option.splits)

lemma delivered_pass:
  assumes "delivers Op D N token locate" and pass: "require_bearer token req = Inr req"
    and "\<And>up m. \<exists>nd. net_app Op D up (w_now w) req
      \<lparr>nd_shard = w_shards w (locate base), nd_metrics = m\<rparr> = (nd, Some rs) \<and> nd_shard nd = sh"
  shows "N base req w = (w\<lparr>w_shards := (w_shards w)(locate base := sh)\<rparr>, Inr rs)"
proof -
  from assms(1) obtain up m where d: "\<And>nd r. shard_server Op D up token (w_now w) req
      \<lparr>nd_shard = w_shards w (locate base), nd_metrics = m\<rparr> = (nd, r) \<Longrightarrow>
    fst (N base req w) = w\<lparr>w_shards := (w_shards w)(locate base := nd_shard nd)\<rparr> \<and>
    (case r of None \<Rightarrow> (\<exists>e. snd (N base req w) = Inl e)
      | Some rs \<Rightarrow> snd (N base req w) = Inr rs)"
    unfolding delivers_def by blast
  obtain nd where nd: "net_app Op D up (w_now w) req
      \<lparr>nd_shard = w_shards w (locate base), nd_metrics = m\<rparr> = (nd, Some rs)" "nd_shard nd = sh"
    using assms(3) by blast
  then have "shard_server Op D up token (w_now w) req
      \<lparr>nd_shard = w_shards w (locate base), nd_metrics = m\<rparr> = (nd, Some rs)"
    by (simp add: shard_server_def layered_def pass)
  from d [OF this] nd(2) show ?thesis by (simp add: prod_eq_iff)
qed

lemmas delivered = delivered_pass [OF _ authorized_pass]

lemma open_pass: "open_path (rq_path req) \<Longrightarrow> require_bearer token req = Inr req"
  by (simp add: require_bearer_def bearer_layer_def split: option.split)

lemma open_delivered:
  assumes "delivers Op D N token locate" and "open_path (rq_path req)"
    and "\<And>up nd. net_app Op D up (w_now w) req nd = (nd, Some rs)"
  shows "N base req w = (w, Inr rs)"
  using delivered_pass [OF assms(1) open_pass [OF assms(2)], of w base rs "w_shards w (locate base)"] assms(3) by simp

definition linked :: "('s, 'v) index_store \<Rightarrow> 'v json \<Rightarrow> 'v doc \<Rightarrow> 's world network \<Rightarrow> string option
    \<Rightarrow> (string \<Rightarrow> nat) \<Rightarrow> http_shard_client \<Rightarrow> bool" where
  "linked S J D N token locate hc \<longleftrightarrow> doc_laws D \<and> delivers (ops_of_shard S J) D N token locate \<and>
     authorized D token hc"

text \<open>The in-process client on the same shard.\<close>

definition local_client :: "(string \<Rightarrow> nat) \<Rightarrow> http_shard_client \<Rightarrow> inproc_client" where
  "local_client locate hc = inproc_new (hs_id hc) (locate (hs_base hc))"

lemma linked_post:
  assumes "linked S J D N token locate hc"
    and "\<And>up m req. rq_path req = path \<Longrightarrow> rq_is_post req \<Longrightarrow> rq_body req = dj_to_string D body \<Longrightarrow>
      \<exists>nd. net_app (ops_of_shard S J) D up (w_now w) req
        \<lparr>nd_shard = w_shards w (locate (hs_base hc)), nd_metrics = m\<rparr> = (nd, Some rs) \<and> nd_shard nd = sh"
  shows "send_post D N hc path body w = (w\<lparr>w_shards := (w_shards w)(locate (hs_base hc) := sh)\<rparr>, Inr rs)"
  unfolding send_post_def
  by (rule delivered [where token = token and Op = "ops_of_shard S J" and D = D])
    (use assms in \<open>simp_all add: linked_def\<close>)

lemma linked_get:
  assumes "linked S J D N token locate hc"
    and "\<And>up m req. rq_path req = path \<Longrightarrow> \<not> rq_is_post req \<Longrightarrow> rq_query req = query \<Longrightarrow>
      \<exists>nd. net_app (ops_of_shard S J) D up (w_now w) req
        \<lparr>nd_shard = w_shards w (locate (hs_base hc)), nd_metrics = m\<rparr> = (nd, Some rs) \<and>
        nd_shard nd = w_shards w (locate (hs_base hc))"
  shows "send_get D N hc path query w = (w, Inr rs)"
proof -
  have "send_get D N hc path query w = (w\<lparr>w_shards := (w_shards w)(locate (hs_base hc) :=
      w_shards w (locate (hs_base hc)))\<rparr>, Inr rs)"
    unfolding send_get_def
    by (rule delivered [where token = token and Op = "ops_of_shard S J" and D = D])
      (use assms in \<open>simp_all add: linked_def\<close>)
  then show ?thesis by simp
qed

lemmas route_simps = net_app_def on_post_def on_get_def Let_def ops_of_shard_def count_op_def ok_json_def
lemmas local_simps = http_client_def inproc_def with_read_def with_write_def local_client_def inproc_new_def Let_def

lemma linked_reads:
  assumes "linked S J D N token locate hc"
  shows "sc_object (http_client D N) hc coll key w =
      (w, COk (nonnull D (shard_object S (w_now w) (w_shards w (locate (hs_base hc))) coll key)))"
    and "fits D (mget_json D \<lparr>mb_coll = coll, mb_keys = keys\<rparr>) \<Longrightarrow> sc_mget (http_client D N) hc coll keys w =
      (w, COk (map (nonnull D) (shard_mget S (w_now w) (w_shards w (locate (hs_base hc))) coll keys)))"
proof -
  have D: "doc_laws D" using assms by (simp add: linked_def)
  note [simp] = doc_law [OF D] rd_vec_json [OF D]
  have "send_get D N hc ''/object'' (Some (dj_to_query D [(''coll'', coll), (''key'', key)])) w =
      (w, Inr \<lparr>rs_status = 200, rs_body = dj_to_string D (dj_object D [(''object'',
        opt_json D id (shard_object S (w_now w) (w_shards w (locate (hs_base hc))) coll key))])\<rparr>)"
    by (rule linked_get [OF assms])
      (simp add: route_simps with_query_def read_obj_q_def field_of_def h_object_def)
  then show "sc_object (http_client D N) hc coll key w =
      (w, COk (nonnull D (shard_object S (w_now w) (w_shards w (locate (hs_base hc))) coll key)))"
    by (simp add: http_client_def http_object_def json_answer_def opt_json_def nonnull_def split: option.split)
  assume fit: "fits D (mget_json D \<lparr>mb_coll = coll, mb_keys = keys\<rparr>)"
  let ?vs = "shard_mget S (w_now w) (w_shards w (locate (hs_base hc))) coll keys"
  have "send_post D N hc ''/mget'' (mget_json D \<lparr>mb_coll = coll, mb_keys = keys\<rparr>) w =
      (w\<lparr>w_shards := (w_shards w)(locate (hs_base hc) := w_shards w (locate (hs_base hc)))\<rparr>,
       Inr \<lparr>rs_status = 200, rs_body = dj_to_string D (dj_object D [(''values'',
        dj_array D (map (opt_json D id) ?vs))])\<rparr>)"
    by (rule linked_post [OF assms]) (simp add: route_simps body_roundtrip(1) [OF D fit] h_mget_def)
  then show "sc_mget (http_client D N) hc coll keys w = (w, COk (map (nonnull D) ?vs))"
    by (simp add: http_client_def http_mget_def json_answer_def get_or_default_def)
qed

lemma linked_set_add:
  assumes "linked S J D N token locate hc" and "fits D (set_json D \<lparr>se_coll = coll, se_key = key, se_member = member\<rparr>)"
  shows "sc_set_add (http_client D N) hc coll key member w =
    sc_set_add (inproc S J) (local_client locate hc) coll key member w"
proof -
  have D: "doc_laws D" using assms(1) by (simp add: linked_def)
  note [simp] = doc_law [OF D] rd_vec_json [OF D]
  have "send_post D N hc ''/setAdd'' (set_json D \<lparr>se_coll = coll, se_key = key, se_member = member\<rparr>) w =
      (w\<lparr>w_shards := (w_shards w)(locate (hs_base hc) := fst (shard_set_add S J (w_now w) coll key member (w_shards w (locate (hs_base hc)))))\<rparr>,
       Inr \<lparr>rs_status = 200, rs_body = dj_to_string D (dj_object D [(''added'', dj_bool D (snd (shard_set_add S J (w_now w) coll key member (w_shards w (locate (hs_base hc))))))])\<rparr>)"
    by (rule linked_post [OF assms(1)])
      (simp add: route_simps body_roundtrip(3) [OF D assms(2)] h_set_add_def split: prod.split)
  then show ?thesis
    by (simp add: local_simps json_answer_def http_set_add_def get_flag_def split: prod.split)
qed

lemma linked_set_remove:
  assumes "linked S J D N token locate hc" and "fits D (set_json D \<lparr>se_coll = coll, se_key = key, se_member = member\<rparr>)"
  shows "sc_set_remove (http_client D N) hc coll key member w =
    sc_set_remove (inproc S J) (local_client locate hc) coll key member w"
proof -
  have D: "doc_laws D" using assms(1) by (simp add: linked_def)
  note [simp] = doc_law [OF D] rd_vec_json [OF D]
  have "send_post D N hc ''/setRemove'' (set_json D \<lparr>se_coll = coll, se_key = key, se_member = member\<rparr>) w =
      (w\<lparr>w_shards := (w_shards w)(locate (hs_base hc) := fst (shard_set_remove S J (w_now w) coll key member (w_shards w (locate (hs_base hc)))))\<rparr>,
       Inr \<lparr>rs_status = 200, rs_body = dj_to_string D (dj_object D [(''removed'', dj_bool D (snd (shard_set_remove S J (w_now w) coll key member (w_shards w (locate (hs_base hc))))))])\<rparr>)"
    by (rule linked_post [OF assms(1)])
      (simp add: route_simps body_roundtrip(3) [OF D assms(2)] h_set_remove_def split: prod.split)
  then show ?thesis
    by (simp add: local_simps json_answer_def http_set_remove_def get_flag_def split: prod.split)
qed

lemma linked_cas:
  assumes "linked S J D N token locate hc" and "fits D (cas_json D \<lparr>cb_coll = coll, cb_key = key, cb_expect = expect, cb_new = new\<rparr>)"
  shows "sc_cas (http_client D N) hc coll key expect new w =
    sc_cas (inproc S J) (local_client locate hc) coll key (nonnull D expect) new w"
proof -
  have D: "doc_laws D" using assms(1) by (simp add: linked_def)
  note [simp] = doc_law [OF D] rd_vec_json [OF D]
  have "send_post D N hc ''/cas'' (cas_json D \<lparr>cb_coll = coll, cb_key = key, cb_expect = expect, cb_new = new\<rparr>) w =
      (w\<lparr>w_shards := (w_shards w)(locate (hs_base hc) := fst (shard_cas S J (w_now w) coll key (nonnull D expect) new (w_shards w (locate (hs_base hc)))))\<rparr>,
       Inr \<lparr>rs_status = 200, rs_body = dj_to_string D (dj_object D [(''set'', dj_bool D (snd (shard_cas S J (w_now w) coll key (nonnull D expect) new (w_shards w (locate (hs_base hc))))))])\<rparr>)"
    by (rule linked_post [OF assms(1)])
      (simp add: route_simps body_roundtrip(8) [OF D assms(2)] h_cas_def split: prod.split)
  then show ?thesis
    by (simp add: local_simps json_answer_def http_cas_def get_flag_def split: prod.split)
qed

lemma linked_incr:
  assumes "linked S J D N token locate hc" and "fits D (incr_json D \<lparr>nb_coll = coll, nb_key = key, nb_delta = delta\<rparr>)"
  shows "sc_incr (http_client D N) hc coll key delta w =
    sc_incr (inproc S J) (local_client locate hc) coll key delta w"
proof -
  have D: "doc_laws D" using assms(1) by (simp add: linked_def)
  note [simp] = doc_law [OF D] rd_vec_json [OF D]
  have "send_post D N hc ''/incr'' (incr_json D \<lparr>nb_coll = coll, nb_key = key, nb_delta = delta\<rparr>) w =
      (w\<lparr>w_shards := (w_shards w)(locate (hs_base hc) := fst (shard_incr S J (w_now w) coll key delta (w_shards w (locate (hs_base hc)))))\<rparr>,
       Inr \<lparr>rs_status = 200, rs_body = dj_to_string D (dj_object D [(''value'', opt_json D (dj_i64 D) (snd (shard_incr S J (w_now w) coll key delta (w_shards w (locate (hs_base hc))))))])\<rparr>)"
    by (rule linked_post [OF assms(1)])
      (simp add: route_simps body_roundtrip(9) [OF D assms(2)] h_incr_def split: prod.split)
  then show ?thesis
    by (simp add: local_simps json_answer_def http_incr_def opt_json_def split: prod.split option.split)
qed

lemma linked_write_object:
  assumes "linked S J D N token locate hc" and "fits D (write_json D \<lparr>wb_coll = coll, wb_key = key, wb_obj = obj, wb_ttl_ms = None\<rparr>)"
  shows "sc_write_object (http_client D N) hc coll key obj w =
    sc_write_object (inproc S J) (local_client locate hc) coll key obj w"
proof -
  have D: "doc_laws D" using assms(1) by (simp add: linked_def)
  note [simp] = doc_law [OF D] rd_vec_json [OF D]
  have "send_post D N hc ''/write'' (write_json D \<lparr>wb_coll = coll, wb_key = key, wb_obj = obj, wb_ttl_ms = None\<rparr>) w =
      (w\<lparr>w_shards := (w_shards w)(locate (hs_base hc) := shard_write_object S coll key obj (w_shards w (locate (hs_base hc))))\<rparr>,
       Inr \<lparr>rs_status = 200, rs_body = dj_to_string D (dj_object D [(''ok'', dj_bool D True)])\<rparr>)"
    by (rule linked_post [OF assms(1)])
      (simp add: route_simps body_roundtrip(4) [OF D assms(2)] h_write_def split: prod.split)
  then show ?thesis
    by (simp add: local_simps json_answer_def http_write_object_def post_ok_def split: prod.split)
qed

lemma linked_write_object_ttl:
  assumes "linked S J D N token locate hc" and "fits D (write_json D \<lparr>wb_coll = coll, wb_key = key, wb_obj = obj, wb_ttl_ms = Some ttl\<rparr>)"
  shows "sc_write_object_ttl (http_client D N) hc coll key obj ttl w =
    sc_write_object_ttl (inproc S J) (local_client locate hc) coll key obj ttl w"
proof -
  have D: "doc_laws D" using assms(1) by (simp add: linked_def)
  note [simp] = doc_law [OF D] rd_vec_json [OF D]
  have "send_post D N hc ''/write'' (write_json D \<lparr>wb_coll = coll, wb_key = key, wb_obj = obj, wb_ttl_ms = Some ttl\<rparr>) w =
      (w\<lparr>w_shards := (w_shards w)(locate (hs_base hc) := shard_write_object_ttl S (w_now w) coll key obj ttl (w_shards w (locate (hs_base hc))))\<rparr>,
       Inr \<lparr>rs_status = 200, rs_body = dj_to_string D (dj_object D [(''ok'', dj_bool D True)])\<rparr>)"
    by (rule linked_post [OF assms(1)])
      (simp add: route_simps body_roundtrip(4) [OF D assms(2)] h_write_def shard_write_object_ttl_def shard_write_object_def word_gt_0 split: prod.split)
  then show ?thesis
    by (simp add: local_simps json_answer_def http_write_object_ttl_def post_ok_def split: prod.split)
qed

lemma linked_delete_object:
  assumes "linked S J D N token locate hc" and "fits D (delete_json D \<lparr>db_coll = coll, db_key = key\<rparr>)"
  shows "sc_delete_object (http_client D N) hc coll key w =
    sc_delete_object (inproc S J) (local_client locate hc) coll key w"
proof -
  have D: "doc_laws D" using assms(1) by (simp add: linked_def)
  note [simp] = doc_law [OF D] rd_vec_json [OF D]
  have "send_post D N hc ''/deleteObject'' (delete_json D \<lparr>db_coll = coll, db_key = key\<rparr>) w =
      (w\<lparr>w_shards := (w_shards w)(locate (hs_base hc) := shard_delete_object S coll key (w_shards w (locate (hs_base hc))))\<rparr>,
       Inr \<lparr>rs_status = 200, rs_body = dj_to_string D (dj_object D [(''ok'', dj_bool D True)])\<rparr>)"
    by (rule linked_post [OF assms(1)])
      (simp add: route_simps body_roundtrip(5) [OF D assms(2)] h_delete_def split: prod.split)
  then show ?thesis
    by (simp add: local_simps json_answer_def http_delete_object_def post_ok_def split: prod.split)
qed

lemma linked_export_entries:
  assumes "linked S J D N token locate hc" and "fits D (bucket_json D \<lparr>bb_coll = coll, bb_buckets = buckets\<rparr>)"
  shows "sc_export_entries (http_client D N) hc coll buckets w =
    sc_export_entries (inproc S J) (local_client locate hc) coll buckets w"
proof -
  have D: "doc_laws D" using assms(1) by (simp add: linked_def)
  note [simp] = doc_law [OF D] rd_vec_json [OF D]
  have "send_post D N hc ''/export'' (bucket_json D \<lparr>bb_coll = coll, bb_buckets = buckets\<rparr>) w =
      (w\<lparr>w_shards := (w_shards w)(locate (hs_base hc) := w_shards w (locate (hs_base hc)))\<rparr>,
       Inr \<lparr>rs_status = 200, rs_body = dj_to_string D (dj_object D [(''entries'', entries_json D (shard_export_entries S (w_now w) (w_shards w (locate (hs_base hc))) coll buckets))])\<rparr>)"
    by (rule linked_post [OF assms(1)])
      (simp add: route_simps body_roundtrip(6) [OF D assms(2)] h_export_def split: prod.split)
  then show ?thesis
    by (simp add: local_simps json_answer_def http_export_entries_def get_or_default_def split: prod.split)
qed

lemma linked_import_entries:
  assumes "linked S J D N token locate hc" and "fits D (import_json D \<lparr>ib_coll = coll, ib_entries = entries\<rparr>)"
  shows "sc_import_entries (http_client D N) hc coll entries w =
    sc_import_entries (inproc S J) (local_client locate hc) coll entries w"
proof -
  have D: "doc_laws D" using assms(1) by (simp add: linked_def)
  note [simp] = doc_law [OF D] rd_vec_json [OF D]
  have "send_post D N hc ''/import'' (import_json D \<lparr>ib_coll = coll, ib_entries = entries\<rparr>) w =
      (w\<lparr>w_shards := (w_shards w)(locate (hs_base hc) := shard_import_entries S coll entries (w_shards w (locate (hs_base hc))))\<rparr>,
       Inr \<lparr>rs_status = 200, rs_body = dj_to_string D (dj_object D [(''ok'', dj_bool D True)])\<rparr>)"
    by (rule linked_post [OF assms(1)])
      (simp add: route_simps body_roundtrip(7) [OF D assms(2)] h_import_def split: prod.split)
  then show ?thesis
    by (simp add: local_simps json_answer_def http_import_entries_def post_ok_def split: prod.split)
qed

lemma linked_drop_buckets:
  assumes "linked S J D N token locate hc" and "fits D (bucket_json D \<lparr>bb_coll = coll, bb_buckets = buckets\<rparr>)"
  shows "sc_drop_buckets (http_client D N) hc coll buckets w =
    sc_drop_buckets (inproc S J) (local_client locate hc) coll buckets w"
proof -
  have D: "doc_laws D" using assms(1) by (simp add: linked_def)
  note [simp] = doc_law [OF D] rd_vec_json [OF D]
  have "send_post D N hc ''/dropBuckets'' (bucket_json D \<lparr>bb_coll = coll, bb_buckets = buckets\<rparr>) w =
      (w\<lparr>w_shards := (w_shards w)(locate (hs_base hc) := fst (shard_drop_buckets S (w_now w) coll buckets (w_shards w (locate (hs_base hc)))))\<rparr>,
       Inr \<lparr>rs_status = 200, rs_body = dj_to_string D (dj_object D [(''dropped'', dj_usize D (snd (shard_drop_buckets S (w_now w) coll buckets (w_shards w (locate (hs_base hc))))))])\<rparr>)"
    by (rule linked_post [OF assms(1)])
      (simp add: route_simps body_roundtrip(6) [OF D assms(2)] h_drop_buckets_def split: prod.split)
  then show ?thesis
    by (simp add: local_simps json_answer_def http_drop_buckets_def split: prod.split)
qed

lemma linked_lease_acquire:
  assumes "linked S J D N token locate hc" and "fits D (lease_json D \<lparr>lb_key = key, lb_holder = holder, lb_ttl_ms = ttl\<rparr>)"
  shows "sc_lease_acquire (http_client D N) hc key holder ttl w =
    sc_lease_acquire (inproc S J) (local_client locate hc) key holder ttl w"
proof -
  have D: "doc_laws D" using assms(1) by (simp add: linked_def)
  note [simp] = doc_law [OF D] rd_vec_json [OF D]
  have "send_post D N hc ''/leaseAcquire'' (lease_json D \<lparr>lb_key = key, lb_holder = holder, lb_ttl_ms = ttl\<rparr>) w =
      (w\<lparr>w_shards := (w_shards w)(locate (hs_base hc) := fst (shard_lease_acquire S J (w_now w) key holder ttl (w_shards w (locate (hs_base hc)))))\<rparr>,
       Inr \<lparr>rs_status = 200, rs_body = dj_to_string D (dj_object D [(''granted'', dj_bool D (lo_granted (snd (shard_lease_acquire S J (w_now w) key holder ttl (w_shards w (locate (hs_base hc))))))), (''holder'', dj_str D (ls_holder (lo_lease (snd (shard_lease_acquire S J (w_now w) key holder ttl (w_shards w (locate (hs_base hc)))))))),
         (''expiresMs'', dj_u64 D (ls_expires_ms (lo_lease (snd (shard_lease_acquire S J (w_now w) key holder ttl (w_shards w (locate (hs_base hc)))))))), (''token'', dj_u64 D (ls_token (lo_lease (snd (shard_lease_acquire S J (w_now w) key holder ttl (w_shards w (locate (hs_base hc))))))))])\<rparr>)"
    by (rule linked_post [OF assms(1)])
      (simp add: route_simps body_roundtrip(10) [OF D assms(2)] h_lease_acquire_def split: prod.split)
  then show ?thesis
    by (simp add: local_simps json_answer_def http_lease_acquire_def get_flag_def get_u64_def split: prod.split)
qed

lemma parse_show_usize: "n < 2 ^ 64 \<Longrightarrow> parse_usize (show_nat n) = Some n"
  using parse_u64_digits [of "show_nat n"] by (simp add: parse_usize_def unat_of_nat)

lemma linked_scan_range:
  assumes "linked S J D N token locate hc" and "limit < 2 ^ 64"
  shows "sc_scan_range (http_client D N) hc coll after pre end limit w =
    sc_scan_range (inproc S J) (local_client locate hc) coll after pre end (min limit 10000) w"
proof -
  have D: "doc_laws D" using assms(1) by (simp add: linked_def)
  note [simp] = doc_law [OF D] rd_vec_json [OF D]
  let ?q = "[(''coll'', coll), (''limit'', show_nat limit)] @ (case after of None \<Rightarrow> [] | Some a \<Rightarrow> [(''after'', a)]) @
    (case pre of None \<Rightarrow> [] | Some a \<Rightarrow> [(''prefix'', a)]) @ (case end of None \<Rightarrow> [] | Some a \<Rightarrow> [(''end'', a)])"
  have rd: "read_scan_q ?q =
      Some \<lparr>sq_coll = coll, sq_after = after, sq_prefix = pre, sq_end = end, sq_limit = limit\<rparr>"
    using assms(2) by (simp add: read_scan_q_def field_of_def parse_show_usize split: option.split)
  have "send_get D N hc ''/scan'' (Some (dj_to_query D ?q)) w =
      (w, Inr \<lparr>rs_status = 200, rs_body = dj_to_string D (dj_object D [(''keys'', dj_array D (map (dj_str D)
        (shard_scan_range S (w_now w) (w_shards w (locate (hs_base hc))) coll after pre end (min limit 10000))))])\<rparr>)"
    by (rule linked_get [OF assms(1)]) (simp add: route_simps with_query_def rd [simplified] h_scan_def)
  moreover have "(case end of None \<Rightarrow> (case pre of None \<Rightarrow> (case after of None \<Rightarrow> q | Some a \<Rightarrow> q @ [(''after'', a)])
        | Some p \<Rightarrow> (case after of None \<Rightarrow> q | Some a \<Rightarrow> q @ [(''after'', a)]) @ [(''prefix'', p)])
      | Some e \<Rightarrow> (case pre of None \<Rightarrow> (case after of None \<Rightarrow> q | Some a \<Rightarrow> q @ [(''after'', a)])
        | Some p \<Rightarrow> (case after of None \<Rightarrow> q | Some a \<Rightarrow> q @ [(''after'', a)]) @ [(''prefix'', p)]) @ [(''end'', e)]) =
      q @ (case after of None \<Rightarrow> [] | Some a \<Rightarrow> [(''after'', a)]) @
        (case pre of None \<Rightarrow> [] | Some a \<Rightarrow> [(''prefix'', a)]) @ (case end of None \<Rightarrow> [] | Some a \<Rightarrow> [(''end'', a)])"
    for q :: "(string \<times> string) list"
    by (simp split: option.split)
  ultimately show ?thesis
    by (simp add: local_simps http_scan_range_def json_answer_def get_or_default_def del: append.simps)
qed

lemma linked_scan_buckets:
  assumes "linked S J D N token locate hc" and "fits D (scan_buckets_json D
      \<lparr>sb_coll = coll, sb_buckets = buckets, sb_after = after, sb_limit = limit\<rparr>)"
    and some: "sc_scan_buckets (inproc S J) (local_client locate hc) coll buckets after (min limit 100000) w = Some r"
  shows "sc_scan_buckets (http_client D N) hc coll buckets after limit w = Some r"
proof -
  have D: "doc_laws D" using assms(1) by (simp add: linked_def)
  note [simp] = doc_law [OF D] rd_vec_json [OF D]
  obtain keys where keys: "shard_scan_buckets S (w_now w) (w_shards w (locate (hs_base hc))) coll buckets after
      (min limit 100000) = Some keys" and r: "r = (w, COk keys)"
    using some by (auto simp: local_simps)
  have "send_post D N hc ''/scanBuckets'' (scan_buckets_json D
        \<lparr>sb_coll = coll, sb_buckets = buckets, sb_after = after, sb_limit = limit\<rparr>) w =
      (w\<lparr>w_shards := (w_shards w)(locate (hs_base hc) := w_shards w (locate (hs_base hc)))\<rparr>,
       Inr \<lparr>rs_status = 200, rs_body = dj_to_string D (dj_object D [(''keys'', dj_array D (map (dj_str D) keys))])\<rparr>)"
    by (rule linked_post [OF assms(1)])
      (simp add: route_simps body_roundtrip(2) [OF D assms(2)] h_scan_buckets_def keys)
  then show ?thesis
    by (simp add: r http_client_def http_scan_buckets_def json_answer_def get_or_default_def)
qed

lemma linked_health: "linked S J D N token locate hc \<Longrightarrow> sc_health (http_client D N) hc w"
  using linked_get [of S J D N token locate hc "''/health''" None w
      "\<lparr>rs_status = 200, rs_body = dj_to_string D (dj_object D [(''ok'', dj_bool D True)])\<rparr>"]
  by (simp add: route_simps http_client_def http_health_def is_success_def)

text \<open>A body above the limit is refused, and nothing is imported.\<close>

lemma import_too_large:
  assumes "linked S J D N token locate hc" and "\<not> fits D (import_json D \<lparr>ib_coll = coll, ib_entries = entries\<rparr>)"
  shows "\<exists>e. sc_import_entries (http_client D N) hc coll entries w = (w, CErr e)"
proof -
  have "send_post D N hc ''/import'' (import_json D \<lparr>ib_coll = coll, ib_entries = entries\<rparr>) w =
      (w\<lparr>w_shards := (w_shards w)(locate (hs_base hc) := w_shards w (locate (hs_base hc)))\<rparr>,
       Inr \<lparr>rs_status = 413, rs_body = dj_message D 413\<rparr>)"
    by (rule linked_post [OF assms(1)])
      (use assms(2) in \<open>simp add: route_simps with_json_def rejection_def fits_def not_le\<close>)
  then show ?thesis by (simp add: http_client_def http_import_entries_def post_ok_def)
qed

subsection \<open>A client without the token\<close>

lemma refused:
  assumes "delivers Op D N (Some t) locate" and "hs_auth D hc \<noteq> Some (''Bearer '' @ t)"
    and "rq_authorization req = hs_auth D hc" and "\<not> open_path (rq_path req)"
  shows "N (hs_base hc) req w = (w, Inr \<lparr>rs_status = 401, rs_body = []\<rparr>)"
proof -
  have "require_bearer (Some t) req = Inl UNAUTHORIZED"
    using assms(2-4) by (auto simp: require_bearer_def bearer_layer_def presented_token_def strip_prefix_iff
        split: option.splits)
  then have srv: "shard_server Op D up (Some t) (w_now w) req nd = (nd, Some \<lparr>rs_status = 401, rs_body = []\<rparr>)" for up nd
    by (simp add: shard_server_def layered_def plain_status_def status_code_def)
  from assms(1) obtain up m where "\<And>nd r. shard_server Op D up (Some t) (w_now w) req
      \<lparr>nd_shard = w_shards w (locate (hs_base hc)), nd_metrics = m\<rparr> = (nd, r) \<Longrightarrow>
    fst (N (hs_base hc) req w) = w\<lparr>w_shards := (w_shards w)(locate (hs_base hc) := nd_shard nd)\<rparr> \<and>
    (case r of None \<Rightarrow> (\<exists>e. snd (N (hs_base hc) req w) = Inl e)
      | Some rs \<Rightarrow> snd (N (hs_base hc) req w) = Inr rs)"
    unfolding delivers_def by blast
  from this [OF srv] show ?thesis by (simp add: prod_eq_iff)
qed

subsection \<open>Clusters of remote shards\<close>

text \<open>A client record used through a translation of its clients.\<close>

definition via :: "('h \<Rightarrow> 'c) \<Rightarrow> ('c, 'w, 'v) shard_client \<Rightarrow> ('h, 'w, 'v) shard_client" where
  "via g C = \<lparr>
     sc_id = (\<lambda>h. sc_id C (g h)), sc_object = (\<lambda>h. sc_object C (g h)),
     sc_scan_range = (\<lambda>h. sc_scan_range C (g h)), sc_scan_buckets = (\<lambda>h. sc_scan_buckets C (g h)),
     sc_mget = (\<lambda>h. sc_mget C (g h)), sc_set_add = (\<lambda>h. sc_set_add C (g h)),
     sc_set_remove = (\<lambda>h. sc_set_remove C (g h)), sc_write_object = (\<lambda>h. sc_write_object C (g h)),
     sc_write_object_ttl = (\<lambda>h. sc_write_object_ttl C (g h)), sc_delete_object = (\<lambda>h. sc_delete_object C (g h)),
     sc_cas = (\<lambda>h. sc_cas C (g h)), sc_incr = (\<lambda>h. sc_incr C (g h)),
     sc_export_entries = (\<lambda>h. sc_export_entries C (g h)), sc_import_entries = (\<lambda>h. sc_import_entries C (g h)),
     sc_drop_buckets = (\<lambda>h. sc_drop_buckets C (g h)), sc_health = (\<lambda>h. sc_health C (g h)),
     sc_endpoint = (\<lambda>h. sc_endpoint C (g h)), sc_lease_acquire = (\<lambda>h. sc_lease_acquire C (g h))\<rparr>"

context reliable_client
begin

lemma via_reliable: "reliable_client (via g C) J (\<lambda>h. addr (g h)) peek alive wok"
  by (unfold_locales; (unfold via_def shard_client.simps)?)
    (rule peek_finite object mget write_object write_object_ttl delete_object set_add set_remove
      cas incr export_entries import_entries drop_buckets lease_acquire; assumption)+

end

lemma broadcast_cong:
  "(\<And>n c w. client_of cl n = Some c \<Longrightarrow> f c w = g c w) \<Longrightarrow> broadcast cl key f w = broadcast cl key g w"
proof -
  assume "\<And>n c w. client_of cl n = Some c \<Longrightarrow> f c w = g c w"
  then have "broadcast_to cl f ns w = broadcast_to cl g ns w" for ns
    by (induction ns arbitrary: w) (simp_all split: option.split)
  then show ?thesis by (simp add: broadcast_def)
qed

lemma replicate_cong:
  "(\<And>n c w. client_of cl n = Some c \<Longrightarrow> sc_write_object C c coll key v w = sc_write_object C' c coll key v w) \<Longrightarrow>
   replicate_to C cl coll key v ns w = replicate_to C' cl coll key v ns w"
  by (induction ns arbitrary: w) (simp_all split: option.split)

definition all_linked :: "('s, 'v) index_store \<Rightarrow> 'v json \<Rightarrow> 'v doc \<Rightarrow> 's world network \<Rightarrow> string option
    \<Rightarrow> (string \<Rightarrow> nat) \<Rightarrow> http_shard_client cluster \<Rightarrow> bool" where
  "all_linked S J D N token locate cl \<longleftrightarrow> doc_laws D \<and> delivers (ops_of_shard S J) D N token locate \<and>
     list_all (\<lambda>(n, hc). authorized D token hc) (cl_clients cl)"

lemma all_linkedD: "all_linked S J D N token locate cl \<Longrightarrow> client_of cl n = Some hc \<Longrightarrow> linked S J D N token locate hc"
  by (auto simp: all_linked_def linked_def list_all_iff client_of_def dest: map_of_SomeD)

lemma http_cluster_get:
  assumes "all_linked S J D N token locate cl"
  shows "cluster_get (http_client D N) cl coll key w =
    apsnd (nonnull D) (cluster_get (via (local_client locate) (inproc S J)) cl coll key w)"
proof -
  have "read_first (http_client D N) cl coll key ns w =
      apsnd (nonnull D) (read_first (via (local_client locate) (inproc S J)) cl coll key ns w)" for ns
    by (induction ns)
      (auto simp: via_def inproc_def with_read_def local_client_def inproc_new_def nonnull_def
        linked_reads(1) [OF all_linkedD [OF assms]] split: option.split)
  then show ?thesis by (simp add: cluster_get_def)
qed

lemma http_cluster_writes:
  fixes S J
  assumes "all_linked S J D N token locate cl"
  defines "L \<equiv> via (local_client locate) (inproc S J)"
  shows "fits D (write_json D \<lparr>wb_coll = coll, wb_key = key, wb_obj = obj, wb_ttl_ms = None\<rparr>) \<Longrightarrow>
      cluster_put (http_client D N) cl coll key obj w = cluster_put L cl coll key obj w"
    and "fits D (write_json D \<lparr>wb_coll = coll, wb_key = key, wb_obj = obj, wb_ttl_ms = Some ttl\<rparr>) \<Longrightarrow>
      cluster_put_ttl (http_client D N) cl coll key obj ttl w = cluster_put_ttl L cl coll key obj ttl w"
    and "fits D (delete_json D \<lparr>db_coll = coll, db_key = key\<rparr>) \<Longrightarrow>
      cluster_delete (http_client D N) cl coll key w = cluster_delete L cl coll key w"
    and "fits D (set_json D \<lparr>se_coll = coll, se_key = key, se_member = member\<rparr>) \<Longrightarrow>
      cluster_set_add (http_client D N) cl coll key member w = cluster_set_add L cl coll key member w \<and>
      cluster_set_remove (http_client D N) cl coll key member w = cluster_set_remove L cl coll key member w"
proof -
  note l = all_linkedD [OF assms(1)]
  show "cluster_put (http_client D N) cl coll key obj w = cluster_put L cl coll key obj w"
    if "fits D (write_json D \<lparr>wb_coll = coll, wb_key = key, wb_obj = obj, wb_ttl_ms = None\<rparr>)"
    unfolding cluster_put_def L_def
    by (rule broadcast_cong) (simp add: via_def linked_write_object [OF l that])
  show "cluster_put_ttl (http_client D N) cl coll key obj ttl w = cluster_put_ttl L cl coll key obj ttl w"
    if "fits D (write_json D \<lparr>wb_coll = coll, wb_key = key, wb_obj = obj, wb_ttl_ms = Some ttl\<rparr>)"
    unfolding cluster_put_ttl_def L_def
    by (rule broadcast_cong) (simp add: via_def linked_write_object_ttl [OF l that])
  show "cluster_delete (http_client D N) cl coll key w = cluster_delete L cl coll key w"
    if "fits D (delete_json D \<lparr>db_coll = coll, db_key = key\<rparr>)"
    unfolding cluster_delete_def L_def
    by (rule broadcast_cong) (simp add: via_def linked_delete_object [OF l that])
  show "cluster_set_add (http_client D N) cl coll key member w = cluster_set_add L cl coll key member w \<and>
      cluster_set_remove (http_client D N) cl coll key member w = cluster_set_remove L cl coll key member w"
    if "fits D (set_json D \<lparr>se_coll = coll, se_key = key, se_member = member\<rparr>)"
    unfolding cluster_set_add_def cluster_set_remove_def L_def
    by (intro conjI; rule broadcast_cong) (simp_all add: via_def linked_set_add [OF l that] linked_set_remove [OF l that])
qed

lemma http_cluster_cas:
  assumes "all_linked S J D N token locate cl"
    and "fits D (cas_json D \<lparr>cb_coll = coll, cb_key = key, cb_expect = expect, cb_new = new\<rparr>)"
    and "fits D (write_json D \<lparr>wb_coll = coll, wb_key = key, wb_obj = new, wb_ttl_ms = None\<rparr>)"
  shows "cluster_cas (http_client D N) cl coll key expect new w =
    cluster_cas (via (local_client locate) (inproc S J)) cl coll key (nonnull D expect) new w"
proof -
  note l = all_linkedD [OF assms(1)]
  have "replicate_to (http_client D N) cl coll key new ns w =
      replicate_to (via (local_client locate) (inproc S J)) cl coll key new ns w" for ns w
    by (rule replicate_cong) (simp add: via_def linked_write_object [OF l assms(3)])
  then show ?thesis
    by (simp add: cluster_cas_def linked_cas [OF l assms(2)] via_def [of _ "inproc S J"] split: list.split option.split)
qed

subsection \<open>A concrete document format and network\<close>

text \<open>Documents are tagged strings; the parts of an array or object are quoted character by character.\<close>

definition quote :: "string \<Rightarrow> string" where
  "quote s = concat (map (\<lambda>c. [CHR ''1'', c]) s) @ ''0''"

fun unquote :: "string \<Rightarrow> (string \<times> string) option" where
  "unquote (b # s) = (if b = CHR ''0'' then Some ([], s)
     else case s of [] \<Rightarrow> None | c # r \<Rightarrow> map_option (apfst ((#) c)) (unquote r))"
| "unquote [] = None"

fun unquotes :: "nat \<Rightarrow> string \<Rightarrow> string list" where
  "unquotes 0 s = []"
| "unquotes (Suc n) s = (case unquote s of None \<Rightarrow> [] | Some (x, r) \<Rightarrow> x # unquotes n r)"

fun pair_up :: "'a list \<Rightarrow> ('a \<times> 'a) list" where
  "pair_up (a # b # xs) = (a, b) # pair_up xs"
| "pair_up _ = []"

definition flatten :: "('a \<times> 'a) list \<Rightarrow> 'a list" where
  "flatten ps = concat (map (\<lambda>(a, b). [a, b]) ps)"

definition parts :: "string \<Rightarrow> string list" where
  "parts s = unquotes (length s) s"

definition untag :: "char \<Rightarrow> string \<Rightarrow> string option" where
  "untag t s = (case s of [] \<Rightarrow> None | c # r \<Rightarrow> if c = t then Some r else None)"

definition text_doc :: "string doc" where
  "text_doc = \<lparr>dj_null = ''n'', dj_bool = (\<lambda>b. if b then ''T'' else ''F''), dj_usize = (\<lambda>n. CHR ''#'' # show_nat n),
     dj_u64 = (\<lambda>n. CHR ''u'' # show_u64 n), dj_i64 = (\<lambda>n. CHR ''i'' # show_i64 n), dj_str = (\<lambda>s. CHR ''s'' # s),
     dj_array = (\<lambda>vs. CHR ''a'' # concat (map quote vs)), dj_object = (\<lambda>fs. CHR ''o'' # concat (map quote (flatten fs))),
     dj_is_null = (\<lambda>v. v = ''n''),
     dj_as_bool = (\<lambda>v. if v = ''T'' then Some True else if v = ''F'' then Some False else None),
     dj_as_usize = (\<lambda>v. Option.bind (untag (CHR ''#'') v) parse_nat),
     dj_as_u64 = (\<lambda>v. Option.bind (untag (CHR ''u'') v) parse_u64),
     dj_as_i64 = (\<lambda>v. Option.bind (untag (CHR ''i'') v) parse_i64),
     dj_as_str = untag (CHR ''s''), dj_as_array = (\<lambda>v. map_option parts (untag (CHR ''a'') v)),
     dj_get = (\<lambda>v k. Option.bind (untag (CHR ''o'') v) (\<lambda>r. map_of (pair_up (parts r)) k)),
     dj_to_string = (\<lambda>v. CHR ''='' # v), dj_from_str = untag (CHR ''=''),
     dj_fields = (\<lambda>names s. case Option.bind (untag (CHR ''='') s) (untag (CHR ''o'')) of
       None \<Rightarrow> Inl 422 | Some r \<Rightarrow> Inr (pair_up (parts r))),
     dj_to_query = (\<lambda>ps. concat (map quote (flatten ps))), dj_from_query = (\<lambda>s. Some (pair_up (parts s))),
     dj_message = show_nat, dj_header_ok = (\<lambda>s. True)\<rparr>"

definition text_json :: "string json" where
  "text_json = \<lparr>js_eq = (=), js_of_strings = (\<lambda>xs. dj_array text_doc (map (dj_str text_doc) xs)),
     js_to_strings = rd_vec text_doc (dj_as_str text_doc), js_of_i64 = dj_i64 text_doc, js_as_i64 = dj_as_i64 text_doc,
     js_as_str = dj_as_str text_doc,
     js_of_lease = (\<lambda>l. dj_object text_doc [(''holder'', dj_str text_doc (ls_holder l)),
       (''expires_ms'', dj_u64 text_doc (ls_expires_ms l)), (''token'', dj_u64 text_doc (ls_token l))]),
     js_to_lease = (\<lambda>v. do {
       h \<leftarrow> Option.bind (dj_get text_doc v ''holder'') (dj_as_str text_doc);
       e \<leftarrow> Option.bind (dj_get text_doc v ''expires_ms'') (dj_as_u64 text_doc);
       t \<leftarrow> Option.bind (dj_get text_doc v ''token'') (dj_as_u64 text_doc);
       Some \<lparr>ls_holder = h, ls_expires_ms = e, ls_token = t\<rparr> })\<rparr>"

text \<open>A network without failures.\<close>

definition direct_network :: "('s shard, 'v) shard_ops \<Rightarrow> 'v doc \<Rightarrow> string option \<Rightarrow> (string \<Rightarrow> nat)
    \<Rightarrow> 's world network" where
  "direct_network Op D token locate base req w =
     (let (nd, r) = shard_server Op D ''0.000'' token (w_now w) req
            \<lparr>nd_shard = w_shards w (locate base), nd_metrics = metrics_zero\<rparr> in
      (w\<lparr>w_shards := (w_shards w)(locate base := nd_shard nd)\<rparr>,
       case r of None \<Rightarrow> Inl ''timed out'' | Some rs \<Rightarrow> Inr rs))"

lemma direct_delivers: "delivers Op D (direct_network Op D token locate) token locate"
  unfolding delivers_def
  by (intro allI exI [of _ "''0.000''"] exI [of _ metrics_zero]) (simp add: direct_network_def split: option.split)

text \<open>One server that asks for a token, and a client that has it.\<close>

definition text_net :: "string memory_store world network" where
  "text_net = direct_network (ops_of_shard memory_index text_json) text_doc (Some ''tok'') (\<lambda>_. 0)"

definition text_client :: http_shard_client where
  "text_client = http_new_authed ''n0'' ''http://n0/'' (Some ''tok'')"

definition text_world :: "string memory_store world" where
  "text_world = \<lparr>w_shards = (\<lambda>a. shard_new [] mem_new), w_now = 5\<rparr>"

lemma unquote_quote: "unquote (quote s @ r) = Some (s, r)"
  by (induction s) (simp_all add: quote_def)

lemma parts_quoted [simp]: "parts (concat (map quote xs)) = xs"
proof -
  have "unquotes n (concat (map quote xs)) = xs" if "length xs \<le> n" for n
    using that
  proof (induction xs arbitrary: n)
    case Nil
    then show ?case by (cases n) simp_all
  next
    case (Cons x xs)
    then show ?case by (cases n) (simp_all add: unquote_quote)
  qed
  moreover have "length xs \<le> length (concat (map quote xs))"
    by (induction xs) (simp_all add: quote_def)
  ultimately show ?thesis by (simp add: parts_def)
qed

lemma pair_flatten [simp]: "pair_up (flatten ps) = ps"
  by (induction ps) (auto simp: flatten_def)

lemma text_doc_laws: "doc_laws text_doc"
  by (simp add: doc_laws_def text_doc_def untag_def parse_show_nat)

lemma text_linked: "linked memory_index text_json text_doc text_net (Some ''tok'') (\<lambda>_. 0) text_client"
  by (simp add: linked_def text_doc_laws text_net_def direct_delivers authorized_def text_client_def http_new_authed_def hs_auth_def)
    (simp add: text_doc_def)

lemma text_fits: "fits text_doc (write_json text_doc \<lparr>wb_coll = ''kv'', wb_key = ''k'', wb_obj = ''s7'', wb_ttl_ms = None\<rparr>)"
  by (simp add: fits_def write_json_def text_doc_def flatten_def quote_def BODY_LIMIT_def)

text \<open>Clusters of remote shards with in-memory stores.\<close>

definition http_cluster_ok :: "'v json \<Rightarrow> 'v doc \<Rightarrow> 'v memory_store world network \<Rightarrow> string option
    \<Rightarrow> (string \<Rightarrow> nat) \<Rightarrow> http_shard_client cluster \<Rightarrow> 'v memory_store world \<Rightarrow> bool" where
  "http_cluster_ok J D N token locate cl w \<longleftrightarrow> all_linked memory_index J D N token locate cl \<and>
     routing_ok cl \<and> addr_inj (\<lambda>hc. locate (hs_base hc)) cl \<and> inproc_ok mem_ok w"

abbreviation http_placed :: "(string \<Rightarrow> nat) \<Rightarrow> http_shard_client cluster \<Rightarrow> (string \<Rightarrow> string \<Rightarrow> 'v option)
    \<Rightarrow> 'v memory_store world \<Rightarrow> bool" where
  "http_placed locate \<equiv> placed (\<lambda>hc. locate (hs_base hc)) (inproc_peek memory_index) UNIV"

text \<open>Two remote members with an empty store each, replication 2.\<close>

definition text_locate :: "string \<Rightarrow> nat" where
  "text_locate base = (if base = ''http://n0'' then 0 else 1)"

definition text_net2 :: "string memory_store world network" where
  "text_net2 = direct_network (ops_of_shard memory_index text_json) text_doc (Some ''tok'') text_locate"

definition http_two :: "http_shard_client cluster" where
  "http_two = cluster_new [(''n0'', http_new_authed ''n0'' ''http://n0'' (Some ''tok'')),
     (''n1'', http_new_authed ''n1'' ''http://n1'' (Some ''tok''))] 2 [''kv'']"

lemma http_two_start:
  "http_cluster_ok text_json text_doc text_net2 (Some ''tok'') text_locate http_two text_world"
  "http_placed text_locate http_two (\<lambda>c k. None) text_world"
  "served http_two k"
proof -
  have "owners http_two k = owners two_nodes k"
    by (simp add: owners_def http_two_def two_nodes_def cluster_new_def)
  then have own: "set (owners http_two k) = {''n0'', ''n1''}" by (simp add: owners_two_nodes)
  have clients: "cl_clients http_two = [(''n0'', http_new_authed ''n0'' ''http://n0'' (Some ''tok'')),
      (''n1'', http_new_authed ''n1'' ''http://n1'' (Some ''tok''))]"
    "cl_down http_two = {}" "cl_overlay http_two = None"
    by (simp_all add: http_two_def cluster_new_def)
  have "cluster_ok http_two"
    by (simp add: http_two_def cluster_new_def cluster_ok_def partitioner_ok_new clamp_def CHUNK_def)
  then have rt: "routing_ok http_two" by (rule routing_ok_stable) (simp add: clients)
  have inj: "addr_inj (\<lambda>hc. text_locate (hs_base hc)) http_two"
    by (simp add: addr_inj_def client_of_def clients http_new_authed_def trim_end_slash_def text_locate_def)
  have auth: "all_linked memory_index text_json text_doc text_net2 (Some ''tok'') text_locate http_two"
    by (simp add: all_linked_def text_doc_laws text_net2_def direct_delivers clients authorized_def http_new_authed_def hs_auth_def)
      (simp add: text_doc_def)
  show "http_cluster_ok text_json text_doc text_net2 (Some ''tok'') text_locate http_two text_world"
    using rt inj auth mem_ok_new [unfolded mem_new_def]
    by (simp add: http_cluster_ok_def inproc_ok_def text_world_def shard_new_def mem_new_def)
  show "http_placed text_locate http_two (\<lambda>c k. None) text_world"
    by (simp add: placed_def inproc_peek_def text_world_def shard_new_def mem_eval)
  show "served http_two k"
    by (simp add: served_def list_ex_iff own clients client_of_def)
qed

text \<open>
  A cluster of remote shards refines a map. When its clients are linked to servers that
  hold the content placed by ownership, a read returns the content of the key, with a JSON null as
  absent, and every write whose body fits updates exactly that key on every live owner, on the
  shards behind the network, and keeps the placement.
\<close>

lemma http_cluster_map:
  assumes "http_cluster_ok J D N token locate cl w" and "http_placed locate cl content w"
    and "coll \<in> set (cl_colls cl)"
  defines "H \<equiv> http_client D N"
    and "keeps \<equiv> \<lambda>c' w'. http_cluster_ok J D N token locate cl w' \<and> http_placed locate cl c' w'"
  shows "(served cl key \<longrightarrow> cluster_get H cl coll key w = (w, nonnull D (content coll key)))
    \<and> (fits D (write_json D \<lparr>wb_coll = coll, wb_key = key, wb_obj = v, wb_ttl_ms = None\<rparr>) \<longrightarrow>
        keeps (upd_content content coll key (Some v)) (cluster_put H cl coll key v w))
    \<and> (fits D (write_json D \<lparr>wb_coll = coll, wb_key = key, wb_obj = v, wb_ttl_ms = Some ttl\<rparr>) \<longrightarrow>
        keeps (upd_content content coll key (if ttl = 0 \<or> w_now w < w_now w + ttl then Some v else None))
          (cluster_put_ttl H cl coll key v ttl w))
    \<and> (fits D (delete_json D \<lparr>db_coll = coll, db_key = key\<rparr>) \<longrightarrow>
        keeps (upd_content content coll key None) (cluster_delete H cl coll key w))
    \<and> (fits D (set_json D \<lparr>se_coll = coll, se_key = key, se_member = m\<rparr>) \<longrightarrow>
        keeps (upd_content content coll key (added_value J m (content coll key))) (cluster_set_add H cl coll key m w) \<and>
        keeps (upd_content content coll key (removed_value J m (content coll key))) (cluster_set_remove H cl coll key m w))
    \<and> (fits D (cas_json D \<lparr>cb_coll = coll, cb_key = key, cb_expect = expect, cb_new = v\<rparr>) \<longrightarrow>
        fits D (write_json D \<lparr>wb_coll = coll, wb_key = key, wb_obj = v, wb_ttl_ms = None\<rparr>) \<longrightarrow> served cl key \<longrightarrow>
        (let (w', swapped) = cluster_cas H cl coll key expect v w in
          swapped = js_eq_opt J (content coll key) (nonnull D expect) \<and>
          keeps (upd_content content coll key (if swapped then Some v else content coll key)) w'))"
proof -
  have f: "all_linked memory_index J D N token locate cl" "routing_ok cl" "inproc_ok mem_ok w"
    and inj: "addr_inj (\<lambda>hc. locate (hs_base hc)) cl"
    using assms(1) by (simp_all add: http_cluster_ok_def)
  let ?L = "via (local_client locate) (mclient J)"
  have addr: "ic_shard (local_client locate hc) = locate (hs_base hc)" for hc
    by (simp add: local_client_def inproc_new_def)
  note rel = mem.ip.via_reliable [of "local_client locate" J, unfolded addr]
  note ops = reliable_client.data_ops_placed [OF rel inj f(3,2) assms(2)]
  have alive: "inproc_alive w ttl \<longleftrightarrow> ttl = 0 \<or> w_now w < w_now w + ttl" for ttl
    by (simp add: inproc_alive_def)
  have keeps: "keeps c' w' \<longleftrightarrow> inproc_ok mem_ok w' \<and> http_placed locate cl c' w'" for c' w'
    using f inj by (auto simp: keeps_def http_cluster_ok_def)
  have cas: "let (w', swapped) = cluster_cas ?L cl coll key (nonnull D expect) v w in
      swapped = js_eq_opt J (content coll key) (nonnull D expect) \<and>
      keeps (upd_content content coll key (if swapped then Some v else content coll key)) w'" if "served cl key"
    using reliable_client.cas_placed [OF rel inj f(3,2) assms(2,3) UNIV_I that prod.collapse, of "nonnull D expect" v]
    unfolding keeps split_beta Let_def by blast
  show ?thesis
    using reliable_client.get_placed [OF rel f(3) assms(2,3) UNIV_I] ops [of coll key] cas
    by (simp add: H_def keeps alive http_cluster_get [OF f(1)] http_cluster_writes [OF f(1)]
        http_cluster_cas [OF f(1)] split del: if_split)
qed

subsection \<open>Properties\<close>

text \<open>
  C12. A remote shard behaves as a local one. Over a network that delivers, with the token the server
  asks for, every call of the HTTP client has the effect and the result of the in-process client
  on the same shard, when its body is within the server's limit: only a stored JSON null reads as
  absent, a null expectation means absence, and a page of a scan is cut at 10000 keys (100000 for a
  scan by buckets).
\<close>

theorem http_client_as_inproc:
  assumes "linked S J D N token locate hc" and "limit < 2 ^ 64"
  defines "H \<equiv> http_client D N" and "L \<equiv> inproc S J" and "lc \<equiv> local_client locate hc"
  shows "sc_object H hc coll key w = (w, COk (nonnull D (shard_object S (w_now w) (w_shards w (ic_shard lc)) coll key)))
    \<and> (fits D (mget_json D \<lparr>mb_coll = coll, mb_keys = keys\<rparr>) \<longrightarrow> sc_mget H hc coll keys w =
        (w, COk (map (nonnull D) (shard_mget S (w_now w) (w_shards w (ic_shard lc)) coll keys))))
    \<and> sc_scan_range H hc coll after pre end limit w = sc_scan_range L lc coll after pre end (min limit 10000) w
    \<and> (fits D (scan_buckets_json D \<lparr>sb_coll = coll, sb_buckets = bs, sb_after = after, sb_limit = limit\<rparr>) \<longrightarrow>
        sc_scan_buckets L lc coll bs after (min limit 100000) w = Some r \<longrightarrow>
        sc_scan_buckets H hc coll bs after limit w = Some r)
    \<and> (fits D (set_json D \<lparr>se_coll = coll, se_key = key, se_member = member\<rparr>) \<longrightarrow>
        sc_set_add H hc coll key member w = sc_set_add L lc coll key member w \<and>
        sc_set_remove H hc coll key member w = sc_set_remove L lc coll key member w)
    \<and> (fits D (write_json D \<lparr>wb_coll = coll, wb_key = key, wb_obj = v, wb_ttl_ms = None\<rparr>) \<longrightarrow>
        sc_write_object H hc coll key v w = sc_write_object L lc coll key v w)
    \<and> (fits D (write_json D \<lparr>wb_coll = coll, wb_key = key, wb_obj = v, wb_ttl_ms = Some ttl\<rparr>) \<longrightarrow>
        sc_write_object_ttl H hc coll key v ttl w = sc_write_object_ttl L lc coll key v ttl w)
    \<and> (fits D (delete_json D \<lparr>db_coll = coll, db_key = key\<rparr>) \<longrightarrow>
        sc_delete_object H hc coll key w = sc_delete_object L lc coll key w)
    \<and> (fits D (cas_json D \<lparr>cb_coll = coll, cb_key = key, cb_expect = expect, cb_new = v\<rparr>) \<longrightarrow>
        sc_cas H hc coll key expect v w = sc_cas L lc coll key (nonnull D expect) v w)
    \<and> (fits D (incr_json D \<lparr>nb_coll = coll, nb_key = key, nb_delta = delta\<rparr>) \<longrightarrow>
        sc_incr H hc coll key delta w = sc_incr L lc coll key delta w)
    \<and> (fits D (bucket_json D \<lparr>bb_coll = coll, bb_buckets = bs\<rparr>) \<longrightarrow>
        sc_export_entries H hc coll bs w = sc_export_entries L lc coll bs w \<and>
        sc_drop_buckets H hc coll bs w = sc_drop_buckets L lc coll bs w)
    \<and> (fits D (import_json D \<lparr>ib_coll = coll, ib_entries = es\<rparr>) \<longrightarrow>
        sc_import_entries H hc coll es w = sc_import_entries L lc coll es w)
    \<and> (fits D (lease_json D \<lparr>lb_key = key, lb_holder = holder, lb_ttl_ms = ttl\<rparr>) \<longrightarrow>
        sc_lease_acquire H hc key holder ttl w = sc_lease_acquire L lc key holder ttl w)
    \<and> sc_health H hc w"
  using linked_reads [OF assms(1)] linked_scan_range [OF assms(1,2)] linked_scan_buckets [OF assms(1)]
    linked_set_add [OF assms(1)] linked_set_remove [OF assms(1)] linked_write_object [OF assms(1)]
    linked_write_object_ttl [OF assms(1)] linked_delete_object [OF assms(1)] linked_cas [OF assms(1)]
    linked_incr [OF assms(1)] linked_export_entries [OF assms(1)] linked_drop_buckets [OF assms(1)]
    linked_import_entries [OF assms(1)] linked_lease_acquire [OF assms(1)] linked_health [OF assms(1)]
  by (simp add: H_def L_def lc_def local_client_def inproc_new_def)

theorem http_client_as_inproc_witness:
  "snd (sc_object (http_client text_doc text_net) text_client ''kv'' ''k''
     (fst (sc_write_object (http_client text_doc text_net) text_client ''kv'' ''k'' ''s7'' text_world))) = COk (Some ''s7'')"
proof -
  note call = http_client_as_inproc [OF text_linked, of 1 "''kv''" "''k''" _ "[]" None None None "[]" _ "[]" "''s7''"]
  have "sc_write_object (http_client text_doc text_net) text_client ''kv'' ''k'' ''s7'' text_world =
      sc_write_object (mclient text_json) (local_client (\<lambda>_. 0) text_client) ''kv'' ''k'' ''s7'' text_world"
    using call by (simp add: text_fits)
  then show ?thesis
    using call by (simp add: inproc_def with_write_def local_client_def inproc_new_def shard_object_def
        shard_write_object_def mem_eval nonnull_def text_doc_def text_world_def shard_new_def)
qed

text \<open>
  Without the right token a client can do nothing. At a server that asks for a token, every
  data call of a client that does not present it is an error and leaves all shards as they were;
  the health probe, which needs no token, still succeeds.
\<close>

theorem http_wrong_token:
  assumes "doc_laws D" and "delivers (ops_of_shard S J) D N (Some t) locate"
    and "hs_auth D hc \<noteq> Some (''Bearer '' @ t)"
  defines "H \<equiv> http_client D N"
  shows "(\<exists>e. sc_object H hc coll key w = (w, CErr e)) \<and> (\<exists>e. sc_mget H hc coll keys w = (w, CErr e))
    \<and> (\<exists>e. sc_scan_range H hc coll after pre end limit w = (w, CErr e))
    \<and> (\<exists>e. sc_scan_buckets H hc coll bs after limit w = Some (w, CErr e))
    \<and> (\<exists>e. sc_set_add H hc coll key member w = (w, CErr e))
    \<and> (\<exists>e. sc_set_remove H hc coll key member w = (w, CErr e))
    \<and> (\<exists>e. sc_write_object H hc coll key v w = (w, CErr e))
    \<and> (\<exists>e. sc_write_object_ttl H hc coll key v ttl w = (w, CErr e))
    \<and> (\<exists>e. sc_delete_object H hc coll key w = (w, CErr e)) \<and> (\<exists>e. sc_cas H hc coll key expect v w = (w, CErr e))
    \<and> (\<exists>e. sc_incr H hc coll key delta w = (w, CErr e)) \<and> (\<exists>e. sc_export_entries H hc coll bs w = (w, CErr e))
    \<and> (\<exists>e. sc_import_entries H hc coll es w = (w, CErr e)) \<and> (\<exists>e. sc_drop_buckets H hc coll bs w = (w, CErr e))
    \<and> (\<exists>e. sc_lease_acquire H hc key holder ttl w = (w, CErr e)) \<and> sc_health H hc w"
proof -
  have post: "send_post D N hc path body w = (w, Inr \<lparr>rs_status = 401, rs_body = []\<rparr>)"
    and get: "send_get D N hc path q w = (w, Inr \<lparr>rs_status = 401, rs_body = []\<rparr>)" if "\<not> open_path path" for path body q
    using that unfolding send_post_def send_get_def by (simp_all add: refused [OF assms(2,3)])
  have "send_get D N hc ''/health'' None w = (w, Inr \<lparr>rs_status = 200,
      rs_body = dj_to_string D (dj_object D [(''ok'', dj_bool D True)])\<rparr>)"
    unfolding send_get_def by (rule open_delivered [OF assms(2)]) (simp_all add: open_path_def route_simps)
  then show ?thesis
    by (simp add: H_def http_client_def http_object_def http_mget_def http_scan_range_def http_scan_buckets_def
        http_set_add_def http_set_remove_def http_write_object_def http_write_object_ttl_def http_delete_object_def
        http_cas_def http_incr_def http_export_entries_def http_import_entries_def http_drop_buckets_def
        http_lease_acquire_def http_health_def post_ok_def is_success_def Let_def post get open_path_def
        json_answer_def doc_law [OF assms(1)])
qed

end
