(* ===== verification/Smart.thy ===== *)
theory Smart
  imports Net
begin

text \<open>
  The direct-to-shard client, \<^verbatim>\<open>src/smart.rs\<close>: it holds a routing view (members, their clients, a
  partitioner and a replication factor) and routes every operation to the owning shards itself.

  The record \<open>smart_client\<close> is the struct without its HTTP handle; the clients are those of a client
  record \<open>C\<close>, as in \<open>Cluster\<close>. The clients it builds itself are those of \<^verbatim>\<open>HttpShardClient::new_authed\<close>
  in \<open>Net\<close>. The HTTP request of \<^verbatim>\<open>refresh\<close> is the parameter
  \<open>fetch\<close>, and the reading of the JSON answer the parameter \<open>json_read\<close>.
\<close>

subsection \<open>The routing view\<close>

record 'c smart_client =
  sm_partitioner :: partitioner
  sm_clients :: "(node_id, 'c) hashmap"
  sm_replication :: nat
  sm_epoch :: u64
  sm_coordinator :: "string option"
  sm_token :: "string option"

definition smart_new :: "(node_id, 'c) hashmap \<Rightarrow> nat \<Rightarrow> 'c smart_client" where
  "smart_new clients replication =
     \<lparr>sm_partitioner = partitioner_new (hm_keys clients), sm_clients = clients,
      sm_replication = max replication 1, sm_epoch = 0, sm_coordinator = None, sm_token = None\<rparr>"

definition smart_with_token :: "string \<Rightarrow> 'c smart_client \<Rightarrow> 'c smart_client" where
  "smart_with_token token sc = sc\<lparr>sm_token := Some token\<rparr>"

definition smart_with_coordinator :: "string \<Rightarrow> 'c smart_client \<Rightarrow> 'c smart_client" where
  "smart_with_coordinator url sc = sc\<lparr>sm_coordinator := Some (trim_end_slash url)\<rparr>"

definition build_clients :: "(node_id \<times> string) list \<Rightarrow> string option
    \<Rightarrow> (node_id, http_shard_client) hashmap" where
  "build_clients members token =
     fold (\<lambda>(n, ep). hm_insert n (http_new_authed n ep token)) (filter (\<lambda>(n, ep). ep \<noteq> []) members) []"

definition from_endpoints :: "(node_id \<times> string) list \<Rightarrow> nat \<Rightarrow> http_shard_client smart_client" where
  "from_endpoints members replication = smart_new (build_clients members None) replication"

definition smart_member_ids :: "'c smart_client \<Rightarrow> node_id list" where
  "smart_member_ids sc = sort (list_nodes (sm_partitioner sc))"

definition update_membership :: "(node_id \<times> string) list \<Rightarrow> u64 \<Rightarrow> http_shard_client smart_client
    \<Rightarrow> http_shard_client smart_client" where
  "update_membership members epoch sc =
     (let clients = build_clients members (sm_token sc) in
      sc\<lparr>sm_clients := clients, sm_partitioner := set_nodes (sm_partitioner sc) (hm_keys clients),
         sm_epoch := epoch\<rparr>)"

record 'v json_read =
  jr_get :: "'v \<Rightarrow> string \<Rightarrow> 'v option"
  jr_as_u64 :: "'v \<Rightarrow> u64 option"
  jr_as_array :: "'v \<Rightarrow> 'v list option"
  jr_as_str :: "'v \<Rightarrow> string option"

definition member_entry :: "'v json_read \<Rightarrow> 'v \<Rightarrow> (node_id \<times> string) option" where
  "member_entry R m =
     (case (jr_get R m ''id'', jr_get R m ''endpoint'') of
        (Some i, Some e) \<Rightarrow>
          (case (jr_as_str R i, jr_as_str R e) of (Some n, Some ep) \<Rightarrow> Some (n, ep) | _ \<Rightarrow> None)
      | _ \<Rightarrow> None)"

definition members_of :: "'v json_read \<Rightarrow> 'v \<Rightarrow> (node_id \<times> string) list" where
  "members_of R v =
     (case jr_get R v ''members'' of
        None \<Rightarrow> []
      | Some m \<Rightarrow> (case jr_as_array R m of None \<Rightarrow> [] | Some arr \<Rightarrow> List.map_filter (member_entry R) arr))"

definition smart_refresh :: "'v json_read \<Rightarrow> (string \<Rightarrow> string option \<Rightarrow> string + 'v)
    \<Rightarrow> http_shard_client smart_client \<Rightarrow> http_shard_client smart_client \<times> (string + bool)" where
  "smart_refresh R fetch sc =
     (case sm_coordinator sc of
        None \<Rightarrow> (sc, Inr False)
      | Some url \<Rightarrow>
          (case fetch (url @ ''/members'') (sm_token sc) of
             Inl e \<Rightarrow> (sc, Inl e)
           | Inr v \<Rightarrow>
               (let epoch = (case jr_get R v ''epoch'' of None \<Rightarrow> 0
                    | Some e \<Rightarrow> (case jr_as_u64 R e of None \<Rightarrow> 0 | Some n \<Rightarrow> n)) in
                if epoch \<noteq> 0 \<and> epoch = sm_epoch sc \<and> smart_member_ids sc \<noteq> [] then (sc, Inr False)
                else let members = members_of R v in
                  if members = [] then (sc, Inl ''coordinator returned no members'')
                  else (update_membership members epoch sc, Inr True))))"

definition from_coordinator_authed :: "'v json_read \<Rightarrow> (string \<Rightarrow> string option \<Rightarrow> string + 'v) \<Rightarrow> string
    \<Rightarrow> nat \<Rightarrow> string option \<Rightarrow> string + http_shard_client smart_client" where
  "from_coordinator_authed R fetch url replication token =
     (let sc = smart_with_coordinator url (smart_new [] replication);
          sc = (case token of None \<Rightarrow> sc | Some t \<Rightarrow> smart_with_token t sc) in
      case smart_refresh R fetch sc of (sc, Inl e) \<Rightarrow> Inl e | (sc, Inr _) \<Rightarrow> Inr sc)"

definition from_coordinator :: "'v json_read \<Rightarrow> (string \<Rightarrow> string option \<Rightarrow> string + 'v) \<Rightarrow> string
    \<Rightarrow> nat \<Rightarrow> string + http_shard_client smart_client" where
  "from_coordinator R fetch url replication = from_coordinator_authed R fetch url replication None"

subsection \<open>Routing and the data plane\<close>

definition smart_owners :: "'c smart_client \<Rightarrow> string \<Rightarrow> node_id list" where
  "smart_owners sc key = replica_set (sm_partitioner sc) key (sm_replication sc)"

definition smart_route :: "'c smart_client \<Rightarrow> string \<Rightarrow> node_id list" where
  "smart_route sc key = smart_owners sc key"

definition smart_client_of :: "'c smart_client \<Rightarrow> node_id \<Rightarrow> 'c option" where
  "smart_client_of sc n = hm_get (sm_clients sc) n"

fun smart_read :: "('c, 'w, 'v) shard_client \<Rightarrow> 'c smart_client \<Rightarrow> string \<Rightarrow> string \<Rightarrow> node_id list
    \<Rightarrow> 'w \<Rightarrow> 'w \<times> 'v option" where
  "smart_read C sc coll key [] w = (w, None)"
| "smart_read C sc coll key (n # ns) w =
     (case smart_client_of sc n of
        None \<Rightarrow> smart_read C sc coll key ns w
      | Some c \<Rightarrow> (case sc_object C c coll key w of
            (w, COk ov) \<Rightarrow> (w, ov) | (w, CErr e) \<Rightarrow> smart_read C sc coll key ns w))"

definition smart_get :: "('c, 'w, 'v) shard_client \<Rightarrow> 'c smart_client \<Rightarrow> string \<Rightarrow> string
    \<Rightarrow> 'w \<Rightarrow> 'w \<times> 'v option" where
  "smart_get C sc coll key w = smart_read C sc coll key (smart_owners sc key) w"

fun smart_scan_clients :: "('c, 'w, 'v) shard_client \<Rightarrow> string \<Rightarrow> string option \<Rightarrow> string option
    \<Rightarrow> string option \<Rightarrow> nat \<Rightarrow> 'c list \<Rightarrow> string set \<Rightarrow> 'w \<Rightarrow> 'w \<times> string set" where
  "smart_scan_clients C coll after pre end limit [] merged w = (w, merged)"
| "smart_scan_clients C coll after pre end limit (c # cs) merged w =
     (case sc_scan_range C c coll after pre end limit w of
        (w, COk keys) \<Rightarrow> smart_scan_clients C coll after pre end limit cs (merged \<union> set keys) w
      | (w, CErr e) \<Rightarrow> smart_scan_clients C coll after pre end limit cs merged w)"

definition smart_scan_range :: "('c, 'w, 'v) shard_client \<Rightarrow> 'c smart_client \<Rightarrow> string \<Rightarrow> string option
    \<Rightarrow> string option \<Rightarrow> string option \<Rightarrow> nat \<Rightarrow> 'w \<Rightarrow> 'w \<times> string list \<times> string option" where
  "smart_scan_range C sc coll after pre end limit w =
     (let (w, merged) = smart_scan_clients C coll after pre end limit (map snd (sm_clients sc)) {} w;
          page = take limit (sorted_list_of_set merged);
          cursor = (if limit \<le> length page \<and> page \<noteq> [] then Some (last page) else None) in
      (w, page, cursor))"

definition smart_scan_keys :: "('c, 'w, 'v) shard_client \<Rightarrow> 'c smart_client \<Rightarrow> string \<Rightarrow> string option
    \<Rightarrow> nat \<Rightarrow> 'w \<Rightarrow> 'w \<times> string list \<times> string option" where
  "smart_scan_keys C sc coll after limit = smart_scan_range C sc coll after None None limit"

definition smart_partitions :: "('c, 'w, 'v) shard_client \<Rightarrow> 'c smart_client \<Rightarrow> partition list" where
  "smart_partitions C sc =
     sort_key pn_id (map (\<lambda>(n, buckets).
       \<lparr>pn_id = n,
        pn_endpoint = (case smart_client_of sc n of None \<Rightarrow> [] | Some c \<Rightarrow> sc_endpoint C c),
        pn_buckets = buckets\<rparr>)
       (fold hm_push (concat (map (\<lambda>b. case owners_of_bucket (sm_partitioner sc) b 1 of
            [] \<Rightarrow> [] | primary # _ \<Rightarrow> [(primary, b)]) [0..<bucket_count (sm_partitioner sc)])) []))"

text \<open>The shard's bucket scan is a loop, so the result is an option, as in the client record.\<close>

definition smart_scan_partition :: "('c, 'w, 'v) shard_client \<Rightarrow> 'c smart_client \<Rightarrow> partition \<Rightarrow> string
    \<Rightarrow> string option \<Rightarrow> nat \<Rightarrow> 'w \<Rightarrow> ('w \<times> string list) option" where
  "smart_scan_partition C sc part coll after limit w =
     (case smart_client_of sc (pn_id part) of
        Some c \<Rightarrow> (case sc_scan_buckets C c coll (pn_buckets part) after limit w of
            None \<Rightarrow> None
          | Some (w, COk keys) \<Rightarrow> Some (w, keys)
          | Some (w, CErr e) \<Rightarrow> Some (w, []))
      | None \<Rightarrow> Some (w, []))"

definition smart_mget_groups :: "'c smart_client \<Rightarrow> string list \<Rightarrow> (node_id, nat list) hashmap" where
  "smart_mget_groups sc keys = fold hm_push
     (concat (map (\<lambda>i. case smart_owners sc (keys ! i) of [] \<Rightarrow> [] | owner # _ \<Rightarrow> [(owner, i)])
       [0..<length keys])) []"

text \<open>The groups are visited in the order in which they were made, where the code iterates over a \<^verbatim>\<open>HashMap\<close>: reads
  commute and every group fills its own positions.\<close>

fun smart_mget_nodes :: "('c, 'w, 'v) shard_client \<Rightarrow> 'c smart_client \<Rightarrow> string \<Rightarrow> string list
    \<Rightarrow> (node_id, nat list) hashmap \<Rightarrow> 'v option list \<Rightarrow> 'w \<Rightarrow> 'w \<times> 'v option list" where
  "smart_mget_nodes C sc coll keys [] out w = (w, out)"
| "smart_mget_nodes C sc coll keys ((n, idxs) # rest) out w =
     (case smart_client_of sc n of
        None \<Rightarrow> smart_mget_nodes C sc coll keys rest out w
      | Some c \<Rightarrow> (case sc_mget C c coll (map (\<lambda>i. keys ! i) idxs) w of
            (w, COk vals) \<Rightarrow> smart_mget_nodes C sc coll keys rest (mget_fill idxs vals out) w
          | (w, CErr e) \<Rightarrow> smart_mget_nodes C sc coll keys rest out w))"

definition smart_mget :: "('c, 'w, 'v) shard_client \<Rightarrow> 'c smart_client \<Rightarrow> string \<Rightarrow> string list
    \<Rightarrow> 'w \<Rightarrow> 'w \<times> 'v option list" where
  "smart_mget C sc coll keys w =
     smart_mget_nodes C sc coll keys (smart_mget_groups sc keys) (replicate (length keys) None) w"

text \<open>The loop that the five write operations share: the operation on the client of every owner.\<close>

fun to_owners :: "'c smart_client \<Rightarrow> ('c \<Rightarrow> 'w \<Rightarrow> 'w) \<Rightarrow> node_id list \<Rightarrow> 'w \<Rightarrow> 'w" where
  "to_owners sc oper [] w = w"
| "to_owners sc oper (n # ns) w =
     (case smart_client_of sc n of
        None \<Rightarrow> to_owners sc oper ns w
      | Some c \<Rightarrow> to_owners sc oper ns (oper c w))"

definition smart_put :: "('c, 'w, 'v) shard_client \<Rightarrow> 'c smart_client \<Rightarrow> string \<Rightarrow> string \<Rightarrow> 'v
    \<Rightarrow> 'w \<Rightarrow> 'w" where
  "smart_put C sc coll key obj w =
     to_owners sc (\<lambda>c w. fst (sc_write_object C c coll key obj w)) (smart_owners sc key) w"

definition smart_put_ttl :: "('c, 'w, 'v) shard_client \<Rightarrow> 'c smart_client \<Rightarrow> string \<Rightarrow> string \<Rightarrow> 'v \<Rightarrow> u64
    \<Rightarrow> 'w \<Rightarrow> 'w" where
  "smart_put_ttl C sc coll key obj ttl_ms w =
     to_owners sc (\<lambda>c w. fst (sc_write_object_ttl C c coll key obj ttl_ms w)) (smart_owners sc key) w"

definition smart_delete :: "('c, 'w, 'v) shard_client \<Rightarrow> 'c smart_client \<Rightarrow> string \<Rightarrow> string \<Rightarrow> 'w \<Rightarrow> 'w" where
  "smart_delete C sc coll key w =
     to_owners sc (\<lambda>c w. fst (sc_delete_object C c coll key w)) (smart_owners sc key) w"

definition smart_set_add :: "('c, 'w, 'v) shard_client \<Rightarrow> 'c smart_client \<Rightarrow> string \<Rightarrow> string \<Rightarrow> string
    \<Rightarrow> 'w \<Rightarrow> 'w" where
  "smart_set_add C sc coll key member w =
     to_owners sc (\<lambda>c w. fst (sc_set_add C c coll key member w)) (smart_owners sc key) w"

definition smart_set_remove :: "('c, 'w, 'v) shard_client \<Rightarrow> 'c smart_client \<Rightarrow> string \<Rightarrow> string \<Rightarrow> string
    \<Rightarrow> 'w \<Rightarrow> 'w" where
  "smart_set_remove C sc coll key member w =
     to_owners sc (\<lambda>c w. fst (sc_set_remove C c coll key member w)) (smart_owners sc key) w"

definition smart_cas :: "('c, 'w, 'v) shard_client \<Rightarrow> 'c smart_client \<Rightarrow> string \<Rightarrow> string \<Rightarrow> 'v option
    \<Rightarrow> 'v \<Rightarrow> 'w \<Rightarrow> 'w \<times> bool" where
  "smart_cas C sc coll key expect new w =
     (case smart_owners sc key of
        [] \<Rightarrow> (w, False)
      | primary # replicas \<Rightarrow>
          (case smart_client_of sc primary of
             None \<Rightarrow> (w, False)
           | Some pc \<Rightarrow>
               (let (w, res) = sc_cas C pc coll key expect new w;
                    is_set = (case res of COk b \<Rightarrow> b | CErr e \<Rightarrow> False) in
                if is_set then
                  (to_owners sc (\<lambda>c w. fst (sc_write_object C c coll key new w)) replicas w, True)
                else (w, False))))"

definition smart_incr :: "('c, 'w, 'v) shard_client \<Rightarrow> 'v json \<Rightarrow> 'c smart_client \<Rightarrow> string \<Rightarrow> string
    \<Rightarrow> i64 \<Rightarrow> 'w \<Rightarrow> 'w \<times> i64 option" where
  "smart_incr C J sc coll key delta w =
     (case smart_owners sc key of
        [] \<Rightarrow> (w, None)
      | primary # replicas \<Rightarrow>
          (case smart_client_of sc primary of
             None \<Rightarrow> (w, None)
           | Some pc \<Rightarrow>
               (case sc_incr C pc coll key delta w of
                  (w, COk (Some new)) \<Rightarrow>
                    (to_owners sc (\<lambda>c w. fst (sc_write_object C c coll key (js_of_i64 J new) w)) replicas w,
                     Some new)
                | (w, _) \<Rightarrow> (w, None))))"

subsection \<open>The same routing view as a coordinator\<close>

text \<open>
  A client whose members are the coordinator's ring, with the same shard clients and replication
  factor, against a coordinator that is not migrating, has no rack topology and marks no member
  down. Member ids have distinct hashes, so the order in which they are listed does not matter.
\<close>

definition same_view :: "'c smart_client \<Rightarrow> 'c cluster \<Rightarrow> bool" where
  "same_view sc cl \<longleftrightarrow> cluster_ok cl \<and> cl_overlay cl = None \<and> cl_topology cl = [] \<and> cl_down cl = {} \<and>
     partitioner_ok (sm_partitioner sc) \<and> pt_topology (sm_partitioner sc) = [] \<and>
     set (pt_nodes (sm_partitioner sc)) = set (pt_nodes (cl_partitioner cl)) \<and>
     inj_on fnv1a (set (pt_nodes (cl_partitioner cl))) \<and>
     map_of (sm_clients sc) = map_of (cl_clients cl) \<and> hm_ok (sm_clients sc) \<and>
     sm_replication sc = cl_replication_target cl \<and> 1 \<le> sm_replication sc"

lemma same_view_bucket:
  assumes "same_view sc cl" and "b < NUM_BUCKETS"
  shows "owners_of_bucket (sm_partitioner sc) b r = owners_of_bucket (cl_partitioner cl) b r"
  using assms by (intro owners_order_independent) (simp_all add: same_view_def cluster_ok_def)

lemma same_view_owners:
  assumes v: "same_view sc cl"
  shows "smart_owners sc key = owners cl key"
proof -
  let ?p = "cl_partitioner cl" and ?r = "sm_replication sc"
  have ok: "partitioner_ok ?p" "pt_topology ?p = []"
    and r: "cl_replication cl = clamp ?r (length (pt_nodes ?p))" "1 \<le> ?r"
    using v by (simp_all add: same_view_def cluster_ok_def)
  have len: "length (preference_list ?p key) = length (pt_nodes ?p)"
    by (simp add: preference_list_eq [OF ok(1)])
  have "take ?r (preference_list ?p key) = take (cl_replication cl) (preference_list ?p key)"
    using r by (cases "?r \<le> length (pt_nodes ?p)") (auto simp: clamp_def len)
  then show ?thesis
    using same_view_bucket [OF v bucket_of_less, of key ?r] v
    by (simp add: smart_owners_def owners_def replica_set_owners [symmetric] replica_set_plain [OF ok] same_view_def)
qed

lemma same_view_client: "same_view sc cl \<Longrightarrow> smart_client_of sc = client_of cl"
  by (simp add: same_view_def fun_eq_iff smart_client_of_def client_of_def)

lemma same_view_up: "same_view sc cl \<Longrightarrow> \<not> is_down cl n"
  by (simp add: same_view_def is_down_def)

lemma smart_read_eq: "same_view sc cl \<Longrightarrow> smart_read C sc coll key ns w = read_first C cl coll key ns w"
  by (induction ns arbitrary: w)
    (auto simp: same_view_client same_view_up split: option.splits cresult.splits prod.splits)

lemma to_owners_eq: "same_view sc cl \<Longrightarrow> to_owners sc oper ns w = broadcast_to cl oper ns w"
  by (induction ns arbitrary: w) (auto simp: same_view_client same_view_up split: option.splits)

lemma to_owners_replicate:
  "same_view sc cl \<Longrightarrow>
   to_owners sc (\<lambda>c w. fst (sc_write_object C c coll key v w)) ns w = replicate_to C cl coll key v ns w"
  by (induction ns arbitrary: w) (auto simp: same_view_client split: option.splits)

lemma smart_mget_nodes_eq:
  "same_view sc cl \<Longrightarrow> smart_mget_nodes C sc coll keys gs out w = mget_nodes C cl coll keys gs out w"
  by (induction gs arbitrary: out w)
    (auto simp: same_view_client split: option.splits cresult.splits prod.splits)

lemma find_True: "find (\<lambda>x. True) xs = (case xs of [] \<Rightarrow> None | x # _ \<Rightarrow> Some x)"
  by (cases xs) simp_all

lemma smart_mget_groups_eq:
  assumes "same_view sc cl"
  shows "smart_mget_groups sc keys = mget_groups cl keys"
proof -
  have "(case smart_owners sc k of [] \<Rightarrow> [] | owner # _ \<Rightarrow> [(owner, i)]) =
      (case find (\<lambda>n. \<not> is_down cl n) (owners cl k) of None \<Rightarrow> [] | Some owner \<Rightarrow> [(owner, i)])"
    for k and i :: nat
    using assms by (simp add: same_view_owners same_view_up find_True split: list.split)
  then show ?thesis by (simp add: smart_mget_groups_def mget_groups_def)
qed

lemma map_of_sort:
  fixes m :: "('k::linorder \<times> 'b::linorder) list"
  assumes "hm_ok m"
  shows "map_of (sort m) = map_of m"
proof -
  have "hm_ok (sort m)" using assms by (metis distinct_map distinct_sort set_sort)
  then show ?thesis using assms by (intro map_of_inject_set [THEN iffD2]) simp_all
qed

lemma smart_partitions_eq:
  assumes v: "same_view sc cl"
  shows "smart_partitions C sc = partition_plan C cl"
proof -
  have cnt: "bucket_count (sm_partitioner sc) = NUM_BUCKETS" "bucket_count (cl_partitioner cl) = NUM_BUCKETS"
    using v by (simp_all add: same_view_def cluster_ok_def partitioner_ok_def bucket_count_def)
  have groups: "map (\<lambda>b. case owners_of_bucket (sm_partitioner sc) b 1 of [] \<Rightarrow> [] | primary # _ \<Rightarrow> [(primary, b)])
        [0..<NUM_BUCKETS] =
      map (\<lambda>b. case owners_of_bucket (cl_partitioner cl) b 1 of [] \<Rightarrow> [] | primary # _ \<Rightarrow> [(primary, b)])
        [0..<NUM_BUCKETS]"
    by (rule map_cong) (simp_all add: same_view_bucket [OF v])
  have ep: "(case map_of (members_with_endpoints C cl) n of None \<Rightarrow> [] | Some e \<Rightarrow> e) =
      (case smart_client_of sc n of None \<Rightarrow> [] | Some c \<Rightarrow> sc_endpoint C c)" for n
  proof -
    have "hm_ok (map (\<lambda>(n, c). (n, sc_endpoint C c)) (cl_clients cl))"
      using v by (simp add: same_view_def cluster_ok_def comp_def case_prod_unfold)
    then show ?thesis
      by (simp add: members_with_endpoints_def map_of_sort map_of_map same_view_client [OF v] client_of_def
          split: option.split)
  qed
  show ?thesis
    unfolding smart_partitions_def partition_plan_def primary_buckets_def cnt Let_def groups ep ..
qed

text \<open>The scan merges sets, so with scans that only read the order of the clients does not matter.\<close>

definition scan_hits :: "('c, 'w, 'v) shard_client \<Rightarrow> string \<Rightarrow> string option \<Rightarrow> string option
    \<Rightarrow> string option \<Rightarrow> nat \<Rightarrow> 'w \<Rightarrow> 'c \<Rightarrow> string set" where
  "scan_hits C coll after pre end limit w c = (case snd (sc_scan_range C c coll after pre end limit w) of
     COk keys \<Rightarrow> set keys | CErr e \<Rightarrow> {})"

lemma smart_scan_clients_eq:
  assumes "\<And>c. fst (sc_scan_range C c coll after pre end limit w) = w"
  shows "smart_scan_clients C coll after pre end limit cs merged w =
    (w, merged \<union> \<Union> (scan_hits C coll after pre end limit w ` set cs))"
proof (induction cs arbitrary: merged)
  case (Cons c cs)
  obtain r where "sc_scan_range C c coll after pre end limit w = (w, r)" using assms by (metis prod.collapse)
  with Cons show ?case by (cases r) (simp_all add: scan_hits_def Un_assoc)
qed simp

lemma scan_clients_hits:
  assumes "\<And>c. fst (sc_scan_range C c coll after pre end limit w) = w" and "cl_down cl = {}"
  shows "scan_clients C cl coll after pre end limit cs merged w =
    (w, merged \<union> \<Union> (scan_hits C coll after pre end limit w ` set cs))"
proof (induction cs arbitrary: merged)
  case (Cons c cs)
  obtain r where "sc_scan_range C c coll after pre end limit w = (w, r)" using assms(1) by (metis prod.collapse)
  with Cons assms(2) show ?case by (cases r) (simp_all add: scan_hits_def Un_assoc is_down_def)
qed simp

lemma smart_scan_eq:
  assumes v: "same_view sc cl" and "\<And>c. fst (sc_scan_range C c coll after pre end limit w) = w"
  shows "smart_scan_range C sc coll after pre end limit w = cluster_scan_range C cl coll after pre end limit w"
proof -
  have "set (sm_clients sc) = set (cl_clients cl)"
    using v by (metis cluster_ok_def map_of_inject_set same_view_def)
  moreover have "cl_down cl = {}" using v by (simp add: same_view_def)
  ultimately show ?thesis
    by (simp add: smart_scan_range_def cluster_scan_range_def smart_scan_clients_eq [OF assms(2)]
        scan_clients_hits [OF assms(2)])
qed

subsection \<open>Properties\<close>

text \<open>A client of the two-node cluster, with the members listed in the other order.\<close>

definition smart_two :: "inproc_client smart_client" where
  "smart_two = smart_new [(''n1'', inproc_new ''n1'' 1), (''n0'', inproc_new ''n0'' 0)] 2"

lemma smart_two_view: "same_view smart_two two_nodes"
proof -
  have "inj_on fnv1a {''n0'', ''n1''}" by (simp add: fnv_eval)
  moreover have "partitioner_ok (partitioner_new [''n1'', ''n0''])" by (rule partitioner_ok_new) simp
  ultimately show ?thesis
    using two_nodes_ok
    by (auto simp: same_view_def smart_two_def smart_new_def two_nodes_def cluster_new_def partitioner_new_def
        set_nodes_def fun_eq_iff Let_def)
qed

text \<open>
  C33. The direct client is the coordinator's data plane. With the coordinator's view of a stable
  cluster (no migration, no rack topology, no member down), it routes every key to the same
  owners in the same order, and every operation on every kind of shard client has the result and
  the effect of the coordinator's: reads with failover, batch reads, writes, TTL writes, deletes,
  set operations, compare-and-set, increments, the partition plan, and scans that only read.
\<close>

theorem smart_client_as_coordinator:
  assumes "same_view sc cl"
  shows "smart_route sc key = owners cl key
    \<and> smart_get C sc coll key w = cluster_get C cl coll key w
    \<and> smart_mget C sc coll keys w = cluster_mget C cl coll keys w
    \<and> smart_put C sc coll key v w = cluster_put C cl coll key v w
    \<and> smart_put_ttl C sc coll key v ttl w = cluster_put_ttl C cl coll key v ttl w
    \<and> smart_delete C sc coll key w = cluster_delete C cl coll key w
    \<and> smart_set_add C sc coll key m w = cluster_set_add C cl coll key m w
    \<and> smart_set_remove C sc coll key m w = cluster_set_remove C cl coll key m w
    \<and> smart_cas C sc coll key expect v w = cluster_cas C cl coll key expect v w
    \<and> smart_incr C J sc coll key delta w = cluster_incr C J cl coll key delta w
    \<and> smart_partitions C sc = partition_plan C cl
    \<and> ((\<forall>c. fst (sc_scan_range C c coll after pre end limit w) = w) \<longrightarrow>
        smart_scan_range C sc coll after pre end limit w = cluster_scan_range C cl coll after pre end limit w)"
proof -
  note eqs = same_view_owners [OF assms] smart_read_eq [OF assms] to_owners_eq [OF assms]
    smart_mget_nodes_eq [OF assms] smart_mget_groups_eq [OF assms]
  have all: "filter (\<lambda>n. \<not> is_down cl n) ns = ns" for ns using same_view_up [OF assms] by (simp add: filter_id_conv)
  have "smart_cas C sc coll key expect v w = cluster_cas C cl coll key expect v w"
    by (auto simp: smart_cas_def cluster_cas_def all same_view_owners [OF assms] same_view_client [OF assms]
        to_owners_replicate [OF assms] Let_def split: list.splits option.splits prod.splits cresult.splits bool.splits)
  moreover have "smart_incr C J sc coll key delta w = cluster_incr C J cl coll key delta w"
    by (auto simp: smart_incr_def cluster_incr_def all same_view_owners [OF assms] same_view_client [OF assms]
        to_owners_replicate [OF assms] split: list.splits option.splits prod.splits cresult.splits)
  ultimately show ?thesis
    using smart_partitions_eq [OF assms, of C] smart_scan_eq [OF assms, of C]
    by (simp add: smart_route_def smart_get_def cluster_get_def smart_mget_def cluster_mget_def smart_put_def
        cluster_put_def smart_put_ttl_def cluster_put_ttl_def smart_delete_def cluster_delete_def smart_set_add_def
        cluster_set_add_def smart_set_remove_def cluster_set_remove_def broadcast_def eqs)
qed

theorem smart_client_as_coordinator_witness:
  "smart_get (mclient jv_json) smart_two ''kv'' ''k''
     (smart_put (mclient jv_json) smart_two ''kv'' ''k'' (JInt 7) empty_world) =
   cluster_get (mclient jv_json) two_nodes ''kv'' ''k''
     (cluster_put (mclient jv_json) two_nodes ''kv'' ''k'' (JInt 7) empty_world)"
  using smart_client_as_coordinator [OF smart_two_view] by metis

end
