(* ===== verification/Lmdb.thy ===== *)
theory Lmdb
  imports Heed Store
begin

text \<open>
  The durable store, \<^verbatim>\<open>src/lmdb.rs\<close>: an LMDB environment with one named database per collection
  (\<^verbatim>\<open>o:<coll>\<close>) and source table (\<^verbatim>\<open>t:<table>\<close>), a registry of tables and one database of expiries.

  The environment is an association list from names to databases of the parameter \<open>D\<close>; the calls on
  the environment itself are the parameter \<open>E\<close>. Values are encoded by the parameter \<open>S\<close>, and reading
  a number from a value is the parameter \<open>as_u64\<close>. The cache of database handles memoises the lookup
  by name and is left out: every operation takes the path of a name that is not cached yet. An operation that panics (\<^verbatim>\<open>expect\<close>) is \<open>None\<close>. \<open>lm_durable\<close> is the content
  at the last \<^verbatim>\<open>force_sync\<close>. The code ignores the result of \<^verbatim>\<open>force_sync\<close>; here it succeeds, so \<open>lm_durable\<close> says nothing
  of a disk that fails to sync.
\<close>

subsection \<open>The environment\<close>

datatype bound = Unbounded | Included string | Excluded string

type_synonym 'd env = "(string, 'd) hashmap"

record 'd heed_env =
  ev_read_txn :: "'d env \<Rightarrow> bool"
  ev_write_txn :: "'d env \<Rightarrow> bool"
  ev_commit :: "'d env \<Rightarrow> bool"
  ev_create :: "string \<Rightarrow> 'd env \<Rightarrow> 'd option"
  ev_first :: "'d \<Rightarrow> (string \<times> string) option option"
  ev_range :: "'d \<Rightarrow> bound \<Rightarrow> (string \<times> string) list option"
  ev_copy_to_file :: "'d env \<Rightarrow> string \<Rightarrow> string + unit"

fun above :: "bound \<Rightarrow> string \<Rightarrow> bool" where
  "above Unbounded k \<longleftrightarrow> True"
| "above (Included b) k \<longleftrightarrow> b \<le> k"
| "above (Excluded b) k \<longleftrightarrow> b < k"

text \<open>Transactions open and commit, up to 1024 named databases can be created, empty ones, and the
  first entry and the range from a lower bound are those of the iteration.\<close>

definition env_laws :: "'d heed \<Rightarrow> 'd heed_env \<Rightarrow> bool" where
  "env_laws D E \<longleftrightarrow> heed_laws D \<and>
     (\<forall>env. ev_read_txn E env \<and> ev_write_txn E env \<and> ev_commit E env) \<and>
     (\<forall>env name. lmdb_key name \<longrightarrow> length env < 1024 \<longrightarrow>
        (\<exists>d. ev_create E name env = Some d \<and> hd_entries D d = [])) \<and>
     (\<forall>d. ev_first E d = Some (case hd_entries D d of [] \<Rightarrow> None | e # _ \<Rightarrow> Some e)) \<and>
     (\<forall>d b. ev_range E d b = Some (filter (\<lambda>e. above b (fst e)) (hd_entries D d)))"

text \<open>As in \<open>serde_laws\<close>, the values are those that read back as they were written; a decimal \<^verbatim>\<open>u64\<close> is a JSON
  number and reads as itself.\<close>

definition value_laws :: "'v serde \<Rightarrow> ('v \<Rightarrow> u64 option) \<Rightarrow> bool" where
  "value_laws S as_u64 \<longleftrightarrow> serde_laws S \<and>
     (\<forall>e. \<exists>v. sd_from_str S (show_u64 e) = Some v \<and> as_u64 v = Some e)"

subsection \<open>The store\<close>

definition TABLES_DB :: string where
  "TABLES_DB = ''__tables''"

definition EXP_DB :: string where
  "EXP_DB = ''__expiry''"

definition SYNC_EVERY :: u64 where
  "SYNC_EVERY = 2048"

record 'd lmdb_store =
  lm_env :: "'d env"
  lm_durable :: "'d env"
  lm_writes :: u64
  lm_has_any_ttl :: bool

definition lm_open :: "'d heed_env \<Rightarrow> 'd env \<Rightarrow> 'd lmdb_store option" where
  "lm_open E env =
     (if \<not> ev_read_txn E env then None
      else case (case hm_get env EXP_DB of Some db \<Rightarrow> map_option (\<lambda>f. f \<noteq> None) (ev_first E db) | None \<Rightarrow> Some False) of
        None \<Rightarrow> None
      | Some ttl \<Rightarrow> Some \<lparr>lm_env = env, lm_durable = env, lm_writes = 0, lm_has_any_ttl = ttl\<rparr>)"

definition obj_db :: "string \<Rightarrow> string" where
  "obj_db coll = ''o:'' @ coll"

definition tbl_db :: "string \<Rightarrow> string" where
  "tbl_db table = ''t:'' @ table"

definition exp_key :: "string \<Rightarrow> string \<Rightarrow> string" where
  "exp_key coll oid = coll @ [CHR 0x00] @ oid"

definition read_db :: "'d heed_env \<Rightarrow> 'd lmdb_store \<Rightarrow> string \<Rightarrow> 'd option" where
  "read_db E s name =
     (if ev_write_txn E (lm_env s) \<and> ev_commit E (lm_env s) then hm_get (lm_env s) name else None)"

definition open_db :: "'d heed_env \<Rightarrow> string \<Rightarrow> 'd lmdb_store \<Rightarrow> ('d lmdb_store \<times> 'd) option" where
  "open_db E name s =
     (if \<not> ev_write_txn E (lm_env s) then None
      else case (case hm_get (lm_env s) name of Some d \<Rightarrow> Some (d, lm_env s)
          | None \<Rightarrow> map_option (\<lambda>d. (d, hm_insert name d (lm_env s))) (ev_create E name (lm_env s))) of
        None \<Rightarrow> None
      | Some (d, env) \<Rightarrow> if ev_commit E env then Some (s\<lparr>lm_env := env\<rparr>, d) else None)"

definition force_sync :: "'d lmdb_store \<Rightarrow> 'd lmdb_store" where
  "force_sync s = s\<lparr>lm_durable := lm_env s\<rparr>"

definition maybe_sync :: "'d lmdb_store \<Rightarrow> 'd lmdb_store" where
  "maybe_sync s =
     (let n = lm_writes s; s = s\<lparr>lm_writes := n + 1\<rparr> in
      if n mod SYNC_EVERY = SYNC_EVERY - 1 then force_sync s else s)"

text \<open>Commit a changed database under its name.\<close>

definition commit_db :: "'d heed_env \<Rightarrow> string \<Rightarrow> 'd \<Rightarrow> 'd lmdb_store \<Rightarrow> 'd lmdb_store option" where
  "commit_db E name d s =
     (let env = hm_insert name d (lm_env s) in
      if ev_commit E env then Some (s\<lparr>lm_env := env\<rparr>) else None)"

definition read_expiry :: "'d heed \<Rightarrow> 'd heed_env \<Rightarrow> 'd lmdb_store \<Rightarrow> string \<Rightarrow> string \<Rightarrow> u64 option" where
  "read_expiry D E s coll oid =
     (case read_db E s EXP_DB of
        None \<Rightarrow> None
      | Some db \<Rightarrow>
          if \<not> ev_read_txn E (lm_env s) then None
          else case hd_get D db (exp_key coll oid) of
            Some (Some v) \<Rightarrow> parse_u64 v | _ \<Rightarrow> None)"

definition lm_is_expired :: "'d heed \<Rightarrow> 'd heed_env \<Rightarrow> u64 \<Rightarrow> 'd lmdb_store \<Rightarrow> string \<Rightarrow> string \<Rightarrow> bool" where
  "lm_is_expired D E now s coll oid \<longleftrightarrow>
     lm_has_any_ttl s \<and> (case read_expiry D E s coll oid of None \<Rightarrow> False | Some e \<Rightarrow> e \<le> now)"

definition clear_expiry :: "'d heed \<Rightarrow> 'd heed_env \<Rightarrow> string \<Rightarrow> string \<Rightarrow> 'd lmdb_store
    \<Rightarrow> 'd lmdb_store option" where
  "clear_expiry D E coll oid s =
     (case open_db E EXP_DB s of
        None \<Rightarrow> None
      | Some (s, db) \<Rightarrow>
          if \<not> ev_write_txn E (lm_env s) then None
          else commit_db E EXP_DB (case hd_delete D (exp_key coll oid) db of None \<Rightarrow> db | Some (d, _) \<Rightarrow> d) s)"

definition put_str :: "'d heed \<Rightarrow> 'd heed_env \<Rightarrow> string \<Rightarrow> string \<Rightarrow> string \<Rightarrow> 'd lmdb_store
    \<Rightarrow> 'd lmdb_store option" where
  "put_str D E name key val s =
     (case open_db E name s of
        None \<Rightarrow> None
      | Some (s, db) \<Rightarrow>
          if \<not> ev_write_txn E (lm_env s) then None
          else case hd_put D key val db of
            None \<Rightarrow> None
          | Some d \<Rightarrow> map_option maybe_sync (commit_db E name d s))"

fun decode_entries :: "'v serde \<Rightarrow> (string \<times> string) list \<Rightarrow> (string \<times> 'v) list" where
  "decode_entries S [] = []"
| "decode_entries S ((k, v) # items) = (case sd_from_str S v of
       Some val \<Rightarrow> (k, val) # decode_entries S items | None \<Rightarrow> decode_entries S items)"

definition lm_entries :: "'d heed \<Rightarrow> 'd heed_env \<Rightarrow> 'v serde \<Rightarrow> 'd lmdb_store \<Rightarrow> string
    \<Rightarrow> (string \<times> 'v) list" where
  "lm_entries D E S s name =
     (case read_db E s name of
        None \<Rightarrow> []
      | Some db \<Rightarrow>
          if \<not> ev_read_txn E (lm_env s) then []
          else case hd_iter D db of None \<Rightarrow> [] | Some items \<Rightarrow> decode_entries S items)"

definition lm_add_row :: "'d heed \<Rightarrow> 'd heed_env \<Rightarrow> 'v serde \<Rightarrow> string \<Rightarrow> string \<Rightarrow> 'v \<Rightarrow> 'd lmdb_store
    \<Rightarrow> 'd lmdb_store option" where
  "lm_add_row D E S table oid doc s =
     (case put_str D E (tbl_db table) oid (sd_to_string S doc) s of
        None \<Rightarrow> None
      | Some s \<Rightarrow> put_str D E TABLES_DB table ''1'' s)"

definition lm_drop :: "'d lmdb_store \<Rightarrow> 'd env" where
  "lm_drop s = lm_durable (force_sync s)"

definition lm_list_tables :: "'d heed \<Rightarrow> 'd heed_env \<Rightarrow> 'v serde \<Rightarrow> 'd lmdb_store \<Rightarrow> string list" where
  "lm_list_tables D E S s = map fst (lm_entries D E S s TABLES_DB)"

definition lm_scan_table :: "'d heed \<Rightarrow> 'd heed_env \<Rightarrow> 'v serde \<Rightarrow> 'd lmdb_store \<Rightarrow> string \<Rightarrow> 'v row list" where
  "lm_scan_table D E S s table = map (\<lambda>(oid, doc). \<lparr>row_id = oid, row_doc = doc\<rparr>) (lm_entries D E S s (tbl_db table))"

definition lm_lookup :: "'d heed \<Rightarrow> 'd heed_env \<Rightarrow> 'v serde \<Rightarrow> 'd lmdb_store \<Rightarrow> string \<Rightarrow> string
    \<Rightarrow> 'v option" where
  "lm_lookup D E S s name key =
     (case read_db E s name of
        None \<Rightarrow> None
      | Some db \<Rightarrow>
          if \<not> ev_read_txn E (lm_env s) then None
          else case hd_get D db key of Some (Some v) \<Rightarrow> sd_from_str S v | _ \<Rightarrow> None)"

definition lm_get_row :: "'d heed \<Rightarrow> 'd heed_env \<Rightarrow> 'v serde \<Rightarrow> 'd lmdb_store \<Rightarrow> string \<Rightarrow> string
    \<Rightarrow> 'v option" where
  "lm_get_row D E S s table oid = lm_lookup D E S s (tbl_db table) oid"

definition lm_put_object :: "'d heed \<Rightarrow> 'd heed_env \<Rightarrow> 'v serde \<Rightarrow> string \<Rightarrow> string \<Rightarrow> 'v \<Rightarrow> 'd lmdb_store
    \<Rightarrow> 'd lmdb_store option" where
  "lm_put_object D E S coll oid obj s =
     (case put_str D E (obj_db coll) oid (sd_to_string S obj) s of
        None \<Rightarrow> None
      | Some s \<Rightarrow> if lm_has_any_ttl s then clear_expiry D E coll oid s else Some s)"

fun ensure_dbs :: "'d heed_env \<Rightarrow> string list \<Rightarrow> 'd lmdb_store \<Rightarrow> 'd lmdb_store option" where
  "ensure_dbs E [] s = Some s"
| "ensure_dbs E (n # ns) s = (case open_db E n s of None \<Rightarrow> None | Some (s, _) \<Rightarrow> ensure_dbs E ns s)"

text \<open>The body of the batch transaction: it changes the environment that the commit then keeps.\<close>

fun batch_items :: "'d heed \<Rightarrow> 'v serde \<Rightarrow> bool \<Rightarrow> (string \<times> string \<times> 'v) list \<Rightarrow> 'd env \<Rightarrow> 'd env option" where
  "batch_items D S ttl [] env = Some env"
| "batch_items D S ttl ((coll, oid, obj) # items) env =
     (case hm_get env (obj_db coll) of
        None \<Rightarrow> None
      | Some db \<Rightarrow>
          (case hd_put D oid (sd_to_string S obj) db of
             None \<Rightarrow> None
           | Some d \<Rightarrow>
               (let env = hm_insert (obj_db coll) d env in
                if ttl then
                  (case hm_get env EXP_DB of
                     None \<Rightarrow> None
                   | Some edb \<Rightarrow>
                       (let e = (case hd_delete D (exp_key coll oid) edb of None \<Rightarrow> edb | Some (e, _) \<Rightarrow> e) in
                        batch_items D S ttl items (hm_insert EXP_DB e env)))
                else batch_items D S ttl items env)))"

definition lm_put_batch :: "'d heed \<Rightarrow> 'd heed_env \<Rightarrow> 'v serde \<Rightarrow> (string \<times> string \<times> 'v) list
    \<Rightarrow> 'd lmdb_store \<Rightarrow> 'd lmdb_store option" where
  "lm_put_batch D E S items s =
     (if items = [] then Some s
      else case ensure_dbs E (map (\<lambda>(coll, _, _). obj_db coll) items) s of
        None \<Rightarrow> None
      | Some s \<Rightarrow>
          (let ttl = lm_has_any_ttl s in
           case (if ttl then ensure_dbs E [EXP_DB] s else Some s) of
             None \<Rightarrow> None
           | Some s \<Rightarrow>
               if \<not> ev_write_txn E (lm_env s) then None
               else case batch_items D S ttl items (lm_env s) of
                 None \<Rightarrow> None
               | Some env \<Rightarrow> if ev_commit E env then Some (maybe_sync (s\<lparr>lm_env := env\<rparr>)) else None))"

definition lm_get_object :: "'d heed \<Rightarrow> 'd heed_env \<Rightarrow> 'v serde \<Rightarrow> u64 \<Rightarrow> 'd lmdb_store \<Rightarrow> string
    \<Rightarrow> string \<Rightarrow> 'v option" where
  "lm_get_object D E S now s coll oid =
     (if lm_is_expired D E now s coll oid then None else lm_lookup D E S s (obj_db coll) oid)"

definition lm_scan_entries :: "'d heed \<Rightarrow> 'd heed_env \<Rightarrow> 'v serde \<Rightarrow> u64 \<Rightarrow> 'd lmdb_store \<Rightarrow> string
    \<Rightarrow> (string \<times> 'v) list" where
  "lm_scan_entries D E S now s coll =
     (let entries = lm_entries D E S s (obj_db coll) in
      if lm_has_any_ttl s then filter (\<lambda>(oid, _). \<not> lm_is_expired D E now s coll oid) entries else entries)"

definition lm_scan_objects :: "'d heed \<Rightarrow> 'd heed_env \<Rightarrow> 'v serde \<Rightarrow> u64 \<Rightarrow> 'd lmdb_store \<Rightarrow> string
    \<Rightarrow> 'v list" where
  "lm_scan_objects D E S now s coll = map snd (lm_scan_entries D E S now s coll)"

definition lower_bound :: "string option \<Rightarrow> string option \<Rightarrow> bound" where
  "lower_bound after pre =
     (case (after, pre) of
        (Some a, Some p) \<Rightarrow> if p \<le> a then Excluded a else Included p
      | (Some a, None) \<Rightarrow> Excluded a
      | (None, Some p) \<Rightarrow> Included p
      | (None, None) \<Rightarrow> Unbounded)"

fun walk :: "(string \<Rightarrow> bool) \<Rightarrow> string option \<Rightarrow> string option \<Rightarrow> nat \<Rightarrow> string list \<Rightarrow> string list
    \<Rightarrow> string list" where
  "walk expired pre end limit [] out = out"
| "walk expired pre end limit (k # ks) out =
     (if length out \<ge> limit then out
      else if (case end of Some e \<Rightarrow> e \<le> k | None \<Rightarrow> False) then out
      else if (case pre of Some p \<Rightarrow> \<not> starts_with k p | None \<Rightarrow> False) then out
      else if expired k then walk expired pre end limit ks out
      else walk expired pre end limit ks (out @ [k]))"

definition lm_scan_range :: "'d heed \<Rightarrow> 'd heed_env \<Rightarrow> u64 \<Rightarrow> 'd lmdb_store \<Rightarrow> string \<Rightarrow> string option
    \<Rightarrow> string option \<Rightarrow> string option \<Rightarrow> nat \<Rightarrow> string list" where
  "lm_scan_range D E now s coll after pre end limit =
     (case read_db E s (obj_db coll) of
        None \<Rightarrow> []
      | Some db \<Rightarrow>
          if \<not> ev_read_txn E (lm_env s) then []
          else case ev_range E db (lower_bound after pre) of
            None \<Rightarrow> []
          | Some items \<Rightarrow>
              walk (\<lambda>k. lm_has_any_ttl s \<and> lm_is_expired D E now s coll k) pre end limit (map fst items) [])"

definition lm_clear_collection :: "'d heed \<Rightarrow> 'd heed_env \<Rightarrow> string \<Rightarrow> 'd lmdb_store
    \<Rightarrow> 'd lmdb_store option" where
  "lm_clear_collection D E coll s =
     (case read_db E s (obj_db coll) of
        None \<Rightarrow> Some s
      | Some db \<Rightarrow>
          if \<not> ev_write_txn E (lm_env s) then None
          else case hd_clear D db of
            None \<Rightarrow> None
          | Some d \<Rightarrow> map_option maybe_sync (commit_db E (obj_db coll) d s))"

definition lm_delete_object :: "'d heed \<Rightarrow> 'd heed_env \<Rightarrow> string \<Rightarrow> string \<Rightarrow> 'd lmdb_store
    \<Rightarrow> 'd lmdb_store option" where
  "lm_delete_object D E coll oid s =
     (case (case read_db E s (obj_db coll) of
              Some db \<Rightarrow>
                if \<not> ev_write_txn E (lm_env s) then None
                else (case hd_delete D oid db of
                    None \<Rightarrow> None
                  | Some (d, _) \<Rightarrow> map_option maybe_sync (commit_db E (obj_db coll) d s))
            | None \<Rightarrow> Some s) of
        None \<Rightarrow> None
      | Some s \<Rightarrow> if lm_has_any_ttl s then clear_expiry D E coll oid s else Some s)"

definition lm_put_object_at :: "'d heed \<Rightarrow> 'd heed_env \<Rightarrow> 'v serde \<Rightarrow> string \<Rightarrow> string \<Rightarrow> 'v \<Rightarrow> u64
    \<Rightarrow> 'd lmdb_store \<Rightarrow> 'd lmdb_store option" where
  "lm_put_object_at D E S coll oid obj expire_at_ms s =
     (case put_str D E (obj_db coll) oid (sd_to_string S obj) s of
        None \<Rightarrow> None
      | Some s \<Rightarrow>
          (case open_db E EXP_DB s of
             None \<Rightarrow> None
           | Some (s, edb) \<Rightarrow>
               if \<not> ev_write_txn E (lm_env s) then None
               else case hd_put D (exp_key coll oid) (show_u64 expire_at_ms) edb of
                 None \<Rightarrow> None
               | Some d \<Rightarrow>
                   (case commit_db E EXP_DB d s of
                      None \<Rightarrow> None
                    | Some s \<Rightarrow> Some (maybe_sync (s\<lparr>lm_has_any_ttl := True\<rparr>)))))"

definition lm_expiry_of :: "'d heed \<Rightarrow> 'd heed_env \<Rightarrow> 'd lmdb_store \<Rightarrow> string \<Rightarrow> string \<Rightarrow> u64 option" where
  "lm_expiry_of D E s coll oid = read_expiry D E s coll oid"

text \<open>\<^verbatim>\<open>split_once('\0')\<close>.\<close>

fun split_nul :: "string \<Rightarrow> (string \<times> string) option" where
  "split_nul [] = None"
| "split_nul (c # cs) = (if c = CHR 0x00 then Some ([], cs)
     else case split_nul cs of None \<Rightarrow> None | Some (a, b) \<Rightarrow> Some (c # a, b))"

definition dead_keys :: "('v \<Rightarrow> u64 option) \<Rightarrow> u64 \<Rightarrow> (string \<times> 'v) list \<Rightarrow> (string \<times> string \<times> string) list" where
  "dead_keys as_u64 now_ms entries = List.map_filter (\<lambda>(ekey, v).
     case as_u64 v of
       None \<Rightarrow> None
     | Some e \<Rightarrow> if e > now_ms then None
         else (case split_nul ekey of None \<Rightarrow> None | Some (coll, oid) \<Rightarrow> Some (ekey, coll, oid))) entries"

fun sweep_dead :: "'d heed \<Rightarrow> 'd heed_env \<Rightarrow> (string \<times> string \<times> string) list \<Rightarrow> 'd lmdb_store
    \<Rightarrow> 'd lmdb_store option" where
  "sweep_dead D E [] s = Some s"
| "sweep_dead D E ((ekey, coll, oid) # dead) s =
     (case read_db E s (obj_db coll) of
        None \<Rightarrow> sweep_dead D E dead s
      | Some odb \<Rightarrow>
          if \<not> ev_write_txn E (lm_env s) then None
          else (let od = (case hd_delete D oid odb of None \<Rightarrow> odb | Some (d, _) \<Rightarrow> d);
                    env = hm_insert (obj_db coll) od (lm_env s);
                    env = (case hm_get env EXP_DB of None \<Rightarrow> env
                      | Some edb \<Rightarrow> hm_insert EXP_DB (case hd_delete D ekey edb of None \<Rightarrow> edb | Some (d, _) \<Rightarrow> d) env) in
                if ev_commit E env then sweep_dead D E dead (s\<lparr>lm_env := env\<rparr>) else None))"

definition lm_sweep_expired :: "'d heed \<Rightarrow> 'd heed_env \<Rightarrow> 'v serde \<Rightarrow> ('v \<Rightarrow> u64 option) \<Rightarrow> u64
    \<Rightarrow> 'd lmdb_store \<Rightarrow> ('d lmdb_store \<times> nat) option" where
  "lm_sweep_expired D E S as_u64 now_ms s =
     (if \<not> lm_has_any_ttl s then Some (s, 0)
      else case read_db E s EXP_DB of
        None \<Rightarrow> Some (s, 0)
      | Some edb \<Rightarrow>
          (let dead = dead_keys as_u64 now_ms (lm_entries D E S s EXP_DB) in
           case sweep_dead D E dead s of
             None \<Rightarrow> None
           | Some s \<Rightarrow> Some (if dead \<noteq> [] then maybe_sync s else s, length dead)))"

definition lm_capabilities :: "'d lmdb_store \<Rightarrow> capabilities" where
  "lm_capabilities s = \<lparr>native_set_logic = False\<rparr>"

definition lm_snapshot :: "'d heed_env \<Rightarrow> (string \<Rightarrow> string + unit) \<Rightarrow> 'd lmdb_store \<Rightarrow> string
    \<Rightarrow> 'd lmdb_store \<times> (string + unit)" where
  "lm_snapshot E create_parent s dest =
     (case create_parent dest of
        Inl e \<Rightarrow> (s, Inl e)
      | Inr _ \<Rightarrow> (let s = force_sync s in (s, ev_copy_to_file E (lm_env s) dest)))"

subsection \<open>The content of the environment\<close>

definition db_entries :: "'d heed \<Rightarrow> 'd env \<Rightarrow> string \<Rightarrow> (string \<times> string) list" where
  "db_entries D env name = (case hm_get env name of None \<Rightarrow> [] | Some d \<Rightarrow> hd_entries D d)"

lemma db_names [simp]: "obj_db c \<noteq> EXP_DB" "EXP_DB \<noteq> obj_db c" "obj_db c = obj_db c' \<longleftrightarrow> c = c'"
  by (simp_all add: obj_db_def EXP_DB_def)

lemma EXP_DB_key [simp]: "lmdb_key EXP_DB"
  by (simp add: EXP_DB_def lmdb_key_def)

lemma exp_key_eq:
  assumes "CHR 0x00 \<notin> set c" and "CHR 0x00 \<notin> set c'"
  shows "exp_key c k = exp_key c' k' \<longleftrightarrow> c = c' \<and> k = k'"
  using assms unfolding exp_key_def
proof (induction c arbitrary: c')
  case (Cons a c)
  then show ?case by (cases c') auto
qed (auto simp: Cons_eq_append_conv)

lemma split_exp_key: "CHR 0x00 \<notin> set c \<Longrightarrow> split_nul (exp_key c k) = Some (c, k)"
  unfolding exp_key_def by (induction c) auto

lemma maybe_sync_env [simp]: "lm_env (maybe_sync s) = lm_env s" "lm_has_any_ttl (maybe_sync s) = lm_has_any_ttl s"
  by (simp_all add: maybe_sync_def force_sync_def Let_def)

lemma map_of_decode:
  "(\<forall>(k, v) \<in> set es. sd_from_str S v \<noteq> None) \<Longrightarrow>
   map_of (decode_entries S es) k = (case map_of es k of None \<Rightarrow> None | Some v \<Rightarrow> sd_from_str S v)"
  by (induction es) (auto split: option.splits)

lemma decode_keys_eq:
  "(\<forall>(k, v) \<in> set es. sd_from_str S v \<noteq> None) \<Longrightarrow> map fst (decode_entries S es) = map fst es"
  by (induction es) (auto split: option.splits)

text \<open>
  The invariant: values can be read back, every expiry entry is a decimal number under the key of an
  object of an existing collection without NUL in its name, and without the flag there is none.
\<close>

definition exp_entry_ok :: "'d env \<Rightarrow> string \<times> string \<Rightarrow> bool" where
  "exp_entry_ok env = (\<lambda>(k, v). \<exists>c i e. k = exp_key c i \<and> v = show_u64 e \<and> CHR 0x00 \<notin> set c \<and>
     hm_get env (obj_db c) \<noteq> None \<and> lmdb_key k \<and> lmdb_key i)"

definition obj_entry_ok :: "'v serde \<Rightarrow> string \<times> string \<Rightarrow> bool" where
  "obj_entry_ok S = (\<lambda>(k, v). sd_from_str S v \<noteq> None \<and> lmdb_key k)"

definition env_ok :: "'d heed \<Rightarrow> 'v serde \<Rightarrow> 'd env \<Rightarrow> bool" where
  "env_ok D S env \<longleftrightarrow> (\<forall>c. list_all (obj_entry_ok S) (db_entries D env (obj_db c))) \<and>
     list_all (exp_entry_ok env) (db_entries D env EXP_DB)"

definition lm_ok :: "'d heed \<Rightarrow> 'v serde \<Rightarrow> 'd lmdb_store \<Rightarrow> bool" where
  "lm_ok D S s \<longleftrightarrow> env_ok D S (lm_env s) \<and> (\<not> lm_has_any_ttl s \<longrightarrow> db_entries D (lm_env s) EXP_DB = [])"

text \<open>Names that LMDB takes: of the collection's database, of the object and of its expiry entry.\<close>

definition names_ok :: "string \<Rightarrow> string \<Rightarrow> bool" where
  "names_ok c k \<longleftrightarrow> CHR 0x00 \<notin> set c \<and> lmdb_key (obj_db c) \<and> lmdb_key k \<and> lmdb_key (exp_key c k)"

text \<open>What the store holds in the collections without NUL in their name, with the expiry of each object.\<close>

definition env_view :: "'d heed \<Rightarrow> 'v serde \<Rightarrow> 'd env \<Rightarrow> string \<times> string \<Rightarrow> ('v \<times> u64 option) option" where
  "env_view D S env = (\<lambda>(c, k).
     case (if CHR 0x00 \<in> set c then None else map_of (db_entries D env (obj_db c)) k) of
       None \<Rightarrow> None
     | Some s \<Rightarrow> map_option (\<lambda>v. (v, Option.bind (map_of (db_entries D env EXP_DB) (exp_key c k)) parse_u64))
         (sd_from_str S s))"

abbreviation lm_view :: "'d heed \<Rightarrow> 'v serde \<Rightarrow> 'd lmdb_store \<Rightarrow> string \<times> string \<Rightarrow> ('v \<times> u64 option) option" where
  "lm_view D S s \<equiv> env_view D S (lm_env s)"

text \<open>An environment as maps, one per name, and what creation, put and delete do to it.\<close>

definition env_map :: "'d heed \<Rightarrow> 'd env \<Rightarrow> string \<Rightarrow> string \<Rightarrow> string option" where
  "env_map D env name = map_of (db_entries D env name)"

lemma env_map_insert:
  "env_map D (hm_insert name d env) = (env_map D env)(name := map_of (hd_entries D d))"
  by (auto simp: fun_eq_iff env_map_def db_entries_def hm_simps)

lemma env_laws_heed: "env_laws D E \<Longrightarrow> heed_laws D"
  and env_txns: "env_laws D E \<Longrightarrow> ev_read_txn E env \<and> ev_write_txn E env \<and> ev_commit E env"
  by (simp_all add: env_laws_def)

lemma env_create:
  assumes "env_laws D E" and "lmdb_key name" and "length env < 1024"
  obtains d where "ev_create E name env = Some d" and "hd_entries D d = []"
  using assms unfolding env_laws_def by blast

lemma env_range: "env_laws D E \<Longrightarrow> ev_range E d b = Some (filter (\<lambda>e. above b (fst e)) (hd_entries D d))"
  and env_first: "env_laws D E \<Longrightarrow> ev_first E d = Some (case hd_entries D d of [] \<Rightarrow> None | e # _ \<Rightarrow> Some e)"
  by (simp_all add: env_laws_def)

lemma length_hm_insert: "length (hm_insert k v m) \<le> Suc (length m)"
  by (induction m) auto

lemma length_hm_insert_same: "hm_get m k \<noteq> None \<Longrightarrow> length (hm_insert k v m) = length m"
  by (induction m) auto

lemma open_db_facts:
  assumes E: "env_laws D E" and "lmdb_key name" and "length (lm_env s) < 1024"
  obtains env d where "open_db E name s = Some (s\<lparr>lm_env := env\<rparr>, d)" and "env_map D env = env_map D (lm_env s)"
    and "hm_get env name = Some d" and "\<forall>n. hm_get (lm_env s) n \<noteq> None \<longrightarrow> hm_get env n \<noteq> None"
    and "length env \<le> Suc (length (lm_env s))"
proof (cases "hm_get (lm_env s) name")
  case (Some d)
  then show thesis using env_txns [OF E] by (intro that [of "lm_env s" d]) (simp_all add: open_db_def)
next
  case None
  obtain d where d: "ev_create E name (lm_env s) = Some d" "hd_entries D d = []" using env_create [OF assms] .
  let ?env = "hm_insert name d (lm_env s)"
  have "env_map D ?env = env_map D (lm_env s)"
    using None d(2) by (auto simp: env_map_insert fun_eq_iff env_map_def db_entries_def)
  then show thesis
    using None d(1) env_txns [OF E] by (intro that [of ?env d]) (auto simp: open_db_def hm_simps length_hm_insert)
qed

lemma env_ok_map:
  assumes "heed_laws D"
  shows "env_ok D S env \<longleftrightarrow>
    (\<forall>c k v. env_map D env (obj_db c) k = Some v \<longrightarrow> obj_entry_ok S (k, v)) \<and>
    (\<forall>k v. env_map D env EXP_DB k = Some v \<longrightarrow> exp_entry_ok env (k, v))"
proof -
  have "distinct (map fst (db_entries D env name))" for name
    using heed_distinct [OF assms] by (simp add: db_entries_def split: option.split)
  then have "(k, v) \<in> set (db_entries D env name) \<longleftrightarrow> env_map D env name k = Some v" for name k v
    by (simp add: env_map_def)
  then show ?thesis by (simp add: env_ok_def list_all_iff Ball_def split_paired_All)
qed

lemma env_ok_mono:
  assumes D: "heed_laws D" and ok: "env_ok D S env" and m: "env_map D env' = env_map D env"
    and keep: "\<forall>n. hm_get env n \<noteq> None \<longrightarrow> hm_get env' n \<noteq> None"
  shows "env_ok D S env'"
proof -
  have "exp_entry_ok env e \<Longrightarrow> exp_entry_ok env' e" for e
    using keep unfolding exp_entry_ok_def case_prod_unfold by blast
  with ok show ?thesis unfolding env_ok_map [OF D] m by blast
qed

lemma no_expiries_map: "db_entries D env name = [] \<longleftrightarrow> env_map D env name = (\<lambda>k. None)"
  by (auto simp: env_map_def fun_eq_iff) (metis map_of_eq_empty_iff)

lemma env_view_map: "env_view D S env (c, k) = (case (if CHR 0x00 \<in> set c then None else env_map D env (obj_db c) k) of None \<Rightarrow> None
  | Some s \<Rightarrow> map_option (\<lambda>v. (v, Option.bind (env_map D env EXP_DB (exp_key c k)) parse_u64)) (sd_from_str S s))"
  by (simp add: env_view_def env_map_def split: option.split)

text \<open>One step of the store: the new maps, the databases stay, at most one is created.\<close>

definition evolves :: "'d heed \<Rightarrow> 'd lmdb_store \<Rightarrow> 'd lmdb_store \<Rightarrow> (string \<Rightarrow> string \<Rightarrow> string option) \<Rightarrow> bool" where
  "evolves D s s' m \<longleftrightarrow> env_map D (lm_env s') = m \<and>
     (\<forall>n. hm_get (lm_env s) n \<noteq> None \<longrightarrow> hm_get (lm_env s') n \<noteq> None) \<and>
     length (lm_env s') \<le> Suc (length (lm_env s))"

lemma commit_facts:
  assumes E: "env_laws D E" and name: "hm_get (lm_env s) name \<noteq> None"
  obtains s' where "commit_db E name d s = Some s'" and "lm_has_any_ttl s' = lm_has_any_ttl s"
    and "evolves D s s' ((env_map D (lm_env s))(name := map_of (hd_entries D d)))"
    and "hm_get (lm_env s') name \<noteq> None" and "length (lm_env s') = length (lm_env s)"
proof (rule that [of "s\<lparr>lm_env := hm_insert name d (lm_env s)\<rparr>"])
  have "length (hm_insert name d (lm_env s)) = length (lm_env s)" using name by (rule length_hm_insert_same)
  then show "length (lm_env (s\<lparr>lm_env := hm_insert name d (lm_env s)\<rparr>)) = length (lm_env s)"
    and "evolves D s (s\<lparr>lm_env := hm_insert name d (lm_env s)\<rparr>) ((env_map D (lm_env s))(name := map_of (hd_entries D d)))"
    by (auto simp: evolves_def env_map_insert hm_simps)
qed (use env_txns [OF E] in \<open>simp_all add: commit_db_def Let_def hm_simps\<close>)

lemma put_str_facts:
  assumes E: "env_laws D E" and "lmdb_key name" and "lmdb_key key" and "length (lm_env s) < 1024"
  obtains s' where "put_str D E name key val s = Some s'" and "lm_has_any_ttl s' = lm_has_any_ttl s"
    and "evolves D s s' ((env_map D (lm_env s))(name := (env_map D (lm_env s) name)(key \<mapsto> val)))"
    and "hm_get (lm_env s') name \<noteq> None"
proof -
  obtain env d where o: "open_db E name s = Some (s\<lparr>lm_env := env\<rparr>, d)" "env_map D env = env_map D (lm_env s)"
    "hm_get env name = Some d" "\<forall>n. hm_get (lm_env s) n \<noteq> None \<longrightarrow> hm_get env n \<noteq> None"
    "length env \<le> Suc (length (lm_env s))"
    using open_db_facts [OF E assms(2,4)] .
  obtain d' where d': "hd_put D key val d = Some d'"
    "map_of (hd_entries D d') = (map_of (hd_entries D d))(key \<mapsto> val)"
    using heed_put [OF env_laws_heed [OF E] assms(3)] .
  have "hm_get (lm_env (s\<lparr>lm_env := env\<rparr>)) name \<noteq> None" using o(3) by simp
  then obtain s' where s': "commit_db E name d' (s\<lparr>lm_env := env\<rparr>) = Some s'" "lm_has_any_ttl s' = lm_has_any_ttl s"
    "evolves D (s\<lparr>lm_env := env\<rparr>) s' ((env_map D env)(name := map_of (hd_entries D d')))"
    "hm_get (lm_env s') name \<noteq> None" "length (lm_env s') = length env"
    using commit_facts [OF E, of "s\<lparr>lm_env := env\<rparr>" name d'] by auto
  have "map_of (hd_entries D d) = env_map D (lm_env s) name"
    using o(2,3) by (metis env_map_def db_entries_def option.simps(5))
  then show thesis
    using o s' d' env_txns [OF E]
    by (intro that [of "maybe_sync s'"]) (simp_all add: put_str_def evolves_def)
qed

lemma delete_map:
  assumes "heed_laws D" and "lmdb_key k"
  shows "map_of (hd_entries D (case hd_delete D k d of None \<Rightarrow> d | Some (d', _) \<Rightarrow> d')) = (map_of (hd_entries D d))(k := None)"
  by (rule heed_delete [OF assms, of d]) simp

lemma clear_expiry_facts:
  assumes E: "env_laws D E" and "lmdb_key (exp_key c k)" and "length (lm_env s) < 1024"
  obtains s' where "clear_expiry D E c k s = Some s'" and "lm_has_any_ttl s' = lm_has_any_ttl s"
    and "evolves D s s' ((env_map D (lm_env s))(EXP_DB := (env_map D (lm_env s) EXP_DB)(exp_key c k := None)))"
proof -
  obtain env d where o: "open_db E EXP_DB s = Some (s\<lparr>lm_env := env\<rparr>, d)" "env_map D env = env_map D (lm_env s)"
    "hm_get env EXP_DB = Some d" "\<forall>n. hm_get (lm_env s) n \<noteq> None \<longrightarrow> hm_get env n \<noteq> None"
    "length env \<le> Suc (length (lm_env s))"
    using open_db_facts [OF E EXP_DB_key assms(3)] .
  let ?d = "case hd_delete D (exp_key c k) d of None \<Rightarrow> d | Some (d', _) \<Rightarrow> d'"
  have "hm_get (lm_env (s\<lparr>lm_env := env\<rparr>)) EXP_DB \<noteq> None" using o(3) by simp
  then obtain s' where s': "commit_db E EXP_DB ?d (s\<lparr>lm_env := env\<rparr>) = Some s'" "lm_has_any_ttl s' = lm_has_any_ttl s"
    "evolves D (s\<lparr>lm_env := env\<rparr>) s' ((env_map D env)(EXP_DB := map_of (hd_entries D ?d)))"
    "length (lm_env s') = length env"
    using commit_facts [OF E, of "s\<lparr>lm_env := env\<rparr>" EXP_DB ?d] by auto
  have "map_of (hd_entries D d) = env_map D (lm_env s) EXP_DB"
    using o(2,3) by (metis env_map_def db_entries_def option.simps(5))
  then show thesis
    using o s' env_txns [OF E] delete_map [OF env_laws_heed [OF E] assms(2), of d]
    by (intro that [of s']) (simp_all add: clear_expiry_def evolves_def)
qed

subsection \<open>Updates of one key\<close>

text \<open>Every operation on one object sets its stored value and its expiry entry, or removes them.\<close>

definition key_update :: "string \<Rightarrow> string \<Rightarrow> string option \<Rightarrow> string option
    \<Rightarrow> (string \<Rightarrow> string \<Rightarrow> string option) \<Rightarrow> string \<Rightarrow> string \<Rightarrow> string option" where
  "key_update c k os oe m = m(obj_db c := (m (obj_db c))(k := os), EXP_DB := (m EXP_DB)(exp_key c k := oe))"

lemma view_key_update:
  assumes "env_map D env' = key_update c k os oe (env_map D env)" and c: "CHR 0x00 \<notin> set c"
  shows "env_view D S env' = (env_view D S env)((c, k) := (case os of None \<Rightarrow> None
    | Some s \<Rightarrow> map_option (\<lambda>v. (v, Option.bind oe parse_u64)) (sd_from_str S s)))"
proof (rule ext, clarify)
  fix c' k'
  show "env_view D S env' (c', k') = ((env_view D S env)((c, k) := (case os of None \<Rightarrow> None
      | Some s \<Rightarrow> map_option (\<lambda>v. (v, Option.bind oe parse_u64)) (sd_from_str S s)))) (c', k')"
  proof (cases "CHR 0x00 \<in> set c'")
    case False
    then show ?thesis
      using exp_key_eq [OF False c, of k' k] c by (auto simp: env_view_map assms(1) key_update_def split: option.split)
  qed (use c in \<open>auto simp: env_view_map\<close>)
qed

lemma ok_key_update:
  assumes D: "heed_laws D" and m: "env_map D env' = key_update c k os oe (env_map D env)" and ok: "env_ok D S env"
    and keep: "\<forall>n. hm_get env n \<noteq> None \<longrightarrow> hm_get env' n \<noteq> None"
    and os: "\<forall>s. os = Some s \<longrightarrow> obj_entry_ok S (k, s)" and oe: "\<forall>s. oe = Some s \<longrightarrow> exp_entry_ok env' (exp_key c k, s)"
  shows "env_ok D S env'"
proof -
  have mono: "exp_entry_ok env e \<Longrightarrow> exp_entry_ok env' e" for e
    using keep unfolding exp_entry_ok_def case_prod_unfold by blast
  show ?thesis
    unfolding env_ok_map [OF D]
  proof (intro conjI allI impI)
    fix c' k' v assume "env_map D env' (obj_db c') k' = Some v"
    then show "obj_entry_ok S (k', v)"
      using ok os by (auto simp: env_ok_map [OF D] m key_update_def split: if_splits)
  next
    fix k' v assume "env_map D env' EXP_DB k' = Some v"
    then show "exp_entry_ok env' (k', v)"
      using ok oe mono by (auto simp: env_ok_map [OF D] m key_update_def split: if_splits)
  qed
qed

lemma evolves_trans:
  assumes "evolves D s s1 m1" and "evolves D s1 s2 m2"
  shows "env_map D (lm_env s2) = m2" and "\<forall>n. hm_get (lm_env s) n \<noteq> None \<longrightarrow> hm_get (lm_env s2) n \<noteq> None"
    and "length (lm_env s2) \<le> length (lm_env s) + 2"
  using assms by (auto simp: evolves_def del: not_None_eq)

lemma put_object_facts:
  assumes E: "env_laws D E" and S: "serde_laws S" and ok: "lm_ok D S s" and names: "names_ok c k"
    and room: "length (lm_env s) + 2 \<le> 1024"
  obtains s' where "lm_put_object D E S c k v s = Some s'" and "lm_ok D S s'"
    and "lm_view D S s' = (lm_view D S s)((c, k) \<mapsto> (v, None))" and "length (lm_env s') \<le> length (lm_env s) + 2"
proof -
  let ?m = "env_map D (lm_env s)" and ?str = "sd_to_string S v"
  note D = env_laws_heed [OF E]
  have nm: "CHR 0x00 \<notin> set c" "lmdb_key (obj_db c)" "lmdb_key k" "lmdb_key (exp_key c k)"
    using names by (simp_all add: names_ok_def)
  have rm: "length (lm_env s) < 1024" using room by simp
  obtain s1 where s1: "put_str D E (obj_db c) k ?str s = Some s1" "lm_has_any_ttl s1 = lm_has_any_ttl s"
    "evolves D s s1 (?m(obj_db c := (?m (obj_db c))(k \<mapsto> ?str)))"
    by (rule put_str_facts [OF E nm(2,3) rm])
  have "\<exists>s'. lm_put_object D E S c k v s = Some s' \<and> lm_has_any_ttl s' = lm_has_any_ttl s \<and>
      env_map D (lm_env s') = key_update c k (Some ?str) None ?m \<and>
      (\<forall>n. hm_get (lm_env s) n \<noteq> None \<longrightarrow> hm_get (lm_env s') n \<noteq> None) \<and> length (lm_env s') \<le> length (lm_env s) + 2"
  proof (cases "lm_has_any_ttl s")
    case True
    have "length (lm_env s1) < 1024" using s1(3) room by (simp add: evolves_def)
    then obtain s2 where s2: "clear_expiry D E c k s1 = Some s2" "lm_has_any_ttl s2 = lm_has_any_ttl s1"
      "evolves D s1 s2 ((env_map D (lm_env s1))(EXP_DB := (env_map D (lm_env s1) EXP_DB)(exp_key c k := None)))"
      by (rule clear_expiry_facts [OF E nm(4)])
    have m1: "env_map D (lm_env s1) = ?m(obj_db c := (?m (obj_db c))(k \<mapsto> ?str))" using s1(3) by (simp add: evolves_def)
    note t = evolves_trans [OF s1(3) s2(3)]
    have "env_map D (lm_env s2) = key_update c k (Some ?str) None ?m" unfolding t(1) m1 by (simp add: key_update_def)
    with t s1 s2 True show ?thesis by (intro exI [of _ s2]) (simp add: lm_put_object_def del: not_None_eq)
  next
    case False
    then have "?m EXP_DB = (\<lambda>k. None)" using ok by (simp add: lm_ok_def no_expiries_map)
    then have "?m(obj_db c := (?m (obj_db c))(k \<mapsto> ?str)) = key_update c k (Some ?str) None ?m"
      by (auto simp: key_update_def fun_eq_iff)
    with s1 False show ?thesis by (intro exI [of _ s1]) (simp add: lm_put_object_def evolves_def del: not_None_eq)
  qed
  then obtain s' where s': "lm_put_object D E S c k v s = Some s'" "lm_has_any_ttl s' = lm_has_any_ttl s"
    "env_map D (lm_env s') = key_update c k (Some ?str) None ?m"
    "\<forall>n. hm_get (lm_env s) n \<noteq> None \<longrightarrow> hm_get (lm_env s') n \<noteq> None" "length (lm_env s') \<le> length (lm_env s) + 2"
    by blast
  have rt: "sd_from_str S ?str = Some v" using S by (simp add: serde_laws_def)
  have "env_ok D S (lm_env s')"
    by (rule ok_key_update [OF D s'(3) _ s'(4)]) (use ok rt nm(3) in \<open>simp_all add: lm_ok_def obj_entry_ok_def\<close>)
  moreover have "\<not> lm_has_any_ttl s' \<longrightarrow> db_entries D (lm_env s') EXP_DB = []"
    using ok s'(2,3) by (auto simp: lm_ok_def no_expiries_map key_update_def)
  ultimately show thesis
    using s'(1,5) view_key_update [OF s'(3) nm(1), of S] rt by (intro that [of s']) (simp_all add: lm_ok_def)
qed

lemma put_object_at_facts:
  assumes E: "env_laws D E" and S: "serde_laws S" and ok: "lm_ok D S s" and names: "names_ok c k"
    and room: "length (lm_env s) + 2 \<le> 1024"
  obtains s' where "lm_put_object_at D E S c k v e s = Some s'" and "lm_ok D S s'"
    and "lm_view D S s' = (lm_view D S s)((c, k) \<mapsto> (v, Some e))" and "length (lm_env s') \<le> length (lm_env s) + 2"
proof -
  let ?m = "env_map D (lm_env s)" and ?str = "sd_to_string S v"
  note D = env_laws_heed [OF E]
  have nm: "CHR 0x00 \<notin> set c" "lmdb_key (obj_db c)" "lmdb_key k" "lmdb_key (exp_key c k)"
    using names by (simp_all add: names_ok_def)
  have rm: "length (lm_env s) < 1024" using room by simp
  obtain s1 where s1: "put_str D E (obj_db c) k ?str s = Some s1"
    "evolves D s s1 (?m(obj_db c := (?m (obj_db c))(k \<mapsto> ?str)))" "hm_get (lm_env s1) (obj_db c) \<noteq> None"
    by (rule put_str_facts [OF E nm(2,3) rm])
  have rm1: "length (lm_env s1) < 1024" using s1(2) room by (simp add: evolves_def)
  obtain env d where o: "open_db E EXP_DB s1 = Some (s1\<lparr>lm_env := env\<rparr>, d)" "env_map D env = env_map D (lm_env s1)"
    "hm_get env EXP_DB = Some d" "\<forall>n. hm_get (lm_env s1) n \<noteq> None \<longrightarrow> hm_get env n \<noteq> None"
    "length env \<le> Suc (length (lm_env s1))"
    by (rule open_db_facts [OF E EXP_DB_key rm1])
  obtain d' where d': "hd_put D (exp_key c k) (show_u64 e) d = Some d'"
    "map_of (hd_entries D d') = (map_of (hd_entries D d))(exp_key c k \<mapsto> show_u64 e)"
    using heed_put [OF D nm(4)] .
  have "hm_get (lm_env (s1\<lparr>lm_env := env\<rparr>)) EXP_DB \<noteq> None" using o(3) by simp
  then obtain s2 where s2: "commit_db E EXP_DB d' (s1\<lparr>lm_env := env\<rparr>) = Some s2"
    "evolves D (s1\<lparr>lm_env := env\<rparr>) s2 ((env_map D env)(EXP_DB := map_of (hd_entries D d')))"
    "length (lm_env s2) = length env"
    using commit_facts [OF E, of "s1\<lparr>lm_env := env\<rparr>" EXP_DB d'] by auto
  let ?s = "maybe_sync (s2\<lparr>lm_has_any_ttl := True\<rparr>)"
  have "map_of (hd_entries D d) = env_map D (lm_env s1) EXP_DB"
    using o(2,3) by (metis env_map_def db_entries_def option.simps(5))
  then have m: "env_map D (lm_env ?s) = key_update c k (Some ?str) (Some (show_u64 e)) ?m"
    using s1(2) s2(2) o(2) d'(2) by (simp add: evolves_def key_update_def)
  have keep: "\<forall>n. hm_get (lm_env s) n \<noteq> None \<longrightarrow> hm_get (lm_env ?s) n \<noteq> None"
    using s1(2) o(4) s2(2) by (simp add: evolves_def del: not_None_eq)
  have here: "hm_get (lm_env ?s) (obj_db c) \<noteq> None"
    using s1(3) o(4) s2(2) by (simp add: evolves_def del: not_None_eq)
  have rt: "sd_from_str S ?str = Some v" using S by (simp add: serde_laws_def)
  have "env_ok D S (lm_env ?s)"
  proof (rule ok_key_update [OF D m _ keep])
    show "\<forall>s. Some (show_u64 e) = Some s \<longrightarrow> exp_entry_ok (lm_env ?s) (exp_key c k, s)"
      using nm here unfolding exp_entry_ok_def by blast
  qed (use ok rt nm(3) in \<open>simp_all add: lm_ok_def obj_entry_ok_def\<close>)
  moreover have "lm_put_object_at D E S c k v e s = Some ?s"
    using s1(1) o(1) d'(1) s2(1) env_txns [OF E] by (simp add: lm_put_object_at_def)
  moreover have "length (lm_env ?s) \<le> length (lm_env s) + 2" using s1(2) s2(3) o(5) by (simp add: evolves_def)
  ultimately show thesis
    using view_key_update [OF m nm(1), of S] rt by (intro that [of ?s]) (simp_all add: lm_ok_def)
qed

lemma read_db_eq: "env_laws D E \<Longrightarrow> read_db E s name = hm_get (lm_env s) name"
  by (simp add: read_db_def env_txns)

lemma delete_object_facts:
  assumes E: "env_laws D E" and ok: "lm_ok D S s" and names: "names_ok c k" and room: "length (lm_env s) + 2 \<le> 1024"
  obtains s' where "lm_delete_object D E c k s = Some s'" and "lm_ok D S s'"
    and "lm_view D S s' = (lm_view D S s)((c, k) := None)" and "length (lm_env s') \<le> length (lm_env s) + 2"
proof -
  let ?m = "env_map D (lm_env s)"
  note D = env_laws_heed [OF E]
  have nm: "CHR 0x00 \<notin> set c" "lmdb_key k" "lmdb_key (exp_key c k)" using names by (simp_all add: names_ok_def)
  define pre where "pre = (case read_db E s (obj_db c) of
      Some db \<Rightarrow> if \<not> ev_write_txn E (lm_env s) then None
        else (case hd_delete D k db of None \<Rightarrow> None
          | Some (d, _) \<Rightarrow> map_option maybe_sync (commit_db E (obj_db c) d s))
    | None \<Rightarrow> Some s)"
  obtain s1 where s1: "pre = Some s1" "lm_has_any_ttl s1 = lm_has_any_ttl s"
    "evolves D s s1 (?m(obj_db c := (?m (obj_db c))(k := None)))"
  proof (cases "hm_get (lm_env s) (obj_db c)")
    case None
    then have "?m (obj_db c) = (\<lambda>k. None)" by (simp add: env_map_def db_entries_def)
    then have "?m(obj_db c := (?m (obj_db c))(k := None)) = ?m" by (auto simp: fun_eq_iff)
    with None that [of s] show thesis by (simp add: pre_def read_db_eq [OF E] evolves_def)
  next
    case (Some d)
    obtain d' where d': "hd_delete D k d = Some (d', map_of (hd_entries D d) k \<noteq> None)"
      "map_of (hd_entries D d') = (map_of (hd_entries D d))(k := None)" using heed_delete [OF D nm(2)] .
    have "hm_get (lm_env s) (obj_db c) \<noteq> None" using Some by simp
    then obtain s' where "commit_db E (obj_db c) d' s = Some s'" "lm_has_any_ttl s' = lm_has_any_ttl s"
      "evolves D s s' (?m(obj_db c := map_of (hd_entries D d')))"
      by (rule commit_facts [OF E])
    moreover have "map_of (hd_entries D d) = ?m (obj_db c)" using Some by (simp add: env_map_def db_entries_def)
    ultimately show thesis
      using that [of "maybe_sync s'"] Some d' env_txns [OF E] by (simp add: pre_def read_db_eq [OF E] evolves_def)
  qed
  have del: "lm_delete_object D E c k s = (if lm_has_any_ttl s1 then clear_expiry D E c k s1 else Some s1)"
    using s1(1) by (simp add: lm_delete_object_def pre_def [symmetric])
  have "\<exists>s'. lm_delete_object D E c k s = Some s' \<and> lm_has_any_ttl s' = lm_has_any_ttl s \<and>
      env_map D (lm_env s') = key_update c k None None ?m \<and>
      (\<forall>n. hm_get (lm_env s) n \<noteq> None \<longrightarrow> hm_get (lm_env s') n \<noteq> None) \<and> length (lm_env s') \<le> length (lm_env s) + 2"
  proof (cases "lm_has_any_ttl s")
    case True
    have "length (lm_env s1) < 1024" using s1(3) room by (simp add: evolves_def)
    then obtain s2 where s2: "clear_expiry D E c k s1 = Some s2" "lm_has_any_ttl s2 = lm_has_any_ttl s1"
      "evolves D s1 s2 ((env_map D (lm_env s1))(EXP_DB := (env_map D (lm_env s1) EXP_DB)(exp_key c k := None)))"
      by (rule clear_expiry_facts [OF E nm(3)])
    have m1: "env_map D (lm_env s1) = ?m(obj_db c := (?m (obj_db c))(k := None))" using s1(3) by (simp add: evolves_def)
    note t = evolves_trans [OF s1(3) s2(3)]
    have "env_map D (lm_env s2) = key_update c k None None ?m" unfolding t(1) m1 by (simp add: key_update_def)
    with t s1 s2 True del show ?thesis by (intro exI [of _ s2]) (simp del: not_None_eq)
  next
    case False
    then have "?m EXP_DB = (\<lambda>k. None)" using ok by (simp add: lm_ok_def no_expiries_map)
    then have "?m(obj_db c := (?m (obj_db c))(k := None)) = key_update c k None None ?m"
      by (auto simp: key_update_def fun_eq_iff)
    with s1 False del show ?thesis by (intro exI [of _ s1]) (simp add: evolves_def del: not_None_eq)
  qed
  then obtain s' where s': "lm_delete_object D E c k s = Some s'" "lm_has_any_ttl s' = lm_has_any_ttl s"
    "env_map D (lm_env s') = key_update c k None None ?m"
    "\<forall>n. hm_get (lm_env s) n \<noteq> None \<longrightarrow> hm_get (lm_env s') n \<noteq> None" "length (lm_env s') \<le> length (lm_env s) + 2"
    by blast
  have "env_ok D S (lm_env s')" by (rule ok_key_update [OF D s'(3) _ s'(4)]) (use ok in \<open>simp_all add: lm_ok_def\<close>)
  moreover have "\<not> lm_has_any_ttl s' \<longrightarrow> db_entries D (lm_env s') EXP_DB = []"
    using ok s'(2,3) by (auto simp: lm_ok_def no_expiries_map key_update_def)
  ultimately show thesis
    using s'(1,5) view_key_update [OF s'(3) nm(1), of S] by (intro that [of s']) (simp_all add: lm_ok_def)
qed

lemma clear_collection_facts:
  assumes E: "env_laws D E" and ok: "lm_ok D S s"
  obtains s' where "lm_clear_collection D E c s = Some s'" and "lm_ok D S s'"
    and "lm_view D S s' = (\<lambda>(c', k). if c' = c then None else lm_view D S s (c', k))"
proof (cases "hm_get (lm_env s) (obj_db c)")
  case None
  then have "lm_view D S s = (\<lambda>(c', k). if c' = c then None else lm_view D S s (c', k))"
    by (auto simp: fun_eq_iff env_view_map env_map_def db_entries_def)
  with None ok show thesis by (intro that [of s]) (simp_all add: lm_clear_collection_def read_db_eq [OF E])
next
  case (Some d)
  let ?m = "env_map D (lm_env s)"
  note D = env_laws_heed [OF E]
  obtain d' where d': "hd_clear D d = Some d'" "hd_entries D d' = []" using heed_clear [OF D] .
  have "hm_get (lm_env s) (obj_db c) \<noteq> None" using Some by simp
  then obtain s' where s': "commit_db E (obj_db c) d' s = Some s'" "lm_has_any_ttl s' = lm_has_any_ttl s"
    "evolves D s s' (?m(obj_db c := map_of (hd_entries D d')))"
    by (rule commit_facts [OF E])
  have m: "env_map D (lm_env s') = ?m(obj_db c := (\<lambda>k. None))" and
    keep: "\<forall>n. hm_get (lm_env s) n \<noteq> None \<longrightarrow> hm_get (lm_env s') n \<noteq> None"
    using s'(3) d'(2) by (simp_all add: evolves_def del: not_None_eq)
  have "exp_entry_ok (lm_env s) e \<Longrightarrow> exp_entry_ok (lm_env s') e" for e
    using keep unfolding exp_entry_ok_def case_prod_unfold by blast
  then have "env_ok D S (lm_env s')" using ok by (auto simp: lm_ok_def env_ok_map [OF D] m)
  moreover have "\<not> lm_has_any_ttl s' \<longrightarrow> db_entries D (lm_env s') EXP_DB = []"
    using ok s'(2) m by (auto simp: lm_ok_def no_expiries_map)
  moreover have "lm_view D S s' = (\<lambda>(c', k). if c' = c then None else lm_view D S s (c', k))"
    by (auto simp: fun_eq_iff env_view_map m split: option.split)
  ultimately show thesis
    using Some d'(1) s'(1) env_txns [OF E]
    by (intro that [of "maybe_sync s'"]) (simp_all add: lm_ok_def lm_clear_collection_def read_db_eq [OF E])
qed

subsection \<open>Reads\<close>

lemma get_bind:
  assumes "heed_laws D" and "map_of (hd_entries D d) k \<noteq> None \<longrightarrow> lmdb_key k"
  shows "(case hd_get D d k of Some (Some v) \<Rightarrow> f v | _ \<Rightarrow> None) = Option.bind (map_of (hd_entries D d) k) f"
proof (cases "lmdb_key k")
  case True
  then show ?thesis using heed_get [OF assms(1) True] by (simp split: option.split)
next
  case False
  then have "map_of (hd_entries D d) k = None" using assms(2) by blast
  then show ?thesis using heed_bad_key [OF assms(1) False, of "[]" d] by auto
qed

lemma read_expiry_eq:
  assumes E: "env_laws D E" and ok: "lm_ok D S s"
  shows "read_expiry D E s c k = Option.bind (env_map D (lm_env s) EXP_DB (exp_key c k)) parse_u64"
proof (cases "hm_get (lm_env s) EXP_DB")
  case None
  then show ?thesis by (simp add: read_expiry_def read_db_eq [OF E] env_map_def db_entries_def)
next
  case (Some d)
  note D = env_laws_heed [OF E]
  have m: "env_map D (lm_env s) EXP_DB = map_of (hd_entries D d)" using Some by (simp add: env_map_def db_entries_def)
  have "exp_entry_ok (lm_env s) (exp_key c k, v)" if "map_of (hd_entries D d) (exp_key c k) = Some v" for v
    using ok that by (simp add: lm_ok_def env_ok_map [OF D] m)
  then have "map_of (hd_entries D d) (exp_key c k) \<noteq> None \<longrightarrow> lmdb_key (exp_key c k)"
    by (force simp: exp_entry_ok_def)
  from get_bind [OF D this, of parse_u64] show ?thesis
    using Some env_txns [OF E] by (simp add: read_expiry_def read_db_eq [OF E] m)
qed

lemma lookup_eq:
  assumes E: "env_laws D E" and ok: "lm_ok D S s"
  shows "lm_lookup D E S s (obj_db c) k = Option.bind (env_map D (lm_env s) (obj_db c) k) (sd_from_str S)"
proof (cases "hm_get (lm_env s) (obj_db c)")
  case None
  then show ?thesis by (simp add: lm_lookup_def read_db_eq [OF E] env_map_def db_entries_def)
next
  case (Some d)
  note D = env_laws_heed [OF E]
  have m: "env_map D (lm_env s) (obj_db c) = map_of (hd_entries D d)" using Some by (simp add: env_map_def db_entries_def)
  have "obj_entry_ok S (k, v)" if "map_of (hd_entries D d) k = Some v" for v
    using ok that unfolding lm_ok_def env_ok_map [OF D] by (metis m)
  then have "map_of (hd_entries D d) k \<noteq> None \<longrightarrow> lmdb_key k" by (force simp: obj_entry_ok_def)
  from get_bind [OF D this, of "sd_from_str S"] show ?thesis
    using Some env_txns [OF E] by (simp add: lm_lookup_def read_db_eq [OF E] m)
qed

lemma is_expired_eq:
  assumes E: "env_laws D E" and ok: "lm_ok D S s"
  shows "lm_is_expired D E now s c k \<longleftrightarrow>
    (\<exists>e \<le> now. Option.bind (env_map D (lm_env s) EXP_DB (exp_key c k)) parse_u64 = Some e)"
proof (cases "lm_has_any_ttl s")
  case False
  then have "env_map D (lm_env s) EXP_DB = (\<lambda>k. None)" using ok by (simp add: lm_ok_def no_expiries_map)
  with False show ?thesis by (simp add: lm_is_expired_def)
qed (simp add: lm_is_expired_def read_expiry_eq [OF assms] split: option.split)

lemma get_object_eq:
  assumes E: "env_laws D E" and ok: "lm_ok D S s" and c: "CHR 0x00 \<notin> set c"
  shows "lm_get_object D E S now s c k =
    (case lm_view D S s (c, k) of Some ve \<Rightarrow> if live_at now ve then Some (fst ve) else None | None \<Rightarrow> None)"
  using c by (auto simp: lm_get_object_def lookup_eq [OF assms(1,2)] is_expired_eq [OF assms(1,2)] env_view_map live_at_alt
      bind_eq_Some_conv split: option.splits bind_splits)

subsection \<open>Scans\<close>

text \<open>In the order of strings the keys with a prefix follow it without gaps.\<close>

lemma prefix_convex: "p \<le> k \<Longrightarrow> k < k' \<Longrightarrow> starts_with k' p \<Longrightarrow> starts_with k p"
proof (induction p arbitrary: k k')
  case (Cons a p)
  then obtain r where k': "k' = a # p @ r" by (auto simp: starts_with_iff)
  from Cons.prems(1) obtain b ks where k: "k = b # ks" by (cases k) auto
  have "a = b" "p \<le> ks" "ks < p @ r" using Cons.prems(1,2) unfolding k k' by auto
  with Cons.IH [of ks "p @ r"] k show ?case by (auto simp: starts_with_iff)
qed (simp add: starts_with_iff)

definition walk_ok :: "(string \<Rightarrow> bool) \<Rightarrow> string option \<Rightarrow> string option \<Rightarrow> string \<Rightarrow> bool" where
  "walk_ok expired pre end k \<longleftrightarrow> (case end of Some e \<Rightarrow> k < e | None \<Rightarrow> True) \<and>
     (case pre of Some p \<Rightarrow> starts_with k p | None \<Rightarrow> True) \<and> \<not> expired k"

lemma walk_eq:
  assumes "sorted_wrt (<) ks" and "\<forall>k \<in> set ks. case pre of Some p \<Rightarrow> p \<le> k | None \<Rightarrow> True"
  shows "walk expired pre end limit ks out = out @ take (limit - length out) (filter (walk_ok expired pre end) ks)"
  using assms
proof (induction ks arbitrary: out)
  case (Cons k ks)
  have later: "\<forall>k' \<in> set ks. k < k'" using Cons.prems(1) by simp
  show ?case
  proof (cases "(case end of Some e \<Rightarrow> e \<le> k | None \<Rightarrow> False) \<or> (case pre of Some p \<Rightarrow> \<not> starts_with k p | None \<Rightarrow> False)")
    case True
    have "\<not> walk_ok expired pre end k'" if k': "k' \<in> set (k # ks)" for k'
    proof
      assume w: "walk_ok expired pre end k'"
      have le: "k \<le> k'" using k' later by auto
      from True show False
      proof
        assume "case end of Some e \<Rightarrow> e \<le> k | None \<Rightarrow> False"
        then obtain e where "end = Some e" "e \<le> k" by (cases "end") auto
        with w have "k' < e" by (simp add: walk_ok_def)
        with \<open>e \<le> k\<close> le show False by (metis leD order.trans)
      next
        assume "case pre of Some p \<Rightarrow> \<not> starts_with k p | None \<Rightarrow> False"
        then obtain p where p: "pre = Some p" "\<not> starts_with k p" by (cases pre) auto
        have "p \<le> k" "starts_with k' p" using Cons.prems(2) p(1) w by (auto simp: walk_ok_def)
        with p(2) le prefix_convex [of p k k'] show False by (cases "k = k'") auto
      qed
    qed
    then have "filter (walk_ok expired pre end) (k # ks) = []" by (simp add: filter_empty_conv)
    moreover have "walk expired pre end limit (k # ks) out = out" using True by auto
    ultimately show ?thesis by simp
  next
    case False
    then have "walk_ok expired pre end k \<longleftrightarrow> \<not> expired k"
      by (auto simp: walk_ok_def not_le split: option.splits)
    show ?thesis
    proof (cases "length out < limit")
      case True
      then have "limit - length out = Suc (limit - Suc (length out))" by linarith
      with True False Cons \<open>walk_ok expired pre end k \<longleftrightarrow> \<not> expired k\<close> show ?thesis by auto
    qed simp
  qed
qed simp

lemma prefix_le: "starts_with k p \<Longrightarrow> p \<le> k"
proof -
  have "p \<le> p @ r" for r by (induction p) auto
  then show "starts_with k p \<Longrightarrow> p \<le> k" by (auto simp: starts_with_iff)
qed

lemma range_ok_lower:
  "range_ok after pre end k \<longleftrightarrow> above (lower_bound after pre) k \<and> walk_ok (\<lambda>k. False) pre end k"
  using prefix_le [of k] by (cases after; cases pre; cases "end")
    (auto simp: range_ok_def lower_bound_def walk_ok_def not_le dest: order.strict_trans1 order.strict_trans2 order.trans)

lemma lower_bound_prefix: "above (lower_bound after pre) k \<Longrightarrow> case pre of Some p \<Rightarrow> p \<le> k | None \<Rightarrow> True"
  by (cases after; cases pre) (auto simp: lower_bound_def split: if_splits)

lemma scan_range_eq:
  assumes E: "env_laws D E" and ok: "lm_ok D S s" and c: "CHR 0x00 \<notin> set c"
  shows "lm_scan_range D E now s c after pre end limit =
    take limit (filter (range_ok after pre end) (sorted_list_of_set {k. lm_get_object D E S now s c k \<noteq> None}))"
proof -
  note D = env_laws_heed [OF E]
  let ?es = "db_entries D (lm_env s) (obj_db c)" and ?x = "lm_is_expired D E now s c"
  let ?K = "map fst ?es"
  have K: "sorted_wrt (<) ?K" using heed_sorted [OF D] by (simp add: db_entries_def split: option.split)
  have "lm_get_object D E S now s c k \<noteq> None \<longleftrightarrow> k \<in> set (filter (\<lambda>k. \<not> ?x k) ?K)" for k
  proof -
    have "env_map D (lm_env s) (obj_db c) k = Some v \<Longrightarrow> sd_from_str S v \<noteq> None" for v
      using ok by (fastforce simp: lm_ok_def env_ok_map [OF D] obj_entry_ok_def)
    moreover have "env_map D (lm_env s) (obj_db c) k = None \<longleftrightarrow> k \<notin> set ?K"
      by (simp add: env_map_def map_of_eq_None_iff)
    ultimately have "Option.bind (env_map D (lm_env s) (obj_db c) k) (sd_from_str S) \<noteq> None \<longleftrightarrow> k \<in> set ?K"
      by (cases "env_map D (lm_env s) (obj_db c) k") simp_all
    then show ?thesis by (simp add: lm_get_object_def lookup_eq [OF E ok])
  qed
  then have keys: "sorted_list_of_set {k. lm_get_object D E S now s c k \<noteq> None} = filter (\<lambda>k. \<not> ?x k) ?K"
  proof -
    assume "\<And>k. lm_get_object D E S now s c k \<noteq> None \<longleftrightarrow> k \<in> set (filter (\<lambda>k. \<not> ?x k) ?K)"
    then have "{k. lm_get_object D E S now s c k \<noteq> None} = set (filter (\<lambda>k. \<not> ?x k) ?K)" by blast
    moreover have "sorted_wrt (<) (filter (\<lambda>k. \<not> ?x k) ?K)" using K by (rule sorted_wrt_filter)
    then have "sorted_list_of_set (set (filter (\<lambda>k. \<not> ?x k) ?K)) = filter (\<lambda>k. \<not> ?x k) ?K"
      by (intro sorted_list_of_set.idem_if_sorted_distinct) (simp_all add: strict_sorted_iff del: set_filter filter_map)
    ultimately show ?thesis by simp
  qed
  have walk: "walk ?x pre end limit (filter (above (lower_bound after pre)) ?K) [] =
      take limit (filter (walk_ok ?x pre end) (filter (above (lower_bound after pre)) ?K))"
    using walk_eq [of "filter (above (lower_bound after pre)) ?K" pre ?x "end" limit "[]"] K lower_bound_prefix
    by (auto simp: sorted_wrt_filter)
  have "lm_scan_range D E now s c after pre end limit = walk ?x pre end limit (filter (above (lower_bound after pre)) ?K) []"
  proof (cases "hm_get (lm_env s) (obj_db c)")
    case None
    then show ?thesis by (simp add: lm_scan_range_def read_db_eq [OF E] db_entries_def)
  next
    case (Some d)
    have "(\<lambda>k. lm_has_any_ttl s \<and> ?x k) = ?x" by (auto simp: lm_is_expired_def)
    moreover have "map fst (filter (\<lambda>e. above (lower_bound after pre) (fst e)) (hd_entries D d)) =
        filter (above (lower_bound after pre)) (map fst (hd_entries D d))"
      by (simp add: filter_map comp_def)
    ultimately show ?thesis
      using Some env_txns [OF E] by (simp add: lm_scan_range_def read_db_eq [OF E] env_range [OF E] db_entries_def)
  qed
  also note walk
  also have "filter (walk_ok ?x pre end) (filter (above (lower_bound after pre)) ?K) =
      filter (range_ok after pre end) (filter (\<lambda>k. \<not> ?x k) ?K)"
    by (auto simp: range_ok_lower walk_ok_def intro!: filter_cong)
  finally show ?thesis by (simp only: keys)
qed

lemma scan_entries_facts:
  assumes E: "env_laws D E" and ok: "lm_ok D S s" and c: "CHR 0x00 \<notin> set c"
  shows "map_of (lm_scan_entries D E S now s c) k = lm_get_object D E S now s c k"
    and "sorted_wrt (<) (map fst (lm_scan_entries D E S now s c))"
proof -
  note D = env_laws_heed [OF E]
  let ?es = "db_entries D (lm_env s) (obj_db c)"
  have dec: "\<forall>(k, v) \<in> set ?es. sd_from_str S v \<noteq> None"
    using ok by (auto simp: lm_ok_def env_ok_def list_all_iff obj_entry_ok_def simp del: not_None_eq)
  have es: "lm_entries D E S s (obj_db c) = decode_entries S ?es"
    using env_txns [OF E] heed_iter [OF D] by (simp add: lm_entries_def read_db_eq [OF E] db_entries_def split: option.split)
  have sc: "lm_scan_entries D E S now s c = filter (\<lambda>(k, v). \<not> lm_is_expired D E now s c k) (decode_entries S ?es)"
    by (auto simp: lm_scan_entries_def es Let_def lm_is_expired_def)
  show "map_of (lm_scan_entries D E S now s c) k = lm_get_object D E S now s c k"
    unfolding sc hm_get_filter_fst map_of_decode [OF dec]
    by (simp add: lm_get_object_def lookup_eq [OF E ok] env_map_def split: option.split)
  have "sorted_wrt (<) (map fst (decode_entries S ?es))"
    unfolding decode_keys_eq [OF dec] using heed_sorted [OF D] by (simp add: db_entries_def split: option.split)
  then show "sorted_wrt (<) (map fst (lm_scan_entries D E S now s c))"
    unfolding sc by (simp add: sorted_wrt_map sorted_wrt_filter)
qed

subsection \<open>The sweep\<close>

definition dead_at :: "'d heed \<Rightarrow> u64 \<Rightarrow> 'd env \<Rightarrow> string \<times> string \<Rightarrow> bool" where
  "dead_at D t env = (\<lambda>(c, k). CHR 0x00 \<notin> set c \<and>
     (\<exists>e \<le> t. Option.bind (env_map D env EXP_DB (exp_key c k)) parse_u64 = Some e))"

definition sweepable :: "'d env \<Rightarrow> string \<times> string \<times> string \<Rightarrow> bool" where
  "sweepable env = (\<lambda>(ek, c, k). ek = exp_key c k \<and> CHR 0x00 \<notin> set c \<and> lmdb_key ek \<and> lmdb_key k \<and>
     hm_get env (obj_db c) \<noteq> None)"

lemma sweep_dead_facts:
  assumes E: "env_laws D E"
  shows "env_ok D S (lm_env s) \<Longrightarrow> hm_get (lm_env s) EXP_DB \<noteq> None \<Longrightarrow> list_all (sweepable (lm_env s)) dead \<Longrightarrow>
    \<exists>env. sweep_dead D E dead s = Some (s\<lparr>lm_env := env\<rparr>) \<and> env_ok D S env \<and>
      env_view D S env = (\<lambda>ck. if ck \<in> snd ` set dead then None else env_view D S (lm_env s) ck)"
proof (induction dead arbitrary: s)
  case Nil
  then show ?case by (intro exI [of _ "lm_env s"]) simp
next
  case (Cons x dead)
  note D = env_laws_heed [OF E]
  obtain ek c k where x: "x = (ek, c, k)" by (cases x)
  have nm: "ek = exp_key c k" "CHR 0x00 \<notin> set c" "lmdb_key ek" "lmdb_key k" using Cons.prems(3) x by (auto simp: sweepable_def)
  obtain odb where odb: "hm_get (lm_env s) (obj_db c) = Some odb" using Cons.prems(3) x by (auto simp: sweepable_def)
  obtain edb where edb: "hm_get (lm_env s) EXP_DB = Some edb" using Cons.prems(2) by auto
  let ?od = "case hd_delete D k odb of None \<Rightarrow> odb | Some (d, _) \<Rightarrow> d"
  let ?ed = "case hd_delete D ek edb of None \<Rightarrow> edb | Some (d, _) \<Rightarrow> d"
  define env1 where "env1 = hm_insert EXP_DB ?ed (hm_insert (obj_db c) ?od (lm_env s))"
  have step: "sweep_dead D E (x # dead) s = sweep_dead D E dead (s\<lparr>lm_env := env1\<rparr>)"
    using odb edb env_txns [OF E] by (simp add: x read_db_eq [OF E] Let_def hm_simps env1_def)
  have m: "env_map D env1 = key_update c k None None (env_map D (lm_env s))"
    unfolding env1_def env_map_insert delete_map [OF D nm(4)] delete_map [OF D nm(3)] using odb edb nm(1)
    by (auto simp: key_update_def env_map_def db_entries_def fun_eq_iff)
  have keep: "\<forall>n. hm_get (lm_env s) n \<noteq> None \<longrightarrow> hm_get env1 n \<noteq> None" by (simp add: hm_simps env1_def)
  have "env_ok D S env1" by (rule ok_key_update [OF D m Cons.prems(1) keep]) simp_all
  moreover have "hm_get env1 EXP_DB \<noteq> None" by (simp add: hm_simps env1_def)
  moreover have "sweepable (lm_env s) e \<Longrightarrow> sweepable env1 e" for e
    using keep unfolding sweepable_def case_prod_unfold by blast
  then have "list_all (sweepable env1) dead" using Cons.prems(3) by (simp add: list_all_iff)
  ultimately have "\<exists>env. sweep_dead D E dead (s\<lparr>lm_env := env1\<rparr>) = Some (s\<lparr>lm_env := env\<rparr>) \<and> env_ok D S env \<and>
      env_view D S env = (\<lambda>ck. if ck \<in> snd ` set dead then None else env_view D S env1 ck)"
    using Cons.IH [of "s\<lparr>lm_env := env1\<rparr>"] by (simp del: not_None_eq cong: if_cong)
  then obtain env where "sweep_dead D E dead (s\<lparr>lm_env := env1\<rparr>) = Some (s\<lparr>lm_env := env\<rparr>)" "env_ok D S env"
    "env_view D S env = (\<lambda>ck. if ck \<in> snd ` set dead then None else env_view D S env1 ck)" by (elim exE conjE)
  then show ?case
    unfolding step using view_key_update [OF m nm(2), of S]
    by (intro exI [of _ env]) (auto simp: x fun_eq_iff simp del: sweep_dead.simps)
qed

text \<open>The entries that a sweep at \<open>t\<close> takes, as pairs.\<close>

lemma dead_keys_decode:
  assumes V: "value_laws S as_u64" and "list_all (exp_entry_ok env) es"
  shows "list_all (sweepable env) (dead_keys as_u64 t (decode_entries S es))"
    and "map fst (dead_keys as_u64 t (decode_entries S es)) =
      map fst (filter (\<lambda>(k, v). \<exists>e \<le> t. parse_u64 v = Some e) es)"
proof (atomize (full), use assms(2) in \<open>induction es\<close>)
  case (Cons x es)
  then obtain c i e where x: "x = (exp_key c i, show_u64 e)" "CHR 0x00 \<notin> set c" "hm_get env (obj_db c) \<noteq> None"
    "lmdb_key (exp_key c i)" "lmdb_key i" by (auto simp: exp_entry_ok_def)
  obtain v where v: "sd_from_str S (show_u64 e) = Some v" "as_u64 v = Some e" using V unfolding value_laws_def by blast
  have "dead_keys as_u64 t (decode_entries S (x # es)) =
      (if e > t then [] else [(exp_key c i, c, i)]) @ dead_keys as_u64 t (decode_entries S es)"
    by (simp add: x v dead_keys_def List.map_filter_simps split_exp_key)
  with Cons x show ?case by (auto simp: sweepable_def not_le simp del: not_None_eq)
qed (simp add: dead_keys_def List.map_filter_simps)

lemma dead_keys_facts:
  assumes E: "env_laws D E" and V: "value_laws S as_u64" and ok: "env_ok D S (lm_env s)"
    and dead: "dead = dead_keys as_u64 t (lm_entries D E S s EXP_DB)"
  shows "list_all (sweepable (lm_env s)) dead" and "snd ` set dead = {ck. dead_at D t (lm_env s) ck}"
    and "distinct (map snd dead)"
proof -
  note D = env_laws_heed [OF E]
  let ?es = "db_entries D (lm_env s) EXP_DB"
  have es: "list_all (exp_entry_ok (lm_env s)) ?es" using ok by (simp add: env_ok_def)
  have "lm_entries D E S s EXP_DB = decode_entries S ?es"
    using env_txns [OF E] heed_iter [OF D] by (simp add: lm_entries_def read_db_eq [OF E] db_entries_def split: option.split)
  with dead have d: "dead = dead_keys as_u64 t (decode_entries S ?es)" by simp
  show sw: "list_all (sweepable (lm_env s)) dead" unfolding d by (rule dead_keys_decode [OF V es])
  have keys: "map fst dead = map fst (filter (\<lambda>(k, v). \<exists>e \<le> t. parse_u64 v = Some e) ?es)"
    unfolding d by (rule dead_keys_decode [OF V es])
  have dist: "distinct (map fst ?es)" using heed_distinct [OF D] by (simp add: db_entries_def split: option.split)
  have "distinct (map fst dead)" unfolding keys using dist by (rule distinct_map_filter)
  moreover have fst: "fst x = exp_key (fst (snd x)) (snd (snd x))" "CHR 0x00 \<notin> set (fst (snd x))" if "x \<in> set dead" for x
    using sw that by (auto simp: list_all_iff sweepable_def case_prod_unfold)
  ultimately show "distinct (map snd dead)"
    unfolding distinct_map by (metis (no_types, lifting) inj_on_def)
  have "ck \<in> snd ` set dead \<longleftrightarrow> dead_at D t (lm_env s) ck" for ck
  proof -
    obtain c k where ck: "ck = (c, k)" by (cases ck)
    have "ck \<in> snd ` set dead \<longleftrightarrow> CHR 0x00 \<notin> set c \<and> exp_key c k \<in> set (map fst dead)"
    proof
      assume "ck \<in> snd ` set dead"
      then obtain x where "x \<in> set dead" "snd x = (c, k)" using ck by auto
      with fst [of x] show "CHR 0x00 \<notin> set c \<and> exp_key c k \<in> set (map fst dead)" by force
    next
      assume a: "CHR 0x00 \<notin> set c \<and> exp_key c k \<in> set (map fst dead)"
      then obtain x where x: "x \<in> set dead" "fst x = exp_key c k" by auto
      then have "fst (snd x) = c" "snd (snd x) = k" using a fst [of x] exp_key_eq by metis+
      then have "snd x = ck" by (simp add: ck prod_eq_iff)
      with x(1) show "ck \<in> snd ` set dead" by force
    qed
    also have "exp_key c k \<in> set (map fst dead) \<longleftrightarrow>
        (\<exists>e \<le> t. Option.bind (env_map D (lm_env s) EXP_DB (exp_key c k)) parse_u64 = Some e)"
      unfolding keys env_map_def using dist by (force simp: bind_eq_Some_conv)
    finally show ?thesis by (simp add: ck dead_at_def)
  qed
  then show "snd ` set dead = {ck. dead_at D t (lm_env s) ck}" by blast
qed

lemma sweep_facts:
  assumes E: "env_laws D E" and V: "value_laws S as_u64" and ok: "lm_ok D S s"
  obtains s' n where "lm_sweep_expired D E S as_u64 t s = Some (s', n)" and "lm_ok D S s'"
    and "lm_view D S s' = (\<lambda>ck. case lm_view D S s ck of Some ve \<Rightarrow> if live_at t ve then Some ve else None | None \<Rightarrow> None)"
    and "n = card {ck. dead_at D t (lm_env s) ck}"
proof -
  let ?v = "lm_view D S s"
  have live: "(case ?v ck of Some ve \<Rightarrow> if live_at t ve then Some ve else None | None \<Rightarrow> None) =
      (if dead_at D t (lm_env s) ck then None else ?v ck)" for ck
    by (cases ck) (auto simp: env_view_map dead_at_def live_at_alt split: option.splits)
  show thesis
  proof (cases "lm_has_any_ttl s \<and> hm_get (lm_env s) EXP_DB \<noteq> None")
    case False
    then have "env_map D (lm_env s) EXP_DB = (\<lambda>k. None)"
      using ok by (auto simp: lm_ok_def no_expiries_map env_map_def db_entries_def)
    then have none: "\<not> dead_at D t (lm_env s) ck" for ck by (cases ck) (simp add: dead_at_def)
    show thesis
      by (rule that [of s 0]) (use False ok none in \<open>auto simp: lm_sweep_expired_def read_db_eq [OF E] live\<close>)
  next
    case True
    define dead where "dead = dead_keys as_u64 t (lm_entries D E S s EXP_DB)"
    have eok: "env_ok D S (lm_env s)" using ok by (simp add: lm_ok_def)
    note f = dead_keys_facts [OF E V eok dead_def]
    obtain env where env: "sweep_dead D E dead s = Some (s\<lparr>lm_env := env\<rparr>)" "env_ok D S env"
      "env_view D S env = (\<lambda>ck. if ck \<in> snd ` set dead then None else ?v ck)"
      using sweep_dead_facts [OF E eok _ f(1)] True by blast
    let ?s = "if dead \<noteq> [] then maybe_sync (s\<lparr>lm_env := env\<rparr>) else s\<lparr>lm_env := env\<rparr>"
    have "lm_env ?s = env" "lm_has_any_ttl ?s" using True by simp_all
    moreover have "length dead = card (set (map snd dead))" using f(3) by (metis distinct_card length_map)
    then have "length dead = card {ck. dead_at D t (lm_env s) ck}" using f(2) by simp
    moreover have "lm_sweep_expired D E S as_u64 t s = Some (?s, length dead)"
      using True env(1) by (auto simp: lm_sweep_expired_def read_db_eq [OF E] dead_def [symmetric] Let_def)
    ultimately show thesis
      using env(2,3) f(2) by (intro that [of ?s "length dead"]) (simp_all add: lm_ok_def live fun_eq_iff)
  qed
qed

subsection \<open>Batches\<close>

text \<open>The databases of the environment, by name.\<close>

definition names_within :: "string set \<Rightarrow> 'd env \<Rightarrow> bool" where
  "names_within N env \<longleftrightarrow> hm_ok env \<and> fst ` set env \<subseteq> N"

lemma names_insert [simp]: "names_within N env \<Longrightarrow> n \<in> N \<Longrightarrow> names_within N (hm_insert n d env)"
  by (simp add: names_within_def hm_ok_insert hm_keys_insert)

lemma names_length: "names_within N env \<Longrightarrow> finite N \<Longrightarrow> length env \<le> card N"
  unfolding names_within_def by (metis card_mono distinct_card length_map list.set_map)

lemma length_hm_insert_new: "hm_get m k = None \<Longrightarrow> length (hm_insert k v m) = Suc (length m)"
  by (induction m) (auto split: if_splits)

lemma names_length_new: "names_within N env \<Longrightarrow> finite N \<Longrightarrow> n \<in> N \<Longrightarrow> hm_get env n = None \<Longrightarrow> length env < card N"
  using names_length [of N "hm_insert n d env"] by (simp add: length_hm_insert_new)

lemma open_db_names:
  "open_db E n s = Some (s', d) \<Longrightarrow> names_within N (lm_env s) \<Longrightarrow> n \<in> N \<Longrightarrow> names_within N (lm_env s')"
  by (auto simp: open_db_def split: option.splits if_splits)

lemma commit_db_names:
  "commit_db E n d s = Some s' \<Longrightarrow> names_within N (lm_env s) \<Longrightarrow> n \<in> N \<Longrightarrow> names_within N (lm_env s')"
  by (auto simp: commit_db_def Let_def split: if_splits)

lemma ensure_dbs_facts:
  assumes E: "env_laws D E" and N: "finite N" "card N \<le> 1024"
  shows "list_all lmdb_key ns \<Longrightarrow> set ns \<subseteq> N \<Longrightarrow> names_within N (lm_env s) \<Longrightarrow>
    \<exists>env. ensure_dbs E ns s = Some (s\<lparr>lm_env := env\<rparr>) \<and> env_map D env = env_map D (lm_env s) \<and>
      (\<forall>n. hm_get (lm_env s) n \<noteq> None \<longrightarrow> hm_get env n \<noteq> None) \<and> (\<forall>n \<in> set ns. hm_get env n \<noteq> None) \<and>
      names_within N env"
proof (induction ns arbitrary: s)
  case Nil
  then show ?case by (intro exI [of _ "lm_env s"]) simp
next
  case (Cons n ns)
  obtain env d where o: "open_db E n s = Some (s\<lparr>lm_env := env\<rparr>, d)" "env_map D env = env_map D (lm_env s)"
    "hm_get env n = Some d" "\<forall>n. hm_get (lm_env s) n \<noteq> None \<longrightarrow> hm_get env n \<noteq> None" "names_within N env"
  proof (cases "hm_get (lm_env s) n")
    case None
    with Cons.prems N have n: "lmdb_key n" "length (lm_env s) < 1024"
      using names_length_new [of N "lm_env s" n] by auto
    obtain env d where o: "open_db E n s = Some (s\<lparr>lm_env := env\<rparr>, d)" "env_map D env = env_map D (lm_env s)"
      "hm_get env n = Some d" "\<forall>n. hm_get (lm_env s) n \<noteq> None \<longrightarrow> hm_get env n \<noteq> None"
      by (rule open_db_facts [OF E n])
    with that Cons.prems show thesis using open_db_names [OF o(1), of N] by simp
  next
    case (Some d)
    with that [of "lm_env s" d] Cons.prems show thesis using env_txns [OF E] by (simp add: open_db_def)
  qed
  from o(5) Cons.prems Cons.IH [of "s\<lparr>lm_env := env\<rparr>"] obtain env' where
    "ensure_dbs E ns (s\<lparr>lm_env := env\<rparr>) = Some (s\<lparr>lm_env := env'\<rparr>)" "env_map D env' = env_map D env"
    "\<forall>n. hm_get env n \<noteq> None \<longrightarrow> hm_get env' n \<noteq> None" "\<forall>n \<in> set ns. hm_get env' n \<noteq> None"
    "names_within N env'" by (auto simp del: not_None_eq)
  with o show ?case by (intro exI [of _ env']) (auto simp del: not_None_eq)
qed

fun put_all :: "(string \<times> string \<times> 'v) list \<Rightarrow> (string \<times> string \<Rightarrow> ('v \<times> u64 option) option)
    \<Rightarrow> string \<times> string \<Rightarrow> ('v \<times> u64 option) option" where
  "put_all [] f = f"
| "put_all ((c, k, v) # items) f = put_all items (f((c, k) \<mapsto> (v, None)))"

lemma batch_items_facts:
  assumes D: "heed_laws D" and S: "serde_laws S"
  shows "list_all (\<lambda>(c, k, v). names_ok c k \<and> hm_get env (obj_db c) \<noteq> None) items \<Longrightarrow>
    (if ttl then hm_get env EXP_DB \<noteq> None else env_map D env EXP_DB = (\<lambda>k. None)) \<Longrightarrow> env_ok D S env \<Longrightarrow>
    \<exists>env'. batch_items D S ttl items env = Some env' \<and> env_ok D S env' \<and>
      env_view D S env' = put_all items (env_view D S env) \<and>
      (\<not> ttl \<longrightarrow> env_map D env' EXP_DB = (\<lambda>k. None))"
proof (induction items arbitrary: env)
  case (Cons x items)
  obtain c k v where x: "x = (c, k, v)" by (cases x)
  have nm: "CHR 0x00 \<notin> set c" "lmdb_key k" "lmdb_key (exp_key c k)" and here: "hm_get env (obj_db c) \<noteq> None"
    using Cons.prems(1) by (simp_all add: x names_ok_def del: not_None_eq)
  then obtain db where db: "hm_get env (obj_db c) = Some db" by auto
  let ?str = "sd_to_string S v"
  have rt: "sd_from_str S ?str = Some v" using S by (simp add: serde_laws_def)
  obtain d where d: "hd_put D k ?str db = Some d" "map_of (hd_entries D d) = (map_of (hd_entries D db))(k \<mapsto> ?str)"
    using heed_put [OF D nm(2)] .
  define e where "e = the (hm_get env EXP_DB)"
  have e: "hm_get env EXP_DB = Some e" if ttl using that Cons.prems(2) by (auto simp: e_def)
  define env1 where "env1 = (if ttl then hm_insert EXP_DB (case hd_delete D (exp_key c k) e of
      None \<Rightarrow> e | Some (e', _) \<Rightarrow> e') (hm_insert (obj_db c) d env) else hm_insert (obj_db c) d env)"
  have step: "batch_items D S ttl (x # items) env = batch_items D S ttl items env1"
    using db d(1) e by (cases ttl) (simp_all add: x env1_def Let_def hm_simps)
  have m: "env_map D env1 = key_update c k (Some ?str) None (env_map D env)"
  proof (cases ttl)
    case True
    note e = e [OF True]
    with True show ?thesis
      unfolding env1_def by (simp add: env_map_insert delete_map [OF D nm(3)] d(2))
        (use db e in \<open>auto simp: key_update_def env_map_def db_entries_def fun_eq_iff\<close>)
  next
    case False
    then show ?thesis
      unfolding env1_def using db Cons.prems(2)
      by (auto simp: env_map_insert d(2) key_update_def fun_eq_iff env_map_def db_entries_def split: option.splits)
  qed
  have keep: "\<forall>n. hm_get env n \<noteq> None \<longrightarrow> hm_get env1 n \<noteq> None" by (simp add: env1_def hm_simps)
  have ok1: "env_ok D S env1"
    by (rule ok_key_update [OF D m Cons.prems(3) keep]) (use rt nm(2) in \<open>simp_all add: obj_entry_ok_def\<close>)
  have ex1: "if ttl then hm_get env1 EXP_DB \<noteq> None else env_map D env1 EXP_DB = (\<lambda>k. None)"
    using Cons.prems(2) keep by (cases ttl) (simp_all add: m key_update_def del: not_None_eq)
  have all1: "list_all (\<lambda>(c, k, v). names_ok c k \<and> hm_get env1 (obj_db c) \<noteq> None) items"
    using Cons.prems(1) keep unfolding list_all_iff case_prod_unfold by (simp del: not_None_eq)
  have "env_view D S env1 = (env_view D S env)((c, k) \<mapsto> (v, None))"
    using view_key_update [OF m nm(1), of S] rt by simp
  from this [symmetric] show ?case
    unfolding step unfolding x put_all.simps by (simp only: Cons.IH [OF all1 ex1 ok1])
qed auto

lemma names_get: "names_within N env \<Longrightarrow> hm_get env n = Some d \<Longrightarrow> n \<in> N"
  by (auto simp: names_within_def dest!: map_of_SomeD)

lemma read_db_names: "read_db E s n = Some d \<Longrightarrow> names_within N (lm_env s) \<Longrightarrow> n \<in> N"
  by (auto simp: read_db_def names_get split: if_splits)

lemma batch_items_names:
  "batch_items D S ttl items env = Some env' \<Longrightarrow> names_within N env \<Longrightarrow> names_within N env'"
proof (induction items arbitrary: env)
  case (Cons x items)
  obtain c k v where x: "x = (c, k, v)" by (cases x)
  from Cons.prems(1) show ?case
    unfolding x batch_items.simps Let_def
    by (auto split: option.splits if_splits simp: hm_simps intro!: Cons.IH names_insert Cons.prems(2)
        intro: names_get [OF Cons.prems(2)])
qed simp

lemma put_batch_facts:
  assumes E: "env_laws D E" and S: "serde_laws S" and ok: "lm_ok D S s"
    and items: "list_all (\<lambda>(c, k, v). names_ok c k \<and> obj_db c \<in> N) items"
    and N: "finite N" "card N \<le> 1024" "EXP_DB \<in> N" "names_within N (lm_env s)"
  obtains s' where "lm_put_batch D E S items s = Some s'" and "lm_ok D S s'"
    and "lm_view D S s' = put_all items (lm_view D S s)" and "names_within N (lm_env s')"
proof (cases "items = []")
  case True
  with ok N(4) that [of s] show thesis by (simp add: lm_put_batch_def)
next
  case False
  note D = env_laws_heed [OF E]
  let ?ns = "map (\<lambda>(c, k, v). obj_db c) items" and ?ttl = "lm_has_any_ttl s"
  have "list_all lmdb_key ?ns" "set ?ns \<subseteq> N" using items by (auto simp: list_all_iff names_ok_def)
  from ensure_dbs_facts [OF E N(1,2) this N(4)] obtain env where
    env: "ensure_dbs E ?ns s = Some (s\<lparr>lm_env := env\<rparr>)" "env_map D env = env_map D (lm_env s)"
      "\<forall>n \<in> set ?ns. hm_get env n \<noteq> None" "names_within N env"
      "\<forall>n. hm_get (lm_env s) n \<noteq> None \<longrightarrow> hm_get env n \<noteq> None" by (elim exE conjE)
  obtain env2 where
    env2: "(if ?ttl then ensure_dbs E [EXP_DB] (s\<lparr>lm_env := env\<rparr>) else Some (s\<lparr>lm_env := env\<rparr>)) = Some (s\<lparr>lm_env := env2\<rparr>)"
      "env_map D env2 = env_map D (lm_env s)" "\<forall>n. hm_get env n \<noteq> None \<longrightarrow> hm_get env2 n \<noteq> None"
      "?ttl \<longrightarrow> hm_get env2 EXP_DB \<noteq> None" "names_within N env2"
  proof (cases ?ttl)
    case True
    from N(3) have "list_all lmdb_key [EXP_DB]" "set [EXP_DB] \<subseteq> N" by simp_all
    from ensure_dbs_facts [OF E N(1,2) this, of "s\<lparr>lm_env := env\<rparr>"] env(4) obtain env2 where
      "ensure_dbs E [EXP_DB] (s\<lparr>lm_env := env\<rparr>) = Some (s\<lparr>lm_env := env2\<rparr>)" "env_map D env2 = env_map D env"
      "\<forall>n. hm_get env n \<noteq> None \<longrightarrow> hm_get env2 n \<noteq> None" "hm_get env2 EXP_DB \<noteq> None" "names_within N env2"
      by (auto simp del: not_None_eq ensure_dbs.simps)
    with True env(2) show thesis by (intro that [of env2]) (simp_all del: not_None_eq ensure_dbs.simps)
  next
    case False
    with env show thesis by (intro that [of env]) (simp_all del: not_None_eq)
  qed
  have keep: "\<forall>n. hm_get (lm_env s) n \<noteq> None \<longrightarrow> hm_get env2 n \<noteq> None" using env(5) env2(3) by blast
  have eok: "env_ok D S env2" using ok env2(2) keep by (auto simp: lm_ok_def intro: env_ok_mono [OF D])
  have "list_all (\<lambda>(c, k, v). names_ok c k \<and> hm_get env2 (obj_db c) \<noteq> None) items"
    using items env(3) env2(3) unfolding list_all_iff case_prod_unfold by (simp del: not_None_eq)
  moreover have "if ?ttl then hm_get env2 EXP_DB \<noteq> None else env_map D env2 EXP_DB = (\<lambda>k. None)"
    using env2(2,4) ok by (auto simp: lm_ok_def no_expiries_map simp del: not_None_eq)
  ultimately have "\<exists>env'. batch_items D S ?ttl items env2 = Some env' \<and> env_ok D S env' \<and>
      env_view D S env' = put_all items (env_view D S env2) \<and> (\<not> ?ttl \<longrightarrow> env_map D env' EXP_DB = (\<lambda>k. None))"
    using eok by (rule batch_items_facts [OF D S])
  then obtain env3 where env3: "batch_items D S ?ttl items env2 = Some env3" "env_ok D S env3"
    "env_view D S env3 = put_all items (env_view D S env2)" "\<not> ?ttl \<longrightarrow> env_map D env3 EXP_DB = (\<lambda>k. None)"
    by (elim exE conjE)
  have v: "env_view D S env2 = lm_view D S s" by (simp add: fun_eq_iff env_view_map env2(2) split: option.split)
  show thesis
  proof (rule that [of "maybe_sync (s\<lparr>lm_env := env3\<rparr>)"])
    show "lm_put_batch D E S items s = Some (maybe_sync (s\<lparr>lm_env := env3\<rparr>))"
      using False env(1) env2(1) env3(1) env_txns [OF E] by (simp add: lm_put_batch_def Let_def)
    show "names_within N (lm_env (maybe_sync (s\<lparr>lm_env := env3\<rparr>)))"
      using batch_items_names [OF env3(1) env2(5)] by simp
  qed (use env3 v in \<open>simp_all add: lm_ok_def no_expiries_map\<close>)
qed

subsection \<open>The names the operations open\<close>

lemma clear_expiry_names:
  "clear_expiry D E c k s = Some s' \<Longrightarrow> names_within N (lm_env s) \<Longrightarrow> EXP_DB \<in> N \<Longrightarrow> names_within N (lm_env s')"
  by (auto simp: clear_expiry_def split: option.splits if_splits
      dest!: open_db_names [where N = N] commit_db_names [where N = N])

lemma put_str_names:
  "put_str D E n k v s = Some s' \<Longrightarrow> names_within N (lm_env s) \<Longrightarrow> n \<in> N \<Longrightarrow> names_within N (lm_env s')"
  by (auto simp: put_str_def split: option.splits if_splits
      dest!: open_db_names [where N = N] commit_db_names [where N = N])

lemma put_object_names:
  "lm_put_object D E S c k v s = Some s' \<Longrightarrow> names_within N (lm_env s) \<Longrightarrow> obj_db c \<in> N \<Longrightarrow> EXP_DB \<in> N \<Longrightarrow>
   names_within N (lm_env s')"
  by (auto simp: lm_put_object_def split: option.splits if_splits dest: put_str_names clear_expiry_names)

lemma put_object_at_names:
  "lm_put_object_at D E S c k v e s = Some s' \<Longrightarrow> names_within N (lm_env s) \<Longrightarrow> obj_db c \<in> N \<Longrightarrow> EXP_DB \<in> N \<Longrightarrow>
   names_within N (lm_env s')"
  by (auto simp: lm_put_object_at_def split: option.splits if_splits
      dest!: put_str_names [where N = N] open_db_names [where N = N] commit_db_names [where N = N])

lemma delete_object_names:
  "lm_delete_object D E c k s = Some s' \<Longrightarrow> names_within N (lm_env s) \<Longrightarrow> EXP_DB \<in> N \<Longrightarrow> names_within N (lm_env s')"
  by (auto simp: lm_delete_object_def split: option.splits if_splits
      dest!: read_db_names [where N = N] commit_db_names [where N = N] clear_expiry_names [where N = N])

lemma clear_collection_names:
  "lm_clear_collection D E c s = Some s' \<Longrightarrow> names_within N (lm_env s) \<Longrightarrow> names_within N (lm_env s')"
  by (auto simp: lm_clear_collection_def split: option.splits if_splits dest: commit_db_names read_db_names)

lemma sweep_dead_names:
  "sweep_dead D E dead s = Some s' \<Longrightarrow> names_within N (lm_env s) \<Longrightarrow> names_within N (lm_env s')"
proof (induction dead arbitrary: s)
  case (Cons x dead)
  obtain ek c k where x: "x = (ek, c, k)" by (cases x)
  from Cons.prems(1) show ?case
    unfolding x sweep_dead.simps Let_def
    by (auto split: option.splits if_splits simp: hm_simps elim!: Cons.IH intro!: names_insert Cons.prems(2)
        intro: names_get [OF Cons.prems(2)] read_db_names [OF _ Cons.prems(2)])
qed simp

lemma sweep_names:
  "lm_sweep_expired D E S as_u64 t s = Some (s', n) \<Longrightarrow> names_within N (lm_env s) \<Longrightarrow> names_within N (lm_env s')"
  by (auto simp: lm_sweep_expired_def Let_def split: option.splits if_splits dest: sweep_dead_names)

subsection \<open>An environment that keeps the laws\<close>

definition sorted_env :: "sorted_db heed_env" where
  "sorted_env = \<lparr>ev_read_txn = (\<lambda>env. True), ev_write_txn = (\<lambda>env. True), ev_commit = (\<lambda>env. True),
     ev_create = (\<lambda>name env. if lmdb_key name \<and> length env < 1024 then Some sdb_empty else None),
     ev_first = (\<lambda>d. Some (case sdb_entries d of [] \<Rightarrow> None | e # _ \<Rightarrow> Some e)),
     ev_range = (\<lambda>d b. Some (filter (\<lambda>e. above b (fst e)) (sdb_entries d))),
     ev_copy_to_file = (\<lambda>env dest. Inr ())\<rparr>"

lemma sorted_env_laws: "env_laws sorted_heed sorted_env"
  by (simp add: env_laws_def sorted_env_def)

definition dec_serde :: "nat serde" where
  "dec_serde = \<lparr>sd_to_string = show_nat, sd_from_str = parse_nat\<rparr>"

lemma dec_serde_laws: "value_laws dec_serde (\<lambda>n. Some (of_nat n))"
  by (simp add: value_laws_def serde_laws_def dec_serde_def parse_nat_digits show_u64_def)

subsection \<open>The same content as the in-memory store\<close>

text \<open>The operations of an \<^verbatim>\<open>IndexStore\<close> that change it, a reopening of the environment among them,
  on both implementations.\<close>

datatype 'v store_op =
    SPut string string 'v
  | SPutAt string string 'v u64
  | SDelete string string
  | SClear string
  | SBatch "(string \<times> string \<times> 'v) list"
  | SSweep u64
  | SReopen

fun lm_op :: "'d heed \<Rightarrow> 'd heed_env \<Rightarrow> 'v serde \<Rightarrow> ('v \<Rightarrow> u64 option) \<Rightarrow> 'v store_op \<Rightarrow> 'd lmdb_store
    \<Rightarrow> 'd lmdb_store option" where
  "lm_op D E S as_u64 (SPut c k v) s = lm_put_object D E S c k v s"
| "lm_op D E S as_u64 (SPutAt c k v e) s = lm_put_object_at D E S c k v e s"
| "lm_op D E S as_u64 (SDelete c k) s = lm_delete_object D E c k s"
| "lm_op D E S as_u64 (SClear c) s = lm_clear_collection D E c s"
| "lm_op D E S as_u64 (SBatch items) s = lm_put_batch D E S items s"
| "lm_op D E S as_u64 (SSweep t) s = map_option fst (lm_sweep_expired D E S as_u64 t s)"
| "lm_op D E S as_u64 SReopen s = lm_open E (lm_drop s)"

fun lm_run :: "'d heed \<Rightarrow> 'd heed_env \<Rightarrow> 'v serde \<Rightarrow> ('v \<Rightarrow> u64 option) \<Rightarrow> 'v store_op list \<Rightarrow> 'd lmdb_store
    \<Rightarrow> 'd lmdb_store option" where
  "lm_run D E S as_u64 [] s = Some s"
| "lm_run D E S as_u64 (op # ops) s = Option.bind (lm_op D E S as_u64 op s) (lm_run D E S as_u64 ops)"

fun mem_op :: "'v store_op \<Rightarrow> 'v memory_store \<Rightarrow> 'v memory_store" where
  "mem_op (SPut c k v) m = mem_put_object c k v m"
| "mem_op (SPutAt c k v e) m = mem_put_object_at c k v e m"
| "mem_op (SDelete c k) m = mem_delete_object c k m"
| "mem_op (SClear c) m = mem_clear_collection c m"
| "mem_op (SBatch items) m = st_put_batch memory_index items m"
| "mem_op (SSweep t) m = fst (mem_sweep_expired t m)"
| "mem_op SReopen m = m"

text \<open>Operations on names that LMDB takes, and the collections they may create.\<close>

fun op_named :: "'v store_op \<Rightarrow> bool" where
  "op_named (SPut c k v) \<longleftrightarrow> names_ok c k"
| "op_named (SPutAt c k v e) \<longleftrightarrow> names_ok c k"
| "op_named (SDelete c k) \<longleftrightarrow> names_ok c k"
| "op_named (SBatch items) \<longleftrightarrow> list_all (\<lambda>(c, k, v). names_ok c k) items"
| "op_named _ \<longleftrightarrow> True"

fun op_colls :: "'v store_op \<Rightarrow> string set" where
  "op_colls (SPut c k v) = {c}"
| "op_colls (SPutAt c k v e) = {c}"
| "op_colls (SBatch items) = fst ` set items"
| "op_colls _ = {}"

definition op_within :: "string set \<Rightarrow> 'v store_op \<Rightarrow> bool" where
  "op_within C op \<longleftrightarrow> op_named op \<and> op_colls op \<subseteq> C"

definition coll_names :: "string set \<Rightarrow> string set" where
  "coll_names C = insert EXP_DB (obj_db ` C)"

definition same_content :: "'d heed \<Rightarrow> 'v serde \<Rightarrow> string set \<Rightarrow> 'd lmdb_store \<Rightarrow> 'v memory_store \<Rightarrow> bool" where
  "same_content D S C s m \<longleftrightarrow> lm_ok D S s \<and> mem_ok m \<and> lm_view D S s = mem_view m \<and>
     names_within (coll_names C) (lm_env s)"

lemma coll_names_facts:
  assumes "finite C" and "card C \<le> 1021"
  shows "finite (coll_names C)" "card (coll_names C) \<le> 1024" "EXP_DB \<in> coll_names C"
    and "c \<in> C \<Longrightarrow> obj_db c \<in> coll_names C"
    and "names_within (coll_names C) env \<Longrightarrow> length env + 2 \<le> 1024"
proof -
  have c: "card (coll_names C) \<le> 1022"
    using assms card_image_le [of C obj_db] by (simp add: coll_names_def card_insert_if)
  show f: "finite (coll_names C)" and "EXP_DB \<in> coll_names C" and "c \<in> C \<Longrightarrow> obj_db c \<in> coll_names C"
    using assms by (simp_all add: coll_names_def)
  show "card (coll_names C) \<le> 1024" using c by simp
  show "names_within (coll_names C) env \<Longrightarrow> length env + 2 \<le> 1024" using names_length [OF _ f, of env] c by simp
qed

lemma open_facts:
  assumes E: "env_laws D E" and ok: "env_ok D S env"
  obtains s where "lm_open E env = Some s" and "lm_ok D S s" and "lm_env s = env"
proof -
  have first: "ev_first E d = Some (case hd_entries D d of [] \<Rightarrow> None | e # _ \<Rightarrow> Some e)" for d
    using E by (simp add: env_laws_def)
  let ?s = "\<lparr>lm_env = env, lm_durable = env, lm_writes = 0, lm_has_any_ttl = db_entries D env EXP_DB \<noteq> []\<rparr>"
  have "lm_open E env = Some ?s"
    using env_txns [OF E] by (auto simp: lm_open_def first db_entries_def split: option.split list.split)
  with ok show thesis by (intro that [of ?s]) (simp_all add: lm_ok_def)
qed

lemma mem_batch_facts:
  "mem_ok m \<Longrightarrow> mem_ok (st_put_batch memory_index items m) \<and>
     mem_view (st_put_batch memory_index items m) = put_all items (mem_view m)"
proof (induction items arbitrary: m)
  case (Cons x items)
  obtain c k v where x: "x = (c, k, v)" by (cases x)
  show ?case using Cons.IH [OF mem_view_ops(1) [OF Cons.prems, of c k v]]
    unfolding x put_all.simps mem_view_ops(6) [OF Cons.prems, symmetric] by (simp add: default_put_batch_def)
qed (simp add: default_put_batch_def)

lemma lm_op_simulates:
  assumes E: "env_laws D E" and V: "value_laws S as_u64" and C: "finite C" "card C \<le> 1021"
    and op: "op_within C op" and R: "same_content D S C s m"
  obtains s' where "lm_op D E S as_u64 op s = Some s'" and "same_content D S C s' (mem_op op m)"
proof -
  have S: "serde_laws S" using V by (simp add: value_laws_def)
  have ok: "lm_ok D S s" and m: "mem_ok m" and v: "lm_view D S s = mem_view m"
    and N: "names_within (coll_names C) (lm_env s)" using R by (simp_all add: same_content_def)
  note room = coll_names_facts(5) [OF C N] and cn = coll_names_facts [OF C]
  note mv = mem_view_ops [OF m]
  note result = that
  have fin: thesis if "lm_op D E S as_u64 op s = Some s'" "lm_ok D S s'" "lm_view D S s' = mem_view (mem_op op m)"
    "names_within (coll_names C) (lm_env s')" "mem_ok (mem_op op m)" for s'
    using that by (intro result [of s']) (simp_all add: same_content_def)
  show thesis
  proof (cases op)
    case (SPut c k w)
    with op have nm: "names_ok c k" "c \<in> C" by (simp_all add: op_within_def)
    obtain s' where s': "lm_put_object D E S c k w s = Some s'" "lm_ok D S s'"
      "lm_view D S s' = (lm_view D S s)((c, k) \<mapsto> (w, None))" by (rule put_object_facts [OF E S ok nm(1) room])
    then show thesis
      using put_object_names [OF s'(1) N cn(4) [OF nm(2)] cn(3)] v mv by (intro fin [of s']) (simp_all add: SPut)
  next
    case (SPutAt c k w e)
    with op have nm: "names_ok c k" "c \<in> C" by (simp_all add: op_within_def)
    obtain s' where s': "lm_put_object_at D E S c k w e s = Some s'" "lm_ok D S s'"
      "lm_view D S s' = (lm_view D S s)((c, k) \<mapsto> (w, Some e))" by (rule put_object_at_facts [OF E S ok nm(1) room])
    then show thesis
      using put_object_at_names [OF s'(1) N cn(4) [OF nm(2)] cn(3)] v mv by (intro fin [of s']) (simp_all add: SPutAt)
  next
    case (SDelete c k)
    with op have nm: "names_ok c k" by (simp add: op_within_def)
    obtain s' where s': "lm_delete_object D E c k s = Some s'" "lm_ok D S s'"
      "lm_view D S s' = (lm_view D S s)((c, k) := None)" by (rule delete_object_facts [OF E ok nm room])
    then show thesis
      using delete_object_names [OF s'(1) N cn(3)] v mv by (intro fin [of s']) (simp_all add: SDelete)
  next
    case (SClear c)
    obtain s' where s': "lm_clear_collection D E c s = Some s'" "lm_ok D S s'"
      "lm_view D S s' = (\<lambda>(c', k). if c' = c then None else lm_view D S s (c', k))"
      by (rule clear_collection_facts [OF E ok])
    then show thesis
      using clear_collection_names [OF s'(1) N] v mv by (intro fin [of s']) (simp_all add: SClear cong: if_cong)
  next
    case (SBatch items)
    with op cn(4) have nm: "list_all (\<lambda>(c, k, v). names_ok c k \<and> obj_db c \<in> coll_names C) items"
      by (force simp: op_within_def list_all_iff)
    obtain s' where s': "lm_put_batch D E S items s = Some s'" "lm_ok D S s'"
      "lm_view D S s' = put_all items (lm_view D S s)" "names_within (coll_names C) (lm_env s')"
      by (rule put_batch_facts [OF E S ok nm cn(1-3) N])
    then show thesis
      using mem_batch_facts [OF m, of items] v by (intro fin [of s']) (simp_all add: SBatch)
  next
    case (SSweep t)
    obtain s' n where s': "lm_sweep_expired D E S as_u64 t s = Some (s', n)" "lm_ok D S s'"
      "lm_view D S s' = (\<lambda>ck. case lm_view D S s ck of Some ve \<Rightarrow> if live_at t ve then Some ve else None | None \<Rightarrow> None)"
      by (rule sweep_facts [OF E V ok])
    then show thesis
      using sweep_names [OF s'(1) N] v mv by (intro fin [of s']) (simp_all add: SSweep)
  next
    case SReopen
    have eok: "env_ok D S (lm_drop s)" using ok by (simp add: lm_ok_def lm_drop_def force_sync_def)
    obtain s' where s': "lm_open E (lm_drop s) = Some s'" "lm_ok D S s'" "lm_env s' = lm_drop s"
      by (rule open_facts [OF E eok])
    then show thesis
      using N v m by (intro fin [of s']) (simp_all add: SReopen lm_drop_def force_sync_def)
  qed
qed

lemma lm_run_simulates:
  assumes "env_laws D E" and "value_laws S as_u64" and "finite C" "card C \<le> 1021"
  shows "list_all (op_within C) ops \<Longrightarrow> same_content D S C s m \<Longrightarrow>
    \<exists>s'. lm_run D E S as_u64 ops s = Some s' \<and> same_content D S C s' (fold mem_op ops m)"
proof (induction ops arbitrary: s m)
  case (Cons op ops)
  obtain s' where s': "lm_op D E S as_u64 op s = Some s'" "same_content D S C s' (mem_op op m)"
    using Cons.prems by (auto elim: lm_op_simulates [OF assms])
  with Cons.IH [OF _ s'(2)] Cons.prems(1) show ?case by simp
qed simp

text \<open>A collection with NUL in its name has no database and no content.\<close>

lemma same_content_nul:
  assumes E: "env_laws D E" and R: "same_content D S C s m" and nul: "\<forall>c \<in> C. CHR 0x00 \<notin> set c" and c: "CHR 0x00 \<in> set c"
  shows "read_db E s (obj_db c) = None" and "mem_view m (c, k) = None"
proof -
  have "obj_db c \<notin> coll_names C" using nul c by (auto simp: coll_names_def)
  then show "read_db E s (obj_db c) = None"
    using R unfolding read_db_eq [OF E] same_content_def by (metis names_get option.exhaust)
  have "lm_view D S s (c, k) = None" using c by (simp add: env_view_map)
  then show "mem_view m (c, k) = None" using R by (simp add: same_content_def)
qed

lemma same_content_get:
  assumes E: "env_laws D E" and R: "same_content D S C s m" and nul: "\<forall>c \<in> C. CHR 0x00 \<notin> set c"
  shows "lm_get_object D E S now s c k = mem_get_object now m c k"
proof (cases "CHR 0x00 \<in> set c")
  case True
  with same_content_nul [OF E R nul] R show ?thesis
    by (simp add: same_content_def lm_get_object_def lm_lookup_def mem_view_ops(11))
next
  case False
  with R show ?thesis by (simp add: same_content_def get_object_eq [OF E] mem_view_ops(11))
qed

lemma same_content_entries:
  assumes E: "env_laws D E" and R: "same_content D S C s m" and nul: "\<forall>c \<in> C. CHR 0x00 \<notin> set c"
  shows "mset (lm_scan_entries D E S now s c) = mset (mem_scan_entries now m c)"
    and "sorted_wrt (<) (map fst (lm_scan_entries D E S now s c))"
proof -
  let ?l = "lm_scan_entries D E S now s c" and ?m = "mem_scan_entries now m c"
  have ok: "lm_ok D S s" and mok: "mem_ok m" using R by (simp_all add: same_content_def)
  have l: "map_of ?l k = lm_get_object D E S now s c k \<and> sorted_wrt (<) (map fst ?l)" for k
  proof (cases "CHR 0x00 \<in> set c")
    case True
    with same_content_nul [OF E R nul] show ?thesis
      by (simp add: lm_scan_entries_def lm_entries_def lm_get_object_def lm_lookup_def Let_def)
  qed (simp add: scan_entries_facts [OF E ok])
  then show "sorted_wrt (<) (map fst ?l)" by simp
  then have dl: "distinct (map fst ?l)" using strict_sorted_iff by blast
  have dm: "distinct (map fst ?m)" and m: "map_of ?m k = mem_get_object now m c k" for k
    using mem.entries_distinct [OF mok, of now c] mem.entries_get [OF mok, of now c k] by simp_all
  have "map_of ?l = map_of ?m" by (rule ext) (simp only: l m same_content_get [OF assms])
  then have "set ?l = set ?m" using dl dm by (metis graph_map_of_if_distinct_dom)
  then show "mset ?l = mset ?m"
    using dl dm by (simp add: distinct_map set_eq_iff_mset_eq_distinct)
qed

lemma same_content_range:
  assumes E: "env_laws D E" and R: "same_content D S C s m" and nul: "\<forall>c \<in> C. CHR 0x00 \<notin> set c"
  shows "lm_scan_range D E now s c after pre end limit = st_scan_range memory_index now m c after pre end limit"
proof (cases "CHR 0x00 \<in> set c")
  case True
  with same_content_nul [OF E R nul] R show ?thesis
    by (simp add: same_content_def mem.range_keys lm_scan_range_def mem_view_ops(11))
next
  case False
  moreover have "lm_ok D S s" "mem_ok m" using R by (simp_all add: same_content_def)
  ultimately show ?thesis
    by (simp add: mem.range_keys scan_range_eq [OF E, where S = S] same_content_get [OF assms])
qed

lemma same_content_expiry:
  assumes E: "env_laws D E" and R: "same_content D S C s m" and here: "mem_get_object now m c k \<noteq> None"
  shows "lm_expiry_of D E s c k = mem_expiry_of m c k"
proof -
  have ok: "lm_ok D S s" "mem_ok m" "lm_view D S s = mem_view m" using R by (simp_all add: same_content_def)
  from here obtain v e where v: "mem_view m (c, k) = Some (v, e)"
    by (cases "mem_view m (c, k)") (auto simp: mem_view_ops(11) [OF ok(2)])
  then have "env_view D S (lm_env s) (c, k) = Some (v, e)" using ok(3) by simp
  then show ?thesis
    using v by (auto simp: mem_view_ops(12) [OF ok(2)] lm_expiry_of_def read_expiry_eq [OF E ok(1)] env_view_map
        split: option.splits if_splits)
qed

text \<open>
  C16. The embedded store keeps the same content as the in-memory one. From an empty environment,
  any sequence of puts, puts with an expiry, deletes, clears, batches, sweeps and reopenings, on
  names that LMDB accepts and on at most 1021 collections, runs without a panic and leaves a store
  whose gets, range scans, entry scans (in key order) and expiries of the objects it returns are
  those of the in-memory store after the same operations, at every time of the clock.
\<close>

theorem lmdb_as_memory_store:
  assumes "env_laws D E" and "value_laws S as_u64"
    and "list_all op_named ops" and "card (\<Union> (op_colls ` set ops)) \<le> 1021"
    and "m = fold mem_op ops mem_new"
  shows "\<exists>s0 s. lm_open E [] = Some s0 \<and> lm_run D E S as_u64 ops s0 = Some s
    \<and> (\<forall>now c k. lm_get_object D E S now s c k = mem_get_object now m c k)
    \<and> (\<forall>now c after pre end limit. lm_scan_range D E now s c after pre end limit
          = st_scan_range memory_index now m c after pre end limit)
    \<and> (\<forall>now c. mset (lm_scan_entries D E S now s c) = mset (mem_scan_entries now m c)
          \<and> sorted_wrt (<) (map fst (lm_scan_entries D E S now s c)))
    \<and> (\<forall>now c k. mem_get_object now m c k \<noteq> None \<longrightarrow> lm_expiry_of D E s c k = mem_expiry_of m c k)"
proof -
  let ?C = "\<Union> (op_colls ` set ops)"
  have fin: "finite (op_colls op)" and nul1: "op_named op \<Longrightarrow> c \<in> op_colls op \<Longrightarrow> CHR 0x00 \<notin> set c" for op :: "'b store_op" and c
    by (cases op; auto simp: names_ok_def list_all_iff)+
  have C: "finite ?C" and nul: "\<forall>c \<in> ?C. CHR 0x00 \<notin> set c"
    using assms(3) nul1 by (auto simp: list_all_iff fin)
  have within: "list_all (op_within ?C) ops" using assms(3) by (auto simp: list_all_iff op_within_def)
  have "env_ok D S []" by (simp add: env_ok_def db_entries_def)
  then obtain s0 where s0: "lm_open E [] = Some s0" "lm_ok D S s0" "lm_env s0 = []"
    by (rule open_facts [OF assms(1)])
  have "mem_view (mem_new :: 'b memory_store) = (\<lambda>_. None)"
    by (simp add: mem_view_def mem_new_def hm_get2_def fun_eq_iff)
  with s0 have "same_content D S ?C s0 mem_new"
    by (simp add: same_content_def names_within_def fun_eq_iff env_view_map env_map_def db_entries_def)
  then obtain s where s: "lm_run D E S as_u64 ops s0 = Some s" and R: "same_content D S ?C s m"
    using lm_run_simulates [OF assms(1,2) C assms(4) within] assms(5) by blast
  show ?thesis
    using s0(1) s same_content_get [OF assms(1) R nul] same_content_range [OF assms(1) R nul]
      same_content_entries [OF assms(1) R nul] same_content_expiry [OF assms(1) R]
    by (intro exI [of _ s0] exI [of _ s] conjI allI impI)
qed

theorem lmdb_as_memory_store_witness:
  "\<exists>s0 s. lm_open sorted_env [] = Some s0
    \<and> lm_run sorted_heed sorted_env dec_serde (\<lambda>n. Some (of_nat n))
        [SPutAt ''kv'' ''a'' 1 5, SPut ''kv'' ''b'' 2, SReopen, SSweep 7, SBatch [(''kv'', ''c'', 3)]] s0 = Some s
    \<and> lm_get_object sorted_heed sorted_env dec_serde 0 s ''kv'' ''a'' = None
    \<and> lm_get_object sorted_heed sorted_env dec_serde 0 s ''kv'' ''c'' = Some 3
    \<and> lm_expiry_of sorted_heed sorted_env s ''kv'' ''b'' = None"
proof -
  let ?ops = "[SPutAt ''kv'' ''a'' (1::nat) 5, SPut ''kv'' ''b'' 2, SReopen, SSweep 7, SBatch [(''kv'', ''c'', 3)]]"
  define m where "m = fold mem_op ?ops mem_new"
  have ops: "list_all op_named ?ops" "card (\<Union> (op_colls ` set ?ops)) \<le> 1021"
    by (simp_all add: names_ok_def lmdb_key_def obj_db_def exp_key_def)
  have m: "mem_get_object 0 m ''kv'' ''a'' = None" "mem_get_object 0 m ''kv'' ''b'' = Some 2"
    "mem_get_object 0 m ''kv'' ''c'' = Some 3" "mem_expiry_of m ''kv'' ''b'' = None"
    by (simp_all add: m_def mem_eval mem_expiry_of_def mem_sweep_expired_def mem_dead_def mem_reclaim_def
      default_put_batch_def Let_def)
  obtain s0 s where "lm_open sorted_env [] = Some s0"
    "lm_run sorted_heed sorted_env dec_serde (\<lambda>n. Some (of_nat n)) ?ops s0 = Some s"
    and get: "\<forall>now c k. lm_get_object sorted_heed sorted_env dec_serde now s c k = mem_get_object now m c k"
    and exp: "\<forall>now c k. mem_get_object now m c k \<noteq> None \<longrightarrow> lm_expiry_of sorted_heed sorted_env s c k = mem_expiry_of m c k"
    using lmdb_as_memory_store [OF sorted_env_laws dec_serde_laws ops m_def] by (elim exE conjE)
  moreover have "lm_expiry_of sorted_heed sorted_env s ''kv'' ''b'' = None"
    using exp [rule_format, of 0 "''kv''" "''b''"] m by simp
  ultimately show ?thesis using get m by (intro exI [of _ s0] exI [of _ s]) (simp only: simp_thms)
qed

end
