(* ===== verification/Coord.thy ===== *)
theory Coord
  imports Net Ingest
begin

text \<open>
  The coordinator's server, \<^verbatim>\<open>src/coord.rs\<close>: the routed client API over a cluster, leader election, the
  leader-gated administration routes, the ingest routes, and the middleware around them.

  The process is the record \<open>coordinator\<close>: the shared \<^verbatim>\<open>Cluster\<close>, the leadership state when election is
  on, the ingest queue when there is one, and the process counters. A handler works on the process
  and the world of the cluster's clients. Bodies and queries have the shape of those of a shard and
  are read by the same readers (theory \<open>Net\<close>). A handler's operation on the cluster is one step,
  as in \<open>Cluster\<close> and \<open>Migration\<close>; \<open>None\<close> for an answer is a panic of the handler. The election
  loop and the drainer are further steps of the process, each round one step; their timers are the
  moments at which such a step is taken.
\<close>

subsection \<open>Leadership\<close>

record leadership =
  ld_holder :: string
  ld_is_leader :: bool
  ld_token :: u64
  ld_current_leader :: string

definition leadership_new :: "string \<Rightarrow> leadership" where
  "leadership_new holder =
     \<lparr>ld_holder = holder, ld_is_leader = False, ld_token = 0, ld_current_leader = []\<rparr>"

definition renew_interval :: "u64 \<Rightarrow> u64" where
  "renew_interval ttl_ms = max (ttl_ms div 3) 50"

definition elector_round :: "('c, 'w, 'v) shard_client \<Rightarrow> 'c cluster \<Rightarrow> u64 \<Rightarrow> leadership \<Rightarrow> 'w
    \<Rightarrow> leadership \<times> 'w" where
  "elector_round C cl ttl_ms st w =
     (case try_acquire_leadership C cl (ld_holder st) ttl_ms w of
        (w, Some out) \<Rightarrow>
          (st\<lparr>ld_is_leader := lo_granted out, ld_token := ls_token (lo_lease out),
              ld_current_leader := ls_holder (lo_lease out)\<rparr>, w)
      | (w, None) \<Rightarrow> (st\<lparr>ld_is_leader := False\<rparr>, w))"

subsection \<open>The client API\<close>

record ('c, 'd) coordinator =
  co_cluster :: "'c cluster"
  co_leadership :: "leadership option"
  co_queue :: "'d ingest_queue option"
  co_metrics :: metrics

type_synonym ('c, 'd, 'w) coord_handler =
  "('c, 'd) coordinator \<times> 'w \<Rightarrow> (('c, 'd) coordinator \<times> 'w) \<times> response option"

definition co_count :: "counter \<Rightarrow> ('c, 'd) coordinator \<Rightarrow> ('c, 'd) coordinator" where
  "co_count c co = co\<lparr>co_metrics := metrics_inc c (co_metrics co)\<rparr>"

record key_q =
  kq_key :: string

definition read_key_q :: "(string \<times> string) list \<Rightarrow> key_q option" where
  "read_key_q ps = do {
     key \<leftarrow> field_of ps ''key'' Some None;
     Some \<lparr>kq_key = key\<rparr> }"

definition k_metrics :: "string \<Rightarrow> ('c, 'd, 'w) coord_handler" where
  "k_metrics up = (\<lambda>(co, w). let cl = co_cluster co in
     ((co, w), Some \<lparr>rs_status = 200, rs_body = metrics_render up (co_metrics co) @
       render_cluster_gauges (shard_count cl) (replication_factor cl) (is_migrating cl)\<rparr>))"

definition k_object :: "('c, 'w, 'v) shard_client \<Rightarrow> 'v doc \<Rightarrow> obj_q \<Rightarrow> ('c, 'd, 'w) coord_handler" where
  "k_object C D q = (\<lambda>(co, w).
     let co = co_count GET co; (w, ov) = cluster_get C (co_cluster co) (oq_coll q) (oq_key q) w in
     ((co, w), ok_json D (dj_object D [(''object'', opt_json D id ov)])))"

definition k_mget :: "('c, 'w, 'v) shard_client \<Rightarrow> 'v doc \<Rightarrow> mget_body \<Rightarrow> ('c, 'd, 'w) coord_handler" where
  "k_mget C D b = (\<lambda>(co, w).
     let (w, vals) = cluster_mget C (co_cluster co) (mb_coll b) (mb_keys b) w in
     ((co, w), ok_json D (dj_object D [(''values'', dj_array D (map (opt_json D id) vals))])))"

definition k_scan :: "('c, 'w, 'v) shard_client \<Rightarrow> 'v doc \<Rightarrow> scan_q \<Rightarrow> ('c, 'd, 'w) coord_handler" where
  "k_scan C D q = (\<lambda>(co, w).
     let (w, keys, cursor) = cluster_scan_range C (co_cluster co) (sq_coll q) (sq_after q) (sq_prefix q) (sq_end q)
           (min (sq_limit q) 10000) w in
     ((co, w), ok_json D (dj_object D
       [(''keys'', dj_array D (map (dj_str D) keys)), (''cursor'', opt_json D (dj_str D) cursor)])))"

definition k_write :: "('c, 'w, 'v) shard_client \<Rightarrow> 'v doc \<Rightarrow> 'v write_body \<Rightarrow> ('c, 'd, 'w) coord_handler" where
  "k_write C D b = (\<lambda>(co, w).
     let co = co_count SET co;
         w = (if (case wb_ttl_ms b of Some ttl \<Rightarrow> ttl > 0 | None \<Rightarrow> False)
              then cluster_put_ttl C (co_cluster co) (wb_coll b) (wb_key b) (wb_obj b) (the (wb_ttl_ms b)) w
              else cluster_put C (co_cluster co) (wb_coll b) (wb_key b) (wb_obj b) w) in
     ((co, w), ok_json D (dj_object D [(''ok'', dj_bool D True)])))"

definition k_cas :: "('c, 'w, 'v) shard_client \<Rightarrow> 'v doc \<Rightarrow> 'v cas_body \<Rightarrow> ('c, 'd, 'w) coord_handler" where
  "k_cas C D b = (\<lambda>(co, w).
     let co = co_count SET co;
         (w, set) = cluster_cas C (co_cluster co) (cb_coll b) (cb_key b) (cb_expect b) (cb_new b) w in
     ((co, w), ok_json D (dj_object D [(''set'', dj_bool D set)])))"

definition k_incr :: "('c, 'w, 'v) shard_client \<Rightarrow> 'v json \<Rightarrow> 'v doc \<Rightarrow> incr_body \<Rightarrow> ('c, 'd, 'w) coord_handler" where
  "k_incr C J D b = (\<lambda>(co, w).
     let co = co_count SET co;
         (w, n) = cluster_incr C J (co_cluster co) (nb_coll b) (nb_key b) (nb_delta b) w in
     ((co, w), ok_json D (dj_object D [(''value'', opt_json D (dj_i64 D) n)])))"

definition k_set_add :: "('c, 'w, 'v) shard_client \<Rightarrow> 'v doc \<Rightarrow> set_body \<Rightarrow> ('c, 'd, 'w) coord_handler" where
  "k_set_add C D b = (\<lambda>(co, w).
     let co = co_count SADD co;
         w = cluster_set_add C (co_cluster co) (se_coll b) (se_key b) (se_member b) w in
     ((co, w), ok_json D (dj_object D [(''ok'', dj_bool D True)])))"

definition k_set_remove :: "('c, 'w, 'v) shard_client \<Rightarrow> 'v doc \<Rightarrow> set_body \<Rightarrow> ('c, 'd, 'w) coord_handler" where
  "k_set_remove C D b = (\<lambda>(co, w).
     let co = co_count SREM co;
         w = cluster_set_remove C (co_cluster co) (se_coll b) (se_key b) (se_member b) w in
     ((co, w), ok_json D (dj_object D [(''ok'', dj_bool D True)])))"

definition k_delete :: "('c, 'w, 'v) shard_client \<Rightarrow> 'v doc \<Rightarrow> delete_body \<Rightarrow> ('c, 'd, 'w) coord_handler" where
  "k_delete C D b = (\<lambda>(co, w).
     let co = co_count DEL co;
         w = cluster_delete C (co_cluster co) (db_coll b) (db_key b) w in
     ((co, w), ok_json D (dj_object D [(''ok'', dj_bool D True)])))"

definition k_route :: "'v doc \<Rightarrow> key_q \<Rightarrow> ('c, 'd, 'w) coord_handler" where
  "k_route D q = (\<lambda>(co, w). let r = route (co_cluster co) (kq_key q) in
     ((co, w), ok_json D (dj_object D
       [(''owners'', dj_array D (map (dj_str D) (ri_owners r))),
        (''servedBy'', opt_json D (dj_str D) (ri_served_by r))])))"

definition k_members :: "('c, 'w, 'v) shard_client \<Rightarrow> 'v doc \<Rightarrow> ('c, 'd, 'w) coord_handler" where
  "k_members C D = (\<lambda>(co, w).
     let members = map (\<lambda>(n, ep). dj_object D [(''id'', dj_str D n), (''endpoint'', dj_str D ep)])
           (members_with_endpoints C (co_cluster co)) in
     ((co, w), ok_json D (dj_object D
       [(''epoch'', dj_u64 D (cl_epoch (co_cluster co))), (''members'', dj_array D members)])))"

definition k_partitions :: "('c, 'w, 'v) shard_client \<Rightarrow> 'v doc \<Rightarrow> ('c, 'd, 'w) coord_handler" where
  "k_partitions C D = (\<lambda>(co, w).
     let plan = map (\<lambda>p. dj_object D [(''id'', dj_str D (pn_id p)), (''endpoint'', dj_str D (pn_endpoint p)),
           (''buckets'', dj_array D (map (dj_usize D) (pn_buckets p)))]) (partition_plan C (co_cluster co)) in
     ((co, w), ok_json D (dj_object D
       [(''epoch'', dj_u64 D (cl_epoch (co_cluster co))), (''partitions'', dj_array D plan)])))"

definition coord_app :: "('c, 'w, 'v) shard_client \<Rightarrow> 'v json \<Rightarrow> 'v doc \<Rightarrow> string \<Rightarrow> request
    \<Rightarrow> ('c, 'd, 'w) coord_handler" where
  "coord_app C J D up req =
     (let path = rq_path req in
      if path = ''/health'' then on_get req (\<lambda>s. (s, ok_json D (dj_object D [(''ok'', dj_bool D True)])))
      else if path = ''/metrics'' then on_get req (k_metrics up)
      else if path = ''/object'' then on_get req (with_query D read_obj_q req (k_object C D))
      else if path = ''/mget'' then
        on_post req (with_json D [''coll'', ''keys''] (read_mget D) req (k_mget C D))
      else if path = ''/scan'' then on_get req (with_query D read_scan_q req (k_scan C D))
      else if path = ''/write'' then
        on_post req (with_json D [''coll'', ''key'', ''obj'', ''ttlMs''] (read_write D) req (k_write C D))
      else if path = ''/cas'' then
        on_post req (with_json D [''coll'', ''key'', ''expect'', ''new''] (read_cas D) req (k_cas C D))
      else if path = ''/incr'' then
        on_post req (with_json D [''coll'', ''key'', ''delta''] (read_incr D) req (k_incr C J D))
      else if path = ''/setAdd'' then
        on_post req (with_json D [''coll'', ''key'', ''member''] (read_set D) req (k_set_add C D))
      else if path = ''/setRemove'' then
        on_post req (with_json D [''coll'', ''key'', ''member''] (read_set D) req (k_set_remove C D))
      else if path = ''/deleteObject'' then
        on_post req (with_json D [''coll'', ''key''] (read_delete D) req (k_delete C D))
      else if path = ''/route'' then on_get req (with_query D read_key_q req (k_route D))
      else if path = ''/members'' then on_get req (k_members C D)
      else if path = ''/partitions'' then on_get req (k_partitions C D)
      else (\<lambda>s. (s, plain_status 404)))"

subsection \<open>The administration routes\<close>

record rebalance_body =
  rb_nodes :: "string list"

record drain_body =
  dn_node :: string

definition read_rebalance :: "'v doc \<Rightarrow> (string \<times> 'v) list \<Rightarrow> rebalance_body option" where
  "read_rebalance D fs = do {
     nodes \<leftarrow> field_of fs ''nodes'' (rd_vec D (dj_as_str D)) None;
     Some \<lparr>rb_nodes = nodes\<rparr> }"

definition read_drain :: "'v doc \<Rightarrow> (string \<times> 'v) list \<Rightarrow> drain_body option" where
  "read_drain D fs = do {
     node \<leftarrow> field_of fs ''node'' (dj_as_str D) None;
     Some \<lparr>dn_node = node\<rparr> }"

definition not_leader :: "'v doc \<Rightarrow> leadership \<Rightarrow> response option" where
  "not_leader D l = (if ld_is_leader l then None
     else Some \<lparr>rs_status = 409, rs_body = dj_to_string D (dj_object D
       [(''ok'', dj_bool D False), (''error'', dj_str D ''not leader''),
        (''leader'', dj_str D (ld_current_leader l))])\<rparr>)"

definition k_leader :: "'v doc \<Rightarrow> leadership \<Rightarrow> ('c, 'd, 'w) coord_handler" where
  "k_leader D l s = (s, ok_json D (dj_object D
     [(''self'', dj_str D (ld_holder l)), (''leader'', dj_str D (ld_current_leader l)),
      (''isLeader'', dj_bool D (ld_is_leader l)), (''token'', dj_u64 D (ld_token l))]))"

text \<open>The common body of the two handlers: the gate, the migration \<open>f\<close>, and its summary.\<close>

definition k_admin :: "'v doc \<Rightarrow> leadership \<Rightarrow> ('c cluster \<Rightarrow> 'w \<Rightarrow> 'c cluster \<times> 'w \<times> migrate_summary)
    \<Rightarrow> ('c, 'd, 'w) coord_handler" where
  "k_admin D l f = (\<lambda>(co, w). case not_leader D l of
       Some redirect \<Rightarrow> ((co, w), Some redirect)
     | None \<Rightarrow>
         (let (cl, w, s) = f (co_cluster co) w in
          ((co\<lparr>co_cluster := cl\<rparr>, w), ok_json D (dj_object D
            [(''ok'', dj_bool D True), (''leader'', dj_str D (ld_holder l)),
             (''movedBuckets'', dj_usize D (ms_moved_buckets s)), (''copied'', dj_usize D (ms_copied s)),
             (''dropped'', dj_usize D (ms_dropped s))]))))"

definition k_rebalance :: "('c, 'w, 'v) shard_client \<Rightarrow> 'v doc \<Rightarrow> leadership \<Rightarrow> rebalance_body
    \<Rightarrow> ('c, 'd, 'w) coord_handler" where
  "k_rebalance C D l b = k_admin D l (rebalance C (rb_nodes b))"

definition k_drain :: "('c, 'w, 'v) shard_client \<Rightarrow> 'v doc \<Rightarrow> leadership \<Rightarrow> drain_body
    \<Rightarrow> ('c, 'd, 'w) coord_handler" where
  "k_drain C D l b = k_admin D l (cluster_drain C (dn_node b))"

text \<open>Each function adds its routes to those of a router \<open>inner\<close>.\<close>

definition app_with_leadership :: "('c, 'w, 'v) shard_client \<Rightarrow> 'v doc \<Rightarrow> leadership \<Rightarrow> request
    \<Rightarrow> ('c, 'd, 'w) coord_handler \<Rightarrow> ('c, 'd, 'w) coord_handler" where
  "app_with_leadership C D l req inner =
     (if rq_path req = ''/leader'' then on_get req (k_leader D l)
      else if rq_path req = ''/admin/rebalance'' then
        on_post req (with_json D [''nodes''] (read_rebalance D) req (k_rebalance C D l))
      else if rq_path req = ''/admin/drain'' then
        on_post req (with_json D [''node''] (read_drain D) req (k_drain C D l))
      else inner)"

subsection \<open>The ingest routes\<close>

definition k_enqueue :: "'d heed \<Rightarrow> 'v ingest_op serde \<Rightarrow> 'v doc \<Rightarrow> 'd ingest_queue \<Rightarrow> 'v write_body
    \<Rightarrow> ('c, 'd, 'w) coord_handler" where
  "k_enqueue H SE D q b = (\<lambda>(co, w).
     case enqueue H SE (IngestPut (wb_coll b) (wb_key b) (wb_obj b)) q of
       None \<Rightarrow> ((co, w), None)
     | Some (q, seq) \<Rightarrow> ((co\<lparr>co_queue := Some q\<rparr>, w), ok_json D (dj_object D
         [(''ok'', dj_bool D True), (''durable'', dj_bool D True), (''seq'', dj_u64 D seq)])))"

definition k_ingest_status :: "'v doc \<Rightarrow> 'd ingest_queue \<Rightarrow> ('c, 'd, 'w) coord_handler" where
  "k_ingest_status D q s = (s, ok_json D (dj_object D
     [(''accepted'', dj_u64 D (ingest_latest_seq q)), (''committed'', dj_u64 D (committed q)),
      (''pending'', dj_u64 D (pending q))]))"

definition add_ingest_routes :: "'d heed \<Rightarrow> 'v ingest_op serde \<Rightarrow> 'v doc \<Rightarrow> 'd ingest_queue \<Rightarrow> request
    \<Rightarrow> ('c, 'd, 'w) coord_handler \<Rightarrow> ('c, 'd, 'w) coord_handler" where
  "add_ingest_routes H SE D q req inner =
     (if rq_path req = ''/enqueue'' then
        on_post req (with_json D [''coll'', ''key'', ''obj'', ''ttlMs''] (read_write D) req (k_enqueue H SE D q))
      else if rq_path req = ''/ingest/status'' then on_get req (k_ingest_status D q)
      else inner)"

subsection \<open>The process\<close>

text \<open>What every part is given: the clients, the conversions, the database, and the body reader.\<close>

record ('c, 'w, 'v, 'd) coord_env =
  ce_client :: "('c, 'w, 'v) shard_client"
  ce_json :: "'v json"
  ce_doc :: "'v doc"
  ce_heed :: "'d heed"
  ce_serde :: "'v ingest_op serde"
  ce_to_bytes :: "nat \<Rightarrow> string \<Rightarrow> string option"
  ce_policy :: "policy option"
  ce_token :: "string option"

definition coord_start :: "'c cluster \<Rightarrow> string option \<Rightarrow> 'd ingest_queue option \<Rightarrow> ('c, 'd) coordinator" where
  "coord_start cl elect queue =
     \<lparr>co_cluster = cl, co_leadership = map_option leadership_new elect, co_queue = queue,
      co_metrics = metrics_zero\<rparr>"

definition coord_router :: "('c, 'w, 'v, 'd) coord_env \<Rightarrow> string \<Rightarrow> request \<Rightarrow> ('c, 'd, 'w) coord_handler" where
  "coord_router E up req s =
     (let app = coord_app (ce_client E) (ce_json E) (ce_doc E) up req;
          app = (case co_leadership (fst s) of
              Some l \<Rightarrow> app_with_leadership (ce_client E) (ce_doc E) l req app | None \<Rightarrow> app);
          app = (case co_queue (fst s) of
              Some q \<Rightarrow> add_ingest_routes (ce_heed E) (ce_serde E) (ce_doc E) q req app | None \<Rightarrow> app) in
      app s)"

definition doc_body :: "'v doc \<Rightarrow> 'v json_body" where
  "doc_body D = \<lparr>jb_from_slice = dj_from_str D, jb_get = dj_get D, jb_as_str = dj_as_str D\<rparr>"

definition coord_layer :: "('c, 'w, 'v, 'd) coord_env \<Rightarrow> request \<Rightarrow> (status + request) option" where
  "coord_layer E req = (case ce_policy E of
       Some P \<Rightarrow> policy_layer (ce_to_bytes E) (doc_body (ce_doc E)) P req
     | None \<Rightarrow> Some (require_bearer (ce_token E) req))"

definition coord_server :: "('c, 'w, 'v, 'd) coord_env \<Rightarrow> string \<Rightarrow> request \<Rightarrow> ('c, 'd, 'w) coord_handler" where
  "coord_server E up req = layered (coord_layer E req) (coord_router E up)"

text \<open>
  The steps of the process: a request, a round of the election loop with lease time \<open>ttl\<close>, a round
  of the drainer. A panic of the drainer ends its task, which is no step. A request is served in one step, a whole
  rebalance included. In the code handlers run concurrently, and one whose client hangs up may be cancelled at an \<^verbatim>\<open>await\<close>; the steps
  of a rebalance among data operations, and its end at any step, are \<open>mig_step\<close> of \<open>Migration\<close>.
\<close>

inductive coord_step :: "('c, 'w, 'v, 'd) coord_env \<Rightarrow> u64 \<Rightarrow> ('c, 'd) coordinator \<times> 'w
    \<Rightarrow> ('c, 'd) coordinator \<times> 'w \<Rightarrow> bool" for E ttl where
  request: "coord_server E up req s = (s', r) \<Longrightarrow> coord_step E ttl s s'"
| elect: "co_leadership co = Some l \<Longrightarrow> elector_round (ce_client E) (co_cluster co) ttl l w = (l', w') \<Longrightarrow>
    coord_step E ttl (co, w) (co\<lparr>co_leadership := Some l'\<rparr>, w')"
| drain: "co_queue co = Some q \<Longrightarrow>
    drainer_round (ce_heed E) (ce_serde E) (cluster_sink (ce_client E) (co_cluster co)) q w = Some (q', w', n) \<Longrightarrow>
    coord_step E ttl (co, w) (co\<lparr>co_queue := Some q'\<rparr>, w')"

inductive_cases coord_stepE: "coord_step E ttl s s'"

subsection \<open>Who changes the membership\<close>

definition keeps_cluster :: "('c, 'd, 'w) coord_handler \<Rightarrow> bool" where
  "keeps_cluster h \<longleftrightarrow> (\<forall>s. co_cluster (fst (fst (h s))) = co_cluster (fst s))"

lemma keeps_extractors:
  "keeps_cluster h \<Longrightarrow> keeps_cluster (on_get req h)" "keeps_cluster h \<Longrightarrow> keeps_cluster (on_post req h)"
  "(\<And>q. keeps_cluster (g q)) \<Longrightarrow> keeps_cluster (with_query D rd req g)"
  "(\<And>b. keeps_cluster (k b)) \<Longrightarrow> keeps_cluster (with_json D names rdj req k)"
  by (simp_all add: keeps_cluster_def on_get_def on_post_def with_query_def with_json_def split: option.split sum.split)

lemma keeps_handlers:
  "keeps_cluster (\<lambda>s. (s, r))" "keeps_cluster (k_metrics up)" "keeps_cluster (k_object C D oq)"
  "keeps_cluster (k_mget C D mb)" "keeps_cluster (k_scan C D sq)" "keeps_cluster (k_write C D wb)"
  "keeps_cluster (k_cas C D cb)" "keeps_cluster (k_incr C J D nb)" "keeps_cluster (k_set_add C D se)"
  "keeps_cluster (k_set_remove C D se)" "keeps_cluster (k_delete C D db)" "keeps_cluster (k_route D kq)"
  "keeps_cluster (k_members C D)" "keeps_cluster (k_partitions C D)" "keeps_cluster (k_leader D l)"
  "keeps_cluster (k_enqueue H SE D q wb)" "keeps_cluster (k_ingest_status D q)"
  by (auto simp: keeps_cluster_def k_metrics_def k_object_def k_mget_def k_scan_def k_write_def k_cas_def k_incr_def
      k_set_add_def k_set_remove_def k_delete_def k_route_def k_members_def k_partitions_def k_leader_def
      k_enqueue_def k_ingest_status_def co_count_def Let_def split: prod.splits option.splits)

lemma keeps_app: "keeps_cluster (coord_app C J D up req)"
  unfolding coord_app_def Let_def by (simp add: keeps_extractors keeps_handlers)

lemma admin_change:
  assumes "k_admin D l f (co, w) = ((co', w'), r)" and "co_cluster co' \<noteq> co_cluster co"
  shows "ld_is_leader l \<and> (\<exists>sm. f (co_cluster co) w = (co_cluster co', w', sm))"
  using assms by (auto simp: k_admin_def not_leader_def Let_def split: option.splits if_splits prod.splits)

text \<open>A migration that the routes run: to a list of members, or away from one.\<close>

definition is_admin :: "request \<Rightarrow> bool" where
  "is_admin req \<longleftrightarrow> rq_is_post req \<and> rq_path req \<in> {''/admin/rebalance'', ''/admin/drain''}"

lemma posted_change:
  assumes "on_post req (with_json D names rd req k) s = (s', r)" and "co_cluster (fst s') \<noteq> co_cluster (fst s)"
  shows "rq_is_post req \<and> (\<exists>b. k b s = (s', r))"
  using assms by (auto simp: on_post_def with_json_def split: if_splits sum.splits option.splits)

lemma ingest_routes_cases:
  "add_ingest_routes H SE D q req inner = inner \<or> keeps_cluster (add_ingest_routes H SE D q req inner)"
  by (simp add: add_ingest_routes_def keeps_extractors keeps_handlers)

lemma leadership_change:
  assumes "app_with_leadership C D l req inner (co, w) = ((co', w'), r)" and "keeps_cluster inner"
    and "co_cluster co' \<noteq> co_cluster co"
  shows "is_admin req \<and> ld_is_leader l \<and>
    (\<exists>nodes sm. rebalance C nodes (co_cluster co) w = (co_cluster co', w', sm))"
proof -
  have inner: "inner (co, w) \<noteq> ((co', w'), r)"
    using assms(2,3) unfolding keeps_cluster_def by (metis fst_conv)
  have leader: "on_get req (k_leader D l) (co, w) \<noteq> ((co', w'), r)"
    using assms(3) keeps_extractors(1) [OF keeps_handlers(15)] unfolding keeps_cluster_def by (metis fst_conv)
  consider "rq_path req = ''/admin/rebalance''"
      "on_post req (with_json D [''nodes''] (read_rebalance D) req (k_rebalance C D l)) (co, w) = ((co', w'), r)"
    | "rq_path req = ''/admin/drain''"
      "on_post req (with_json D [''node''] (read_drain D) req (k_drain C D l)) (co, w) = ((co', w'), r)"
    using assms(1) inner leader by (auto simp: app_with_leadership_def split: if_splits)
  then show ?thesis
  proof cases
    case 1
    from posted_change [OF 1(2)] assms(3) obtain b :: rebalance_body where "rq_is_post req"
      and "k_admin D l (rebalance C (rb_nodes b)) (co, w) = ((co', w'), r)"
      by (auto simp: k_rebalance_def)
    with admin_change [OF this(2) assms(3)] 1(1) show ?thesis by (auto simp: is_admin_def)
  next
    case 2
    from posted_change [OF 2(2)] assms(3) obtain b :: drain_body where "rq_is_post req"
      and "k_admin D l (cluster_drain C (dn_node b)) (co, w) = ((co', w'), r)"
      by (auto simp: k_drain_def)
    with admin_change [OF this(2) assms(3)] 2(1) show ?thesis by (auto simp: is_admin_def cluster_drain_def)
  qed
qed

lemma router_change:
  assumes "coord_router E up req (co, w) = ((co', w'), r)" and "co_cluster co' \<noteq> co_cluster co"
  shows "is_admin req \<and> (\<exists>l. co_leadership co = Some l \<and> ld_is_leader l) \<and>
    (\<exists>nodes sm. rebalance (ce_client E) nodes (co_cluster co) w = (co_cluster co', w', sm))"
proof -
  let ?app = "coord_app (ce_client E) (ce_json E) (ce_doc E) up req"
  let ?lead = "case co_leadership co of Some l \<Rightarrow> app_with_leadership (ce_client E) (ce_doc E) l req ?app | None \<Rightarrow> ?app"
  have stays: "h (co, w) \<noteq> ((co', w'), r)" if "keeps_cluster h" for h
    using that assms(2) unfolding keeps_cluster_def by (metis fst_conv)
  have "?lead (co, w) = ((co', w'), r)"
  proof (cases "co_queue co")
    case None
    then show ?thesis using assms(1) by (simp add: coord_router_def Let_def)
  next
    case (Some q)
    then have "add_ingest_routes (ce_heed E) (ce_serde E) (ce_doc E) q req ?lead (co, w) = ((co', w'), r)"
      using assms(1) by (simp add: coord_router_def Let_def)
    then show ?thesis
      using stays ingest_routes_cases [of "ce_heed E" "ce_serde E" "ce_doc E" q req ?lead] by auto
  qed
  then obtain l where "co_leadership co = Some l"
    and "app_with_leadership (ce_client E) (ce_doc E) l req ?app (co, w) = ((co', w'), r)"
    using stays [OF keeps_app [of "ce_client E" "ce_json E" "ce_doc E" up req]] by (auto split: option.splits)
  with leadership_change [OF this(2) keeps_app assms(2)] show ?thesis by blast
qed

text \<open>A request that passes the layer with the right to administer.\<close>

definition may_admin :: "('c, 'w, 'v, 'd) coord_env \<Rightarrow> request \<Rightarrow> bool" where
  "may_admin E req \<longleftrightarrow> (case ce_policy E of
       Some P \<Rightarrow> (\<exists>t p coll. presented_token req = Some t \<and> policy_principal P t = Some p \<and> principal_allows p coll OpAdmin)
     | None \<Rightarrow> (case ce_token E of None \<Rightarrow> True | Some t \<Rightarrow> presented_token req = Some t))"

lemma admin_layer:
  assumes "coord_layer E req = Some (Inr req')" and "is_admin req'"
  shows "is_admin req \<and> may_admin E req"
proof -
  have req': "rq_path req' = rq_path req \<and> rq_is_post req' = rq_is_post req"
    using assms(1) by (auto simp: coord_layer_def policy_layer_def require_bearer_def bearer_layer_def request_coll_def
        Let_def split: option.splits if_splits prod.splits)
  then have adm: "is_admin req" using assms(2) by (simp add: is_admin_def)
  then have "op_of (rq_path req) = OpAdmin" "\<not> open_path (rq_path req)"
    by (auto simp: is_admin_def op_of_def starts_with_def open_path_def)
  then have "may_admin E req"
    using assms(1) by (auto simp: may_admin_def coord_layer_def policy_layer_def require_bearer_def bearer_layer_def
        Let_def split: option.splits if_splits prod.splits)
  with adm show ?thesis by simp
qed

subsection \<open>Elections\<close>

text \<open>
  Several coordinators over the same shards. Their views may differ, but the first owner of the
  leader key, when a view has it up, is the shard at address \<open>a\<close>. Each round runs at one time of
  the clock, which does not go back; \<open>last_round\<close> is the time of a coordinator's last round. Between rounds
  other operations change the shards and leave the lease alone. So a round is atomic, its time is that at which the arbiter
  decides, all coordinators ask the same arbiter, and its lease is not lost by a move of the leader's bucket.
\<close>

definition arbiter :: "nat \<Rightarrow> inproc_client cluster \<Rightarrow> bool" where
  "arbiter a cl \<longleftrightarrow> (case owners cl LEADER_KEY of [] \<Rightarrow> True
     | n # _ \<Rightarrow> (case client_of cl n of None \<Rightarrow> True | Some c \<Rightarrow> ic_shard c = a))"

definition leader_lease :: "'v json \<Rightarrow> nat \<Rightarrow> 'v memory_store world \<Rightarrow> u64 \<Rightarrow> lease option" where
  "leader_lease J a w t = stored_lease memory_index J t (w_shards w a) LEADER_KEY"

inductive election :: "'v json \<Rightarrow> nat \<Rightarrow> u64 \<Rightarrow> 'v memory_store world \<Rightarrow> (string \<Rightarrow> leadership)
    \<Rightarrow> (string \<Rightarrow> u64) \<Rightarrow> bool" for J a ttl where
  vacant: "inproc_ok mem_ok w \<Longrightarrow> (\<And>t. leader_lease J a w t = None) \<Longrightarrow>
    election J a ttl w leadership_new last_round"
| round: "election J a ttl w lds last_round \<Longrightarrow> w_now w \<le> now \<Longrightarrow> unat now + unat ttl < 2 ^ 64 \<Longrightarrow>
    arbiter a cl \<Longrightarrow> elector_round (mclient J) cl ttl (lds h) (w\<lparr>w_now := now\<rparr>) = (l, w') \<Longrightarrow>
    election J a ttl w' (lds(h := l)) (last_round(h := now))"
| other: "election J a ttl w lds last_round \<Longrightarrow> w_now w \<le> w_now w' \<Longrightarrow> inproc_ok mem_ok w' \<Longrightarrow>
    (\<And>t. leader_lease J a w' t = leader_lease J a w t) \<Longrightarrow> election J a ttl w' lds last_round"

text \<open>
  The invariant: the stored lease does not depend on the time it is read at, and a coordinator that
  takes itself for the leader holds it, or its last grant has expired.
\<close>

definition election_inv :: "'v json \<Rightarrow> nat \<Rightarrow> u64 \<Rightarrow> 'v memory_store world \<Rightarrow> (string \<Rightarrow> leadership)
    \<Rightarrow> (string \<Rightarrow> u64) \<Rightarrow> bool" where
  "election_inv J a ttl w lds last_round \<longleftrightarrow> inproc_ok mem_ok w \<and>
     (\<exists>cur. (\<forall>t. leader_lease J a w t = cur) \<and> (\<forall>h. ld_holder (lds h) = h \<and>
       (ld_is_leader (lds h) \<longrightarrow> last_round h + ttl \<le> w_now w \<or>
         cur = Some \<lparr>ls_holder = h, ls_expires_ms = last_round h + ttl, ls_token = ld_token (lds h)\<rparr>)))"

lemma lease_acquire_round:
  assumes "json_laws J" and "inproc_ok mem_ok w" and "\<And>t. leader_lease J a w t = cur" and "ic_shard c = a"
    and "sc_lease_acquire (mclient J) c LEADER_KEY h ttl w = (w', r)"
  shows "inproc_ok mem_ok w' \<and> w_now w' = w_now w \<and> r = COk (evaluate cur h ttl (w_now w)) \<and>
    (\<forall>t. leader_lease J a w' t = lease_next cur h ttl (w_now w))"
proof -
  have ok: "mem_ok (sh_store (w_shards w a))" using assms(2) by (simp add: inproc_ok_def)
  have cur: "stored_lease memory_index J t (w_shards w a) LEADER_KEY = cur" for t
    using assms(3) by (simp add: leader_lease_def)
  show ?thesis
    using assms(1,2,4,5) mem.invar_put [OF ok] mem.get_put [OF ok] cur
    by (auto simp: inproc_def with_write_def shard_lease_acquire_def Let_def cur lease_next_def inproc_ok_def
        leader_lease_def stored_lease_def json_laws_def)
qed

lemma elector_effect:
  assumes "json_laws J" and "inproc_ok mem_ok w" and "\<And>t. leader_lease J a w t = cur"
    and "owners cl LEADER_KEY = n # ns" and "\<not> is_down cl n" and "client_of cl n = Some c" and "ic_shard c = a"
    and "elector_round (mclient J) cl ttl st w = (l, w')"
  shows "inproc_ok mem_ok w' \<and> w_now w' = w_now w \<and>
    (\<forall>t. leader_lease J a w' t = lease_next cur (ld_holder st) ttl (w_now w)) \<and>
    (let out = evaluate cur (ld_holder st) ttl (w_now w) in
      l = st\<lparr>ld_is_leader := lo_granted out, ld_token := ls_token (lo_lease out),
        ld_current_leader := ls_holder (lo_lease out)\<rparr>)"
proof -
  obtain w1 r where acq: "sc_lease_acquire (mclient J) c LEADER_KEY (ld_holder st) ttl w = (w1, r)" by fastforce
  from lease_acquire_round [OF assms(1-3,7) acq] assms(4-6,8) acq show ?thesis
    by (auto simp: elector_round_def try_acquire_leadership_def cluster_lease_acquire_def)
qed

lemma election_invariant:
  assumes "json_laws J" and "election J a ttl w lds last_round"
  shows "election_inv J a ttl w lds last_round"
  using assms(2)
proof (induction rule: election.induct)
  case (vacant w last_round)
  then show ?case by (auto simp: election_inv_def leadership_new_def)
next
  case (other w lds last_round w')
  then show ?case by (force simp: election_inv_def)
next
  case (round w lds last_round now cl h l w')
  let ?w = "w\<lparr>w_now := now\<rparr>"
  obtain cur where cur: "\<And>t. leader_lease J a w t = cur" and ok: "inproc_ok mem_ok w"
    and hold: "\<And>h. ld_holder (lds h) = h"
    and lead: "\<And>h. ld_is_leader (lds h) \<Longrightarrow> last_round h + ttl \<le> w_now w \<or>
      cur = Some \<lparr>ls_holder = h, ls_expires_ms = last_round h + ttl, ls_token = ld_token (lds h)\<rparr>"
    using round.IH by (auto simp: election_inv_def)
  have cur': "leader_lease J a ?w t = cur" and ok': "inproc_ok mem_ok ?w" for t
    using cur ok by (simp_all add: leader_lease_def inproc_ok_def)
  show ?case
  proof (cases "\<exists>n ns c. owners cl LEADER_KEY = n # ns \<and> \<not> is_down cl n \<and> client_of cl n = Some c")
    case False
    then have "l = (lds h)\<lparr>ld_is_leader := False\<rparr>" "w' = ?w"
      using round.hyps(5)
      by (auto simp: elector_round_def try_acquire_leadership_def cluster_lease_acquire_def split: list.splits option.splits if_splits)
    with cur' ok' hold lead round.hyps(2) show ?thesis
      by (fastforce simp: election_inv_def)
  next
    case True
    then obtain n ns c where c: "owners cl LEADER_KEY = n # ns" "\<not> is_down cl n" "client_of cl n = Some c" by blast
    then have a: "ic_shard c = a" using round.hyps(4) by (simp add: arbiter_def)
    note eff = elector_effect [OF assms(1) ok' cur' c a round.hyps(5), unfolded hold, simplified]
    let ?o = "evaluate cur h ttl now"
    from eff have l: "l = (lds h)\<lparr>ld_is_leader := lo_granted ?o, ld_token := ls_token (lo_lease ?o),
        ld_current_leader := ls_holder (lo_lease ?o)\<rparr>" by (simp add: Let_def)
    let ?nxt = "lease_next cur h ttl now"
    have self: "lo_granted ?o \<Longrightarrow>
        ?nxt = Some \<lparr>ls_holder = h, ls_expires_ms = now + ttl, ls_token = ls_token (lo_lease ?o)\<rparr>"
      by (cases rule: evaluate_cases [of cur h now ttl]) (simp_all add: lease_next_def Let_def)
    have rest: "last_round k + ttl \<le> now \<or>
        ?nxt = Some \<lparr>ls_holder = k, ls_expires_ms = last_round k + ttl, ls_token = ld_token (lds k)\<rparr>"
      if "k \<noteq> h" "ld_is_leader (lds k)" for k
      using lead [OF that(2)] that(1) round.hyps(2)
      by (cases rule: evaluate_cases [of cur h now ttl]) (auto simp: lease_next_def Let_def)
    show ?thesis
      unfolding election_inv_def
      by (intro conjI exI [of _ ?nxt]) (use eff self rest hold in \<open>auto simp: l\<close>)
  qed
qed

subsection \<open>A client of the coordinator\<close>

text \<open>A network that brings the requests of a client to the coordinator; \<open>up\<close> is its uptime.\<close>

definition coord_delivers :: "('c, 'w, 'v, 'd) coord_env \<Rightarrow> (('c, 'd) coordinator \<times> 'w) network \<Rightarrow> bool" where
  "coord_delivers E N \<longleftrightarrow> (\<forall>base req s. \<exists>up. \<forall>s' r. coord_server E up req s = (s', r) \<longrightarrow>
     fst (N base req s) = s' \<and>
     (case r of None \<Rightarrow> (\<exists>e. snd (N base req s) = Inl e) | Some rs \<Rightarrow> snd (N base req s) = Inr rs))"

text \<open>A client whose requests pass the coordinator's layer.\<close>

definition coord_linked :: "('c, 'w, 'v, 'd) coord_env \<Rightarrow> (('c, 'd) coordinator \<times> 'w) network \<Rightarrow> http_shard_client \<Rightarrow> bool" where
  "coord_linked E N hc \<longleftrightarrow> doc_laws (ce_doc E) \<and> coord_delivers E N \<and> ce_policy E = None \<and>
     authorized (ce_doc E) (ce_token E) hc"

definition data_path :: "string \<Rightarrow> bool" where
  "data_path path \<longleftrightarrow> path \<notin> {''/leader'', ''/admin/rebalance'', ''/admin/drain'', ''/enqueue'', ''/ingest/status''}"

lemma data_router:
  "data_path (rq_path req) \<Longrightarrow> coord_router E up req s = coord_app (ce_client E) (ce_json E) (ce_doc E) up req s"
  by (simp add: coord_router_def data_path_def app_with_leadership_def add_ingest_routes_def Let_def split: option.split)

lemma coord_delivered:
  assumes "coord_linked E N hc" and "rq_authorization req = hs_auth (ce_doc E) hc" and "data_path (rq_path req)"
    and "\<And>up. coord_app (ce_client E) (ce_json E) (ce_doc E) up req s = (s', Some rs)"
  shows "N base req s = (s', Inr rs)"
proof -
  have "coord_server E up req s = (s', Some rs)" for up
    using authorized_pass [OF _ assms(2)] assms(1,3,4)
    by (simp add: coord_linked_def coord_server_def coord_layer_def layered_def data_router)
  moreover obtain up where "\<And>s' r. coord_server E up req s = (s', r) \<Longrightarrow> fst (N base req s) = s' \<and>
      (case r of None \<Rightarrow> (\<exists>e. snd (N base req s) = Inl e) | Some rs \<Rightarrow> snd (N base req s) = Inr rs)"
    using assms(1) unfolding coord_linked_def coord_delivers_def by blast
  ultimately show ?thesis by (auto simp: prod_eq_iff)
qed

lemma coord_post:
  assumes "coord_linked E N hc" and "data_path path"
    and "\<And>up req. rq_path req = path \<Longrightarrow> rq_is_post req \<Longrightarrow> rq_body req = dj_to_string (ce_doc E) body \<Longrightarrow>
      coord_app (ce_client E) (ce_json E) (ce_doc E) up req s = (s', Some rs)"
  shows "send_post (ce_doc E) N hc path body s = (s', Inr rs)"
  unfolding send_post_def by (rule coord_delivered [OF assms(1)]) (use assms(2,3) in simp_all)

lemma coord_get:
  assumes "coord_linked E N hc" and "data_path path"
    and "\<And>up req. rq_path req = path \<Longrightarrow> \<not> rq_is_post req \<Longrightarrow> rq_query req = query \<Longrightarrow>
      coord_app (ce_client E) (ce_json E) (ce_doc E) up req s = (s', Some rs)"
  shows "send_get (ce_doc E) N hc path query s = (s', Inr rs)"
  unfolding send_get_def by (rule coord_delivered [OF assms(1)]) (use assms(2,3) in simp_all)

lemmas coord_simps = coord_app_def on_post_def on_get_def Let_def ok_json_def data_path_def

text \<open>Every call of such a client is the operation of the cluster.\<close>

lemma coord_object:
  assumes "coord_linked E N hc" and "cluster_get (ce_client E) (co_cluster co) coll key w = (w', ov)"
  shows "sc_object (http_client (ce_doc E) N) hc coll key (co, w) = ((co_count GET co, w'), COk (nonnull (ce_doc E) ov))"
proof -
  have D: "doc_laws (ce_doc E)" using assms(1) by (simp add: coord_linked_def)
  note [simp] = doc_law [OF D]
  have "send_get (ce_doc E) N hc ''/object'' (Some (dj_to_query (ce_doc E) [(''coll'', coll), (''key'', key)])) (co, w) =
      ((co_count GET co, w'), Inr \<lparr>rs_status = 200, rs_body = dj_to_string (ce_doc E) (dj_object (ce_doc E)
        [(''object'', opt_json (ce_doc E) id ov)])\<rparr>)"
    by (rule coord_get [OF assms(1)])
      (simp_all add: coord_simps with_query_def read_obj_q_def field_of_def k_object_def co_count_def assms(2))
  then show ?thesis
    by (simp add: http_client_def http_object_def json_answer_def opt_json_def nonnull_def split: option.split)
qed

lemma coord_write:
  assumes "coord_linked E N hc"
    and "fits (ce_doc E) (write_json (ce_doc E) \<lparr>wb_coll = coll, wb_key = key, wb_obj = v, wb_ttl_ms = None\<rparr>)"
  shows "sc_write_object (http_client (ce_doc E) N) hc coll key v (co, w) =
    ((co_count SET co, cluster_put (ce_client E) (co_cluster co) coll key v w), COk ())"
proof -
  have D: "doc_laws (ce_doc E)" using assms(1) by (simp add: coord_linked_def)
  have "send_post (ce_doc E) N hc ''/write'' (write_json (ce_doc E)
        \<lparr>wb_coll = coll, wb_key = key, wb_obj = v, wb_ttl_ms = None\<rparr>) (co, w) =
      ((co_count SET co, cluster_put (ce_client E) (co_cluster co) coll key v w),
       Inr \<lparr>rs_status = 200, rs_body = dj_to_string (ce_doc E) (dj_object (ce_doc E) [(''ok'', dj_bool (ce_doc E) True)])\<rparr>)"
    by (rule coord_post [OF assms(1)])
      (simp_all add: coord_simps body_roundtrip(4) [OF D assms(2)] k_write_def co_count_def)
  then show ?thesis by (simp add: http_client_def http_write_object_def post_ok_def)
qed

lemma coord_write_ttl:
  assumes "coord_linked E N hc"
    and "fits (ce_doc E) (write_json (ce_doc E) \<lparr>wb_coll = coll, wb_key = key, wb_obj = v, wb_ttl_ms = Some ttl\<rparr>)"
  shows "sc_write_object_ttl (http_client (ce_doc E) N) hc coll key v ttl (co, w) =
    ((co_count SET co, if ttl > 0 then cluster_put_ttl (ce_client E) (co_cluster co) coll key v ttl w
      else cluster_put (ce_client E) (co_cluster co) coll key v w), COk ())"
proof -
  have D: "doc_laws (ce_doc E)" using assms(1) by (simp add: coord_linked_def)
  note [simp] = doc_law [OF D]
  have "send_post (ce_doc E) N hc ''/write'' (write_json (ce_doc E) \<lparr>wb_coll = coll, wb_key = key, wb_obj = v, wb_ttl_ms = Some ttl\<rparr>) (co, w) =
      ((co_count SET co, if ttl > 0 then cluster_put_ttl (ce_client E) (co_cluster co) coll key v ttl w
      else cluster_put (ce_client E) (co_cluster co) coll key v w),
       Inr \<lparr>rs_status = 200, rs_body = dj_to_string (ce_doc E) (dj_object (ce_doc E) [(''ok'', dj_bool (ce_doc E) True)])\<rparr>)"
    by (rule coord_post [OF assms(1)])
      (simp_all add: coord_simps body_roundtrip(4) [OF D assms(2)] k_write_def co_count_def)
  then show ?thesis by (simp add: http_client_def http_write_object_ttl_def post_ok_def)
qed

lemma coord_delete:
  assumes "coord_linked E N hc"
    and "fits (ce_doc E) (delete_json (ce_doc E) \<lparr>db_coll = coll, db_key = key\<rparr>)"
  shows "sc_delete_object (http_client (ce_doc E) N) hc coll key (co, w) =
    ((co_count DEL co, cluster_delete (ce_client E) (co_cluster co) coll key w), COk ())"
proof -
  have D: "doc_laws (ce_doc E)" using assms(1) by (simp add: coord_linked_def)
  note [simp] = doc_law [OF D]
  have "send_post (ce_doc E) N hc ''/deleteObject'' (delete_json (ce_doc E) \<lparr>db_coll = coll, db_key = key\<rparr>) (co, w) =
      ((co_count DEL co, cluster_delete (ce_client E) (co_cluster co) coll key w),
       Inr \<lparr>rs_status = 200, rs_body = dj_to_string (ce_doc E) (dj_object (ce_doc E) [(''ok'', dj_bool (ce_doc E) True)])\<rparr>)"
    by (rule coord_post [OF assms(1)])
      (simp_all add: coord_simps body_roundtrip(5) [OF D assms(2)] k_delete_def co_count_def)
  then show ?thesis by (simp add: http_client_def http_delete_object_def post_ok_def)
qed

lemma coord_set_add:
  assumes "coord_linked E N hc"
    and "fits (ce_doc E) (set_json (ce_doc E) \<lparr>se_coll = coll, se_key = key, se_member = m\<rparr>)"
  shows "sc_set_add (http_client (ce_doc E) N) hc coll key m (co, w) =
    ((co_count SADD co, cluster_set_add (ce_client E) (co_cluster co) coll key m w), COk False)"
proof -
  have D: "doc_laws (ce_doc E)" using assms(1) by (simp add: coord_linked_def)
  note [simp] = doc_law [OF D]
  have "send_post (ce_doc E) N hc ''/setAdd'' (set_json (ce_doc E) \<lparr>se_coll = coll, se_key = key, se_member = m\<rparr>) (co, w) =
      ((co_count SADD co, cluster_set_add (ce_client E) (co_cluster co) coll key m w),
       Inr \<lparr>rs_status = 200, rs_body = dj_to_string (ce_doc E) (dj_object (ce_doc E) [(''ok'', dj_bool (ce_doc E) True)])\<rparr>)"
    by (rule coord_post [OF assms(1)])
      (simp_all add: coord_simps body_roundtrip(3) [OF D assms(2)] k_set_add_def co_count_def)
  then show ?thesis by (simp add: http_client_def http_set_add_def json_answer_def get_flag_def)
qed

lemma coord_set_remove:
  assumes "coord_linked E N hc"
    and "fits (ce_doc E) (set_json (ce_doc E) \<lparr>se_coll = coll, se_key = key, se_member = m\<rparr>)"
  shows "sc_set_remove (http_client (ce_doc E) N) hc coll key m (co, w) =
    ((co_count SREM co, cluster_set_remove (ce_client E) (co_cluster co) coll key m w), COk False)"
proof -
  have D: "doc_laws (ce_doc E)" using assms(1) by (simp add: coord_linked_def)
  note [simp] = doc_law [OF D]
  have "send_post (ce_doc E) N hc ''/setRemove'' (set_json (ce_doc E) \<lparr>se_coll = coll, se_key = key, se_member = m\<rparr>) (co, w) =
      ((co_count SREM co, cluster_set_remove (ce_client E) (co_cluster co) coll key m w),
       Inr \<lparr>rs_status = 200, rs_body = dj_to_string (ce_doc E) (dj_object (ce_doc E) [(''ok'', dj_bool (ce_doc E) True)])\<rparr>)"
    by (rule coord_post [OF assms(1)])
      (simp_all add: coord_simps body_roundtrip(3) [OF D assms(2)] k_set_remove_def co_count_def)
  then show ?thesis by (simp add: http_client_def http_set_remove_def json_answer_def get_flag_def)
qed

lemma coord_cas:
  assumes "coord_linked E N hc"
    and "fits (ce_doc E) (cas_json (ce_doc E) \<lparr>cb_coll = coll, cb_key = key, cb_expect = expect, cb_new = v\<rparr>)"
    and "cluster_cas (ce_client E) (co_cluster co) coll key (nonnull (ce_doc E) expect) v w = (w', b)"
  shows "sc_cas (http_client (ce_doc E) N) hc coll key expect v (co, w) = ((co_count SET co, w'), COk b)"
proof -
  have D: "doc_laws (ce_doc E)" using assms(1) by (simp add: coord_linked_def)
  note [simp] = doc_law [OF D]
  have "send_post (ce_doc E) N hc ''/cas'' (cas_json (ce_doc E) \<lparr>cb_coll = coll, cb_key = key, cb_expect = expect, cb_new = v\<rparr>) (co, w) =
      ((co_count SET co, w'),
       Inr \<lparr>rs_status = 200, rs_body = dj_to_string (ce_doc E) (dj_object (ce_doc E) [(''set'', dj_bool (ce_doc E) b)])\<rparr>)"
    by (rule coord_post [OF assms(1)])
      (simp_all add: coord_simps body_roundtrip(8) [OF D assms(2)] k_cas_def assms(3) co_count_def)
  then show ?thesis by (simp add: http_client_def http_cas_def json_answer_def get_flag_def)
qed

text \<open>A coordinator over remote shards that hold the content, with a client; and what a call leaves.\<close>

definition deployed :: "(http_shard_client, 'v memory_store world, 'v, 'd) coord_env
    \<Rightarrow> ((http_shard_client, 'd) coordinator \<times> 'v memory_store world) network \<Rightarrow> http_shard_client
    \<Rightarrow> 'v memory_store world network \<Rightarrow> string option \<Rightarrow> (string \<Rightarrow> nat) \<Rightarrow> (http_shard_client, 'd) coordinator
    \<Rightarrow> (string \<Rightarrow> string \<Rightarrow> 'v option) \<Rightarrow> 'v memory_store world \<Rightarrow> bool" where
  "deployed E N hc M token locate co content w \<longleftrightarrow> coord_linked E N hc \<and> ce_client E = http_client (ce_doc E) M \<and>
     http_cluster_ok (ce_json E) (ce_doc E) M token locate (co_cluster co) w \<and>
     http_placed locate (co_cluster co) content w"

lemma deployed_next:
  assumes "deployed E N hc M token locate co content w"
    and "http_cluster_ok (ce_json E) (ce_doc E) M token locate (co_cluster co) w' \<and> http_placed locate (co_cluster co) c' w'"
  shows "deployed E N hc M token locate (co_count c co) c' w'"
  using assms by (simp add: deployed_def co_count_def)

lemma deployedD:
  assumes "deployed E N hc M token locate co content w"
  shows "coord_linked E N hc" "ce_client E = http_client (ce_doc E) M"
    "http_cluster_ok (ce_json E) (ce_doc E) M token locate (co_cluster co) w" "http_placed locate (co_cluster co) content w"
  using assms by (simp_all add: deployed_def)

lemma deployed_get:
  assumes "deployed E N hc M token locate co content w" and "coll \<in> set (cl_colls (co_cluster co))"
    and "served (co_cluster co) key"
  shows "sc_object (http_client (ce_doc E) N) hc coll key (co, w) =
    ((co_count GET co, w), COk (nonnull (ce_doc E) (content coll key)))"
proof -
  have "nonnull (ce_doc E) (nonnull (ce_doc E) x) = nonnull (ce_doc E) x" for x
    by (simp add: nonnull_def split: option.split)
  then show ?thesis
    using coord_object [OF deployedD(1) [OF assms(1)], of co coll key w] deployedD(2) [OF assms(1)]
      http_cluster_map [OF deployedD(3,4) [OF assms(1)] assms(2), of key] assms(3) by simp
qed

lemma deployed_put:
  assumes "deployed E N hc M token locate co content w" and "coll \<in> set (cl_colls (co_cluster co))"
    and fit: "fits (ce_doc E) (write_json (ce_doc E) \<lparr>wb_coll = coll, wb_key = key, wb_obj = v, wb_ttl_ms = None\<rparr>)"
  shows "\<exists>co' w'. sc_write_object (http_client (ce_doc E) N) hc coll key v (co, w) = ((co', w'), COk ()) \<and>
      deployed E N hc M token locate co' (upd_content content coll key (Some v)) w'"
    and "fits (ce_doc E) (write_json (ce_doc E) \<lparr>wb_coll = coll, wb_key = key, wb_obj = v, wb_ttl_ms = Some ttl\<rparr>) \<Longrightarrow>
      \<exists>co' w'. sc_write_object_ttl (http_client (ce_doc E) N) hc coll key v ttl (co, w) = ((co', w'), COk ()) \<and>
        deployed E N hc M token locate co'
          (upd_content content coll key (if ttl = 0 \<or> w_now w < w_now w + ttl then Some v else None)) w'"
proof -
  note map = http_cluster_map [OF deployedD(3,4) [OF assms(1)] assms(2), of key v ttl]
  note put = deployed_next [OF assms(1) map [THEN conjunct2, THEN conjunct1, rule_format, OF fit], of SET]
  show "\<exists>co' w'. sc_write_object (http_client (ce_doc E) N) hc coll key v (co, w) = ((co', w'), COk ()) \<and>
      deployed E N hc M token locate co' (upd_content content coll key (Some v)) w'"
    using coord_write [OF deployedD(1) [OF assms(1)] fit] put by (simp add: deployedD(2) [OF assms(1)])
  assume fit_ttl: "fits (ce_doc E) (write_json (ce_doc E) \<lparr>wb_coll = coll, wb_key = key, wb_obj = v, wb_ttl_ms = Some ttl\<rparr>)"
  note call = coord_write_ttl [OF deployedD(1) [OF assms(1)] fit_ttl, of co w, unfolded deployedD(2) [OF assms(1)]]
  note ttl = deployed_next [OF assms(1) map [THEN conjunct2, THEN conjunct2, THEN conjunct1, rule_format, OF fit_ttl], of SET]
  show "\<exists>co' w'. sc_write_object_ttl (http_client (ce_doc E) N) hc coll key v ttl (co, w) = ((co', w'), COk ()) \<and>
      deployed E N hc M token locate co'
        (upd_content content coll key (if ttl = 0 \<or> w_now w < w_now w + ttl then Some v else None)) w'"
    using call put ttl by (cases "ttl = 0") (simp_all add: word_gt_0)
qed

lemma deployed_cas:
  assumes "deployed E N hc M token locate co content w" and "coll \<in> set (cl_colls (co_cluster co))"
    and "fits (ce_doc E) (write_json (ce_doc E) \<lparr>wb_coll = coll, wb_key = key, wb_obj = v, wb_ttl_ms = None\<rparr>)"
    and fit: "fits (ce_doc E) (cas_json (ce_doc E) \<lparr>cb_coll = coll, cb_key = key, cb_expect = expect, cb_new = v\<rparr>)"
    and "fits (ce_doc E) (cas_json (ce_doc E)
      \<lparr>cb_coll = coll, cb_key = key, cb_expect = nonnull (ce_doc E) expect, cb_new = v\<rparr>)"
    and "served (co_cluster co) key"
  shows "\<exists>co' w' b. sc_cas (http_client (ce_doc E) N) hc coll key expect v (co, w) = ((co', w'), COk b) \<and>
    b = js_eq_opt (ce_json E) (content coll key) (nonnull (ce_doc E) expect) \<and>
    deployed E N hc M token locate co' (upd_content content coll key (if b then Some v else content coll key)) w'"
proof -
  let ?D = "ce_doc E"
  have nn: "nonnull ?D (nonnull ?D x) = nonnull ?D x" for x by (simp add: nonnull_def split: option.split)
  obtain w' b where c: "cluster_cas (http_client ?D M) (co_cluster co) coll key (nonnull ?D expect) v w = (w', b)"
    by fastforce
  note call = coord_cas [OF deployedD(1) [OF assms(1)] fit, unfolded deployedD(2) [OF assms(1)], OF c]
  have res: "b = js_eq_opt (ce_json E) (content coll key) (nonnull ?D expect)"
    "http_cluster_ok (ce_json E) ?D M token locate (co_cluster co) w' \<and>
      http_placed locate (co_cluster co) (upd_content content coll key (if b then Some v else content coll key)) w'"
    using http_cluster_map [OF deployedD(3,4) [OF assms(1)] assms(2), of key v _ _ "nonnull ?D expect",
        unfolded c nn Let_def prod.case] assms(3,5,6) by blast+
  from call res(1) deployed_next [OF assms(1) res(2)] show ?thesis by blast
qed

lemma deployed_delete:
  assumes "deployed E N hc M token locate co content w" and "coll \<in> set (cl_colls (co_cluster co))"
    and fit: "fits (ce_doc E) (delete_json (ce_doc E) \<lparr>db_coll = coll, db_key = key\<rparr>)"
  shows "\<exists>co' w'. sc_delete_object (http_client (ce_doc E) N) hc coll key (co, w) = ((co', w'), COk ()) \<and>
    deployed E N hc M token locate co' (upd_content content coll key None) w'"
  using coord_delete [OF deployedD(1) [OF assms(1)] fit] deployedD(2) [OF assms(1)]
    http_cluster_map [OF deployedD(3,4) [OF assms(1)] assms(2), of key] fit deployed_next [OF assms(1)] by simp

lemma deployed_sets:
  assumes "deployed E N hc M token locate co content w" and "coll \<in> set (cl_colls (co_cluster co))"
    and fit: "fits (ce_doc E) (set_json (ce_doc E) \<lparr>se_coll = coll, se_key = key, se_member = m\<rparr>)"
  shows "\<exists>co' w'. sc_set_add (http_client (ce_doc E) N) hc coll key m (co, w) = ((co', w'), COk False) \<and>
      deployed E N hc M token locate co' (upd_content content coll key (added_value (ce_json E) m (content coll key))) w'"
    and "\<exists>co' w'. sc_set_remove (http_client (ce_doc E) N) hc coll key m (co, w) = ((co', w'), COk False) \<and>
      deployed E N hc M token locate co' (upd_content content coll key (removed_value (ce_json E) m (content coll key))) w'"
  using coord_set_add [OF deployedD(1) [OF assms(1)] fit] coord_set_remove [OF deployedD(1) [OF assms(1)] fit]
    deployedD(2) [OF assms(1)] http_cluster_map [OF deployedD(3,4) [OF assms(1)] assms(2), of key] fit
    deployed_next [OF assms(1)] by simp_all

subsection \<open>Concrete coordinators\<close>

text \<open>Two coordinators over one in-process shard: a round of one at time 5, of the other at time \<open>t\<close>.\<close>

definition one_node :: "inproc_client cluster" where
  "one_node = cluster_new [(''n0'', inproc_new ''n0'' 0)] 1 [''kv'']"

lemma one_node_owner: "owners one_node k = [''n0'']" "client_of one_node ''n0'' = Some (inproc_new ''n0'' 0)"
  "\<not> is_down one_node ''n0''"
proof -
  let ?p = "partitioner_new [''n0'']"
  have ok: "partitioner_ok ?p" by (rule partitioner_ok_new) simp
  show "owners one_node k = [''n0'']"
    using preference_list_eq [OF ok, of k]
    by (simp add: one_node_def owners_def cluster_new_def clamp_def replica_set_plain [OF ok])
qed (simp_all add: one_node_def cluster_new_def client_of_def is_down_def)

lemma two_rounds:
  assumes "5 \<le> t" and "unat t + 10 < 2 ^ 64"
  defines "cur \<equiv> lease_next None ''A'' 10 5"
  shows "\<exists>w lds last_round. election jv_json 0 10 w lds last_round \<and> w_now w = t \<and>
    last_round ''A'' = 5 \<and> last_round ''B'' = t \<and> ld_is_leader (lds ''A'') \<and> ld_token (lds ''A'') = 1 \<and>
    ld_is_leader (lds ''B'') = lo_granted (evaluate cur ''B'' 10 t)"
proof -
  have start: "inproc_ok mem_ok empty_world" "\<And>t. leader_lease jv_json 0 empty_world t = None" "w_now empty_world = 5"
    using two_nodes_start(1) by (simp_all add: mcluster_ok_def leader_lease_def stored_lease_def empty_world_def
        shard_new_def mem_eval)
  have arb: "arbiter 0 one_node" by (simp add: arbiter_def one_node_owner inproc_new_def)
  obtain l w where r1: "elector_round (mclient jv_json) one_node 10 (leadership_new ''A'') (empty_world\<lparr>w_now := 5\<rparr>) = (l, w)"
    by fastforce
  note eff = elector_effect [OF jv_json_laws _ _ one_node_owner(1,3,2)]
  have w: "inproc_ok mem_ok w" "w_now w = 5" "\<And>t. leader_lease jv_json 0 w t = cur" "ld_is_leader l" "ld_token l = 1"
    using eff [OF _ _ _ r1, of 0 None] start
    by (simp_all add: inproc_ok_def leader_lease_def inproc_new_def leadership_new_def evaluate_def cur_def Let_def)
  have e1: "election jv_json 0 10 w (leadership_new(''A'' := l)) ((\<lambda>_. 0)(''A'' := 5))"
    by (rule election.round [OF election.vacant [OF start(1,2)] _ _ arb r1]) (simp_all add: start(3))
  obtain m w' where r2: "elector_round (mclient jv_json) one_node 10 (leadership_new ''B'') (w\<lparr>w_now := t\<rparr>) = (m, w')"
    by fastforce
  have w': "w_now w' = t" "ld_is_leader m = lo_granted (evaluate cur ''B'' 10 t)"
    using eff [OF _ _ _ r2, of 0 cur] w(1,3)
    by (simp_all add: inproc_ok_def leader_lease_def inproc_new_def leadership_new_def Let_def)
  have "election jv_json 0 10 w' (leadership_new(''A'' := l, ''B'' := m)) ((\<lambda>_. 0)(''A'' := 5, ''B'' := t))"
    by (rule election.round [OF e1 _ _ arb]) (use r2 w assms(1,2) in simp_all)
  with w w' show ?thesis
    by (intro exI [of _ w'] exI [of _ "leadership_new(''A'' := l, ''B'' := m)"]
        exI [of _ "(\<lambda>_. 0)(''A'' := 5, ''B'' := t)"] conjI) simp_all
qed

text \<open>
  The bound on the age of the last round is needed: the flag is only lowered by a later round, so
  a leader whose next round is late, for instance because its request waits for a slow shard, still
  takes itself for the leader when another coordinator has been granted the expired lease.
\<close>

lemma late_round_two_leaders:
  "\<exists>w lds last_round. election jv_json 0 10 w lds last_round \<and> ld_is_leader (lds ''A'') \<and> ld_is_leader (lds ''B'')"
  using two_rounds [of 15] by (auto simp: evaluate_def lease_next_def)

text \<open>A coordinator over the two remote shards of \<open>http_two\<close>, and a client with its token.\<close>

definition text_env :: "(http_shard_client, string memory_store world, string, sorted_db) coord_env" where
  "text_env = \<lparr>ce_client = http_client text_doc text_net2, ce_json = text_json, ce_doc = text_doc,
     ce_heed = sorted_heed, ce_serde = nat_serde, ce_to_bytes = (\<lambda>n s. Some s), ce_policy = None, ce_token = Some ''ctok''\<rparr>"

definition direct_coord :: "('c, 'w, 'v, 'd) coord_env \<Rightarrow> (('c, 'd) coordinator \<times> 'w) network" where
  "direct_coord E base req s = (let (s', r) = coord_server E ''0.000'' req s in
     (s', case r of None \<Rightarrow> Inl ''connection closed'' | Some rs \<Rightarrow> Inr rs))"

lemma direct_coord_delivers: "coord_delivers E (direct_coord E)"
  unfolding coord_delivers_def
  by (intro allI exI [of _ "''0.000''"]) (simp add: direct_coord_def split: option.split)

abbreviation text_user :: http_shard_client where
  "text_user \<equiv> http_new_authed ''user'' ''http://coordinator'' (Some ''ctok'')"

abbreviation text_co :: "(http_shard_client, sorted_db) coordinator" where
  "text_co \<equiv> coord_start http_two (Some ''c0'') None"

lemma text_deployed: "deployed text_env (direct_coord text_env) text_user text_net2 (Some ''tok'') text_locate
    text_co (\<lambda>c k. None) text_world"
proof -
  have "hs_auth text_doc text_user = Some (''Bearer '' @ ''ctok'')"
    by (simp add: hs_auth_def http_new_authed_def) (simp add: text_doc_def)
  then have "coord_linked text_env (direct_coord text_env) text_user"
    by (simp add: coord_linked_def direct_coord_delivers authorized_def text_doc_laws text_env_def)
  with http_two_start(1,2) show ?thesis
    by (simp add: deployed_def coord_start_def) (simp add: text_env_def)
qed

text \<open>The same coordinator as the leader, and a request to rebalance to the members it has.\<close>

definition text_leader :: "(http_shard_client, sorted_db) coordinator" where
  "text_leader = text_co\<lparr>co_leadership := Some ((leadership_new ''c0'')\<lparr>ld_is_leader := True\<rparr>)\<rparr>"

definition text_rebalance :: request where
  "text_rebalance = \<lparr>rq_path = ''/admin/rebalance'', rq_query = None, rq_is_post = True,
     rq_authorization = Some ''Bearer ctok'', rq_body = dj_to_string text_doc (dj_object text_doc
       [(''nodes'', dj_array text_doc (map (dj_str text_doc) [''n0'', ''n1'']))])\<rparr>"

lemma text_rebalanced:
  "\<exists>co' w' r. coord_server text_env [] text_rebalance (text_leader, text_world) = ((co', w'), r) \<and>
     co_cluster co' \<noteq> co_cluster text_leader"
proof -
  note [simp] = doc_law [OF text_doc_laws] rd_vec_json(1) [OF text_doc_laws, of "[''n0'', ''n1'']", simplified]
  have fields [simp]: "dj_fields text_doc names (dj_to_string text_doc (dj_object text_doc fs)) = Inr fs" for names fs
    by (simp add: text_doc_def untag_def)
  have small: "length (rq_body text_rebalance) \<le> BODY_LIMIT"
    by (simp add: text_rebalance_def text_doc_def flatten_def quote_def BODY_LIMIT_def)
  have same: "same_members (member_ids http_two) [''n0'', ''n1'']"
    by (simp add: same_members_def member_ids_def http_two_def cluster_new_def list_nodes_def partitioner_new_def
        set_nodes_def Let_def)
  let ?s = "k_rebalance (http_client text_doc text_net2) text_doc
    ((leadership_new ''c0'')\<lparr>ld_is_leader := True\<rparr>) \<lparr>rb_nodes = [''n0'', ''n1'']\<rparr> (text_leader, text_world)"
  have "coord_server text_env [] text_rebalance (text_leader, text_world) = ?s"
    using small
    by (simp add: coord_server_def coord_layer_def layered_def require_bearer_def bearer_layer_def presented_token_def
        coord_router_def app_with_leadership_def on_post_def with_json_def read_rebalance_def field_of_def
        text_env_def text_leader_def coord_start_def text_rebalance_def open_path_def not_less Let_def)
  moreover have "cl_epoch (co_cluster (fst (fst ?s))) = cl_epoch (co_cluster text_leader) + 1"
    using same by (simp add: k_rebalance_def k_admin_def not_leader_def rebalance_def run_migration_def commit_membership_def
        text_leader_def coord_start_def Let_def)
  ultimately show ?thesis
    by (intro exI [of _ "fst (fst ?s)"] exI [of _ "snd (fst ?s)"] exI [of _ "snd ?s"]) auto
qed

subsection \<open>Properties\<close>

text \<open>
  C14. At most one leader. Whatever coordinators run rounds of the election loop over the same
  arbiter, in whatever order and with whatever other work in between, two of them can take
  themselves for the leader only if the last round of one of them is a lease time or more ago; the leader with a
  recent round is the holder of the stored lease and has its fencing token.
\<close>

theorem election_one_leader:
  assumes "json_laws J" and "election J a ttl w lds last_round"
    and "ld_is_leader (lds h)" and "w_now w < last_round h + ttl"
  shows "(ld_is_leader (lds h') \<and> w_now w < last_round h' + ttl \<longrightarrow> h' = h) \<and>
    leader_lease J a w t =
      Some \<lparr>ls_holder = h, ls_expires_ms = last_round h + ttl, ls_token = ld_token (lds h)\<rparr>"
proof -
  obtain cur where cur: "\<And>t. leader_lease J a w t = cur"
    and lead: "\<And>k. ld_is_leader (lds k) \<Longrightarrow> last_round k + ttl \<le> w_now w \<or>
      cur = Some \<lparr>ls_holder = k, ls_expires_ms = last_round k + ttl, ls_token = ld_token (lds k)\<rparr>"
    using election_invariant [OF assms(1,2)] by (auto simp: election_inv_def)
  from lead [OF assms(3)] lead [of h'] assms(4) cur show ?thesis by (auto simp: not_less [symmetric])
qed

theorem election_one_leader_witness:
  "\<exists>w lds last_round. election jv_json 0 10 w lds last_round \<and> ld_is_leader (lds ''A'') \<and> \<not> ld_is_leader (lds ''B'') \<and>
     leader_lease jv_json 0 w 7 = Some \<lparr>ls_holder = ''A'', ls_expires_ms = 15, ls_token = 1\<rparr>"
proof -
  obtain w lds last_round where e: "election jv_json 0 10 w lds last_round" and lds: "ld_is_leader (lds ''A'')"
    "ld_token (lds ''A'') = 1" "\<not> ld_is_leader (lds ''B'')" "last_round ''A'' = 5" "w_now w = 6"
    using two_rounds [of 6] by (auto simp: evaluate_def lease_next_def)
  with election_one_leader [OF jv_json_laws e lds(1), of "''B''" 7] show ?thesis by auto
qed

text \<open>
  C20. Only the leader moves data. A step of the process changes the cluster's membership or routing only when
  it serves one of the two administration routes, sent with the right to administer, while the
  process takes itself for the leader; and the change is then a complete rebalance.
\<close>

theorem membership_change_guarded:
  assumes "coord_step E ttl (co, w) (co', w')" and "co_cluster co' \<noteq> co_cluster co"
  shows "(\<exists>up req r. coord_server E up req (co, w) = ((co', w'), r) \<and> is_admin req \<and> may_admin E req) \<and>
    (\<exists>l. co_leadership co = Some l \<and> ld_is_leader l) \<and>
    (\<exists>nodes sm. rebalance (ce_client E) nodes (co_cluster co) w = (co_cluster co', w', sm))"
  using assms(1)
proof (cases rule: coord_step.cases)
  case (request up req r)
  then obtain req' where "coord_layer E req = Some (Inr req')" and "coord_router E up req' (co, w) = ((co', w'), r)"
    using assms(2) by (auto simp: coord_server_def layered_def split: option.splits sum.splits)
  with router_change [OF this(2) assms(2)] admin_layer [OF this(1)] request show ?thesis by blast
qed (use assms(2) in auto)

theorem membership_change_guarded_witness:
  "\<exists>up req r co' w'. coord_server text_env up req (text_leader, text_world) = ((co', w'), r) \<and> is_admin req \<and>
     may_admin text_env req \<and> co_cluster co' \<noteq> co_cluster text_leader"
proof -
  obtain co' w' r where s: "coord_server text_env [] text_rebalance (text_leader, text_world) = ((co', w'), r)"
    and ne: "co_cluster co' \<noteq> co_cluster text_leader"
    using text_rebalanced by blast
  from membership_change_guarded [OF coord_step.request [OF s, of 10] ne] ne show ?thesis by blast
qed

text \<open>
  C6. End to end. A client that talks HTTP to a coordinator, whose clients talk HTTP to shards with
  in-memory stores, reads and updates one map: a read returns the content of the key, with a JSON
  null as absent; every write whose body fits updates exactly that key on the stores of all live
  owners, reports success, and keeps the placement and the coordinator's routing. A set
  operation through the coordinator takes effect, but its flag is always false.
\<close>

theorem coordinator_end_to_end:
  assumes "deployed E N hc M token locate co content w" and "coll \<in> set (cl_colls (co_cluster co))"
  defines "D \<equiv> ce_doc E" and "K \<equiv> http_client (ce_doc E) N" and "after \<equiv> deployed E N hc M token locate"
  shows "(served (co_cluster co) key \<longrightarrow>
        sc_object K hc coll key (co, w) = ((co_count GET co, w), COk (nonnull D (content coll key))))
    \<and> (fits D (write_json D \<lparr>wb_coll = coll, wb_key = key, wb_obj = v, wb_ttl_ms = None\<rparr>) \<longrightarrow>
        (\<exists>co' w'. sc_write_object K hc coll key v (co, w) = ((co', w'), COk ()) \<and>
          after co' (upd_content content coll key (Some v)) w'))
    \<and> (fits D (write_json D \<lparr>wb_coll = coll, wb_key = key, wb_obj = v, wb_ttl_ms = None\<rparr>) \<longrightarrow>
        fits D (write_json D \<lparr>wb_coll = coll, wb_key = key, wb_obj = v, wb_ttl_ms = Some ttl\<rparr>) \<longrightarrow>
        (\<exists>co' w'. sc_write_object_ttl K hc coll key v ttl (co, w) = ((co', w'), COk ()) \<and> after co'
          (upd_content content coll key (if ttl = 0 \<or> w_now w < w_now w + ttl then Some v else None)) w'))
    \<and> (fits D (write_json D \<lparr>wb_coll = coll, wb_key = key, wb_obj = v, wb_ttl_ms = None\<rparr>) \<longrightarrow>
        fits D (cas_json D \<lparr>cb_coll = coll, cb_key = key, cb_expect = expect, cb_new = v\<rparr>) \<longrightarrow>
        fits D (cas_json D \<lparr>cb_coll = coll, cb_key = key, cb_expect = nonnull D expect, cb_new = v\<rparr>) \<longrightarrow>
        served (co_cluster co) key \<longrightarrow>
        (\<exists>co' w' b. sc_cas K hc coll key expect v (co, w) = ((co', w'), COk b) \<and>
          b = js_eq_opt (ce_json E) (content coll key) (nonnull D expect) \<and>
          after co' (upd_content content coll key (if b then Some v else content coll key)) w'))
    \<and> (fits D (delete_json D \<lparr>db_coll = coll, db_key = key\<rparr>) \<longrightarrow>
        (\<exists>co' w'. sc_delete_object K hc coll key (co, w) = ((co', w'), COk ()) \<and>
          after co' (upd_content content coll key None) w'))
    \<and> (fits D (set_json D \<lparr>se_coll = coll, se_key = key, se_member = m\<rparr>) \<longrightarrow>
        (\<exists>co' w'. sc_set_add K hc coll key m (co, w) = ((co', w'), COk False) \<and>
          after co' (upd_content content coll key (added_value (ce_json E) m (content coll key))) w') \<and>
        (\<exists>co' w'. sc_set_remove K hc coll key m (co, w) = ((co', w'), COk False) \<and>
          after co' (upd_content content coll key (removed_value (ce_json E) m (content coll key))) w'))"
  unfolding D_def K_def after_def
  by (intro conjI impI; rule deployed_get [OF assms(1,2)] deployed_put [OF assms(1,2)] deployed_cas [OF assms(1,2)]
      deployed_delete [OF assms(1,2)] deployed_sets [OF assms(1,2)]; assumption)

theorem coordinator_end_to_end_witness:
  "snd (sc_object (http_client text_doc (direct_coord text_env)) text_user ''kv'' ''k''
     (fst (sc_write_object (http_client text_doc (direct_coord text_env)) text_user ''kv'' ''k'' ''s7''
       (text_co, text_world)))) = COk (Some ''s7'')"
proof -
  have doc: "ce_doc text_env = text_doc" by (simp add: text_env_def)
  have co: "co_cluster text_co = http_two" by (simp add: coord_start_def)
  have kv: "''kv'' \<in> set (cl_colls http_two)" by (simp add: http_two_def cluster_new_def)
  obtain co' w' where w: "sc_write_object (http_client text_doc (direct_coord text_env)) text_user ''kv'' ''k'' ''s7''
        (text_co, text_world) = ((co', w'), COk ())"
    and next': "deployed text_env (direct_coord text_env) text_user text_net2 (Some ''tok'') text_locate co'
        (upd_content (\<lambda>c k. None) ''kv'' ''k'' (Some ''s7'')) w'"
    using coordinator_end_to_end [OF text_deployed, of "''kv''" "''k''" "''s7''"] kv text_fits
    unfolding doc co by blast
  have "co_cluster co' = http_two"
    using coord_write [OF deployedD(1) [OF text_deployed], of "''kv''" "''k''" "''s7''" text_co text_world] text_fits w
    by (simp add: doc co_count_def co)
  with coordinator_end_to_end [OF next', of "''kv''" "''k''"] kv http_two_start(3) [of "''k''"]
  have "sc_object (http_client text_doc (direct_coord text_env)) text_user ''kv'' ''k'' (co', w') =
      ((co_count GET co', w'), COk (nonnull text_doc (Some ''s7'')))"
    unfolding doc by (simp add: upd_content_def)
  then show ?thesis by (simp add: w nonnull_def) (simp add: text_doc_def)
qed

end
