(* ===== verification/Config.thy ===== *)
theory Config
  imports Resp
begin

text \<open>
  Node configuration, \<^verbatim>\<open>src/config.rs\<close>: the roles of a node and their names, lists of role names, and the
  configuration record with its defaults. A \<^verbatim>\<open>BTreeSet\<close> of roles is a set; it is read in the order
  that the source derives for the enum, the order of its constructors. Reading and
  writing the file, whose format is TOML, is not modelled.
\<close>

datatype role = RShard | RCoordinator | RIngest | RApi

definition role_rank :: "role \<Rightarrow> nat" where
  "role_rank r = (case r of RShard \<Rightarrow> 0 | RCoordinator \<Rightarrow> 1 | RIngest \<Rightarrow> 2 | RApi \<Rightarrow> 3)"

lemma role_rank_inj: "role_rank r = role_rank q \<longleftrightarrow> r = q"
  by (cases r; cases q) (simp_all add: role_rank_def)

instantiation role :: linorder
begin

definition less_eq_role :: "role \<Rightarrow> role \<Rightarrow> bool" where
  "less_eq_role r q \<longleftrightarrow> role_rank r \<le> role_rank q"

definition less_role :: "role \<Rightarrow> role \<Rightarrow> bool" where
  "less_role r q \<longleftrightarrow> role_rank r < role_rank q"

instance
  by standard (auto simp: less_eq_role_def less_role_def role_rank_inj)

end

definition ROLES_ALL :: "role list" where
  "ROLES_ALL = [RShard, RCoordinator, RIngest, RApi]"

definition role_as_str :: "role \<Rightarrow> string" where
  "role_as_str r = (case r of RShard \<Rightarrow> ''shard'' | RCoordinator \<Rightarrow> ''coordinator'' | RIngest \<Rightarrow> ''ingest'' | RApi \<Rightarrow> ''api'')"

text \<open>The error carries the name that is not known.\<close>

definition role_parse :: "string \<Rightarrow> string + role" where
  "role_parse s = (let t = ascii_lower (trim_str s) in
     if t = ''shard'' then Inr RShard
     else if t = ''coordinator'' \<or> t = ''coord'' then Inr RCoordinator
     else if t = ''ingest'' then Inr RIngest
     else if t = ''api'' \<or> t = ''mcp'' then Inr RApi
     else Inl t)"

fun split_list :: "string \<Rightarrow> string list" where
  "split_list [] = [[]]"
| "split_list (c # cs) =
     (if c = CHR '','' \<or> c = CHR '' '' then [] # split_list cs
      else case split_list cs of [] \<Rightarrow> [[c]] | p # ps \<Rightarrow> (c # p) # ps)"

fun parse_parts :: "string list \<Rightarrow> role set \<Rightarrow> string + role set" where
  "parse_parts [] roles = Inr roles"
| "parse_parts (part # parts) roles =
     (let p = trim_str part in
      if p = [] then parse_parts parts roles
      else if ascii_lower p = ''all'' then parse_parts parts (roles \<union> set ROLES_ALL)
      else case role_parse p of
        Inl e \<Rightarrow> Inl e
      | Inr r \<Rightarrow> parse_parts parts (insert r roles))"

definition parse_list :: "string list \<Rightarrow> string + role set" where
  "parse_list items = parse_parts (concat (map split_list items)) {}"

fun join_with :: "string \<Rightarrow> string list \<Rightarrow> string" where
  "join_with sep [] = []"
| "join_with sep [s] = s"
| "join_with sep (s # t # ss) = s @ sep @ join_with sep (t # ss)"

datatype store_kind = KMemory | KLmdb | KRedis

definition default_store :: store_kind where
  "default_store = KLmdb"

record node_config =
  nc_node_id :: string
  nc_roles :: "role set"
  nc_bind_host :: string
  nc_shard_port :: nat
  nc_coordinator_port :: nat
  nc_api_port :: nat
  nc_store :: store_kind
  nc_data_dir :: string
  nc_replication :: nat
  nc_shards :: "string list"

text \<open>The values of the fields that a file may leave out.\<close>

definition config_defaults :: "string \<Rightarrow> role set \<Rightarrow> node_config" where
  "config_defaults node_id roles =
     \<lparr>nc_node_id = node_id, nc_roles = roles, nc_bind_host = ''0.0.0.0'', nc_shard_port = 8100,
      nc_coordinator_port = 8090, nc_api_port = 8088, nc_store = default_store,
      nc_data_dir = ''/var/lib/stitch'', nc_replication = 2, nc_shards = []\<rparr>"

definition roles_str :: "node_config \<Rightarrow> string" where
  "roles_str cfg = join_with '','' (map role_as_str (sorted_list_of_set (nc_roles cfg)))"

definition default_config_path :: "string option \<Rightarrow> string" where
  "default_config_path env = (case env of Some p \<Rightarrow> p | None \<Rightarrow> ''stitch.toml'')"

subsection \<open>Role names\<close>

text \<open>Printable ASCII without a blank: a trim leaves it as it is.\<close>

definition plain :: "string \<Rightarrow> bool" where
  "plain s \<longleftrightarrow> list_all (\<lambda>c. 33 \<le> byte c \<and> byte c < 0x7F) s"

lemma plain_simps [simp]: "plain []" "plain (c # s) \<longleftrightarrow> (33 \<le> byte c \<and> byte c < 0x7F) \<and> plain s"
  "plain (s @ t) \<longleftrightarrow> plain s \<and> plain t"
  by (simp_all add: plain_def)

lemma plain_chunks: "plain s \<Longrightarrow> utf8_chunks s = map (\<lambda>c. [c]) s"
  by (induction s) (simp_all add: seq_len_def)

lemma concat_singletons [simp]: "concat (map (\<lambda>c. [c]) s) = s"
  by (induction s) simp_all

lemma dropWhile_plain:
  "plain s \<Longrightarrow> dropWhile (\<lambda>ch. is_whitespace (code_point ch)) (map (\<lambda>c. [c]) s) = map (\<lambda>c. [c]) s"
  by (cases s) (auto simp: is_whitespace_def)

lemma trim_plain: "plain s \<Longrightarrow> trim_str s = s"
  using dropWhile_plain [of s] dropWhile_plain [of "rev s"]
  by (simp add: trim_str_def plain_chunks rev_map plain_def)

lemma role_names:
  "plain (role_as_str r)" "role_as_str r \<noteq> []" "ascii_lower (role_as_str r) = role_as_str r" "role_as_str r \<noteq> ''all''"
  "CHR '','' \<notin> set (role_as_str r)" "CHR '' '' \<notin> set (role_as_str r)"
  by (cases r; simp add: role_as_str_def ascii_lower_def)+

lemma role_parse_name: "role_parse (role_as_str r) = Inr r"
  by (cases r; simp add: role_parse_def trim_plain role_names) (simp_all add: role_as_str_def)

lemma split_list_word:
  "CHR '','' \<notin> set s \<Longrightarrow> CHR '' '' \<notin> set s \<Longrightarrow> split_list s = [s]"
  "CHR '','' \<notin> set s \<Longrightarrow> CHR '' '' \<notin> set s \<Longrightarrow> split_list (s @ CHR '','' # t) = s # split_list t"
  by (induction s) auto

lemma split_join_roles: "split_list (join_with '','' (map role_as_str (r # rs))) = map role_as_str (r # rs)"
  by (induction rs arbitrary: r) (simp_all add: split_list_word role_names)

lemma parse_parts_roles: "parse_parts (map role_as_str rs) S = Inr (S \<union> set rs)"
  by (induction rs arbitrary: S) (simp_all add: role_names trim_plain role_parse_name)

text \<open>
  The printed roles of a node parse back to them, and names are read without regard to case, in
  one list or several.
\<close>

theorem roles_roundtrip: "parse_list [roles_str cfg] = Inr (nc_roles cfg)"
proof -
  let ?rs = "sorted_list_of_set (nc_roles cfg)"
  have fin: "finite (nc_roles cfg)"
    by (rule finite_subset [of _ "set ROLES_ALL"]) (auto simp: ROLES_ALL_def intro: role.exhaust)
  show ?thesis
  proof (cases "?rs = []")
    case True
    then have "nc_roles cfg = {}" using fin by simp
    then show ?thesis by (simp add: parse_list_def roles_str_def trim_str_def)
  next
    case False
    then obtain r rs where rs: "?rs = r # rs" by (cases ?rs) auto
    have "split_list (join_with '','' (map role_as_str ?rs)) = map role_as_str ?rs"
      unfolding rs by (rule split_join_roles)
    then show ?thesis using fin by (simp add: parse_list_def roles_str_def parse_parts_roles)
  qed
qed

end
