(* ===== verification/Tls.thy ===== *)
theory Tls
  imports Stplr_Prelude
begin

text \<open>
  The TLS options, \<^verbatim>\<open>src/tls.rs\<close>: loading a server's certificates and key, and the options of the clients,
  which are a cell of the process that is written once. Files, the PEM reader and the TLS library
  are parameters, the record \<open>tls_lib\<close>: a file's content, the certificates and the key of a PEM text,
  and the server configuration made of them. The handshake and the encrypted transport are not modelled.
\<close>

record ('cert, 'key, 'config) tls_lib =
  tl_open :: "string \<Rightarrow> string option"
  tl_certs :: "string \<Rightarrow> 'cert list option"
  tl_private_key :: "string \<Rightarrow> 'key option option"
  tl_server_config :: "'cert list \<Rightarrow> 'key \<Rightarrow> 'config option"
  tl_root :: "string \<Rightarrow> 'cert option"

datatype tls_error = CertOpen string | CertRead string | NoCertificates string
  | KeyOpen string | KeyRead string | NoPrivateKey string | ServerConfig

subsection \<open>Servers\<close>

definition load_certs :: "('cert, 'key, 'config) tls_lib \<Rightarrow> string \<Rightarrow> tls_error + 'cert list" where
  "load_certs T path =
     (case tl_open T path of
        None \<Rightarrow> Inl (CertOpen path)
      | Some text \<Rightarrow>
          (case tl_certs T text of
             None \<Rightarrow> Inl (CertRead path)
           | Some certs \<Rightarrow> if certs = [] then Inl (NoCertificates path) else Inr certs))"

definition load_key :: "('cert, 'key, 'config) tls_lib \<Rightarrow> string \<Rightarrow> tls_error + 'key" where
  "load_key T path =
     (case tl_open T path of
        None \<Rightarrow> Inl (KeyOpen path)
      | Some text \<Rightarrow>
          (case tl_private_key T text of
             None \<Rightarrow> Inl (KeyRead path)
           | Some None \<Rightarrow> Inl (NoPrivateKey path)
           | Some (Some key) \<Rightarrow> Inr key))"

definition from_pem :: "('cert, 'key, 'config) tls_lib \<Rightarrow> string \<Rightarrow> string \<Rightarrow> tls_error + 'config" where
  "from_pem T cert_path key_path =
     (case load_certs T cert_path of
        Inl e \<Rightarrow> Inl e
      | Inr certs \<Rightarrow>
          (case load_key T key_path of
             Inl e \<Rightarrow> Inl e
           | Inr key \<Rightarrow>
               (case tl_server_config T certs key of None \<Rightarrow> Inl ServerConfig | Some c \<Rightarrow> Inr c)))"

subsection \<open>Clients\<close>

record client_tls =
  ct_ca_pem :: "string option"
  ct_insecure :: bool

text \<open>What the options set in a client under construction: the extra roots it trusts, and whether
  it accepts invalid certificates.\<close>

record 'cert client_builder =
  bu_roots :: "'cert list"
  bu_accept_invalid :: bool

definition client_tls_apply :: "('cert, 'key, 'config) tls_lib \<Rightarrow> client_tls \<Rightarrow> 'cert client_builder
    \<Rightarrow> 'cert client_builder" where
  "client_tls_apply T c b =
     (let b = (case ct_ca_pem c of
           None \<Rightarrow> b
         | Some path \<Rightarrow>
             (case tl_open T path of
                None \<Rightarrow> b
              | Some pem \<Rightarrow>
                  (case tl_root T pem of None \<Rightarrow> b | Some cert \<Rightarrow> b\<lparr>bu_roots := bu_roots b @ [cert]\<rparr>))) in
      if ct_insecure c then b\<lparr>bu_accept_invalid := True\<rparr> else b)"

text \<open>The cell of the process: the first value stays.\<close>

definition set_client_tls :: "client_tls \<Rightarrow> client_tls option \<Rightarrow> client_tls option" where
  "set_client_tls c cell = (case cell of None \<Rightarrow> Some c | Some d \<Rightarrow> Some d)"

definition the_client_tls :: "client_tls option \<Rightarrow> client_tls" where
  "the_client_tls cell = (case cell of Some c \<Rightarrow> c | None \<Rightarrow> \<lparr>ct_ca_pem = None, ct_insecure = False\<rparr>)"

text \<open>
  A server configuration comes from a certificate file with at least one certificate and a key
  file with a key. Only the explicit option makes a client accept invalid certificates.
\<close>

lemma from_pem_sound:
  "from_pem T cert_path key_path = Inr c \<longleftrightarrow>
     (\<exists>text certs text' key. tl_open T cert_path = Some text \<and> tl_certs T text = Some certs \<and> certs \<noteq> [] \<and>
        tl_open T key_path = Some text' \<and> tl_private_key T text' = Some (Some key) \<and> tl_server_config T certs key = Some c)"
  by (auto simp: from_pem_def load_certs_def load_key_def split: option.splits if_splits)

lemma client_tls_verifies:
  "bu_accept_invalid (client_tls_apply T c b) \<longleftrightarrow> bu_accept_invalid b \<or> ct_insecure c"
  by (simp add: client_tls_apply_def Let_def split: option.split)

end
