(* ===== verification/Daemon.thy ===== *)
theory Daemon
  imports Coord Config Lmdb Tls
begin

text \<open>
  The program \<^verbatim>\<open>stplrd\<close>, \<^verbatim>\<open>src/bin/stplrd.rs\<close>: its command line, and what it starts. The record
  \<open>platform\<close> is the environment of the process: the variable with the token, files and the TLS
  library, the databases behind a path, and the reading of a socket address. \<open>daemon_main\<close> is \<^verbatim>\<open>main\<close> up
  to the point where the servers run; a coordinator then is a process of \<open>Coord\<close>, and a shard node
  is the process \<open>node_step\<close>, in which the HTTP server, the binary server, the RESP connections and the
  sweeper act on one shard in any order.
\<close>

subsection \<open>The command line\<close>

record args =
  ar_role :: string
  ar_bind :: string
  ar_bin_bind :: "string option"
  ar_resp_bind :: "string option"
  ar_store :: string
  ar_path :: string
  ar_map_size :: nat
  ar_id :: string
  ar_shards :: "string option"
  ar_racks :: "string option"
  ar_verify_snapshot :: "string option"
  ar_coordinator_id :: "string option"
  ar_lease_ttl_ms :: u64
  ar_ingest_queue :: "string option"
  ar_auth_token :: "string option"
  ar_replication :: nat
  ar_shard_count :: nat
  ar_shard_name :: "string option"
  ar_shard_domain :: "string option"
  ar_shard_port :: nat
  ar_tls_cert :: "string option"
  ar_tls_key :: "string option"
  ar_tls_ca :: "string option"
  ar_tls_insecure :: bool
  ar_policy :: "string option"

text \<open>
  \<^verbatim>\<open>str::to_lowercase\<close>, as far as it matters here: the letters whose lower case is ASCII are those
  of ASCII and the Kelvin sign; another letter stays no digit, no blank and no part of a suffix.
\<close>

definition lower_chunk :: "string \<Rightarrow> string" where
  "lower_chunk ch = (if ch = [CHR 0xE2, CHR 0x84, CHR 0xAA] then ''k'' else ascii_lower ch)"

definition to_lowercase :: "string \<Rightarrow> string" where
  "to_lowercase s = concat (map lower_chunk (utf8_chunks s))"

definition strip_suffix :: "string \<Rightarrow> string \<Rightarrow> string option" where
  "strip_suffix x s = map_option rev (strip_prefix (rev x) (rev s))"

text \<open>The product wraps around, as in a release build.\<close>

definition parse_size :: "string \<Rightarrow> nat option" where
  "parse_size s =
     (let s = to_lowercase (trim_str s);
          (num, mult) = (case strip_suffix ''gb'' s of
              Some n \<Rightarrow> (n, 1024 * 1024 * 1024)
            | None \<Rightarrow> (case strip_suffix ''mb'' s of
                Some n \<Rightarrow> (n, 1024 * 1024)
              | None \<Rightarrow> (case strip_suffix ''kb'' s of Some n \<Rightarrow> (n, 1024) | None \<Rightarrow> (s, 1)))) in
      map_option (\<lambda>v. v * mult mod 2 ^ 64) (parse_usize (trim_str num)))"

definition parse_u16 :: "string \<Rightarrow> nat option" where
  "parse_u16 s = (case parse_usize s of Some n \<Rightarrow> if n < 2 ^ 16 then Some n else None | None \<Rightarrow> None)"

definition args_default :: "string option \<Rightarrow> args" where
  "args_default env_token =
     \<lparr>ar_role = ''shard'', ar_bind = ''0.0.0.0:8100'', ar_bin_bind = None, ar_resp_bind = None,
      ar_store = ''memory'', ar_path = ''./stplr-data'', ar_map_size = 2 * 1024 * 1024 * 1024, ar_id = ''stplrd'',
      ar_shards = None, ar_racks = None, ar_verify_snapshot = None, ar_coordinator_id = None,
      ar_lease_ttl_ms = 10000, ar_ingest_queue = None,
      ar_auth_token = (case env_token of Some s \<Rightarrow> if s \<noteq> [] then Some s else None | None \<Rightarrow> None),
      ar_replication = 2, ar_shard_count = 0, ar_shard_name = None, ar_shard_domain = None, ar_shard_port = 8100,
      ar_tls_cert = None, ar_tls_key = None, ar_tls_ca = None, ar_tls_insecure = False, ar_policy = None\<rparr>"

definition unwrap_or :: "'a option \<Rightarrow> 'a \<Rightarrow> 'a" where
  "unwrap_or x d = (case x of Some v \<Rightarrow> v | None \<Rightarrow> d)"

text \<open>The flags with a value, which is missing at the end of the line; \<open>None\<close> for any other word.\<close>

definition set_flag :: "string \<Rightarrow> string option \<Rightarrow> args \<Rightarrow> args option" where
  "set_flag flag nxt a =
     (if flag = ''--role'' then Some (a\<lparr>ar_role := unwrap_or nxt (ar_role a)\<rparr>)
      else if flag = ''--bind'' then Some (a\<lparr>ar_bind := unwrap_or nxt (ar_bind a)\<rparr>)
      else if flag = ''--bin-bind'' then Some (a\<lparr>ar_bin_bind := nxt\<rparr>)
      else if flag = ''--resp-bind'' then Some (a\<lparr>ar_resp_bind := nxt\<rparr>)
      else if flag = ''--store'' then Some (a\<lparr>ar_store := unwrap_or nxt (ar_store a)\<rparr>)
      else if flag = ''--path'' then Some (a\<lparr>ar_path := unwrap_or nxt (ar_path a)\<rparr>)
      else if flag = ''--map-size'' then Some (a\<lparr>ar_map_size := unwrap_or (Option.bind nxt parse_size) (ar_map_size a)\<rparr>)
      else if flag = ''--id'' then Some (a\<lparr>ar_id := unwrap_or nxt (ar_id a)\<rparr>)
      else if flag = ''--shards'' then Some (a\<lparr>ar_shards := nxt\<rparr>)
      else if flag = ''--racks'' then Some (a\<lparr>ar_racks := nxt\<rparr>)
      else if flag = ''--verify-snapshot'' then Some (a\<lparr>ar_verify_snapshot := nxt\<rparr>)
      else if flag = ''--coordinator-id'' then Some (a\<lparr>ar_coordinator_id := nxt\<rparr>)
      else if flag = ''--lease-ttl-ms'' then
        Some (a\<lparr>ar_lease_ttl_ms := unwrap_or (Option.bind nxt parse_u64) (ar_lease_ttl_ms a)\<rparr>)
      else if flag = ''--ingest-queue'' then Some (a\<lparr>ar_ingest_queue := nxt\<rparr>)
      else if flag = ''--auth-token'' then Some (a\<lparr>ar_auth_token := nxt\<rparr>)
      else if flag = ''--replication'' then
        Some (a\<lparr>ar_replication := unwrap_or (Option.bind nxt parse_usize) (ar_replication a)\<rparr>)
      else if flag = ''--shard-count'' then
        Some (a\<lparr>ar_shard_count := unwrap_or (Option.bind nxt parse_usize) (ar_shard_count a)\<rparr>)
      else if flag = ''--shard-name'' then Some (a\<lparr>ar_shard_name := nxt\<rparr>)
      else if flag = ''--shard-domain'' then Some (a\<lparr>ar_shard_domain := nxt\<rparr>)
      else if flag = ''--shard-port'' then
        Some (a\<lparr>ar_shard_port := unwrap_or (Option.bind nxt parse_u16) (ar_shard_port a)\<rparr>)
      else if flag = ''--tls-cert'' then Some (a\<lparr>ar_tls_cert := nxt\<rparr>)
      else if flag = ''--tls-key'' then Some (a\<lparr>ar_tls_key := nxt\<rparr>)
      else if flag = ''--tls-ca'' then Some (a\<lparr>ar_tls_ca := nxt\<rparr>)
      else if flag = ''--policy'' then Some (a\<lparr>ar_policy := nxt\<rparr>)
      else None)"

text \<open>The loop over the words; \<open>Inl\<close> is the exit code of a run that stops here.\<close>

fun parse_flags :: "string list \<Rightarrow> args \<Rightarrow> nat + args" where
  "parse_flags [] a = Inr a"
| "parse_flags (flag # rest) a =
     (if flag = ''--tls-insecure'' then parse_flags rest (a\<lparr>ar_tls_insecure := True\<rparr>)
      else if flag = ''-h'' \<or> flag = ''--help'' then Inl 0
      else case set_flag flag (case rest of [] \<Rightarrow> None | v # _ \<Rightarrow> Some v) a of
        None \<Rightarrow> Inl 2
      | Some a \<Rightarrow> parse_flags (tl rest) a)"

definition parse_args :: "string option \<Rightarrow> string list \<Rightarrow> nat + args" where
  "parse_args env_token argv = parse_flags argv (args_default env_token)"

subsection \<open>Starting a process\<close>

record ('d, 'addr, 'cert, 'key, 'config) platform =
  pf_env_token :: "string option"
  pf_tls :: "('cert, 'key, 'config) tls_lib"
  pf_addr :: "string \<Rightarrow> 'addr option"
  pf_lmdb :: "string \<Rightarrow> nat \<Rightarrow> 'd env option"
  pf_queue :: "string \<Rightarrow> nat \<Rightarrow> ('d \<times> 'd) option"
  pf_snapshot :: "string \<Rightarrow> 'd env option"
  pf_heed :: "'d heed"
  pf_heed_env :: "'d heed_env"

datatype start_error = TlsPair | TlsMaterials tls_error | BadShards string | NeedShardName | NeedShardDomain
  | NoShards | BadRacks string | QueueOpen string | BadAddress string | BadPolicy policy_error
  | UnknownRole string | UnknownStore string | StoreOpen string | SnapshotOpen string | EmptySnapshot

text \<open>The operator \<^verbatim>\<open>?\<close>.\<close>

definition and_then :: "'e + 'a \<Rightarrow> ('a \<Rightarrow> 'e + 'b) \<Rightarrow> 'e + 'b" where
  "and_then r f = (case r of Inl e \<Rightarrow> Inl e | Inr x \<Rightarrow> f x)"

definition build_server_tls :: "('cert, 'key, 'config) tls_lib \<Rightarrow> args \<Rightarrow> start_error + 'config option" where
  "build_server_tls T a =
     (case (ar_tls_cert a, ar_tls_key a) of
        (Some cert, Some key) \<Rightarrow> (case from_pem T cert key of Inl e \<Rightarrow> Inl (TlsMaterials e) | Inr c \<Rightarrow> Inr (Some c))
      | (None, None) \<Rightarrow> Inr None
      | _ \<Rightarrow> Inl TlsPair)"

definition parse_addr :: "(string \<Rightarrow> 'addr option) \<Rightarrow> string \<Rightarrow> start_error + 'addr" where
  "parse_addr addr s = (case addr s of None \<Rightarrow> Inl (BadAddress s) | Some x \<Rightarrow> Inr x)"

definition opt_policy :: "string option \<Rightarrow> start_error + policy option" where
  "opt_policy spec = (case spec of
       None \<Rightarrow> Inr None
     | Some s \<Rightarrow> (case policy_parse s of Inl e \<Rightarrow> Inl (BadPolicy e) | Inr p \<Rightarrow> Inr (Some p)))"

subsection \<open>The coordinator\<close>

fun split_once :: "char \<Rightarrow> string \<Rightarrow> (string \<times> string) option" where
  "split_once d [] = None"
| "split_once d (c # cs) = (if c = d then Some ([], cs)
     else case split_once d cs of None \<Rightarrow> None | Some (x, y) \<Rightarrow> Some (c # x, y))"

definition list_parts :: "string \<Rightarrow> string list" where
  "list_parts spec = filter (\<lambda>s. s \<noteq> []) (map trim_str (split_on (CHR '','') spec))"

fun add_shards :: "string option \<Rightarrow> string list \<Rightarrow> (node_id, http_shard_client) hashmap
    \<Rightarrow> start_error + (node_id, http_shard_client) hashmap" where
  "add_shards token [] clients = Inr clients"
| "add_shards token (part # ps) clients =
     (case split_once (CHR ''='') part of
        None \<Rightarrow> Inl (BadShards part)
      | Some (ident, hostport) \<Rightarrow>
          (let base = ''http://'' @ trim_str hostport in
           add_shards token ps (hm_insert (trim_str ident) (http_new_authed (trim_str ident) base token) clients)))"

definition discover_shards :: "string option \<Rightarrow> string \<Rightarrow> string \<Rightarrow> nat \<Rightarrow> nat \<Rightarrow> (node_id, http_shard_client) hashmap" where
  "discover_shards token name domain port n =
     fold (\<lambda>i. let ident = name @ ''-'' @ show_nat i; base = ''http://'' @ ident @ ''.'' @ domain @ '':'' @ show_nat port in
         hm_insert ident (http_new_authed ident base token)) [0..<n] []"

definition shard_clients :: "args \<Rightarrow> start_error + (node_id, http_shard_client) hashmap" where
  "shard_clients a =
     (case ar_shards a of
        Some spec \<Rightarrow> add_shards (ar_auth_token a) (list_parts spec) []
      | None \<Rightarrow>
          if 0 < ar_shard_count a then
            (case ar_shard_name a of
               None \<Rightarrow> Inl NeedShardName
             | Some name \<Rightarrow> (case ar_shard_domain a of
                 None \<Rightarrow> Inl NeedShardDomain
               | Some domain \<Rightarrow> Inr (discover_shards (ar_auth_token a) name domain (ar_shard_port a) (ar_shard_count a))))
          else Inr [])"

fun add_racks :: "string list \<Rightarrow> (node_id, string) hashmap \<Rightarrow> start_error + (node_id, string) hashmap" where
  "add_racks [] topology = Inr topology"
| "add_racks (part # ps) topology =
     (case split_once (CHR ''='') part of
        None \<Rightarrow> Inl (BadRacks part)
      | Some (ident, rack) \<Rightarrow> add_racks ps (hm_insert (trim_str ident) (trim_str rack) topology))"

definition rack_map :: "args \<Rightarrow> start_error + (node_id, string) hashmap" where
  "rack_map a = (case ar_racks a of None \<Rightarrow> Inr [] | Some spec \<Rightarrow> add_racks (list_parts spec) [])"

text \<open>What \<^verbatim>\<open>serve_addr_full\<close> is called with; \<open>cp_state\<close> is the process it starts.\<close>

record ('d, 'addr, 'config) coord_plan =
  cp_addr :: 'addr
  cp_state :: "(http_shard_client, 'd) coordinator"
  cp_lease_ttl_ms :: u64
  cp_token :: "string option"
  cp_tls :: "'config option"
  cp_policy :: "policy option"

definition open_queue :: "('d, 'addr, 'cert, 'key, 'config) platform \<Rightarrow> args \<Rightarrow> start_error + 'd ingest_queue option" where
  "open_queue P a = (case ar_ingest_queue a of
       None \<Rightarrow> Inr None
     | Some path \<Rightarrow> (case Option.bind (pf_queue P path (ar_map_size a)) (\<lambda>(q, m). ingest_open (pf_heed P) q m) of
           None \<Rightarrow> Inl (QueueOpen path)
         | Some q \<Rightarrow> Inr (Some q)))"

definition build_cluster :: "args \<Rightarrow> (node_id, http_shard_client) hashmap \<Rightarrow> (node_id, string) hashmap
    \<Rightarrow> http_shard_client cluster" where
  "build_cluster a clients topology =
     (let cluster = cluster_new clients (ar_replication a) [''kv'', ''sets''] in
      if topology \<noteq> [] then with_topology topology cluster else cluster)"

definition run_coordinator :: "('d, 'addr, 'cert, 'key, 'config) platform \<Rightarrow> args
    \<Rightarrow> start_error + ('d, 'addr, 'config) coord_plan" where
  "run_coordinator P a =
     and_then (shard_clients a) (\<lambda>clients.
       if clients = [] then Inl NoShards
       else and_then (rack_map a) (\<lambda>topology.
         and_then (open_queue P a) (\<lambda>queue.
         and_then (build_server_tls (pf_tls P) a) (\<lambda>server_tls.
         and_then (parse_addr (pf_addr P) (ar_bind a)) (\<lambda>addr.
         and_then (opt_policy (ar_policy a)) (\<lambda>policy.
           Inr \<lparr>cp_addr = addr, cp_state = coord_start (build_cluster a clients topology) (ar_coordinator_id a) queue,
                cp_lease_ttl_ms = ar_lease_ttl_ms a, cp_token = ar_auth_token a, cp_tls = server_tls,
                cp_policy = policy\<rparr>))))))"

subsection \<open>The shard node\<close>

datatype 'd opened_store = OpenMemory | OpenLmdb "'d lmdb_store"

text \<open>
  What a shard node serves: the optional ports with the token they ask for, the layer in front of the HTTP
  routes, and the TLS configuration, which the RESP port does not have.
\<close>

record ('d, 'addr, 'config) node_plan =
  np_id :: string
  np_store :: "'d opened_store"
  np_bin :: "('addr \<times> string option \<times> 'config option) option"
  np_resp :: "('addr \<times> string option) option"
  np_addr :: 'addr
  np_policy :: "policy option"
  np_token :: "string option"
  np_tls :: "'config option"

definition open_store :: "('d, 'addr, 'cert, 'key, 'config) platform \<Rightarrow> args \<Rightarrow> start_error + 'd opened_store" where
  "open_store P a =
     (if ar_store a = ''memory'' then Inr OpenMemory
      else if ar_store a = ''lmdb'' then
        (case Option.bind (pf_lmdb P (ar_path a) (ar_map_size a)) (lm_open (pf_heed_env P)) of
           None \<Rightarrow> Inl (StoreOpen (ar_path a))
         | Some s \<Rightarrow> Inr (OpenLmdb s))
      else Inl (UnknownStore (ar_store a)))"

definition opt_addr :: "(string \<Rightarrow> 'addr option) \<Rightarrow> string option \<Rightarrow> start_error + 'addr option" where
  "opt_addr addr b = (case b of
       None \<Rightarrow> Inr None
     | Some s \<Rightarrow> (case parse_addr addr s of Inl e \<Rightarrow> Inl e | Inr x \<Rightarrow> Inr (Some x)))"

definition run_node :: "('d, 'addr, 'cert, 'key, 'config) platform \<Rightarrow> args
    \<Rightarrow> start_error + ('d, 'addr, 'config) node_plan" where
  "run_node P a =
     and_then (open_store P a) (\<lambda>store.
     and_then (build_server_tls (pf_tls P) a) (\<lambda>server_tls.
     and_then (opt_addr (pf_addr P) (ar_bin_bind a)) (\<lambda>baddr.
     and_then (opt_addr (pf_addr P) (ar_resp_bind a)) (\<lambda>raddr.
     and_then (parse_addr (pf_addr P) (ar_bind a)) (\<lambda>addr.
     and_then (opt_policy (ar_policy a)) (\<lambda>policy.
       Inr \<lparr>np_id = ar_id a, np_store = store,
            np_bin = map_option (\<lambda>x. (x, ar_auth_token a, server_tls)) baddr,
            np_resp = map_option (\<lambda>x. (x, ar_auth_token a)) raddr,
            np_addr = addr, np_policy = policy, np_token = ar_auth_token a, np_tls = server_tls\<rparr>))))))"

subsection \<open>Backup inspection, and the program\<close>

text \<open>The databases of a snapshot, by name, with the number of their entries.\<close>

definition verify_snapshot :: "'d heed \<Rightarrow> 'd heed_env \<Rightarrow> 'd env \<Rightarrow> (string \<times> nat) list option" where
  "verify_snapshot D E env =
     (if ev_read_txn E env then
        map_option (sort_key fst) (those (map (\<lambda>(name, db). map_option (\<lambda>es. (name, length es)) (hd_iter D db)) env))
      else None)"

datatype ('d, 'addr, 'config) daemon = Inspected "(string \<times> nat) list"
  | Coordinating "('d, 'addr, 'config) coord_plan" | Serving "('d, 'addr, 'config) node_plan"

definition inspect_snapshot :: "('d, 'addr, 'cert, 'key, 'config) platform \<Rightarrow> string \<Rightarrow> start_error + (string \<times> nat) list" where
  "inspect_snapshot P file =
     (case Option.bind (pf_snapshot P file) (verify_snapshot (pf_heed P) (pf_heed_env P)) of
        None \<Rightarrow> Inl (SnapshotOpen file)
      | Some stats \<Rightarrow> if sum_list (map snd stats) = 0 then Inl EmptySnapshot else Inr stats)"

definition run_daemon :: "('d, 'addr, 'cert, 'key, 'config) platform \<Rightarrow> args
    \<Rightarrow> start_error + ('d, 'addr, 'config) daemon" where
  "run_daemon P a =
     (case ar_verify_snapshot a of
        Some file \<Rightarrow> and_then (inspect_snapshot P file) (\<lambda>stats. Inr (Inspected stats))
      | None \<Rightarrow>
          if ar_role a = ''coordinator'' then and_then (run_coordinator P a) (\<lambda>p. Inr (Coordinating p))
          else if ar_role a \<noteq> ''shard'' then Inl (UnknownRole (ar_role a))
          else and_then (run_node P a) (\<lambda>p. Inr (Serving p)))"

text \<open>\<^verbatim>\<open>main\<close>: the exit code of the command line, or the options of the clients and what the process starts.\<close>

definition daemon_main :: "('d, 'addr, 'cert, 'key, 'config) platform \<Rightarrow> string list
    \<Rightarrow> nat + client_tls \<times> (start_error + ('d, 'addr, 'config) daemon)" where
  "daemon_main P argv =
     (case parse_args (pf_env_token P) argv of
        Inl code \<Rightarrow> Inl code
      | Inr a \<Rightarrow>
          Inr (the_client_tls (set_client_tls \<lparr>ct_ca_pem = ar_tls_ca a, ct_insecure = ar_tls_insecure a\<rparr> None), run_daemon P a))"

subsection \<open>A shard node at work\<close>

text \<open>What the servers of a node are given, for a shard over the store \<open>ne_store\<close>.\<close>

record ('s, 'v) node_env =
  ne_store :: "('s, 'v) index_store"
  ne_json :: "'v json"
  ne_doc :: "'v doc"
  ne_wire :: "'v wire"
  ne_as_array :: "'v \<Rightarrow> 'v list option"
  ne_to_bytes :: "nat \<Rightarrow> string \<Rightarrow> string option"

record ('s, 'v) node_proc =
  pr_bin :: "('s, 'v) bin_server"
  pr_resp :: "resp_conn list"

definition node_start :: "'s shard \<Rightarrow> ('s, 'v) node_proc" where
  "node_start sh = \<lparr>pr_bin = bin_init None [] sh, pr_resp = []\<rparr>"

definition node_shard :: "('s, 'v) node_proc \<Rightarrow> 's shard" where
  "node_shard st = bs_shard (pr_bin st)"

definition node_layer :: "('s, 'v) node_env \<Rightarrow> ('d, 'addr, 'config) node_plan \<Rightarrow> request \<Rightarrow> (status + request) option" where
  "node_layer E p req = (case np_policy p of
       Some P \<Rightarrow> policy_layer (ne_to_bytes E) (doc_body (ne_doc E)) P req
     | None \<Rightarrow> Some (require_bearer (np_token p) req))"

definition node_http :: "('s, 'v) node_env \<Rightarrow> ('d, 'addr, 'config) node_plan \<Rightarrow> string \<Rightarrow> u64 \<Rightarrow> request
    \<Rightarrow> ('s, 'v) node_proc \<Rightarrow> ('s, 'v) node_proc \<times> response option" where
  "node_http E p up now req st =
     (let b = pr_bin st;
          (nd, r) = layered (node_layer E p req) (net_app (ops_of_shard (ne_store E) (ne_json E)) (ne_doc E) up now)
            \<lparr>nd_shard = bs_shard b, nd_metrics = bs_metrics b\<rparr> in
      (st\<lparr>pr_bin := b\<lparr>bs_shard := nd_shard nd, bs_metrics := nd_metrics nd\<rparr>\<rparr>, r))"

definition bin_accept :: "string option \<Rightarrow> string \<Rightarrow> ('s, 'v) node_proc \<Rightarrow> ('s, 'v) node_proc" where
  "bin_accept token stream st =
     (let b = pr_bin st;
          c = \<lparr>cn_in = stream, cn_out = [], cn_authed = (token = None), cn_phase = Reading\<rparr> in
      st\<lparr>pr_bin := b\<lparr>bs_conns := bs_conns b @ [c]\<rparr>\<rparr>)"

definition resp_round :: "('s, 'v) node_env \<Rightarrow> string option \<Rightarrow> u64 \<Rightarrow> nat \<Rightarrow> ('s, 'v) node_proc \<Rightarrow> ('s, 'v) node_proc" where
  "resp_round E token now i st =
     (let (c, sh) = resp_handle (ne_store E) (ne_json E) (ne_wire E) (ne_as_array E) token now (pr_resp st ! i) (node_shard st) in
      st\<lparr>pr_bin := (pr_bin st)\<lparr>bs_shard := sh\<rparr>, pr_resp := (pr_resp st)[i := c]\<rparr>)"

definition sweeper_round :: "('s, 'v) node_env \<Rightarrow> u64 \<Rightarrow> ('s, 'v) node_proc \<Rightarrow> ('s, 'v) node_proc" where
  "sweeper_round E now st =
     st\<lparr>pr_bin := (pr_bin st)\<lparr>bs_shard := fst (shard_sweep_expired (ne_store E) now (node_shard st))\<rparr>\<rparr>"

text \<open>
  What happens: an HTTP request, a connection with what its peer will send, a step of the binary server, a
  round of a RESP connection, a round of the sweeper.
\<close>

datatype event = Http request | BinOpen string | BinWork | RespOpen string | RespWork | Sweep u64

inductive node_step :: "('s, 'v) node_env \<Rightarrow> ('d, 'addr, 'config) node_plan \<Rightarrow> ('s, 'v) node_proc \<Rightarrow> event
    \<Rightarrow> ('s, 'v) node_proc \<Rightarrow> bool" for E p where
  http: "node_http E p up now req st = (st', r) \<Longrightarrow> node_step E p st (Http req) st'"
| bin_open: "np_bin p = Some (x, token, tls) \<Longrightarrow> node_step E p st (BinOpen stream) (bin_accept token stream st)"
| bin_work: "np_bin p = Some (x, token, tls) \<Longrightarrow>
    bin_step (ne_store E) (ne_json E) (ne_wire E) token (pr_bin st) done b \<Longrightarrow>
    node_step E p st BinWork (st\<lparr>pr_bin := b\<rparr>)"
| resp_open: "np_resp p = Some (x, token) \<Longrightarrow>
    node_step E p st (RespOpen stream) (st\<lparr>pr_resp := pr_resp st @ [resp_accept token stream]\<rparr>)"
| resp_work: "np_resp p = Some (x, token) \<Longrightarrow> i < length (pr_resp st) \<Longrightarrow> rc_open (pr_resp st ! i) \<Longrightarrow>
    node_step E p st RespWork (resp_round E token now i st)"
| sweep: "node_step E p st (Sweep now) (sweeper_round E now st)"

inductive node_run :: "('s, 'v) node_env \<Rightarrow> ('d, 'addr, 'config) node_plan \<Rightarrow> ('s, 'v) node_proc \<Rightarrow> event list
    \<Rightarrow> ('s, 'v) node_proc \<Rightarrow> bool" for E p where
  run_init: "node_run E p st [] st"
| run_more: "node_run E p st evs st1 \<Longrightarrow> node_step E p st1 ev st2 \<Longrightarrow> node_run E p st (evs @ [ev]) st2"

inductive_cases node_stepE: "node_step E p st ev st'"

lemmas start_simps = and_then_def Let_def

lemma serving_plan:
  assumes "run_daemon P a = Inr (Serving p)"
  shows "np_token p = ar_auth_token a" "np_policy p = None \<longleftrightarrow> ar_policy a = None"
    "np_bin p = Some (x, token, tls) \<Longrightarrow> token = ar_auth_token a"
    "np_resp p = Some (y, token) \<Longrightarrow> token = ar_auth_token a" "np_resp p = None \<longleftrightarrow> ar_resp_bind a = None"
  using assms
  by (auto simp: run_daemon_def run_node_def opt_addr_def opt_policy_def start_simps
      split: option.splits sum.splits if_splits)

subsection \<open>Clients without the token\<close>

fun lacks :: "string \<Rightarrow> event \<Rightarrow> bool" where
  "lacks t (Http req) \<longleftrightarrow> presented_token req \<noteq> Some t"
| "lacks t (BinOpen stream) \<longleftrightarrow> \<not> sublist t stream"
| "lacks t (RespOpen stream) \<longleftrightarrow> \<not> sublist t stream"
| "lacks t _ \<longleftrightarrow> True"

definition guarded :: "string \<Rightarrow> ('s, 'v) node_proc \<Rightarrow> bool" where
  "guarded t st \<longleftrightarrow> bs_chan (pr_bin st) = [] \<and> bs_batch (pr_bin st) = [] \<and> \<not> bs_sealed (pr_bin st) \<and>
     list_all (\<lambda>c. \<not> cn_authed c \<and> cn_phase c \<in> {Reading, Closed} \<and> \<not> sublist t (cn_in c)) (bs_conns (pr_bin st)) \<and>
     list_all (\<lambda>c. \<not> rc_authed c \<and> \<not> sublist t (rc_in c)) (pr_resp st)"

lemma read_field_pieces: "read_field s = Some (b, r) \<Longrightarrow> sublist b s \<and> suffix r s"
proof -
  assume f: "read_field s = Some (b, r)"
  then obtain n u where u: "read_u32 s = Some (n, u)" "b = take n u" "r = drop n u"
    by (auto simp: read_field_def split: option.splits if_splits)
  then have "suffix u s" by (cases s rule: read_u32.cases) (auto simp: suffix_def)
  with u show ?thesis
    by (meson sublist_order.order_trans sublist_take suffix_drop suffix_imp_sublist suffix_order.order_trans)
qed

lemma bin_frame_pieces:
  assumes "bin_frame W False s = FReq req r"
  obtains presented where "req = BAuth presented" "sublist presented s" "suffix r s"
proof -
  from bin_frame_authed [OF assms] obtain presented where "req = BAuth presented" by blast
  with assms obtain c u where "s = c # u" "read_field u = Some (presented, r)"
    by (auto simp: bin_frame_def Let_def split: list.splits if_splits option.splits)
  with read_field_pieces [OF this(2)] \<open>req = BAuth presented\<close> show thesis
    by (intro that) (auto simp: sublist_Cons_right suffix_Cons)
qed

lemma no_sublist_suffix: "\<not> sublist t s \<Longrightarrow> suffix r s \<Longrightarrow> \<not> sublist t r"
  using suffix_imp_sublist sublist_order.order_trans by blast

lemma list_all_update: "list_all P xs \<Longrightarrow> P x \<Longrightarrow> list_all P (xs[i := x])"
  using set_update_subset_insert [of xs i x] by (auto simp: list_all_iff)

lemma guarded_bin:
  assumes "bin_step S J W (Some t) (pr_bin st) evs b" and "guarded t st"
  shows "guarded t (st\<lparr>pr_bin := b\<rparr>) \<and> bs_shard b = bs_shard (pr_bin st)"
  using assms(1)
proof cases
  case (conn_frame i now reqs)
  let ?c = "bs_conns (pr_bin st) ! i"
  have c: "\<not> cn_authed ?c" "\<not> sublist t (cn_in ?c)"
    using assms(2) conn_frame(2) by (auto simp: guarded_def list_all_length)
  show ?thesis
  proof (cases "bin_frame W (cn_authed ?c) (cn_in ?c)")
    case FClose
    then show ?thesis using assms(2) conn_frame c
      by (auto simp: guarded_def handle_frame_def upd_conn_def intro!: list_all_update)
  next
    case (FReq req r)
    then obtain presented where q: "req = BAuth presented" "sublist presented (cn_in ?c)" "suffix r (cn_in ?c)"
      using bin_frame_pieces c(1) by metis
    then have "presented \<noteq> t" "\<not> sublist t r" using c(2) no_sublist_suffix by blast+
    then show ?thesis using assms(2) conn_frame c FReq q(1)
      by (auto simp: guarded_def handle_frame_def upd_conn_def auth_ok_def intro!: list_all_update)
  qed
qed (use assms(2) in \<open>auto simp: guarded_def list_all_length\<close>)

lemma guarded_resp:
  assumes "guarded t st" and "i < length (pr_resp st)"
  shows "guarded t (resp_round E (Some t) now i st) \<and> node_shard (resp_round E (Some t) now i st) = node_shard st"
proof -
  let ?c = "pr_resp st ! i"
  have c: "\<not> rc_authed ?c" "\<not> sublist t (rc_in ?c)" using assms by (auto simp: guarded_def list_all_length)
  obtain c1 where "\<And>now sh. resp_handle (ne_store E) (ne_json E) (ne_wire E) (ne_as_array E) (Some t) now ?c sh = (c1, sh)"
    "\<not> rc_authed c1" "\<not> sublist t (rc_in c1)" using resp_handle_unauthed [OF c] by metis
  with assms show ?thesis
    by (auto simp: resp_round_def guarded_def node_shard_def list_all_update)
qed

lemma guarded_http:
  assumes "np_policy p = None" and "np_token p = Some t" and "presented_token req \<noteq> Some t"
    and "node_http E p up now req st = (st', r)"
  shows "pr_resp st' = pr_resp st" "\<exists>m. pr_bin st' = (pr_bin st)\<lparr>bs_metrics := m\<rparr>"
    "\<not> open_path (rq_path req) \<Longrightarrow> st' = st \<and> r = Some \<lparr>rs_status = 401, rs_body = []\<rparr>"
proof -
  have refused: "st' = st \<and> r = Some \<lparr>rs_status = 401, rs_body = []\<rparr>" if "\<not> open_path (rq_path req)"
    using assms that by (cases "presented_token req") (auto simp: node_http_def node_layer_def layered_def
        require_bearer_def bearer_layer_def plain_status_def status_code_def Let_def)
  then show "\<not> open_path (rq_path req) \<Longrightarrow> st' = st \<and> r = Some \<lparr>rs_status = 401, rs_body = []\<rparr>" .
  have "pr_resp st' = pr_resp st \<and> pr_bin st' = (pr_bin st)\<lparr>bs_metrics := bs_metrics (pr_bin st')\<rparr>"
    if "open_path (rq_path req)"
    using assms that by (auto simp: node_http_def node_layer_def layered_def require_bearer_def bearer_layer_def
        net_app_def on_get_def open_path_def Let_def split: if_splits)
  with refused show "pr_resp st' = pr_resp st" "\<exists>m. pr_bin st' = (pr_bin st)\<lparr>bs_metrics := m\<rparr>"
    by (metis (full_types) bin_server.surjective bin_server.update_convs(2))+
qed

definition asks_for :: "('d, 'addr, 'config) node_plan \<Rightarrow> string \<Rightarrow> bool" where
  "asks_for p t \<longleftrightarrow> np_policy p = None \<and> np_token p = Some t \<and>
     (\<forall>x token tls. np_bin p = Some (x, token, tls) \<longrightarrow> token = Some t) \<and>
     (\<forall>x token. np_resp p = Some (x, token) \<longrightarrow> token = Some t)"

lemma guarded_step:
  assumes "node_step E p st ev st'" and "asks_for p t" and "lacks t ev" and "guarded t st"
  shows "guarded t st' \<and> node_shard st' = (case ev of
      Sweep now \<Rightarrow> fst (shard_sweep_expired (ne_store E) now (node_shard st)) | _ \<Rightarrow> node_shard st)"
  using assms(1)
proof cases
  case (http up now req r)
  with guarded_http [of p t req E up now st st' r] assms obtain m where
    "pr_resp st' = pr_resp st" "pr_bin st' = (pr_bin st)\<lparr>bs_metrics := m\<rparr>" by (auto simp: asks_for_def)
  with assms(4) http(1) show ?thesis by (simp add: guarded_def node_shard_def)
next
  case (bin_open x token tls stream)
  with assms(2-4) show ?thesis by (auto simp: asks_for_def guarded_def bin_accept_def node_shard_def Let_def)
next
  case (bin_work x token tls evs b)
  with assms(2) have "bin_step (ne_store E) (ne_json E) (ne_wire E) (Some t) (pr_bin st) evs b" by (auto simp: asks_for_def)
  from guarded_bin [OF this assms(4)] bin_work(1,2) show ?thesis by (simp add: node_shard_def)
next
  case (resp_open x token stream)
  with assms(2-4) show ?thesis by (auto simp: asks_for_def guarded_def resp_accept_def node_shard_def)
next
  case (resp_work x token i now)
  with assms(2) guarded_resp [OF assms(4), of i E now] show ?thesis by (auto simp: asks_for_def)
next
  case (sweep now)
  with assms(4) show ?thesis by (simp add: guarded_def sweeper_round_def node_shard_def)
qed

fun swept_by :: "u64 \<Rightarrow> event \<Rightarrow> bool" where
  "swept_by now (Sweep s) \<longleftrightarrow> s \<le> now"
| "swept_by now _ \<longleftrightarrow> True"

context kv_store
begin

lemma guarded_run:
  assumes "node_run E p st evs st'" and "ne_store E = S" and "asks_for p t" and "guarded t st" and "invar (sh_store (node_shard st))"
    and "list_all (lacks t) evs" and "list_all (swept_by now) evs"
  shows "guarded t st' \<and> invar (sh_store (node_shard st')) \<and>
    shard_object S now (node_shard st') c k = shard_object S now (node_shard st) c k"
  using assms
proof induction
  case (run_more st evs st1 ev st2)
  from run_more.prems run_more.IH have ih: "guarded t st1" "invar (sh_store (node_shard st1))"
    "shard_object S now (node_shard st1) c k = shard_object S now (node_shard st) c k" by simp_all
  have ev: "lacks t ev" "swept_by now ev" using run_more.prems by simp_all
  from guarded_step [OF run_more.hyps(2) run_more.prems(2) ev(1) ih(1)] ih ev(2) run_more.prems(1) show ?case
    by (cases ev) (auto simp: shard_sweep_expired_def on_store_simps invar_sweep shard_object_def get_sweep)
qed simp

end

lemma resp_opened:
  assumes "np_resp p = Some (x, token)"
  shows "node_run E p (node_start sh) [RespOpen stream] ((node_start sh)\<lparr>pr_resp := [resp_accept token stream]\<rparr>)"
    and "node_run E p (node_start sh) [RespOpen stream, RespWork]
      (resp_round E token now 0 ((node_start sh)\<lparr>pr_resp := [resp_accept token stream]\<rparr>))"
proof -
  let ?st = "(node_start sh)\<lparr>pr_resp := [resp_accept token stream]\<rparr>"
  have "node_step E p (node_start sh) (RespOpen stream) ?st"
    using node_step.resp_open [OF assms, of E "node_start sh"] by (simp add: node_start_def)
  then show one: "node_run E p (node_start sh) [RespOpen stream] ?st"
    using node_run.run_more [OF node_run.run_init] by fastforce
  have "node_step E p ?st RespWork (resp_round E token now 0 ?st)"
    by (rule node_step.resp_work [OF assms]) (simp_all add: resp_accept_def)
  from node_run.run_more [OF one this] show "node_run E p (node_start sh) [RespOpen stream, RespWork] (resp_round E token now 0 ?st)"
    by simp
qed

lemma open_resp_set:
  assumes "np_resp p = Some (x, None)" and "ne_store E = memory_index" and "mem_ok (sh_store sh)"
    and "cmd_fits [''SET'', key, val]" and "utf8_valid key" and "utf8_valid val"
  shows "\<exists>st. node_run E p (node_start sh) [RespOpen (enc_command [''SET'', key, val]), RespWork] st \<and>
    shard_object memory_index now (node_shard st) COLL key = Some (wi_string (ne_wire E) val)"
proof -
  let ?st = "(node_start sh)\<lparr>pr_resp := [resp_accept None (enc_command [''SET'', key, val])]\<rparr>"
  note run = resp_opened(2) [OF assms(1), of E sh "enc_command [''SET'', key, val]" 0]
  have "node_shard (resp_round E None 0 0 ?st) = shard_write_object memory_index COLL key (wi_string (ne_wire E) val) sh"
    using read_command_enc [OF assms(4), of "[]"] assms(2,5,6)
    by (simp add: resp_round_def resp_handle_def resp_accept_def resp_command_def data_command_cases resp_set_def
        upper_commands lossy_valid node_shard_def node_start_def bin_init_def Let_def split: prod.split)
  then have "shard_object memory_index now (node_shard (resp_round E None 0 0 ?st)) COLL key = Some (wi_string (ne_wire E) val)"
    by (simp only: view_object view_write(2) [OF assms(3)] if_True refl)
  with run show ?thesis by blast
qed

subsection \<open>The members of a coordinator\<close>

text \<open>A list of shards as it is written after \<^verbatim>\<open>--shards\<close>, and the addresses of a StatefulSet's pods.\<close>

definition shard_list :: "(node_id \<times> string) list \<Rightarrow> string" where
  "shard_list hosts = join_with '','' (map (\<lambda>(n, h). n @ ''='' @ h) hosts)"

definition host_ok :: "node_id \<times> string \<Rightarrow> bool" where
  "host_ok = (\<lambda>(n, h). plain n \<and> plain h \<and> h \<noteq> [] \<and> last h \<noteq> CHR ''/'' \<and>
     CHR '','' \<notin> set n \<and> CHR ''='' \<notin> set n \<and> CHR '','' \<notin> set h)"

definition pod_hosts :: "string \<Rightarrow> string \<Rightarrow> nat \<Rightarrow> nat \<Rightarrow> (node_id \<times> string) list" where
  "pod_hosts name domain port n =
     map (\<lambda>i. (name @ ''-'' @ show_nat i, name @ ''-'' @ show_nat i @ ''.'' @ domain @ '':'' @ show_nat port)) [0..<n]"

definition names_hosts :: "args \<Rightarrow> (node_id \<times> string) list \<Rightarrow> bool" where
  "names_hosts a hosts \<longleftrightarrow> (case ar_shards a of
       Some spec \<Rightarrow> spec = shard_list hosts \<and> list_all host_ok hosts \<and> distinct (map fst hosts)
     | None \<Rightarrow> (\<exists>name domain. ar_shard_name a = Some name \<and> ar_shard_domain a = Some domain \<and>
         hosts = pod_hosts name domain (ar_shard_port a) (ar_shard_count a)))"

definition host_clients :: "string option \<Rightarrow> (node_id \<times> string) list \<Rightarrow> (node_id, http_shard_client) hashmap" where
  "host_clients token hosts = map (\<lambda>(n, h). (n, http_new_authed n (''http://'' @ h) token)) hosts"

lemma hm_insert_fresh: "k \<notin> fst ` set m \<Longrightarrow> hm_insert k v m = m @ [(k, v)]"
  by (induction m) auto

lemma split_join: "list_all (\<lambda>x. CHR '','' \<notin> set x) (x # xs) \<Longrightarrow> split_on (CHR '','') (join_with '','' (x # xs)) = x # xs"
proof -
  have one: "CHR '','' \<notin> set x \<Longrightarrow> split_on (CHR '','') x = [x]"
    "CHR '','' \<notin> set x \<Longrightarrow> split_on (CHR '','') (x @ CHR '','' # t) = x # split_on (CHR '','') t" for x t
    by (induction x) auto
  show "list_all (\<lambda>x. CHR '','' \<notin> set x) (x # xs) \<Longrightarrow> split_on (CHR '','') (join_with '','' (x # xs)) = x # xs"
    by (induction xs arbitrary: x) (simp_all add: one)
qed

lemma shard_list_parts:
  assumes "list_all host_ok hosts"
  shows "list_parts (shard_list hosts) = map (\<lambda>(n, h). n @ ''='' @ h) hosts"
proof (cases hosts)
  case (Cons x xs)
  let ?ps = "map (\<lambda>(n, h). n @ ''='' @ h) hosts"
  have "list_all (\<lambda>x. CHR '','' \<notin> set x) ?ps" and p: "\<forall>x \<in> set ?ps. plain x \<and> x \<noteq> []"
    using assms by (auto simp: list_all_iff host_ok_def)
  then have "split_on (CHR '','') (shard_list hosts) = ?ps"
    unfolding shard_list_def Cons by (simp only: list.map split_join)
  moreover have "map trim_str ?ps = ?ps" by (rule map_idI) (use p trim_plain in blast)
  moreover have "filter (\<lambda>s. s \<noteq> []) ?ps = ?ps" using p by (simp only: filter_id_conv) blast
  ultimately show ?thesis by (simp only: list_parts_def)
qed (simp add: shard_list_def list_parts_def trim_str_def)

lemma split_once_at: "d \<notin> set x \<Longrightarrow> split_once d (x @ d # y) = Some (x, y)"
  by (induction x) auto

lemma add_shards_hosts:
  assumes "list_all host_ok hosts" and "distinct (map fst hosts)" and "fst ` set cl \<inter> fst ` set hosts = {}"
  shows "add_shards token (map (\<lambda>(n, h). n @ ''='' @ h) hosts) cl = Inr (cl @ host_clients token hosts)"
  using assms
proof (induction hosts arbitrary: cl)
  case (Cons x hosts)
  obtain n h where x: "x = (n, h)" by (cases x)
  with Cons.prems(1) have ok: "plain n" "plain h" "CHR ''='' \<notin> set n" by (simp_all add: host_ok_def)
  have fresh: "n \<notin> fst ` set cl" using Cons.prems(3) x by auto
  from Cons.IH [of "cl @ [(n, http_new_authed n (''http://'' @ h) token)]"] Cons.prems x ok fresh show ?case
    by (auto simp: split_once_at trim_plain hm_insert_fresh host_clients_def Let_def)
qed (simp add: host_clients_def)

lemma discover_hosts: "discover_shards token name domain port n = host_clients token (pod_hosts name domain port n)"
proof (induction n)
  case (Suc n)
  have "name @ ''-'' @ show_nat n \<notin> fst ` set (host_clients token (pod_hosts name domain port n))"
    using parse_show_nat by (auto simp: host_clients_def pod_hosts_def) (metis less_irrefl option.inject)
  with Suc show ?case
    by (simp add: discover_shards_def hm_insert_fresh host_clients_def pod_hosts_def Let_def)
qed (simp add: discover_shards_def host_clients_def pod_hosts_def)

lemma pod_hosts_distinct: "distinct (map fst (pod_hosts name domain port n))"
  by (auto simp: pod_hosts_def distinct_map inj_on_def) (metis option.inject parse_show_nat)

lemma pod_hosts_last: "(m, h) \<in> set (pod_hosts name domain port n) \<Longrightarrow> h \<noteq> [] \<and> last h \<noteq> CHR ''/''"
proof -
  assume "(m, h) \<in> set (pod_hosts name domain port n)"
  then obtain u where u: "h = u @ show_nat port" by (auto simp: pod_hosts_def)
  have "is_digit (last (show_nat port))" by (rule all_digits_last) simp_all
  moreover have "\<not> is_digit (CHR ''/'')" by (simp add: is_digit_def)
  ultimately show ?thesis by (auto simp: u)
qed

lemma named_clients:
  assumes "names_hosts a hosts" and "shard_clients a = Inr clients" and "clients \<noteq> []"
  shows "clients = host_clients (ar_auth_token a) hosts" "distinct (map fst hosts)"
    "(n, h) \<in> set hosts \<Longrightarrow> h \<noteq> [] \<and> last h \<noteq> CHR ''/''"
proof -
  have "clients = host_clients (ar_auth_token a) hosts \<and> distinct (map fst hosts) \<and>
    ((n, h) \<in> set hosts \<longrightarrow> h \<noteq> [] \<and> last h \<noteq> CHR ''/'')"
  proof (cases "ar_shards a")
    case (Some spec)
    with assms(1) have ok: "spec = shard_list hosts" "list_all host_ok hosts" "distinct (map fst hosts)"
      by (simp_all add: names_hosts_def)
    have "clients = host_clients (ar_auth_token a) hosts"
      using assms(2) Some ok add_shards_hosts [OF ok(2,3), of "[]"] by (simp add: shard_clients_def shard_list_parts)
    with ok(2,3) show ?thesis by (auto simp: list_all_iff host_ok_def)
  next
    case None
    with assms(1) obtain name domain where pods: "ar_shard_name a = Some name" "ar_shard_domain a = Some domain"
      "hosts = pod_hosts name domain (ar_shard_port a) (ar_shard_count a)" by (auto simp: names_hosts_def)
    have "clients = host_clients (ar_auth_token a) hosts"
      using assms(2,3) None pods by (auto simp: shard_clients_def discover_hosts split: if_splits)
    with pod_hosts_distinct pod_hosts_last show ?thesis unfolding pods(3) by blast
  qed
  then show "clients = host_clients (ar_auth_token a) hosts" "distinct (map fst hosts)"
    "(n, h) \<in> set hosts \<Longrightarrow> h \<noteq> [] \<and> last h \<noteq> CHR ''/''" by blast+
qed

text \<open>The cluster of a coordinator that started.\<close>

lemma coordinating_cluster:
  assumes "run_daemon P a = Inr (Coordinating p)" and "names_hosts a hosts"
  obtains topology where "hosts \<noteq> []" and "distinct (map fst hosts)"
    and "\<And>n h. (n, h) \<in> set hosts \<Longrightarrow> h \<noteq> [] \<and> last h \<noteq> CHR ''/''"
    and "co_cluster (cp_state p) = build_cluster a (host_clients (ar_auth_token a) hosts) topology"
proof -
  from assms(1) obtain clients topology where c: "shard_clients a = Inr clients" "clients \<noteq> []"
    and cl: "co_cluster (cp_state p) = build_cluster a clients topology"
    by (auto simp: run_daemon_def run_coordinator_def coord_start_def start_simps
        split: option.splits sum.splits if_splits)
  note named = named_clients [OF assms(2) c]
  from named(1) c(2) have "hosts \<noteq> []" by (auto simp: host_clients_def)
  from that [OF this named(2,3)] cl named(1) show thesis by simp
qed

text \<open>The first cluster over a list of hosts, with or without racks.\<close>

lemma first_cluster:
  assumes "distinct (map fst hosts)" and "hosts \<noteq> []"
    and "cl = build_cluster a (host_clients token hosts) topology"
  shows "cluster_ok cl" and "cl_clients cl = host_clients token hosts" and "cl_overlay cl = None" and "cl_down cl = {}"
    and "cl_colls cl = [''kv'', ''sets'']" and "member_ids cl = sort (map fst hosts)"
    and "length (owners cl k) = min (max (ar_replication a) 1) (length hosts)"
proof -
  note cl = assms(3) [unfolded build_cluster_def]
  have keys: "hm_keys (host_clients token hosts) = map fst hosts"
    by (simp add: host_clients_def case_prod_unfold comp_def)
  then have "fst ` set (host_clients token hosts) = fst ` set hosts" by (metis set_map)
  note keys = keys this
  show ok: "cluster_ok cl"
    using assms(1,2) by (simp add: cl cluster_ok_def cluster_new_def with_topology_def cluster_set_topology_def
        partitioner_oks CHUNK_def keys Let_def)
  show simps: "cl_clients cl = host_clients token hosts" "cl_overlay cl = None" "cl_down cl = {}"
    "cl_colls cl = [''kv'', ''sets'']" "member_ids cl = sort (map fst hosts)"
    by (simp_all add: cl cluster_new_def with_topology_def cluster_set_topology_def member_ids_def list_nodes_def
        keys Let_def)
  have "length (owners cl k) = min (cl_replication cl) (length (pt_nodes (cl_partitioner cl)))"
    using pick_facts(1) [OF _ refl bucket_of_less, of "cl_partitioner cl" k "cl_replication cl"] ok simps(2)
    by (simp add: cluster_ok_def owners_def replica_set_def preference_list_def)
  also have "\<dots> = min (max (ar_replication a) 1) (length hosts)"
    using assms(2) keys by (cases hosts) (auto simp: cl cluster_new_def with_topology_def cluster_set_topology_def
        clamp_def Let_def host_clients_def)
  finally show "length (owners cl k) = min (max (ar_replication a) 1) (length hosts)" .
qed

lemma host_base: "h \<noteq> [] \<Longrightarrow> last h \<noteq> CHR ''/'' \<Longrightarrow> hs_base (http_new_authed n (x @ h) token) = x @ h"
  by (cases h rule: rev_cases) (simp_all add: http_new_authed_def trim_end_slash_def)

lemma first_cluster_links:
  assumes "distinct (map fst hosts)" and "hosts \<noteq> []" and "cl = build_cluster a (host_clients token hosts) topology"
    and hosts: "\<And>n h. (n, h) \<in> set hosts \<Longrightarrow> h \<noteq> [] \<and> last h \<noteq> CHR ''/''"
    and "doc_laws D" and "delivers (ops_of_shard memory_index J) D M token locate"
    and "\<And>t. token = Some t \<Longrightarrow> dj_header_ok D (''Bearer '' @ t)"
    and inj: "inj_on (\<lambda>(n, h). locate (''http://'' @ h)) (set hosts)" and "inproc_ok mem_ok w"
  shows "http_cluster_ok J D M token locate cl w" and "served cl k"
proof -
  note first = first_cluster [OF assms(1-3)]
  have client: "\<exists>h. (n, h) \<in> set hosts \<and> hc = http_new_authed n (''http://'' @ h) token \<and> hs_base hc = ''http://'' @ h"
    if c: "client_of cl n = Some hc" for n hc
  proof -
    from map_of_SomeD [OF c [unfolded client_of_def first(2)]] obtain h where
      h: "(n, h) \<in> set hosts" "hc = http_new_authed n (''http://'' @ h) token" by (auto simp: host_clients_def)
    moreover have "hs_base hc = ''http://'' @ h" unfolding h(2) using hosts [OF h(1)] by (intro host_base) simp_all
    ultimately show ?thesis by blast
  qed
  have "addr_inj (\<lambda>hc. locate (hs_base hc)) cl"
    unfolding addr_inj_def
  proof (intro allI impI)
    fix n hc n' hc'
    assume c: "client_of cl n = Some hc" "client_of cl n' = Some hc'" and eq: "locate (hs_base hc) = locate (hs_base hc')"
    obtain h h' where "(n, h) \<in> set hosts" "(n', h') \<in> set hosts" "hs_base hc = ''http://'' @ h" "hs_base hc' = ''http://'' @ h'"
      using client [OF c(1)] client [OF c(2)] by blast
    with inj_onD [OF inj, of "(n, h)" "(n', h')"] eq show "n = n'" by simp
  qed
  moreover have "all_linked memory_index J D M token locate cl"
    using assms(5-7) by (auto simp: all_linked_def linked_def authorized_def first(2) host_clients_def list_all_iff
        http_new_authed_def hs_auth_def split: option.split)
  moreover have rt: "routing_ok cl" by (rule routing_ok_stable [OF first(1,3)])
  ultimately show "http_cluster_ok J D M token locate cl w" using assms(9) by (simp add: http_cluster_ok_def)
  have "owners cl k \<noteq> []" using first(7) [of k] assms(2) by (cases hosts) (auto simp: min_def split: if_splits)
  then obtain n ns where own: "owners cl k = n # ns" by (cases "owners cl k") auto
  then have "client_of cl n \<noteq> None" using rt [unfolded routing_ok_def, THEN spec, of k] by simp
  then show "served cl k" by (simp add: served_def own first(4))
qed

subsection \<open>A concrete process\<close>

text \<open>A platform on which every address is well-formed, without files.\<close>

definition text_platform :: "(sorted_db, string, unit, unit, unit) platform" where
  "text_platform =
     \<lparr>pf_env_token = None,
      pf_tls = \<lparr>tl_open = (\<lambda>_. None), tl_certs = (\<lambda>_. None), tl_private_key = (\<lambda>_. None),
        tl_server_config = (\<lambda>_ _. None), tl_root = (\<lambda>_. None)\<rparr>,
      pf_addr = Some, pf_lmdb = (\<lambda>_ _. None), pf_queue = (\<lambda>_ _. None), pf_snapshot = (\<lambda>_. None),
      pf_heed = sorted_heed, pf_heed_env = sorted_env\<rparr>"

definition text_node :: "(string memory_store, string) node_env" where
  "text_node = \<lparr>ne_store = memory_index, ne_json = text_json, ne_doc = text_doc,
     ne_wire = \<lparr>wi_to_vec = (\<lambda>s. s), wi_from_slice = Some, wi_string = (\<lambda>s. CHR ''s'' # s)\<rparr>,
     ne_as_array = (\<lambda>_. None), ne_to_bytes = (\<lambda>_. Some)\<rparr>"

text \<open>The command lines of a shard with a token, of one with a policy, and of a coordinator of two shards.\<close>

definition token_args :: args where
  "token_args = (args_default None)\<lparr>ar_auth_token := Some ''tok'', ar_resp_bind := Some ''0.0.0.0:6379''\<rparr>"

definition policy_args :: args where
  "policy_args = (args_default None)\<lparr>ar_policy := Some ''reader:kv:r'', ar_resp_bind := Some ''0.0.0.0:6379''\<rparr>"

definition coord_args :: args where
  "coord_args = (args_default None)\<lparr>ar_role := ''coordinator'', ar_auth_token := Some ''tok'', ar_shards := Some ''n0=n0,n1=n1''\<rparr>"

lemma text_command_lines:
  "parse_args None [''--auth-token'', ''tok'', ''--resp-bind'', ''0.0.0.0:6379''] = Inr token_args"
  "parse_args None [''--policy'', ''reader:kv:r'', ''--resp-bind'', ''0.0.0.0:6379''] = Inr policy_args"
  "parse_args None [''--role'', ''coordinator'', ''--auth-token'', ''tok'', ''--shards'', ''n0=n0,n1=n1''] = Inr coord_args"
  by (simp_all add: parse_args_def set_flag_def unwrap_or_def token_args_def policy_args_def coord_args_def)

lemma token_args_run: "\<exists>p. run_daemon text_platform token_args = Inr (Serving p) \<and> np_resp p \<noteq> None"
  by (simp add: run_daemon_def run_node_def open_store_def build_server_tls_def opt_addr_def parse_addr_def opt_policy_def
      token_args_def args_default_def text_platform_def start_simps)

lemma policy_args_run: "\<exists>p. run_daemon text_platform policy_args = Inr (Serving p)"
proof -
  have "policy_parse ''reader:kv:r'' = Inr [(''reader'', \<lparr>pr_name = ''reader'', pr_grants =
      [\<lparr>gr_coll = ''kv'', gr_read = True, gr_write = False, gr_delete = False, gr_admin = False\<rparr>]\<rparr>)]"
    by (simp add: policy_parse_def policy_entries_def parse_entry_def add_grant_def hm_or_default_def trim_plain plain_chunks Let_def)
  then show ?thesis
    by (simp add: run_daemon_def run_node_def open_store_def build_server_tls_def opt_addr_def parse_addr_def opt_policy_def
        policy_args_def args_default_def text_platform_def start_simps)
qed

lemma coord_args_hosts: "names_hosts coord_args [(''n0'', ''n0''), (''n1'', ''n1'')]"
  by (simp add: names_hosts_def coord_args_def shard_list_def host_ok_def)

lemma coord_args_run:
  "\<exists>p. run_daemon text_platform coord_args = Inr (Coordinating p) \<and> cp_token p = Some ''tok'' \<and> cp_policy p = None"
proof -
  have "list_parts ''n0=n0,n1=n1'' = [''n0=n0'', ''n1=n1'']" by (simp add: list_parts_def trim_plain)
  then show ?thesis
    by (simp add: run_daemon_def run_coordinator_def shard_clients_def rack_map_def open_queue_def build_server_tls_def
        parse_addr_def opt_policy_def coord_args_def args_default_def text_platform_def start_simps trim_plain)
qed

text \<open>The servers of that coordinator ask for the token that its clients send to the shards.\<close>

definition tok_env :: "(http_shard_client, string memory_store world, string, sorted_db) coord_env" where
  "tok_env = text_env\<lparr>ce_token := Some ''tok''\<rparr>"

abbreviation tok_user :: http_shard_client where
  "tok_user \<equiv> http_new_authed ''user'' ''http://coordinator'' (Some ''tok'')"

lemma tok_linked: "coord_linked tok_env (direct_coord tok_env) tok_user"
proof -
  have "hs_auth text_doc tok_user = Some (''Bearer '' @ ''tok'')"
    by (simp add: hs_auth_def http_new_authed_def) (simp add: text_doc_def)
  then show ?thesis
    by (simp add: coord_linked_def direct_coord_delivers authorized_def text_doc_laws tok_env_def text_env_def)
qed

subsection \<open>Properties\<close>

text \<open>
  C15. A coordinator starts as described. When \<^verbatim>\<open>stplrd\<close> starts as a coordinator from a written list of
  shards, or from the name of a StatefulSet, with or without racks, then its members are exactly these shards, each with the client
  for its address; every key has as many distinct owners as the replication asks for and there are shards, and is
  served; and over shards with empty stores that the clients reach with the configured token, the coordinator is deployed with the empty
  map as its content.
\<close>

theorem coordinator_start:
  assumes "run_daemon P a = Inr (Coordinating p)" and "names_hosts a hosts"
    and "coord_linked E N hc" and "ce_client E = http_client (ce_doc E) M"
    and "ce_token E = cp_token p" and "ce_policy E = cp_policy p"
    and "delivers (ops_of_shard memory_index (ce_json E)) (ce_doc E) M (ar_auth_token a) locate"
    and "\<And>t. ar_auth_token a = Some t \<Longrightarrow> dj_header_ok (ce_doc E) (''Bearer '' @ t)"
    and "inj_on (\<lambda>(n, h). locate (''http://'' @ h)) (set hosts)"
    and "inproc_ok mem_ok w" and "\<And>i c k. inproc_peek memory_index w i c k = None"
  defines "cl \<equiv> co_cluster (cp_state p)"
  shows "member_ids cl = sort (map fst hosts)
    \<and> list_all (\<lambda>(n, h). client_of cl n = Some (http_new_authed n (''http://'' @ h) (ar_auth_token a))) hosts
    \<and> distinct (owners cl k) \<and> length (owners cl k) = min (max (ar_replication a) 1) (length hosts) \<and> served cl k
    \<and> deployed E N hc M (ar_auth_token a) locate (cp_state p) (\<lambda>_ _. None) w"
proof -
  obtain topology where h: "hosts \<noteq> []" "distinct (map fst hosts)"
      "\<And>n h. (n, h) \<in> set hosts \<Longrightarrow> h \<noteq> [] \<and> last h \<noteq> CHR ''/''"
    and cl: "cl = build_cluster a (host_clients (ar_auth_token a) hosts) topology"
    unfolding cl_def using coordinating_cluster [OF assms(1,2)] by blast
  note first = first_cluster [OF h(2,1) cl]
  have laws: "doc_laws (ce_doc E)" using assms(3) by (simp add: coord_linked_def)
  have links: "http_cluster_ok (ce_json E) (ce_doc E) M (ar_auth_token a) locate cl w" "served cl k"
    using first_cluster_links [OF h(2,1) cl _ laws assms(7) _ assms(9,10)] h(3) assms(8) by blast+
  have "distinct (owners cl k)" using links(1) by (simp add: http_cluster_ok_def routing_ok_def)
  moreover have "list_all (\<lambda>(n, h). client_of cl n = Some (http_new_authed n (''http://'' @ h) (ar_auth_token a))) hosts"
    using h(2) by (auto simp: list_all_iff client_of_def first(2) host_clients_def case_prod_unfold comp_def intro!: map_of_is_SomeI)
  moreover have "http_placed locate cl (\<lambda>_ _. None) w" by (simp add: placed_def assms(11))
  then have "deployed E N hc M (ar_auth_token a) locate (cp_state p) (\<lambda>_ _. None) w"
    using assms(3,4) links(1) by (simp add: deployed_def cl_def)
  ultimately show ?thesis using first(6,7) links(2) by blast
qed

theorem coordinator_start_witness:
  "\<exists>p. run_daemon text_platform coord_args = Inr (Coordinating p) \<and>
     deployed tok_env (direct_coord tok_env) tok_user text_net2 (Some ''tok'') text_locate (cp_state p) (\<lambda>_ _. None) text_world"
proof -
  obtain p where p: "run_daemon text_platform coord_args = Inr (Coordinating p)" "cp_token p = Some ''tok''" "cp_policy p = None"
    using coord_args_run by blast
  have tok: "ar_auth_token coord_args = Some ''tok''" by (simp add: coord_args_def)
  have env: "ce_doc tok_env = text_doc" "ce_json tok_env = text_json" "ce_client tok_env = http_client text_doc text_net2"
    "ce_token tok_env = Some ''tok''" "ce_policy tok_env = None"
    by (simp_all add: tok_env_def text_env_def)
  have hdr: "dj_header_ok text_doc (''Bearer '' @ ''tok'')" by (simp add: text_doc_def)
  have net: "delivers (ops_of_shard memory_index text_json) text_doc text_net2 (Some ''tok'') text_locate"
    unfolding text_net2_def by (rule direct_delivers)
  have inj: "inj_on (\<lambda>(n, h). text_locate (''http://'' @ h)) (set [(''n0'', ''n0''), (''n1'', ''n1'')])"
    by (simp add: text_locate_def)
  have w: "inproc_ok mem_ok text_world" "\<And>i c k. inproc_peek memory_index text_world i c k = None"
    using http_two_start(1) by (simp_all add: http_cluster_ok_def inproc_peek_def text_world_def shard_new_def mem_eval)
  have "deployed tok_env (direct_coord tok_env) tok_user text_net2 (ar_auth_token coord_args) text_locate (cp_state p) (\<lambda>_ _. None) text_world"
    using coordinator_start [OF p(1) coord_args_hosts tok_linked, of text_net2 text_locate text_world] env p(2,3) tok hdr net inj w
    by simp
  with p(1) show ?thesis unfolding tok by blast
qed

text \<open>
  C13. The token guards every port. A shard node on the in-memory store that is started with a token and without a policy answers every
  HTTP request without the token, except the health and metrics routes, with 401; and whatever its clients send over
  HTTP, the binary protocol and RESP, in any interleaving and with sweeps in between, as long as none of them
  sends the token every object reads as before.
\<close>

theorem node_token_guards:
  assumes "run_daemon P a = Inr (Serving p)" and "ar_auth_token a = Some t" and "ar_policy a = None"
    and "ne_store E = memory_index" and "mem_ok (sh_store sh)" and "node_run E p (node_start sh) evs st"
    and "list_all (lacks t) evs" and "list_all (swept_by now) evs"
  shows "shard_object memory_index now (node_shard st) coll key = shard_object memory_index now sh coll key
    \<and> (presented_token req \<noteq> Some t \<longrightarrow> \<not> open_path (rq_path req) \<longrightarrow>
        node_http E p up now' req st = (st, Some \<lparr>rs_status = 401, rs_body = []\<rparr>))"
proof -
  have p: "asks_for p t" using serving_plan [OF assms(1)] assms(2,3) by (auto simp: asks_for_def)
  have start: "guarded t (node_start sh)" "node_shard (node_start sh) = sh"
    by (simp_all add: guarded_def node_start_def node_shard_def bin_init_def)
  obtain st' r where http: "node_http E p up now' req st = (st', r)" by fastforce
  show ?thesis
    using mem.guarded_run [OF assms(6,4) p start(1) _ assms(7,8), of coll key, unfolded start(2), OF assms(5)]
      guarded_http(3) [OF _ _ _ http] p http by (auto simp: asks_for_def)
qed

theorem node_token_guards_witness:
  "\<exists>p st. run_daemon text_platform token_args = Inr (Serving p) \<and>
     node_run text_node p (node_start (shard_new ''s'' mem_new)) [RespOpen (''SET k v'' @ CRLF), RespWork] st \<and>
     shard_object memory_index 7 (node_shard st) ''kv'' ''k'' = shard_object memory_index 7 (shard_new ''s'' mem_new) ''kv'' ''k''"
proof -
  obtain p where p: "run_daemon text_platform token_args = Inr (Serving p)" "np_resp p \<noteq> None" using token_args_run by blast
  have a: "ar_auth_token token_args = Some ''tok''" "ar_policy token_args = None" by (simp_all add: token_args_def args_default_def)
  obtain x token where "np_resp p = Some (x, token)" using p(2) by auto
  note run = resp_opened(2) [OF this, of text_node "shard_new ''s'' mem_new" "''SET k v'' @ CRLF" 5]
  have "\<not> sublist ''tok'' (''SET k v'' @ CRLF)" using set_mono_sublist [of "''tok''" "''SET k v'' @ CRLF"] by auto
  then have l: "list_all (lacks ''tok'') [RespOpen (''SET k v'' @ CRLF), RespWork]" by simp
  from node_token_guards [OF p(1) a _ _ run l, of 7 "''kv''" "''k''"] mem_ok_new p(1) run show ?thesis
    by (auto simp: text_node_def shard_new_def)
qed

text \<open>
  C24. A policy does not reach the RESP port. A shard node that is started with a policy, without a token and with a RESP
  port, whatever the policy grants, lets a client that sends no credentials at all write any key on that port.
\<close>

theorem node_policy_bypassed:
  assumes "run_daemon P a = Inr (Serving p)" and "ar_policy a = Some spec" and "ar_auth_token a = None"
    and "ar_resp_bind a \<noteq> None" and "ne_store E = memory_index" and "mem_ok (sh_store sh)"
    and "cmd_fits [''SET'', key, val]" and "utf8_valid key" and "utf8_valid val"
  shows "np_policy p \<noteq> None \<and>
    (\<exists>st. node_run E p (node_start sh) [RespOpen (enc_command [''SET'', key, val]), RespWork] st \<and>
       shard_object memory_index now (node_shard st) COLL key = Some (wi_string (ne_wire E) val))"
proof -
  obtain x token where "np_resp p = Some (x, token)" using serving_plan(5) [OF assms(1)] assms(4) by (cases "np_resp p") auto
  with serving_plan(4) [OF assms(1) this] assms(3) have "np_resp p = Some (x, None)" by simp
  from open_resp_set [OF this assms(5-9)] serving_plan(2) [OF assms(1)] assms(2) show ?thesis by simp
qed

theorem node_policy_bypassed_witness:
  "\<exists>p st. run_daemon text_platform policy_args = Inr (Serving p) \<and>
     node_run text_node p (node_start (shard_new ''s'' mem_new)) [RespOpen (enc_command [''SET'', ''k'', ''v'']), RespWork] st \<and>
     shard_object memory_index 7 (node_shard st) COLL ''k'' = Some ''sv''"
proof -
  obtain p where p: "run_daemon text_platform policy_args = Inr (Serving p)" using policy_args_run by blast
  have a: "ar_policy policy_args = Some ''reader:kv:r''" "ar_auth_token policy_args = None" "ar_resp_bind policy_args \<noteq> None"
    by (simp_all add: policy_args_def args_default_def)
  have "cmd_fits [''SET'', ''k'', ''v'']" "utf8_valid ''k''" "utf8_valid ''v''"
    by (simp_all add: cmd_fits_def utf8_valid_ascii ISIZE_MAX_def)
  from node_policy_bypassed [OF p a _ _ this, of text_node "shard_new ''s'' mem_new" 7] mem_ok_new p show ?thesis
    by (simp add: text_node_def shard_new_def)
qed

end
