(* ===== verification/Spec2Isabelle.thy ===== *)
theory Spec2Isabelle
  imports Reshard Lease Guard Online Ingest Changefeed Smart Access Lmdb Resp Coord Config Tls Daemon
begin

text \<open>
  A verification development for stplr, a self-managing, horizontally scaling key/value and set
  store written in Rust (\<^verbatim>\<open>src/src\<close>).

  \<^bold>\<open>The program.\<close> A \<^emph>\<open>shard\<close> is a node that keeps objects and sets, by collection and key, in a store (in
  memory or on LMDB) and serves them over HTTP, a binary protocol and RESP. A \<^emph>\<open>coordinator\<close> places every key on R of the shards by
  rendezvous hashing of 4096 buckets, routes the clients' operations to the owners and replicates writes; on a change of the
  membership it moves buckets online, bucket chunk by bucket chunk, behind a gate and with a journal to resume
  from. Several coordinators elect a leader with a lease that a shard arbitrates. A durable queue in front of the cluster
  takes writes at once; a change feed records events for consumer groups; the smart client routes without a
  coordinator. The program \<^verbatim>\<open>stplrd\<close> starts either role from its command line.

  \<^bold>\<open>Theories and sources.\<close> Each theory opens with what it holds; definitions have the names of the code, with a prefix per
  component where names clash.

  \<^item> \<open>Stplr_Prelude\<close>, \<open>Decimal\<close>, \<open>Utf8\<close>: strings, integers and hash maps of the standard library, and generic lemmas.
    \<open>Json\<close> and \<open>Heed\<close>: the interfaces of \<^verbatim>\<open>serde_json\<close> and of LMDB, as parameters with laws.
  \<^item> \<open>Partitioner\<close> (\<^verbatim>\<open>partitioner.rs\<close>), \<open>Reshard\<close> (\<^verbatim>\<open>reshard.rs\<close>), \<open>Lease\<close> (\<^verbatim>\<open>lease.rs\<close>), \<open>Guard\<close> (\<^verbatim>\<open>guard.rs\<close>), \<open>Journal\<close>
    (\<^verbatim>\<open>journal.rs\<close>), \<open>Metrics\<close> (\<^verbatim>\<open>metrics.rs\<close>): the building blocks.
  \<^item> \<open>Store\<close> (\<^verbatim>\<open>store.rs\<close>), \<open>Lmdb\<close> (\<^verbatim>\<open>lmdb.rs\<close>), \<open>Shard\<close> (\<^verbatim>\<open>shard.rs\<close>): a node's storage and the operations on it. The
    trait \<^verbatim>\<open>IndexStore\<close> is the record \<open>index_store\<close>, its contract the locale \<open>kv_store\<close>, which the in-memory store fulfils.
  \<^item> \<open>Client\<close> (\<^verbatim>\<open>client.rs\<close>): the trait \<^verbatim>\<open>ShardClient\<close> as a record, its contract as the locales \<open>reliable_client\<close> and
    \<open>scanning_client\<close>, and the in-process client.
  \<^item> \<open>Cluster\<close>, \<open>Migration\<close>, \<open>Online\<close> (\<^verbatim>\<open>cluster.rs\<close>): the front door, the migration engine and its correctness.
  \<^item> \<open>Ingest\<close> (\<^verbatim>\<open>ingest.rs\<close>), \<open>Changefeed\<close> (\<^verbatim>\<open>changefeed.rs\<close>), \<open>Smart\<close> (\<^verbatim>\<open>smart.rs\<close>).
  \<^item> \<open>Proto\<close> (\<^verbatim>\<open>proto.rs\<close>), \<open>Resp\<close> (\<^verbatim>\<open>resp.rs\<close>), \<open>Access\<close> (\<^verbatim>\<open>rbac.rs\<close> and the middleware of \<^verbatim>\<open>net.rs\<close>), \<open>Net\<close> (\<^verbatim>\<open>net.rs\<close>):
    the protocols of a shard and the remote client.
  \<^item> \<open>Coord\<close> (\<^verbatim>\<open>coord.rs\<close>): the coordinator's server and the election. \<open>Config\<close> (\<^verbatim>\<open>config.rs\<close>), \<open>Tls\<close> (\<^verbatim>\<open>tls.rs\<close>) and
    \<open>Daemon\<close> (\<^verbatim>\<open>bin/stplrd.rs\<close>): configuration and the program.

  \<^bold>\<open>State and effects.\<close> A struct is a record, an enum a datatype, \<^verbatim>\<open>u64\<close> and \<^verbatim>\<open>i64\<close> are words of 64 bits that wrap around as in a release
  build, \<^verbatim>\<open>usize\<close> is a natural number. State is passed explicitly; the shards behind clients are a world that every
  call returns. An error is a value of a sum type, \<^verbatim>\<open>None\<close> of an operation that cannot fail otherwise is a panic. The clock is an
  argument. A lock that the code holds over an operation makes it one step; tasks that run
  concurrently are transition relations: \<open>gate_step\<close> (the gate), \<open>mig_step\<close> (a migration among data operations),
  \<open>bin_step\<close> (connections and the group-commit writer), \<open>election\<close>, \<open>coord_step\<close> (a coordinator) and \<open>node_step\<close> (a shard node).

  \<^bold>\<open>What is shown.\<close>

  \<^item> Placement: the ranking after any history of membership and topology changes, rack spread, minimal movement with racks and
    without, exactness of the reshard plan (C35, C37, C38, C40).
  \<^item> Storage: both stores implement a map with expiries and agree with each other; scans end and are right; TTL arithmetic
    (C16, C34, C36, C39).
  \<^item> Cluster: the replicated operations refine one map, reads, batched reads and scans included; the partition plan tiles the
    buckets (C7, C9 to C11, C21). Membership change keeps the content under every interleaving with data operations, after a
    crash at any step, and when run to completion (C1 to C3).
  \<^item> Coordination: the gate excludes and loses no wake-up (C26, C32); leases exclude and fence (C27, C28); at most one
    recent leader; membership changes only by a complete rebalance of the leader (C14, C20).
  \<^item> Logs: at-least-once delivery and drain of the ingest queue into the cluster (C4, C5); both change logs agree, consumer
    groups miss nothing, reopening (C29 to C31).
  \<^item> Protocols: the binary server is linearizable, ends, and frames round-trip (C8, C17, C18); RESP pipelines, its gate and its
    commands (C19, C23, C25); the HTTP client acts as the in-process one (C12); the decisions of the policy layer (C22); the
    smart client acts as the coordinator (C33).
  \<^item> The whole: an HTTP client of a coordinator over HTTP shards reads and updates one map (C6); \<^verbatim>\<open>stplrd\<close> starts the coordinator
    that its command line describes, in the state from which C6 goes on (C15); its token guards all ports of a shard (C13), its policy does not (C24).

  \<^bold>\<open>Parameters.\<close> Code outside the repository is an argument with named laws: \<open>json_laws\<close>, \<open>doc_laws\<close>, \<open>serde_laws\<close>, \<open>heed_laws\<close>,
  \<open>env_laws\<close>, \<open>value_laws\<close>, the networks \<open>delivers\<close> and \<open>coord_delivers\<close>, and the \<open>platform\<close> of \<open>Daemon\<close>. Each has an instance, over
  which the witnesses evaluate.

  \<^bold>\<open>Simplifications.\<close> What the theorems take for granted beyond these laws:

  \<^item> A stored value is one that reads back as it was written (\<open>serde_laws\<close>, \<open>value_laws\<close>, \<open>doc_laws\<close>): \<^verbatim>\<open>serde_json\<close> refuses values nested
    more than 128 deep and may change the last digit of a floating-point number.
  \<^item> A data operation of the cluster is one step, over all replicas. In the code two concurrent writes of one key may reach the
    replicas in different orders and leave them different (C7, C9). A request to a coordinator is one step likewise (C20), and a round of the
    election is atomic at one arbiter (C14).
  \<^item> C1 to C3 start from a cluster that is \<open>ready_to_change\<close>: no change underway, at least one member and a client for every new one, no two members
    whose ids collide under FNV-1a, and no copy taken from a member that is marked down. The clock stands still meanwhile. C2 needs a journal that outlives the coordinator, which the sources provide no
    implementation of.
  \<^item> \<^verbatim>\<open>force_sync\<close> of LMDB succeeds, and a network that delivers (\<open>delivers\<close>) does so for URLs of any length.
  \<^item> A \<^verbatim>\<open>HashMap\<close> is iterated over in insertion order.

  \<^bold>\<open>Loops and bounds.\<close> No definition of the model has fuel. Loops are structural recursions or have a termination proof;
  \<^verbatim>\<open>scan_buckets\<close>, whose loop could run on, is a \<^theory_text>\<open>partial_function\<close> shown to return (C36). Endless loops (the drainer, the
  elector, the sweeper, connections) are repeated steps; where they must get somewhere, enough steps are shown to do it (C5, C17). The constants of
  the code stand as they are: 4096 buckets, chunks of 256, pages of 10000 and 100000 keys, the body limit of 2 MB, batches of the writer.

  \<^bold>\<open>Not modelled.\<close> Binding and accepting sockets, the TLS handshake, and errors while writing to a socket, which are calls of
  libraries; the TOML file of \<^verbatim>\<open>config.rs\<close> (\<^verbatim>\<open>load\<close>, \<^verbatim>\<open>save\<close>), for the same reason; timers, which are the choice of when a step is
  taken; messages on standard error and the help text; the cache of database handles of \<^verbatim>\<open>lmdb.rs\<close>, which memoises a lookup; poisoned
  locks after a panic; \<^verbatim>\<open>lib.rs\<close>, which only declares modules. Tests are no part of the program. The clients in other languages under
  \<^verbatim>\<open>clients\<close> and the deployment files are separate programs.
\<close>

end
